(* ===== verification/Prelude.thy ===== *)
theory Prelude
  imports Main "HOL-Library.Word" "HOL-Library.List_Lexorder" "HOL-Library.Char_ord"
    "HOL-Library.Code_Target_Nat"
begin

unbundle bit_operations_syntax

text \<open>
  Shared vocabulary of the development: the result type of fallible code
  (\<^verbatim>\<open>src/src/error.rs\<close>), the combinators that propagate an error the way the
  \<open>?\<close> operator and \<open>collect::<Result<_>>()\<close> do, three-way comparison, the sorted
  association lists that stand for \<open>BTreeMap\<close>, big-endian byte strings and the
  separation relation on byte strings the ordered index codec rests on.

  An error keeps its stable code; the human-readable message, and the \<open>path\<close>
  arguments that only feed messages, are left out of the model.
\<close>

section \<open>Collections of rewrite rules\<close>

named_theorems result_simps \<open>inversion of the result combinators\<close>
named_theorems scalar_simps \<open>constants and small scalar helpers unfolded together\<close>

section \<open>Machine integers\<close>

type_synonym u8 = "8 word"
type_synonym u16 = "16 word"
type_synonym u32 = "32 word"
type_synonym u64 = "64 word"
type_synonym u128 = "128 word"

text \<open>
  Signed machine integers are read as \<open>int\<close>; the bounds of the Rust type are written
  out where a checked operation or an \<open>as\<close> cast needs them.
\<close>

definition in_i32 :: "int \<Rightarrow> bool" where
  "in_i32 x \<longleftrightarrow> - (2 ^ 31) \<le> x \<and> x < 2 ^ 31"

definition in_i64 :: "int \<Rightarrow> bool" where
  "in_i64 x \<longleftrightarrow> - (2 ^ 63) \<le> x \<and> x < 2 ^ 63"

definition in_i128 :: "int \<Rightarrow> bool" where
  "in_i128 x \<longleftrightarrow> - (2 ^ 127) \<le> x \<and> x < 2 ^ 127"

text \<open>Rust's \<open>checked_add(1)\<close> and \<open>checked_add\<close> on \<open>u64\<close>.\<close>

definition checked_add_u64 :: "u64 \<Rightarrow> u64 \<Rightarrow> u64 option" where
  "checked_add_u64 a b = (if unat a + unat b < 2 ^ 64 then Some (a + b) else None)"

lemma checked_add_u64_Some:
  "checked_add_u64 a b = Some c \<longleftrightarrow> unat a + unat b < 2 ^ 64 \<and> unat c = unat a + unat b"
  by (auto simp: checked_add_u64_def unat_word_ariths word_unat_eq_iff)

section \<open>Results\<close>

text \<open>The stable error codes; \<open>PANIC\<close> stands for a Rust panic.\<close>

datatype error =
    E_TYPE | E_FIELD | E_SCHEMA | E_LIMIT | E_MAP_LIMIT | E_CODEC | E_STORAGE
  | E_STORAGE_UPGRADE_REQUIRED | E_INDEX_SHAPE | E_INDEX_KEY_LIMIT
  | E_DECIMAL_TYPE | E_DECIMAL_RANGE | E_DECIMAL_ROUNDING | E_ARITH | E_SCALAR_LITERAL
  | E_MATCH | E_IDEMPOTENCY_KEY | E_IDEMPOTENCY_DIGEST | E_IDEMPOTENCY_LIMIT
  | E_IDEMPOTENCY_CAPACITY | E_CONFIG | E_GENERATION | E_IDEMPOTENCY_CONFLICT | E_IDEMPOTENCY_PRUNE
  | E_CURSOR_CODEC | E_CURSOR_LIMIT | E_CURSOR_QUERY | E_CURSOR_SCHEMA | E_CURSOR_STALE | E_CURSOR_DATABASE
  | E_CURSOR_INTEGRITY | E_PAGE_SHAPE | E_PAGE_ORDER | E_QUERY | E_CONSTRAINT | E_INDEX | E_INDEX_PREDICATE
  | E_INDEX_PREDICATE_CONTRADICTION | E_TABLE | E_CAST_RANGE | E_CAST_PRECISION | E_RELATION_KEY
  | E_DUPLICATE_KEY | E_TIME | E_SYNTAX | E_INTERNAL | E_PROTOCOL | E_TEMPORAL_UNIT | E_TEMPORAL_OFFSET
  | E_MIGRATION | E_STREAM_LIMIT | E_STREAM_SHAPE | E_PARAM_MISSING | E_TEXT_RANGE | E_RELATION_LIMIT | E_READ_SNAPSHOT
  | E_INDEX_DUPLICATE | E_EXPECTATION_CONTEXT | E_CAST_MODE
  | PANIC

datatype 'a result = Ok 'a | Err error

fun is_ok :: "'a result \<Rightarrow> bool" where
  "is_ok (Ok _) = True"
| "is_ok (Err _) = False"

text \<open>The \<open>?\<close> operator: continue with the value, or return the error.\<close>

fun and_then :: "'a result \<Rightarrow> ('a \<Rightarrow> 'b result) \<Rightarrow> 'b result" where
  "and_then (Ok x) f = f x"
| "and_then (Err e) f = Err e"

text \<open>\<open>map_err\<close> with a constant replacement, and \<open>ok_or_else\<close>.\<close>

fun map_err :: "(error \<Rightarrow> error) \<Rightarrow> 'a result \<Rightarrow> 'a result" where
  "map_err g (Ok x) = Ok x"
| "map_err g (Err e) = Err (g e)"

fun ok_or :: "error \<Rightarrow> 'a option \<Rightarrow> 'a result" where
  "ok_or e None = Err e"
| "ok_or e (Some x) = Ok x"

fun map_ok :: "('a \<Rightarrow> 'b) \<Rightarrow> 'a result \<Rightarrow> 'b result" where
  "map_ok f (Ok x) = Ok (f x)"
| "map_ok f (Err e) = Err e"

text \<open>A guard with an early return.\<close>

definition check :: "bool \<Rightarrow> error \<Rightarrow> unit result" where
  "check b e = (if b then Ok () else Err e)"

text \<open>\<open>iter().map(f).collect::<Result<Vec<_>>>()\<close>: stops at the first error.\<close>

fun traverse :: "('a \<Rightarrow> 'b result) \<Rightarrow> 'a list \<Rightarrow> 'b list result" where
  "traverse f [] = Ok []"
| "traverse f (x # xs) = and_then (f x) (\<lambda>y. and_then (traverse f xs) (\<lambda>ys. Ok (y # ys)))"

text \<open>\<open>try_fold\<close>, and a \<open>for\<close> loop whose body may return early.\<close>

fun try_fold :: "('s \<Rightarrow> 'a \<Rightarrow> 's result) \<Rightarrow> 's \<Rightarrow> 'a list \<Rightarrow> 's result" where
  "try_fold f s [] = Ok s"
| "try_fold f s (x # xs) = and_then (f s x) (\<lambda>s'. try_fold f s' xs)"

lemma and_then_cong [fundef_cong]:
  "r = r' \<Longrightarrow> (\<And>x. r' = Ok x \<Longrightarrow> f x = g x) \<Longrightarrow> and_then r f = and_then r' g"
  by (cases r') auto

lemma map_ok_cong [fundef_cong]:
  "r = r' \<Longrightarrow> (\<And>x. r' = Ok x \<Longrightarrow> f x = g x) \<Longrightarrow> map_ok f r = map_ok g r'"
  by (cases r') auto

lemma traverse_cong [fundef_cong]:
  "xs = ys \<Longrightarrow> (\<And>x. x \<in> set ys \<Longrightarrow> f x = g x) \<Longrightarrow> traverse f xs = traverse g ys"
proof (induction ys arbitrary: xs)
  case (Cons y ys)
  then have "f y = g y" and "traverse f ys = traverse g ys" by auto
  with Cons.prems(1) show ?case by simp
qed simp

lemma try_fold_cong [fundef_cong]:
  "s = s' \<Longrightarrow> xs = ys \<Longrightarrow> (\<And>s x. x \<in> set ys \<Longrightarrow> f s x = g s x) \<Longrightarrow>
   try_fold f s xs = try_fold g s' ys"
proof (induction ys arbitrary: xs s s')
  case (Cons y ys)
  have "try_fold f t ys = try_fold g t ys" for t
    using Cons.prems(3) by (intro Cons.IH) auto
  with Cons.prems show ?case by simp
qed simp

lemma and_then_Ok_iff [result_simps]:
  "and_then r f = Ok y \<longleftrightarrow> (\<exists>x. r = Ok x \<and> f x = Ok y)"
  by (cases r) auto

lemma and_then_Err_iff [result_simps]:
  "and_then r f = Err e \<longleftrightarrow> r = Err e \<or> (\<exists>x. r = Ok x \<and> f x = Err e)"
  by (cases r) auto

lemma map_ok_Ok_iff [result_simps]: "map_ok f r = Ok y \<longleftrightarrow> (\<exists>x. r = Ok x \<and> y = f x)"
  by (cases r) auto

lemma map_err_Ok_iff [result_simps]: "map_err g r = Ok y \<longleftrightarrow> r = Ok y"
  by (cases r) auto

lemma ok_or_Ok_iff [result_simps]: "ok_or e r = Ok y \<longleftrightarrow> r = Some y"
  by (cases r) auto

lemma check_Ok_iff [result_simps]: "check b e = Ok u \<longleftrightarrow> b"
  by (cases u) (auto simp: check_def)

lemma check_simps [simp]: "check True e = Ok ()" "check False e = Err e"
  by (auto simp: check_def)

lemma if_Err_eq_Ok [result_simps]: "(if b then Err e else r) = Ok x \<longleftrightarrow> \<not> b \<and> r = Ok x"
  by auto

lemma is_ok_iff: "is_ok r \<longleftrightarrow> (\<exists>x. r = Ok x)"
  by (cases r) auto

lemma traverse_Ok_iff: "traverse f xs = Ok ys \<longleftrightarrow> list_all2 (\<lambda>x y. f x = Ok y) xs ys"
proof (induction xs arbitrary: ys)
  case (Cons x xs)
  then show ?case by (cases ys) (auto simp: result_simps)
qed auto

lemma traverse_length: "traverse f xs = Ok ys \<Longrightarrow> length ys = length xs"
  by (auto simp: traverse_Ok_iff dest: list_all2_lengthD)

lemma traverse_OkI: "(\<And>x. x \<in> set xs \<Longrightarrow> f x = Ok (g x)) \<Longrightarrow> traverse f xs = Ok (map g xs)"
  by (induction xs) auto

lemma try_fold_append:
  "try_fold f s (xs @ ys) = and_then (try_fold f s xs) (\<lambda>s'. try_fold f s' ys)"
proof (induction xs arbitrary: s)
  case (Cons x xs)
  then show ?case by (cases "f s x") auto
qed simp

text \<open>An invariant of a fallible loop: kept by every step that does not return early.\<close>

lemma try_fold_invariant:
  assumes "try_fold f s xs = Ok s'" and "I s"
    and "\<And>s x s'. x \<in> set xs \<Longrightarrow> I s \<Longrightarrow> f s x = Ok s' \<Longrightarrow> I s'"
  shows "I s'"
  using assms
proof (induction xs arbitrary: s)
  case (Cons x xs)
  from Cons.prems(1) obtain s1 where s1: "f s x = Ok s1" "try_fold f s1 xs = Ok s'"
    by (auto simp: result_simps)
  show ?case
  proof (rule Cons.IH [OF s1(2)])
    show "I s1" using Cons.prems(2,3) s1(1) by auto
    show "\<And>s x s'. x \<in> set xs \<Longrightarrow> I s \<Longrightarrow> f s x = Ok s' \<Longrightarrow> I s'"
      using Cons.prems(3) by auto
  qed
qed simp

section \<open>Three-way comparison\<close>

datatype ordering = Less | Equal | Greater

definition cmp :: "'a::linorder \<Rightarrow> 'a \<Rightarrow> ordering" where
  "cmp x y = (if x < y then Less else if x = y then Equal else Greater)"

fun reverse_ordering :: "ordering \<Rightarrow> ordering" where
  "reverse_ordering Less = Greater"
| "reverse_ordering Equal = Equal"
| "reverse_ordering Greater = Less"

text \<open>\<open>Ordering::then_with\<close>: the second comparison decides only a tie.\<close>

fun then_ordering :: "ordering \<Rightarrow> ordering \<Rightarrow> ordering" where
  "then_ordering Equal o2 = o2"
| "then_ordering o1 _ = o1"

lemma cmp_iff [simp]:
  "cmp x y = Less \<longleftrightarrow> x < y" "cmp x y = Equal \<longleftrightarrow> x = y" "cmp x y = Greater \<longleftrightarrow> y < x"
  by (auto simp: cmp_def)

lemma cmp_refl [simp]: "cmp x x = Equal"
  by simp

lemma cmp_swap: "cmp y x = reverse_ordering (cmp x y)"
  by (auto simp: cmp_def)

lemma reverse_ordering_twice [simp]: "reverse_ordering (reverse_ordering r) = r"
  by (cases r) auto

lemma reverse_ordering_iff [simp]:
  "reverse_ordering r = Less \<longleftrightarrow> r = Greater"
  "reverse_ordering r = Equal \<longleftrightarrow> r = Equal"
  "reverse_ordering r = Greater \<longleftrightarrow> r = Less"
  by (cases r; simp)+

section \<open>Nesting depth\<close>

text \<open>
  Every recursion over types and values carries a depth that starts at 0, grows by one
  at each level and is refused at \<open>MAX_DEPTH\<close> (\<^verbatim>\<open>src/src/model.rs\<close>, \<open>check_depth\<close>).
  Facts about such a recursion are proved from the limit downwards.
\<close>

definition MAX_DEPTH :: nat where
  "MAX_DEPTH = 64"

lemma depth_induct [case_names limit step]:
  assumes "\<And>d. MAX_DEPTH \<le> d \<Longrightarrow> P d"
    and "\<And>d. d < MAX_DEPTH \<Longrightarrow> P (Suc d) \<Longrightarrow> P d"
  shows "P d"
proof (cases "d \<le> MAX_DEPTH")
  case True
  then show ?thesis
  proof (induction rule: inc_induct)
    case base
    then show ?case using assms(1) by simp
  next
    case (step n)
    then show ?case using assms(2) by simp
  qed
next
  case False
  then show ?thesis using assms(1) by simp
qed

end
