(* ===== verification/Byte_Strings.thy ===== *)
theory Byte_Strings
  imports Prelude
begin

text \<open>
  Byte strings: big-endian integers (\<open>to_be_bytes\<close>/\<open>from_be_bytes\<close> of the Rust standard
  library, used by \<^verbatim>\<open>src/src/codec.rs\<close> and \<^verbatim>\<open>src/src/ordered_key.rs\<close>), UTF-8 validity
  (\<open>std::str::from_utf8\<close>), and the relation \<open>diverges\<close>: two byte strings differ at a first
  position, the left one being smaller there.  Lexicographic comparison of concatenated
  keys is decided by the first diverging part, which is what the ordered index keys need.
\<close>

section \<open>Text\<close>

text \<open>
  A Rust \<open>String\<close> is a sequence of bytes that is valid UTF-8; it is modelled by \<open>string\<close>,
  one \<open>char\<close> per byte, so that \<open>len()\<close> is \<open>length\<close> and \<open>cmp\<close> is the library's
  lexicographic order.
\<close>

definition byte_of :: "char \<Rightarrow> u8" where
  "byte_of c = of_nat (of_char c)"

definition char_of_byte :: "u8 \<Rightarrow> char" where
  "char_of_byte b = char_of (unat b)"

definition as_bytes :: "string \<Rightarrow> u8 list" where
  "as_bytes s = map byte_of s"

definition of_bytes :: "u8 list \<Rightarrow> string" where
  "of_bytes bs = map char_of_byte bs"

lemma unat_u8_less: "unat (b :: u8) < 256"
  using unsigned_less [of b, where 'a = nat] by simp

lemma unat_byte_of: "unat (byte_of c) = of_char c"
proof -
  have "of_char c < (256::nat)" by simp
  then show ?thesis by (simp add: byte_of_def unat_of_nat)
qed

lemma char_of_byte_of [simp]: "char_of_byte (byte_of c) = c"
  by (simp add: char_of_byte_def unat_byte_of)

lemma byte_of_char_of_byte [simp]: "byte_of (char_of_byte b) = b"
proof -
  have "unat b < 256" by (rule unat_u8_less)
  then show ?thesis by (simp add: byte_of_def char_of_byte_def)
qed

lemma of_bytes_as_bytes [simp]: "of_bytes (as_bytes s) = s"
  by (simp add: of_bytes_def as_bytes_def comp_def)

lemma as_bytes_of_bytes [simp]: "as_bytes (of_bytes bs) = bs"
  by (simp add: of_bytes_def as_bytes_def comp_def)

lemma length_as_bytes [simp]: "length (as_bytes s) = length s"
  by (simp add: as_bytes_def)

lemma length_of_bytes [simp]: "length (of_bytes s) = length s"
  by (simp add: of_bytes_def)

lemma byte_of_less_iff [simp]: "byte_of a < byte_of b \<longleftrightarrow> a < b"
  by (simp add: word_less_nat_alt unat_byte_of less_char_def)

lemma byte_of_eq_iff [simp]: "byte_of a = byte_of b \<longleftrightarrow> a = b"
  by (metis char_of_byte_of)

lemma as_bytes_eq_iff [simp]: "as_bytes s = as_bytes t \<longleftrightarrow> s = t"
  by (metis of_bytes_as_bytes)

lemma as_bytes_less_iff [simp]: "as_bytes s < as_bytes t \<longleftrightarrow> s < t"
proof (induction s arbitrary: t)
  case (Cons a s)
  then show ?case by (cases t) (auto simp: as_bytes_def)
next
  case Nil
  show ?case by (cases t) (auto simp: as_bytes_def)
qed

lemma cmp_as_bytes [simp]: "cmp (as_bytes s) (as_bytes t) = cmp s t"
  by (simp add: cmp_def)

text \<open>
  Well-formed UTF-8, by the byte ranges of the Unicode standard (the same table the
  standard library checks): no overlong forms, no surrogates, nothing above U+10FFFF.
\<close>

definition cont :: "u8 \<Rightarrow> bool" where
  "cont b \<longleftrightarrow> 0x80 \<le> b \<and> b \<le> 0xBF"

fun utf8_valid :: "u8 list \<Rightarrow> bool" where
  "utf8_valid [] = True"
| "utf8_valid (a # bs) =
     (if a < 0x80 then utf8_valid bs
      else if 0xC2 \<le> a \<and> a \<le> 0xDF then
        (case bs of b # r \<Rightarrow> cont b \<and> utf8_valid r | _ \<Rightarrow> False)
      else if 0xE0 \<le> a \<and> a \<le> 0xEF then
        (case bs of b # c # r \<Rightarrow>
           (if a = 0xE0 then 0xA0 \<le> b \<and> b \<le> 0xBF
            else if a = 0xED then 0x80 \<le> b \<and> b \<le> 0x9F else cont b)
           \<and> cont c \<and> utf8_valid r | _ \<Rightarrow> False)
      else if 0xF0 \<le> a \<and> a \<le> 0xF4 then
        (case bs of b # c # d # r \<Rightarrow>
           (if a = 0xF0 then 0x90 \<le> b \<and> b \<le> 0xBF
            else if a = 0xF4 then 0x80 \<le> b \<and> b \<le> 0x8F else cont b)
           \<and> cont c \<and> cont d \<and> utf8_valid r | _ \<Rightarrow> False)
      else False)"

definition from_utf8 :: "u8 list \<Rightarrow> string option" where
  "from_utf8 bs = (if utf8_valid bs then Some (of_bytes bs) else None)"

text \<open>The type invariant of \<open>String\<close>.\<close>

definition string_ok :: "string \<Rightarrow> bool" where
  "string_ok s \<longleftrightarrow> utf8_valid (as_bytes s)"

lemma from_utf8_as_bytes: "string_ok s \<Longrightarrow> from_utf8 (as_bytes s) = Some s"
  by (simp add: from_utf8_def string_ok_def)

lemma from_utf8_Some: "from_utf8 bs = Some s \<longleftrightarrow> utf8_valid bs \<and> bs = as_bytes s"
  by (auto simp: from_utf8_def)

lemma from_utf8_ok: "from_utf8 bs = Some s \<Longrightarrow> string_ok s"
  by (auto simp: from_utf8_Some string_ok_def)

section \<open>Big-endian integers\<close>

fun be_bytes :: "nat \<Rightarrow> nat \<Rightarrow> u8 list" where
  "be_bytes 0 x = []"
| "be_bytes (Suc n) x = be_bytes n (x div 256) @ [of_nat x]"

definition of_be_bytes :: "u8 list \<Rightarrow> nat" where
  "of_be_bytes bs = foldl (\<lambda>acc b. acc * 256 + unat b) 0 bs"

lemma length_be_bytes [simp]: "length (be_bytes n x) = n"
  by (induction n arbitrary: x) auto

lemma of_be_bytes_Nil [simp]: "of_be_bytes [] = 0"
  by (simp add: of_be_bytes_def)

lemma of_be_bytes_snoc [simp]: "of_be_bytes (bs @ [b]) = of_be_bytes bs * 256 + unat b"
  by (simp add: of_be_bytes_def)

lemma unat_of_nat_u8 [simp]: "unat (of_nat x :: u8) = x mod 256"
  by (simp add: unat_of_nat)

lemma of_be_be_bytes: "of_be_bytes (be_bytes n x) = x mod 256 ^ n"
proof (induction n arbitrary: x)
  case (Suc n)
  have "x mod 256 ^ Suc n = (x div 256 mod 256 ^ n) * 256 + x mod 256"
    using mod_mult2_eq [of x 256 "256 ^ n"] by (simp add: mult.commute)
  with Suc show ?case by simp
qed simp

lemma of_be_bytes_less: "of_be_bytes bs < 256 ^ length bs"
proof (induction bs rule: rev_induct)
  case (snoc b bs)
  have "unat b < 256" by (rule unat_u8_less)
  moreover have "of_be_bytes bs + 1 \<le> 256 ^ length bs" using snoc by simp
  then have "(of_be_bytes bs + 1) * 256 \<le> 256 ^ length bs * 256" by simp
  ultimately show ?case by (simp add: algebra_simps)
qed simp

lemma be_bytes_of_be: "length bs = n \<Longrightarrow> be_bytes n (of_be_bytes bs) = bs"
proof (induction bs arbitrary: n rule: rev_induct)
  case (snoc b bs)
  have b: "unat b < 256" by (rule unat_u8_less)
  from snoc.prems obtain m where n: "n = Suc m" and m: "length bs = m" by auto
  have "(of_be_bytes bs * 256 + unat b) div 256 = of_be_bytes bs" using b by simp
  moreover have "of_nat (of_be_bytes bs * 256 + unat b) = b"
    using b by (simp add: word_unat_eq_iff unat_of_nat del: of_nat_add of_nat_mult)
  ultimately show ?case using snoc.IH [OF m] n by (simp del: of_nat_add of_nat_mult)
qed simp

lemma be_bytes_inj:
  "x < 256 ^ n \<Longrightarrow> y < 256 ^ n \<Longrightarrow> be_bytes n x = be_bytes n y \<longleftrightarrow> x = y"
  by (metis mod_less of_be_be_bytes)

section \<open>Separation\<close>

fun diverges :: "'a::linorder list \<Rightarrow> 'a list \<Rightarrow> bool" where
  "diverges (a # s) (b # t) \<longleftrightarrow> a < b \<or> (a = b \<and> diverges s t)"
| "diverges _ _ \<longleftrightarrow> False"

lemma diverges_Nil [simp]: "\<not> diverges [] t" "\<not> diverges s []"
  by (cases s; simp)+

lemma diverges_append: "diverges s t \<Longrightarrow> diverges (s @ u) (t @ v)"
  by (induction s t rule: diverges.induct) auto

lemma diverges_prefix [simp]: "diverges (p @ s) (p @ t) \<longleftrightarrow> diverges s t"
  by (induction p) auto

lemma diverges_less: "diverges s t \<Longrightarrow> s < t"
  by (induction s t rule: diverges.induct) auto

lemma diverges_irrefl: "\<not> diverges s s"
  by (induction s) auto

lemma diverges_trans: "diverges s t \<Longrightarrow> diverges t u \<Longrightarrow> diverges s u"
proof (induction s t arbitrary: u rule: diverges.induct)
  case (1 a s b t)
  then show ?case by (cases u) auto
qed auto

lemma diverges_asym: "diverges s t \<Longrightarrow> \<not> diverges t s"
  using diverges_trans diverges_irrefl by blast

lemma diverges_neq: "diverges s t \<Longrightarrow> s \<noteq> t"
  using diverges_irrefl by blast

lemma diverges_equal_length:
  "length s = length t \<Longrightarrow> s \<noteq> t \<Longrightarrow> diverges s t \<or> diverges t s"
  by (induction s t rule: list_induct2) (auto simp: neq_iff)

lemma diverges_snoc:
  "length s = length t \<Longrightarrow>
   diverges (s @ [a]) (t @ [b]) \<longleftrightarrow> diverges s t \<or> (s = t \<and> a < b)"
  by (induction s t rule: list_induct2) auto

text \<open>Complementing every byte reverses the order.\<close>

lemma unat_not_word: "unat (NOT a) = 2 ^ LENGTH('a) - 1 - unat (a :: 'a::len word)"
proof -
  have "NOT a = - 1 - a" by (simp add: not_eq_complement)
  also have "unat \<dots> = unat (- 1 :: 'a word) - unat a" by (rule unat_sub) simp
  also have "unat (- 1 :: 'a word) = 2 ^ LENGTH('a) - 1"
    by (simp add: unsigned_minus_1_eq_mask mask_eq_exp_minus_1)
  finally show ?thesis .
qed

lemma not_less_word_iff: "NOT a < NOT b \<longleftrightarrow> b < (a :: 'a::len word)"
proof -
  have "unat a < 2 ^ LENGTH('a)" "unat b < 2 ^ LENGTH('a)" by (rule unsigned_less)+
  then have "2 ^ LENGTH('a) - 1 - unat a < 2 ^ LENGTH('a) - 1 - unat b \<longleftrightarrow> unat b < unat a"
    by linarith
  then show ?thesis by (simp only: word_less_nat_alt unat_not_word)
qed

lemma diverges_map_not: "diverges (map NOT s) (map NOT t) \<longleftrightarrow> diverges t (s :: u8 list)"
proof (induction s t rule: diverges.induct)
  case (1 a s b t)
  then show ?case by (auto simp: not_less_word_iff dest: bit.compl_eq_compl_iff [THEN iffD1])
qed auto

lemma diverges_be_bytes:
  assumes "x < y" and "y < 256 ^ n"
  shows "diverges (be_bytes n x) (be_bytes n y)"
  using assms
proof (induction n arbitrary: x y)
  case (Suc n)
  have yd: "y div 256 < 256 ^ n"
    using Suc.prems(2) by (simp add: less_mult_imp_div_less mult.commute)
  consider "x div 256 < y div 256" | "x div 256 = y div 256" "x mod 256 < y mod 256"
    using Suc.prems(1) by (metis div_le_mono div_mult_mod_eq le_neq_implies_less nat_add_left_cancel_less less_imp_le)
  then show ?case
  proof cases
    case 1
    then show ?thesis using Suc.IH [OF 1 yd] by (simp add: diverges_append)
  next
    case 2
    then show ?thesis by (simp add: diverges_snoc word_less_nat_alt del: of_nat_mod)
  qed
qed simp

lemma diverges_be_bytes_iff:
  assumes "x < 256 ^ n" and "y < 256 ^ n"
  shows "diverges (be_bytes n x) (be_bytes n y) \<longleftrightarrow> x < y"
  using assms diverges_be_bytes diverges_asym diverges_irrefl
  by (metis linorder_neqE_nat)

end
