(* ===== verification/Framing.thy ===== *)
theory Framing
  imports Byte_Strings
begin

text \<open>
  Reading and writing byte strings: signed big-endian integers, a writer that appends under a
  size limit, and readers that consume a prefix and return the rest.  The locale
  \<open>framed_code\<close> is the contract of an encoder and its reader; it gives injectivity and
  unique parsing of concatenations.
\<close>

section \<open>Signed integers\<close>

text \<open>\<open>to_be_bytes\<close> and \<open>from_be_bytes\<close> of the signed types: two's complement.\<close>

definition signed_bytes :: "nat \<Rightarrow> int \<Rightarrow> u8 list" where
  "signed_bytes n i = be_bytes n (nat (i mod 256 ^ n))"

definition of_signed_bytes :: "u8 list \<Rightarrow> int" where
  "of_signed_bytes bs =
     (let u = int (of_be_bytes bs); m = 256 ^ length bs in if m \<le> 2 * u then u - m else u)"

definition in_signed :: "nat \<Rightarrow> int \<Rightarrow> bool" where
  "in_signed n i \<longleftrightarrow> - (256 ^ n) \<le> 2 * i \<and> 2 * i < 256 ^ n"

lemma length_signed_bytes [simp]: "length (signed_bytes n i) = n"
  by (simp add: signed_bytes_def)

lemma of_signed_signed_bytes:
  assumes "in_signed n i"
  shows "of_signed_bytes (signed_bytes n i) = i"
proof -
  define m :: int where "m = 256 ^ n"
  have m: "0 < m" by (simp add: m_def)
  have "nat (i mod m) < nat m" using m by (simp add: nat_less_eq_zless)
  then have "nat (i mod m) < 256 ^ n" by (simp add: m_def nat_power_eq)
  then have u: "int (of_be_bytes (signed_bytes n i)) = i mod m"
    using m by (simp add: signed_bytes_def of_be_be_bytes m_def)
  have r: "- m \<le> 2 * i" "2 * i < m" using assms by (auto simp: in_signed_def m_def)
  show ?thesis
  proof (cases "0 \<le> i")
    case True
    with r have "i mod m = i" by (intro mod_pos_pos_trivial) linarith+
    with u r show ?thesis by (simp add: of_signed_bytes_def Let_def m_def)
  next
    case False
    have "i mod m = (i + m) mod m" by simp
    also have "\<dots> = i + m" using r False by (intro mod_pos_pos_trivial) linarith+
    finally show ?thesis using u r by (simp add: of_signed_bytes_def Let_def m_def)
  qed
qed

lemma of_signed_bytes_range: "in_signed (length bs) (of_signed_bytes bs)"
proof -
  define m :: int where "m = 256 ^ length bs"
  define u where "u = int (of_be_bytes bs)"
  have "u < m" using of_be_bytes_less [of bs] unfolding u_def m_def by (metis of_nat_less_iff of_nat_numeral of_nat_power)
  moreover have "0 \<le> u" by (simp add: u_def)
  ultimately have "- m \<le> 2 * (if m \<le> 2 * u then u - m else u) \<and> 2 * (if m \<le> 2 * u then u - m else u) < m" by auto
  then show ?thesis by (simp only: in_signed_def of_signed_bytes_def Let_def m_def u_def)
qed

lemma in_signed_widths: "in_signed 8 i \<longleftrightarrow> in_i64 i" "in_signed 4 i \<longleftrightarrow> in_i32 i" "in_signed 16 i \<longleftrightarrow> in_i128 i"
  by (auto simp: in_signed_def in_i64_def in_i32_def in_i128_def)

section \<open>Writer\<close>

text \<open>\<open>Encoder::bytes\<close>: append unless the limit would be exceeded.\<close>

definition put_bytes :: "error \<Rightarrow> nat \<Rightarrow> u8 list \<Rightarrow> u8 list \<Rightarrow> u8 list result" where
  "put_bytes e limit bs s = (if length s + length bs > limit then Err e else Ok (s @ bs))"

lemma put_bytes_Ok: "put_bytes e limit bs s = Ok s' \<longleftrightarrow> s' = s @ bs \<and> length s' \<le> limit"
  by (auto simp: put_bytes_def)

section \<open>Readers\<close>

type_synonym 'a reader = "u8 list \<Rightarrow> ('a \<times> u8 list) result"

definition take_bytes :: "error \<Rightarrow> nat \<Rightarrow> u8 list reader" where
  "take_bytes e n bs = (if n \<le> length bs then Ok (take n bs, drop n bs) else Err e)"

definition read_nat :: "error \<Rightarrow> nat \<Rightarrow> nat reader" where
  "read_nat e n bs = and_then (take_bytes e n bs) (\<lambda>(b, rest). Ok (of_be_bytes b, rest))"

definition read_signed :: "error \<Rightarrow> nat \<Rightarrow> int reader" where
  "read_signed e n bs = and_then (take_bytes e n bs) (\<lambda>(b, rest). Ok (of_signed_bytes b, rest))"

definition read_u64 :: "error \<Rightarrow> u64 reader" where
  "read_u64 e bs = and_then (take_bytes e 8 bs) (\<lambda>(b, rest). Ok (of_nat (of_be_bytes b), rest))"

lemma take_bytes_Ok: "take_bytes e n bs = Ok (b, rest) \<longleftrightarrow> bs = b @ rest \<and> length b = n"
  by (auto simp: take_bytes_def)

lemma take_bytes_append [simp]: "length b = n \<Longrightarrow> take_bytes e n (b @ rest) = Ok (b, rest)"
  by (simp add: take_bytes_def)

section \<open>Composing writers and readers\<close>

text \<open>
  A writer under a limit appends a fixed byte string when its guard holds and there is room, and
  fails otherwise; such writers compose, and so do readers of a fixed byte string.
\<close>

definition writes :: "error \<Rightarrow> nat \<Rightarrow> (u8 list \<Rightarrow> u8 list result) \<Rightarrow> bool \<Rightarrow> u8 list \<Rightarrow> bool" where
  "writes e limit f P bs \<longleftrightarrow> (\<forall>s. length s \<le> limit \<longrightarrow>
     f s = (if P \<and> length s + length bs \<le> limit then Ok (s @ bs) else Err e))"

definition reads :: "'a reader \<Rightarrow> u8 list \<Rightarrow> 'a \<Rightarrow> bool" where
  "reads r bs x \<longleftrightarrow> (\<forall>rest. r (bs @ rest) = Ok (x, rest))"

lemma writes_put: "writes e limit (put_bytes e limit bs) True bs"
  by (auto simp: writes_def put_bytes_def)

lemma writes_cong: "writes e limit f P bs \<Longrightarrow> P = P' \<Longrightarrow> bs = bs' \<Longrightarrow> writes e limit f P' bs'"
  by simp

lemma writes_seq:
  "writes e limit f P bs \<Longrightarrow> writes e limit g Q cs \<Longrightarrow> writes e limit (\<lambda>s. and_then (f s) g) (P \<and> Q) (bs @ cs)"
  by (auto simp: writes_def)

lemma writes_if: "(B \<Longrightarrow> writes e limit f P bs) \<Longrightarrow> writes e limit (\<lambda>s. if B then f s else Err e) (B \<and> P) bs"
  by (auto simp: writes_def)

lemma writes_fold:
  "(\<And>x. x \<in> set xs \<Longrightarrow> writes e limit (\<lambda>s. f s x) (P x) (g x)) \<Longrightarrow>
   writes e limit (\<lambda>s. try_fold f s xs) (\<forall>x \<in> set xs. P x) (concat (map g xs))"
proof (induction xs)
  case Nil
  show ?case by (simp add: writes_def)
next
  case (Cons x xs)
  from writes_seq [OF Cons.prems [of x] Cons.IH] Cons.prems show ?case by simp
qed

lemma reads_Ok: "reads (\<lambda>bs. Ok (x, bs)) [] x"
  by (simp add: reads_def)

lemma reads_seq: "reads r bs x \<Longrightarrow> reads (k x) cs y \<Longrightarrow> reads (\<lambda>bs. and_then (r bs) (\<lambda>(x, rest). k x rest)) (bs @ cs) y"
  by (simp add: reads_def)

lemma reads_take: "length bs = n \<Longrightarrow> reads (take_bytes e n) bs bs"
  by (simp add: reads_def)

text \<open>A loop that reads a counted number of items, the state after each prefix of them given by \<open>F\<close>.\<close>

lemma reads_loop:
  assumes "\<And>pre x post. xs = pre @ x # post \<Longrightarrow> reads (step (F pre)) (g x) (F (pre @ [x]))"
  shows "reads (\<lambda>bs. try_fold (\<lambda>(st, bs) u. step st bs) (F [], bs) (replicate (length xs) ()))
     (concat (map g xs)) (F xs)"
proof -
  have "try_fold (\<lambda>(st, bs) u. step st bs) (F pre, concat (map g post) @ rest) (replicate (length post) ()) = Ok (F xs, rest)"
    if "xs = pre @ post" for pre post rest
    using that
  proof (induction post arbitrary: pre)
    case (Cons x post)
    then show ?case using assms [of pre x post] by (auto simp: reads_def)
  qed simp
  then show ?thesis by (simp add: reads_def)
qed

section \<open>The contract of a framed code\<close>

locale framed_code =
  fixes valid :: "'a \<Rightarrow> bool" and enc :: "'a \<Rightarrow> u8 list" and dec :: "'a reader"
  assumes dec_enc: "valid x \<Longrightarrow> dec (enc x @ rest) = Ok (x, rest)"
    and dec_valid: "dec bs = Ok (x, rest) \<Longrightarrow> valid x \<and> (\<exists>b. bs = b @ rest)"
begin

lemma enc_unique: "valid x \<Longrightarrow> valid y \<Longrightarrow> enc x @ r = enc y @ s \<Longrightarrow> x = y \<and> r = s"
  by (metis dec_enc prod.inject result.inject(1))

lemma enc_inj: "valid x \<Longrightarrow> valid y \<Longrightarrow> enc x = enc y \<Longrightarrow> x = y"
  using enc_unique [of x y "[]" "[]"] by simp

text \<open>A sequence of items is read back item by item.\<close>

fun dec_many :: "nat \<Rightarrow> 'a list reader" where
  "dec_many 0 bs = Ok ([], bs)"
| "dec_many (Suc n) bs =
     and_then (dec bs) (\<lambda>(x, rest). and_then (dec_many n rest) (\<lambda>(xs, rest). Ok (x # xs, rest)))"

lemma dec_many_enc: "list_all valid xs \<Longrightarrow> dec_many (length xs) (concat (map enc xs) @ rest) = Ok (xs, rest)"
  by (induction xs) (simp_all add: dec_enc)

end

interpretation u64_code: framed_code "\<lambda>_. True" "\<lambda>i :: u64. be_bytes 8 (unat i)" "read_u64 e" for e
proof
  fix x :: u64 and rest
  have "unat x < 256 ^ 8" using unsigned_less [of x] by simp
  then show "read_u64 e (be_bytes 8 (unat x) @ rest) = Ok (x, rest)"
    by (simp add: read_u64_def of_be_be_bytes)
qed (auto simp: read_u64_def and_then_Ok_iff take_bytes_Ok)

interpretation length_code: framed_code "\<lambda>n. n < 2 ^ 32" "be_bytes 4" "read_nat e 4" for e
proof
  fix bs x rest assume "read_nat e 4 bs = Ok (x, rest)"
  then obtain b where b: "bs = b @ rest" "length b = 4" "x = of_be_bytes b"
    by (auto simp: read_nat_def and_then_Ok_iff take_bytes_Ok)
  then show "x < 2 ^ 32 \<and> (\<exists>b. bs = b @ rest)" using of_be_bytes_less [of b] by simp
qed (simp add: read_nat_def of_be_be_bytes)

interpretation i64_code: framed_code in_i64 "signed_bytes 8" "read_signed e 8" for e
proof
  fix bs x rest assume "read_signed e 8 bs = Ok (x, rest)"
  then obtain b where b: "bs = b @ rest" "length b = 8" "x = of_signed_bytes b"
    by (auto simp: read_signed_def and_then_Ok_iff take_bytes_Ok)
  then show "in_i64 x \<and> (\<exists>b. bs = b @ rest)" using of_signed_bytes_range [of b] by (simp add: in_signed_widths)
qed (simp add: read_signed_def of_signed_signed_bytes in_signed_widths)

interpretation i32_code: framed_code in_i32 "signed_bytes 4" "read_signed e 4" for e
proof
  fix bs x rest assume "read_signed e 4 bs = Ok (x, rest)"
  then obtain b where b: "bs = b @ rest" "length b = 4" "x = of_signed_bytes b"
    by (auto simp: read_signed_def and_then_Ok_iff take_bytes_Ok)
  then show "in_i32 x \<and> (\<exists>b. bs = b @ rest)" using of_signed_bytes_range [of b] by (simp add: in_signed_widths)
qed (simp add: read_signed_def of_signed_signed_bytes in_signed_widths)

interpretation i128_code: framed_code in_i128 "signed_bytes 16" "read_signed e 16" for e
proof
  fix bs x rest assume "read_signed e 16 bs = Ok (x, rest)"
  then obtain b where b: "bs = b @ rest" "length b = 16" "x = of_signed_bytes b"
    by (auto simp: read_signed_def and_then_Ok_iff take_bytes_Ok)
  then show "in_i128 x \<and> (\<exists>b. bs = b @ rest)" using of_signed_bytes_range [of b] by (simp add: in_signed_widths)
qed (simp add: read_signed_def of_signed_signed_bytes in_signed_widths)

end
