(* ===== verification/Btree_Map.thy ===== *)
theory Btree_Map
  imports Prelude
begin

text \<open>
  \<open>BTreeMap\<close> and \<open>BTreeSet\<close> of the Rust standard library, as association lists (lists)
  in strictly increasing key order: iteration is the list itself, \<open>get\<close> and \<open>insert\<close>
  are the library's operations.  The locale \<open>ordered_map\<close> states the contract the
  components rely on; it is interpreted on these lists.
\<close>

section \<open>Operations\<close>

type_synonym ('k, 'v) btree = "('k \<times> 'v) list"

definition bt_ok :: "('k::linorder, 'v) btree \<Rightarrow> bool" where
  "bt_ok m \<longleftrightarrow> sorted_wrt (<) (map fst m)"

definition bt_get :: "('k, 'v) btree \<Rightarrow> 'k \<Rightarrow> 'v option" where
  "bt_get m k = map_of m k"

fun bt_insert :: "'k::linorder \<Rightarrow> 'v \<Rightarrow> ('k, 'v) btree \<Rightarrow> ('k, 'v) btree" where
  "bt_insert k v [] = [(k, v)]"
| "bt_insert k v (e # m) =
     (case cmp k (fst e) of
        Less \<Rightarrow> (k, v) # e # m
      | Equal \<Rightarrow> (k, v) # m
      | Greater \<Rightarrow> e # bt_insert k v m)"

definition bt_keys :: "('k, 'v) btree \<Rightarrow> 'k list" where
  "bt_keys m = map fst m"

definition bt_values :: "('k, 'v) btree \<Rightarrow> 'v list" where
  "bt_values m = map snd m"

text \<open>A \<open>BTreeSet\<close> insertion that keeps the elements sorted and distinct.\<close>

definition bs_insert :: "'a::linorder \<Rightarrow> 'a list \<Rightarrow> 'a list" where
  "bs_insert x s = (if x \<in> set s then s else insort x s)"

lemma set_bs_insert [simp]: "set (bs_insert x s) = insert x (set s)"
  by (auto simp: bs_insert_def set_insort_key)

section \<open>Laws\<close>

lemma bt_ok_Nil [simp]: "bt_ok []"
  by (simp add: bt_ok_def)

lemma bt_ok_Cons [simp]: "bt_ok (e # m) \<longleftrightarrow> (\<forall>k \<in> fst ` set m. fst e < k) \<and> bt_ok m"
  by (auto simp: bt_ok_def)

lemma fst_set_bt_insert: "fst ` set (bt_insert k v m) = insert k (fst ` set m)"
  by (induction m) (auto split: ordering.splits)

lemma bt_ok_insert [simp]: "bt_ok m \<Longrightarrow> bt_ok (bt_insert k v m)"
  by (induction m) (auto split: ordering.splits simp: fst_set_bt_insert)

lemma bt_ok_distinct: "bt_ok m \<Longrightarrow> distinct (map fst m)"
  by (induction m) (auto simp: image_iff)

lemma bt_get_None_iff: "bt_get m k = None \<longleftrightarrow> k \<notin> fst ` set m"
  by (simp add: bt_get_def map_of_eq_None_iff)

lemma bt_get_SomeD: "bt_get m k = Some v \<Longrightarrow> (k, v) \<in> set m"
  by (simp add: bt_get_def map_of_SomeD)

lemma bt_get_Some_iff: "bt_ok m \<Longrightarrow> bt_get m k = Some v \<longleftrightarrow> (k, v) \<in> set m"
  by (simp add: bt_get_def map_of_eq_Some_iff bt_ok_distinct)

lemma bt_get_insert: "bt_get (bt_insert k v m) k' = (if k' = k then Some v else bt_get m k')"
  by (induction m) (auto split: ordering.splits simp: bt_get_def)

lemma set_bt_insert: "bt_ok m \<Longrightarrow> set (bt_insert k v m) = insert (k, v) {e \<in> set m. fst e \<noteq> k}"
  by (induction m) (fastforce split: ordering.splits)+

lemma bt_insert_last:
  "(\<forall>k' \<in> fst ` set m. k' < k) \<Longrightarrow> bt_insert k v m = m @ [(k, v)]"
  by (induction m) (auto simp: cmp_def)

text \<open>Strictly sorted lists with the same elements are equal.\<close>

lemma sorted_wrt_less_unique:
  "sorted_wrt (<) xs \<Longrightarrow> sorted_wrt (<) ys \<Longrightarrow> set xs = set ys \<Longrightarrow> xs = (ys :: 'a::linorder list)"
  by (metis strict_sorted_equal)

lemma bt_values_of_keys:
  "bt_ok m \<Longrightarrow> map snd m = map (\<lambda>k. the (bt_get m k)) (map fst m)"
proof -
  assume ok: "bt_ok m"
  have "snd e = the (bt_get m (fst e))" if "e \<in> set m" for e
    using ok that bt_get_Some_iff [of m "fst e" "snd e"] by simp
  then show ?thesis by simp
qed

lemma bt_ext_keys_values:
  assumes "bt_ok m" and "bt_ok m'" and "\<And>k. bt_get m k = bt_get m' k"
  shows "m = m'"
proof -
  have "set m = set m'"
    using assms by (auto simp flip: bt_get_Some_iff)
  then have "map fst m = map fst m'"
    using assms(1,2) unfolding bt_ok_def by (intro sorted_wrt_less_unique) auto
  moreover from this have "map snd m = map snd m'"
    using assms by (simp only: bt_values_of_keys)
  ultimately show ?thesis by (rule pair_list_eqI)
qed

section \<open>The contract of an ordered map\<close>

locale ordered_map =
  fixes ok :: "'m \<Rightarrow> bool"
    and new :: 'm
    and get :: "'m \<Rightarrow> 'k::linorder \<Rightarrow> 'v option"
    and ins :: "'k \<Rightarrow> 'v \<Rightarrow> 'm \<Rightarrow> 'm"
    and iter :: "'m \<Rightarrow> ('k \<times> 'v) list"
  assumes ok_new: "ok new"
    and ok_ins: "ok m \<Longrightarrow> ok (ins k v m)"
    and get_new: "get new k = None"
    and get_ins: "ok m \<Longrightarrow> get (ins k v m) k' = (if k' = k then Some v else get m k')"
    and iter_sorted: "ok m \<Longrightarrow> sorted_wrt (<) (map fst (iter m))"
    and iter_get: "ok m \<Longrightarrow> (k, v) \<in> set (iter m) \<longleftrightarrow> get m k = Some v"
    and ext: "ok m \<Longrightarrow> ok m' \<Longrightarrow> (\<And>k. get m k = get m' k) \<Longrightarrow> m = m'"
begin

lemma ins_ins_same: "ok m \<Longrightarrow> ins k v (ins k w m) = ins k v m"
  by (rule ext) (auto simp: ok_ins get_ins)

lemma ins_commute: "ok m \<Longrightarrow> k \<noteq> l \<Longrightarrow> ins k v (ins l w m) = ins l w (ins k v m)"
  by (rule ext) (auto simp: ok_ins get_ins)

lemma ins_same_get: "ok m \<Longrightarrow> get m k = Some v \<Longrightarrow> ins k v m = m"
  by (rule ext) (auto simp: ok_ins get_ins)

text \<open>Building a map from pairs with distinct keys.\<close>

definition from_pairs :: "('k \<times> 'v) list \<Rightarrow> 'm" where
  "from_pairs ps = foldl (\<lambda>m (k, v). ins k v m) new ps"

lemma ok_from_pairs: "ok (from_pairs ps)"
  unfolding from_pairs_def
  by (induction ps rule: rev_induct) (auto simp: ok_new ok_ins split: prod.splits)

lemma get_from_pairs: "distinct (map fst ps) \<Longrightarrow> get (from_pairs ps) k = map_of ps k"
  unfolding from_pairs_def
proof (induction ps rule: rev_induct)
  case (snoc p ps)
  have "ok (foldl (\<lambda>m (k, v). ins k v m) new ps)"
    using ok_from_pairs [of ps] by (simp add: from_pairs_def)
  with snoc show ?case
    by (cases p) (auto simp: get_ins map_add_def map_of_eq_None_iff [THEN iffD2] split: option.splits)
qed (simp add: get_new)

end

interpretation bt: ordered_map bt_ok "[]" bt_get bt_insert "\<lambda>m. m"
proof unfold_locales
  fix m m' :: "('a, 'b) btree"
  show "bt_ok m \<Longrightarrow> bt_ok m' \<Longrightarrow> (\<And>k. bt_get m k = bt_get m' k) \<Longrightarrow> m = m'"
    by (rule bt_ext_keys_values)
qed (auto simp: bt_get_insert bt_get_Some_iff bt_ok_def [symmetric] bt_get_None_iff)

end
