(* ===== verification/Text_Forms.thy ===== *)
theory Text_Forms
  imports Byte_Strings
begin

text \<open>
  What the source uses of string formatting and parsing in the Rust standard library:
  decimal digits, zero-padded numbers, \<open>split\<close>, \<open>split_once\<close>, \<open>rsplit_once\<close> and
  \<open>strip_prefix\<close>.  The locale \<open>text_form\<close> is the contract between the \<open>Display\<close> and
  \<open>FromStr\<close> implementations of a scalar; each scalar theory interprets it.
\<close>

section \<open>Digits\<close>

definition digit_char :: "nat \<Rightarrow> char" where
  "digit_char n = char_of (48 + n)"

definition is_ascii_digit :: "char \<Rightarrow> bool" where
  "is_ascii_digit c \<longleftrightarrow> 48 \<le> (of_char c :: nat) \<and> (of_char c :: nat) \<le> 57"

definition digit_val :: "char \<Rightarrow> nat" where
  "digit_val c = of_char c - 48"

fun show_nat :: "nat \<Rightarrow> string" where
  "show_nat n = (if n < 10 then [digit_char n] else show_nat (n div 10) @ [digit_char (n mod 10)])"

declare show_nat.simps [simp del]

definition show_int :: "int \<Rightarrow> string" where
  "show_int i = (if i < 0 then CHR ''-'' # show_nat (nat (- i)) else show_nat (nat i))"

text \<open>\<open>{:0w$}\<close> on an unsigned number.\<close>

definition show_padded :: "nat \<Rightarrow> nat \<Rightarrow> string" where
  "show_padded w n = (let s = show_nat n in replicate (w - length s) CHR ''0'' @ s)"

text \<open>Left-to-right accumulation of digits.\<close>

definition digits_val :: "string \<Rightarrow> nat" where
  "digits_val s = foldl (\<lambda>n c. n * 10 + digit_val c) 0 s"

section \<open>Splitting\<close>

fun split_once :: "char \<Rightarrow> string \<Rightarrow> (string \<times> string) option" where
  "split_once c [] = None"
| "split_once c (x # xs) =
     (if x = c then Some ([], xs)
      else map_option (\<lambda>(a, b). (x # a, b)) (split_once c xs))"

definition rsplit_once :: "char \<Rightarrow> string \<Rightarrow> (string \<times> string) option" where
  "rsplit_once c s = map_option (\<lambda>(a, b). (rev b, rev a)) (split_once c (rev s))"

fun split_on :: "char \<Rightarrow> string \<Rightarrow> string list" where
  "split_on c [] = [[]]"
| "split_on c (x # xs) =
     (if x = c then [] # split_on c xs
      else (case split_on c xs of w # ws \<Rightarrow> (x # w) # ws | [] \<Rightarrow> [[x]]))"

text \<open>
  A canonical payload (\<^verbatim>\<open>src/src/scalars/serde.rs\<close>, \<open>from_payload\<close>): the parsed value must
  print back as the very text that was read.
\<close>

definition from_canonical :: "(string \<Rightarrow> 'a result) \<Rightarrow> ('a \<Rightarrow> string) \<Rightarrow> string \<Rightarrow> 'a result" where
  "from_canonical parse display payload =
     and_then (parse payload) (\<lambda>v. if display v \<noteq> payload then Err E_SCALAR_LITERAL else Ok v)"

section \<open>Lemmas\<close>

lemma not_digit_chars [simp]:
  "\<not> is_ascii_digit CHR ''.''" "\<not> is_ascii_digit CHR ''-''" "\<not> is_ascii_digit CHR '':''"
  "\<not> is_ascii_digit CHR ''T''" "\<not> is_ascii_digit CHR ''Z''" "\<not> is_ascii_digit CHR ''+''"
  by (simp_all add: is_ascii_digit_def of_char_def)

lemma digit_char_props [simp]:
  assumes "n < 10"
  shows "is_ascii_digit (digit_char n)" and "digit_val (digit_char n) = n"
proof -
  have "(of_char (digit_char n) :: nat) = 48 + n"
    using assms by (simp add: digit_char_def)
  then show "is_ascii_digit (digit_char n)" and "digit_val (digit_char n) = n"
    using assms by (simp_all add: is_ascii_digit_def digit_val_def)
qed

lemma digits_val_Nil [simp]: "digits_val [] = 0"
  by (simp add: digits_val_def)

lemma digits_val_snoc [simp]: "digits_val (s @ [c]) = digits_val s * 10 + digit_val c"
  by (simp add: digits_val_def)

lemma foldl_digits: "foldl (\<lambda>n c. n * 10 + digit_val c) a s = a * 10 ^ length s + digits_val s"
proof (induction s arbitrary: a rule: rev_induct)
  case (snoc c s)
  then show ?case by (simp add: algebra_simps)
qed simp

lemma digits_val_append: "digits_val (s @ t) = digits_val s * 10 ^ length t + digits_val t"
proof -
  have "digits_val (s @ t) = foldl (\<lambda>n c. n * 10 + digit_val c) (digits_val s) t"
    by (simp only: digits_val_def foldl_append)
  then show ?thesis by (simp only: foldl_digits)
qed

lemma digit_val_zero [simp]: "digit_val CHR ''0'' = 0"
  by (simp add: digit_val_def of_char_def)

lemma is_ascii_digit_zero [simp]: "is_ascii_digit CHR ''0''"
  by (simp add: is_ascii_digit_def of_char_def)

lemma digits_val_replicate [simp]: "digits_val (replicate k CHR ''0'') = 0"
proof (induction k)
  case (Suc k)
  then show ?case by (simp add: digits_val_def)
qed simp

lemma digit_val_less: "is_ascii_digit c \<Longrightarrow> digit_val c < 10"
  by (auto simp: is_ascii_digit_def digit_val_def)

lemma digits_val_less: "list_all is_ascii_digit s \<Longrightarrow> digits_val s < 10 ^ length s"
proof (induction s rule: rev_induct)
  case (snoc c s)
  then have "digits_val s + 1 \<le> 10 ^ length s" "digit_val c < 10"
    by (auto simp: digit_val_less Suc_leI)
  then have "(digits_val s + 1) * 10 \<le> 10 ^ length s * 10" by simp
  with \<open>digit_val c < 10\<close> show ?case by simp
qed simp

lemma show_nat_digits: "list_all is_ascii_digit (show_nat n)"
proof (induction n rule: show_nat.induct)
  case (1 n)
  then show ?case by (subst show_nat.simps) auto
qed

lemma digits_val_show_nat [simp]: "digits_val (show_nat n) = n"
proof (induction n rule: show_nat.induct)
  case (1 n)
  show ?case
  proof (cases "n < 10")
    case True
    then show ?thesis using digits_val_snoc [of "[]"] by (subst show_nat.simps) simp
  next
    case False
    then show ?thesis using 1 by (subst show_nat.simps) simp
  qed
qed

lemma show_nat_nonempty [simp]: "show_nat n \<noteq> []"
  by (subst show_nat.simps) simp

lemma length_show_nat_le: "n < 10 ^ w \<Longrightarrow> 0 < w \<Longrightarrow> length (show_nat n) \<le> w"
proof (induction n arbitrary: w rule: show_nat.induct)
  case (1 n)
  show ?case
  proof (cases "n < 10")
    case True
    then show ?thesis using 1 by (subst show_nat.simps) simp
  next
    case False
    with 1(2) have "w \<noteq> 1" by (metis power_one_right)
    with 1(3) obtain v where v: "w = Suc v" "0 < v" by (cases w) auto
    have "n div 10 < 10 ^ v" using 1(2) v by (simp add: less_mult_imp_div_less mult.commute)
    then have "length (show_nat (n div 10)) \<le> v" using 1(1) False v(2) by simp
    then show ?thesis using False v by (subst show_nat.simps) simp
  qed
qed

lemma show_padded_digits: "list_all is_ascii_digit (show_padded w n)"
  using show_nat_digits [of n] by (auto simp: show_padded_def Let_def list_all_iff)

lemma digits_val_show_padded [simp]: "digits_val (show_padded w n) = n"
  by (simp add: show_padded_def Let_def digits_val_append)

lemma length_show_padded: "n < 10 ^ w \<Longrightarrow> 0 < w \<Longrightarrow> length (show_padded w n) = w"
  using length_show_nat_le [of n w] by (simp add: show_padded_def Let_def)

lemma show_padded_nonempty [simp]: "show_padded w n \<noteq> []"
  by (simp add: show_padded_def Let_def)

lemma digits_without: "list_all is_ascii_digit s \<Longrightarrow> \<not> is_ascii_digit c \<Longrightarrow> c \<notin> set s"
  by (auto simp: list_all_iff)

lemma show_nat_hd: "\<not> is_ascii_digit c \<Longrightarrow> hd (show_nat n @ t) \<noteq> c"
  using show_nat_digits [of n] hd_in_set [OF show_nat_nonempty [of n]]
  by (auto simp: list_all_iff)

lemma takeWhile_digits:
  assumes "list_all is_ascii_digit ds" and "t = [] \<or> \<not> is_ascii_digit (hd t)"
  shows "takeWhile is_ascii_digit (ds @ t) = ds" and "dropWhile is_ascii_digit (ds @ t) = t"
proof -
  have "takeWhile is_ascii_digit t = []" "dropWhile is_ascii_digit t = t"
    using assms(2) by (cases t; auto)+
  then show "takeWhile is_ascii_digit (ds @ t) = ds" "dropWhile is_ascii_digit (ds @ t) = t"
    using assms(1) by (auto simp: list_all_iff takeWhile_append dropWhile_append)
qed

lemma split_once_None: "split_once c s = None \<longleftrightarrow> c \<notin> set s"
  by (induction s) auto

lemma split_once_append: "c \<notin> set a \<Longrightarrow> split_once c (a @ c # b) = Some (a, b)"
  by (induction a) auto

lemma split_once_Some: "split_once c s = Some (a, b) \<Longrightarrow> s = a @ c # b \<and> c \<notin> set a"
  by (induction s arbitrary: a) (auto split: if_splits)

lemma rsplit_once_None: "rsplit_once c s = None \<longleftrightarrow> c \<notin> set s"
  by (simp add: rsplit_once_def split_once_None)

section \<open>Display and FromStr\<close>

locale text_form =
  fixes valid :: "'a \<Rightarrow> bool"
    and display :: "'a \<Rightarrow> string"
    and parse :: "string \<Rightarrow> 'a result"
  assumes parse_display: "valid x \<Longrightarrow> parse (display x) = Ok x"
begin

lemma display_inj: "valid x \<Longrightarrow> valid y \<Longrightarrow> display x = display y \<longleftrightarrow> x = y"
  using parse_display by (metis result.inject(1))

lemma display_parse_display:
  "valid x \<Longrightarrow> parse s = Ok x \<Longrightarrow> parse (display x) = parse s"
  by (simp add: parse_display)

end

locale canonical_text = text_form +
  assumes parse_valid: "parse s = Ok x \<Longrightarrow> valid x"
begin

lemma from_canonical_iff:
  "from_canonical parse display s = Ok x \<longleftrightarrow> valid x \<and> s = display x"
  by (auto simp: from_canonical_def result_simps parse_display dest: parse_valid)

lemma canonical_unique:
  "from_canonical parse display s = Ok x \<Longrightarrow> from_canonical parse display t = Ok x \<Longrightarrow> s = t"
  by (simp add: from_canonical_iff)

end

end
