(* ===== verification/Decimal_Scalar.thy ===== *)
theory Decimal_Scalar
  imports Text_Forms
begin

text \<open>
  Exact decimals (\<^verbatim>\<open>src/src/scalars/decimal.rs\<close>).  A decimal is an \<open>i128\<close> coefficient
  and a scale; the precision belongs to the schema type.  \<open>BigInt\<close> is \<open>int\<close>; the
  \<open>i128\<close> coefficient is an \<open>int\<close> whose range every checked operation tests.  The
  \<open>u8\<close> precision and scale are naturals: \<open>validate_type\<close> bounds them by 38 before they
  are used as exponents.
\<close>

section \<open>Rounding modes\<close>

datatype decimal_rounding =
  Exact | TowardZero | AwayFromZero | Floor | Ceil | HalfUp | HalfEven

fun rounding_as_str :: "decimal_rounding \<Rightarrow> string" where
  "rounding_as_str Exact = ''exact''"
| "rounding_as_str TowardZero = ''toward_zero''"
| "rounding_as_str AwayFromZero = ''away_from_zero''"
| "rounding_as_str Floor = ''floor''"
| "rounding_as_str Ceil = ''ceil''"
| "rounding_as_str HalfUp = ''half_up''"
| "rounding_as_str HalfEven = ''half_even''"

definition rounding_from_str :: "string \<Rightarrow> decimal_rounding result" where
  "rounding_from_str value =
     (if value = ''exact'' then Ok Exact
      else if value = ''toward_zero'' then Ok TowardZero
      else if value = ''away_from_zero'' then Ok AwayFromZero
      else if value = ''floor'' then Ok Floor
      else if value = ''ceil'' then Ok Ceil
      else if value = ''half_up'' then Ok HalfUp
      else if value = ''half_even'' then Ok HalfEven
      else Err E_DECIMAL_ROUNDING)"

section \<open>Decimals\<close>

record decimal =
  coefficient :: int
  scale :: nat

definition power_of_ten :: "nat \<Rightarrow> int" where
  "power_of_ten e = 10 ^ e"

text \<open>The division and remainder are on magnitudes, where truncation and floor agree.\<close>

definition round_ratio :: "int \<Rightarrow> int \<Rightarrow> decimal_rounding \<Rightarrow> int result" where
  "round_ratio numerator denominator rounding =
     (if denominator = 0 then Err E_ARITH
      else
        let negative = ((numerator < 0) \<noteq> (denominator < 0));
            n = \<bar>numerator\<bar>;
            m = \<bar>denominator\<bar>;
            quotient = n div m;
            remainder = n mod m
        in if remainder = 0 then Ok (if negative then - quotient else quotient)
           else if rounding = Exact then Err E_ARITH
           else
             let increment =
                   (case rounding of
                      Exact \<Rightarrow> False
                    | TowardZero \<Rightarrow> False
                    | AwayFromZero \<Rightarrow> True
                    | Floor \<Rightarrow> negative
                    | Ceil \<Rightarrow> \<not> negative
                    | HalfUp \<Rightarrow> remainder * 2 \<ge> m
                    | HalfEven \<Rightarrow>
                        remainder * 2 > m \<or> (remainder * 2 = m \<and> quotient mod 2 \<noteq> 0));
                 rounded = quotient + (if increment then 1 else 0)
             in Ok (if negative then - rounded else rounded))"

definition validate_decimal_type :: "nat \<Rightarrow> nat \<Rightarrow> unit result" where
  "validate_decimal_type precision scl =
     check (1 \<le> precision \<and> precision \<le> 38 \<and> scl \<le> precision) E_DECIMAL_TYPE"

definition decimal_new :: "int \<Rightarrow> nat \<Rightarrow> nat \<Rightarrow> decimal result" where
  "decimal_new coef precision scl =
     and_then (validate_decimal_type precision scl) (\<lambda>_.
       if \<bar>coef\<bar> \<ge> 10 ^ precision then Err E_DECIMAL_RANGE
       else Ok \<lparr>coefficient = coef, scale = scl\<rparr>)"

text \<open>\<open>checked_ilog10().unwrap_or(0)\<close>: zero has no logarithm and counts as one digit.\<close>

fun ilog10 :: "nat \<Rightarrow> nat" where
  "ilog10 n = (if n < 10 then 0 else Suc (ilog10 (n div 10)))"

declare ilog10.simps [simp del]

definition decimal_precision :: "decimal \<Rightarrow> nat" where
  "decimal_precision d = max (ilog10 (nat \<bar>coefficient d\<bar>) + 1) (scale d)"

text \<open>One digit of the \<open>parse\<close> loop, with both checked operations on \<open>i128\<close>.\<close>

definition checked_i128 :: "int \<Rightarrow> int option" where
  "checked_i128 x = (if in_i128 x then Some x else None)"

definition push_digit :: "int \<Rightarrow> char \<Rightarrow> int result" where
  "push_digit coef digit =
     ok_or E_DECIMAL_RANGE
       (Option.bind (checked_i128 (coef * 10)) (\<lambda>n. checked_i128 (n + int (digit_val digit))))"

text \<open>The second half of \<open>parse\<close>: from the two digit strings to the coefficient.\<close>

definition decimal_of_digits :: "bool \<Rightarrow> string \<Rightarrow> string \<Rightarrow> nat \<Rightarrow> nat \<Rightarrow> decimal result" where
  "decimal_of_digits negative i f precision scl =
     (if i = [] \<or> \<not> list_all is_ascii_digit (i @ f) then Err E_DECIMAL_RANGE
      else if scl \<le> length f \<and> (\<exists>b \<in> set (drop scl f). b \<noteq> CHR ''0'') then Err E_DECIMAL_RANGE
      else and_then (try_fold push_digit 0 (i @ take scl f)) (\<lambda>coef.
             and_then (ok_or E_DECIMAL_RANGE (checked_i128 (coef * 10 ^ (scl - length f)))) (\<lambda>coef'.
               decimal_new (if negative then - coef' else coef') precision scl)))"

definition decimal_parse :: "string \<Rightarrow> nat \<Rightarrow> nat \<Rightarrow> decimal result" where
  "decimal_parse source precision scl =
     and_then (validate_decimal_type precision scl) (\<lambda>_.
       let negative = (source \<noteq> [] \<and> hd source = CHR ''-'');
           body = (if negative then tl source else source)
       in case split_once CHR ''.'' body of
            Some (i, f) \<Rightarrow>
              if f \<noteq> [] then decimal_of_digits negative i f precision scl
              else Err E_DECIMAL_RANGE
          | None \<Rightarrow> decimal_of_digits negative body [] precision scl)"

definition decimal_infer :: "string \<Rightarrow> decimal result" where
  "decimal_infer source =
     (let s = (case split_once CHR ''.'' source of None \<Rightarrow> 0 | Some (_, f) \<Rightarrow> length f)
      in if s > 38 then Err E_DECIMAL_RANGE else decimal_parse source 38 s)"

text \<open>Rust's \<open>%\<close> and \<open>/\<close> on \<open>i128\<close> truncate towards zero.\<close>

definition rust_div :: "int \<Rightarrow> int \<Rightarrow> int" where
  "rust_div a b = sgn a * sgn b * (\<bar>a\<bar> div \<bar>b\<bar>)"

definition rust_rem :: "int \<Rightarrow> int \<Rightarrow> int" where
  "rust_rem a b = sgn a * (\<bar>a\<bar> mod \<bar>b\<bar>)"

definition decimal_rescale :: "decimal \<Rightarrow> nat \<Rightarrow> nat \<Rightarrow> decimal result" where
  "decimal_rescale self precision scl =
     and_then (validate_decimal_type precision scl) (\<lambda>_.
       and_then
         (if scl \<ge> scale self
          then ok_or E_DECIMAL_RANGE
                 (checked_i128 (coefficient self * 10 ^ (scl - scale self)))
          else let divisor = 10 ^ (scale self - scl)
               in if rust_rem (coefficient self) divisor \<noteq> 0 then Err E_DECIMAL_RANGE
                  else Ok (rust_div (coefficient self) divisor))
         (\<lambda>coef. decimal_new coef precision scl))"

definition decimal_from_bigint :: "int \<Rightarrow> nat \<Rightarrow> nat \<Rightarrow> decimal result" where
  "decimal_from_bigint coef precision scl =
     and_then (ok_or E_ARITH (checked_i128 coef)) (\<lambda>c.
       map_err (\<lambda>e. if e = E_DECIMAL_RANGE then E_ARITH else e) (decimal_new c precision scl))"

definition rescale_with_rounding ::
    "decimal \<Rightarrow> nat \<Rightarrow> nat \<Rightarrow> decimal_rounding \<Rightarrow> decimal result" where
  "rescale_with_rounding self precision scl rounding =
     and_then (validate_decimal_type precision scl) (\<lambda>_.
       and_then
         (if scl \<ge> scale self
          then Ok (coefficient self * power_of_ten (scl - scale self))
          else round_ratio (coefficient self) (power_of_ten (scale self - scl)) rounding)
         (\<lambda>coef. decimal_from_bigint coef precision scl))"

definition checked_mul_to ::
    "decimal \<Rightarrow> decimal \<Rightarrow> nat \<Rightarrow> nat \<Rightarrow> decimal_rounding \<Rightarrow> decimal result" where
  "checked_mul_to self other precision scl rounding =
     and_then (validate_decimal_type precision scl) (\<lambda>_.
       let product = coefficient self * coefficient other;
           source_scale = scale self + scale other
       in and_then
            (if scl \<ge> source_scale then Ok (product * power_of_ten (scl - source_scale))
             else round_ratio product (power_of_ten (source_scale - scl)) rounding)
            (\<lambda>coef. decimal_from_bigint coef precision scl))"

definition checked_div_to ::
    "decimal \<Rightarrow> decimal \<Rightarrow> nat \<Rightarrow> nat \<Rightarrow> decimal_rounding \<Rightarrow> decimal result" where
  "checked_div_to self other precision scl rounding =
     and_then (validate_decimal_type precision scl) (\<lambda>_.
       if coefficient other = 0 then Err E_ARITH
       else
         let numerator_exponent = scl + scale other;
             denominator_exponent = scale self;
             (numerator, denominator) =
               (if numerator_exponent \<ge> denominator_exponent
                then (coefficient self * power_of_ten (numerator_exponent - denominator_exponent),
                      coefficient other)
                else (coefficient self,
                      coefficient other * power_of_ten (denominator_exponent - numerator_exponent)))
         in and_then (round_ratio numerator denominator rounding)
              (\<lambda>coef. decimal_from_bigint coef precision scl))"

definition average_coefficients ::
    "int \<Rightarrow> nat \<Rightarrow> int \<Rightarrow> nat \<Rightarrow> nat \<Rightarrow> decimal_rounding \<Rightarrow> decimal result" where
  "average_coefficients coef source_scale count precision scl rounding =
     and_then (validate_decimal_type precision scl) (\<lambda>_.
       let (numerator, denominator) =
             (if scl \<ge> source_scale then (coef * power_of_ten (scl - source_scale), count)
              else (coef, count * power_of_ten (source_scale - scl)))
       in and_then (round_ratio numerator denominator rounding)
            (\<lambda>c. decimal_from_bigint c precision scl))"

definition decimal_checked_add :: "decimal \<Rightarrow> decimal \<Rightarrow> decimal result" where
  "decimal_checked_add self other =
     (if scale self \<noteq> scale other then Err E_TYPE
      else and_then (ok_or E_ARITH (checked_i128 (coefficient self + coefficient other)))
             (\<lambda>c. map_err (\<lambda>_. E_ARITH) (decimal_new c 38 (scale self))))"

definition decimal_checked_sub :: "decimal \<Rightarrow> decimal \<Rightarrow> decimal result" where
  "decimal_checked_sub self other =
     (if scale self \<noteq> scale other then Err E_TYPE
      else and_then (ok_or E_ARITH (checked_i128 (coefficient self - coefficient other)))
             (\<lambda>c. map_err (\<lambda>_. E_ARITH) (decimal_new c 38 (scale self))))"

definition decimal_checked_neg :: "decimal \<Rightarrow> decimal result" where
  "decimal_checked_neg self =
     and_then (ok_or E_ARITH (checked_i128 (- coefficient self)))
       (\<lambda>c. map_err (\<lambda>_. E_ARITH) (decimal_new c 38 (scale self)))"

definition decimal_display :: "decimal \<Rightarrow> string" where
  "decimal_display d =
     (let sign = (if coefficient d < 0 then ''-'' else []);
          unsigned = nat \<bar>coefficient d\<bar>
      in if scale d = 0 then sign @ show_nat unsigned
         else let divisor = 10 ^ scale d
              in sign @ show_nat (unsigned div divisor) @ ''.''
                 @ show_padded (scale d) (unsigned mod divisor))"

section \<open>What rounding means\<close>

text \<open>
  The specification of a rounding mode: \<open>rounded mode n m r\<close> says that the integer \<open>r\<close>
  is the quotient \<open>n / m\<close> rounded by \<open>mode\<close>, stated on the integers \<open>n\<close>, \<open>m\<close> and
  \<open>r * m\<close> without reference to how the rounding is computed.
\<close>

fun rounded :: "decimal_rounding \<Rightarrow> int \<Rightarrow> int \<Rightarrow> int \<Rightarrow> bool" where
  "rounded Exact n m r \<longleftrightarrow> r * m = n"
| "rounded TowardZero n m r \<longleftrightarrow> \<bar>n - r * m\<bar> < \<bar>m\<bar> \<and> \<bar>r * m\<bar> \<le> \<bar>n\<bar>"
| "rounded AwayFromZero n m r \<longleftrightarrow> \<bar>n - r * m\<bar> < \<bar>m\<bar> \<and> \<bar>n\<bar> \<le> \<bar>r * m\<bar>"
| "rounded Floor n m r \<longleftrightarrow> r = n div m"
| "rounded Ceil n m r \<longleftrightarrow> r = - ((- n) div m)"
| "rounded HalfUp n m r \<longleftrightarrow>
     2 * \<bar>n - r * m\<bar> \<le> \<bar>m\<bar> \<and> (2 * \<bar>n - r * m\<bar> = \<bar>m\<bar> \<longrightarrow> \<bar>n\<bar> \<le> \<bar>r * m\<bar>)"
| "rounded HalfEven n m r \<longleftrightarrow>
     2 * \<bar>n - r * m\<bar> \<le> \<bar>m\<bar> \<and> (2 * \<bar>n - r * m\<bar> = \<bar>m\<bar> \<longrightarrow> even r)"

lemma rounded_scale:
  assumes "0 < k"
  shows "rounded mode (n * k) (m * k) r \<longleftrightarrow> rounded mode n m r"
proof -
  have "n * k - r * (m * k) = (n - r * m) * k" by (simp add: algebra_simps)
  then have diff: "\<bar>n * k - r * (m * k)\<bar> = \<bar>n - r * m\<bar> * k"
    using assms by (simp only: abs_mult abs_of_pos)
  have prod: "\<bar>r * (m * k)\<bar> = \<bar>r * m\<bar> * k"
    using assms by (simp add: abs_mult)
  have abs: "\<bar>n * k\<bar> = \<bar>n\<bar> * k" "\<bar>m * k\<bar> = \<bar>m\<bar> * k"
    using assms by (simp_all add: abs_mult)
  have dbl: "2 * (x * k) = (2 * x) * k" for x :: int by simp
  have "rounded mode (n * k) (m * k) r \<longleftrightarrow> rounded mode n m r" if "mode \<notin> {Exact, Floor, Ceil}"
    using assms that
    by (cases mode)
       (simp_all only: rounded.simps diff prod abs dbl mult_less_cancel_right_pos
          mult_le_cancel_right_pos mult_cancel_right less_int_code insert_iff, auto)
  moreover have "- (n * k) div (m * k) = - n div m"
    using assms div_mult_mult2 [of k "- n" m] by simp
  ultimately show ?thesis
    using assms by (cases mode) auto
qed

lemma rounded_neg_neg: "rounded mode (- n) (- m) r \<longleftrightarrow> rounded mode n m r"
proof -
  have "\<bar>- n - r * - m\<bar> = \<bar>n - r * m\<bar>" by simp
  then show ?thesis by (cases mode) (auto simp: minus_equation_iff div_minus_right)
qed

lemma round_ratio_neg_neg: "round_ratio (- n) (- m) mode = round_ratio n m mode"
proof (cases "n = 0 \<or> m = 0")
  case True
  then show ?thesis by (auto simp: round_ratio_def)
next
  case False
  then have "((- n < 0) \<noteq> (- m < 0)) = ((n < 0) \<noteq> (m < 0))" by auto
  then show ?thesis by (simp only: round_ratio_def abs_minus_cancel neg_equal_0_iff_equal)
qed

text \<open>The increment decision of the code, on the magnitudes \<open>q\<close>, \<open>u\<close> (quotient and remainder).\<close>

definition increments :: "decimal_rounding \<Rightarrow> bool \<Rightarrow> int \<Rightarrow> int \<Rightarrow> int \<Rightarrow> bool" where
  "increments mode negative q u m \<longleftrightarrow> u \<noteq> 0 \<and>
     (case mode of Exact \<Rightarrow> False | TowardZero \<Rightarrow> False | AwayFromZero \<Rightarrow> True
      | Floor \<Rightarrow> negative | Ceil \<Rightarrow> \<not> negative | HalfUp \<Rightarrow> u * 2 \<ge> m
      | HalfEven \<Rightarrow> u * 2 > m \<or> (u * 2 = m \<and> q mod 2 \<noteq> 0))"

lemma round_ratio_posD:
  assumes "0 < m" and "round_ratio n m mode = Ok r"
    and "q = \<bar>n\<bar> div m" and "u = \<bar>n\<bar> mod m"
  shows "r = (if n < 0 then -1 else 1) * (q + of_bool (increments mode (n < 0) q u m))"
    and "mode = Exact \<Longrightarrow> u = 0"
proof -
  have "round_ratio n m mode =
        (if u = 0 then Ok (if n < 0 then - q else q)
         else if mode = Exact then Err E_ARITH
         else Ok (if n < 0 then - (q + of_bool (increments mode (n < 0) q u m))
                  else q + of_bool (increments mode (n < 0) q u m)))"
    unfolding round_ratio_def Let_def abs_of_pos [OF assms(1)] assms(3,4) [symmetric] increments_def
    using assms(1) by (cases mode) simp_all
  moreover have "u = 0 \<Longrightarrow> \<not> increments mode (n < 0) q u m" by (simp add: increments_def)
  ultimately show "r = (if n < 0 then -1 else 1) * (q + of_bool (increments mode (n < 0) q u m))"
    and "mode = Exact \<Longrightarrow> u = 0"
    using assms(2) by (auto split: if_splits)
qed

lemma round_ratio_pos:
  assumes "0 < m" and "round_ratio n m mode = Ok r"
  shows "rounded mode n m r"
proof -
  define q u where "q = \<bar>n\<bar> div m" and "u = \<bar>n\<bar> mod m"
  define neg where "neg = (n < 0)"
  define i where "i = increments mode neg q u m"
  define s :: int where "s = (if neg then -1 else 1)"
  have split: "\<bar>n\<bar> = q * m + u" and u: "0 \<le> u" "u < m" and "0 \<le> q"
    using assms(1) by (simp_all add: q_def u_def pos_imp_zdiv_nonneg_iff)
  then have qm: "0 \<le> q * m" using assms(1) by simp
  have n: "n = s * (q * m + u)" using split by (auto simp: s_def neg_def)
  have r: "r = s * (q + of_bool i)" and ex: "mode = Exact \<Longrightarrow> u = 0"
    using round_ratio_posD [OF assms q_def u_def] by (simp_all add: s_def i_def neg_def)
  have D: "\<bar>n - r * m\<bar> = (if i then m - u else u)"
    using u by (auto simp: n r s_def algebra_simps)
  have P: "\<bar>r * m\<bar> = q * m + (if i then m else 0)"
    using qm assms(1) by (auto simp: r s_def algebra_simps)
  have E: "even r \<longleftrightarrow> (even q \<longleftrightarrow> \<not> i)" by (auto simp: r s_def)
  have floor: "x div m = y" if "y * m \<le> x" "x < y * m + m" for x y
    using that assms(1) by (intro int_div_pos_eq [of x m y "x - y * m"]) auto
  have i: "i \<Longrightarrow> 0 < u" using u by (simp add: i_def increments_def)
  show ?thesis
  proof (cases mode)
    case Exact
    then have "u = 0" "\<not> i" using ex i by auto
    then show ?thesis by (simp add: Exact n r)
  next
    case Floor
    have "r * m \<le> n \<and> n < r * m + m"
      using u by (auto simp: n r s_def i_def increments_def Floor algebra_simps)
    then have "n div m = r" using floor by blast
    then show ?thesis by (simp add: Floor)
  next
    case Ceil
    have "- r * m \<le> - n \<and> - n < - r * m + m"
      using u by (auto simp: n r s_def i_def increments_def Ceil algebra_simps)
    then have "- n div m = - r" using floor by blast
    then show ?thesis by (simp add: Ceil)
  next
    case HalfEven
    show ?thesis
      using u i split unfolding HalfEven rounded.simps D P E
      by (auto simp: i_def increments_def HalfEven)
  qed (use u i split in \<open>auto simp: D P i_def increments_def\<close>)
qed

lemma round_ratio_sound: "m \<noteq> 0 \<Longrightarrow> round_ratio n m mode = Ok r \<Longrightarrow> rounded mode n m r"
  using round_ratio_pos [of m n mode r] round_ratio_pos [of "- m" "- n" mode r]
  by (cases "0 < m") (auto simp: round_ratio_neg_neg rounded_neg_neg)

lemma near_unique:
  assumes "\<bar>n - r * m\<bar> < \<bar>m\<bar>" and "\<bar>n - r' * m\<bar> < \<bar>m\<bar>" and "r < (r' :: int)"
  shows "r' = r + 1"
proof -
  have "\<bar>(r' - r) * m\<bar> < 2 * \<bar>m\<bar>" using assms(1,2) by (simp add: algebra_simps)
  then have "(r' - r) * \<bar>m\<bar> < 2 * \<bar>m\<bar>" using assms(3) by (simp add: abs_mult)
  then have "r' - r < 2" by (rule mult_right_less_imp_less) simp
  with assms(3) show ?thesis by simp
qed

lemma half_near: "m \<noteq> 0 \<Longrightarrow> 2 * \<bar>a\<bar> \<le> \<bar>m\<bar> \<Longrightarrow> \<bar>a\<bar> < \<bar>m :: int\<bar>"
  by arith

lemma rounded_near: "m \<noteq> 0 \<Longrightarrow> rounded mode n m r \<Longrightarrow> mode \<notin> {Floor, Ceil} \<Longrightarrow> \<bar>n - r * m\<bar> < \<bar>m\<bar>"
  by (cases mode) (auto intro: half_near)

text \<open>Two neighbouring multiples \<open>x\<close> and \<open>x + m\<close> both close to \<open>n\<close>: \<open>n\<close> lies between them.\<close>

lemma between_neighbours:
  fixes n x m :: int
  assumes "\<bar>n - x\<bar> < \<bar>m\<bar>" and "\<bar>n - (x + m)\<bar> < \<bar>m\<bar>"
  shows "0 < m \<and> x < n \<and> n < x + m \<or> m < 0 \<and> x + m < n \<and> n < x"
  using assms by (cases "0 < m") auto

lemma tie_of_halves:
  fixes n x m :: int
  assumes "2 * \<bar>n - x\<bar> \<le> \<bar>m\<bar>" and "2 * \<bar>n - (x + m)\<bar> \<le> \<bar>m\<bar>"
  shows "2 * \<bar>n - x\<bar> = \<bar>m\<bar>" and "2 * \<bar>n - (x + m)\<bar> = \<bar>m\<bar>"
  using assms abs_triangle_ineq4 [of "n - x" "n - (x + m)"] by simp_all

lemma one_magnitude_between:
  fixes n x m :: int
  assumes "0 < m \<and> x < n \<and> n < x + m \<or> m < 0 \<and> x + m < n \<and> n < x"
    and "0 < m \<Longrightarrow> 0 \<le> x \<or> x + m \<le> 0" and "m < 0 \<Longrightarrow> x \<le> 0 \<or> 0 \<le> x + m"
  shows "\<not> (\<bar>x\<bar> \<le> \<bar>n\<bar> \<and> \<bar>x + m\<bar> \<le> \<bar>n\<bar>)" and "\<not> (\<bar>n\<bar> \<le> \<bar>x\<bar> \<and> \<bar>n\<bar> \<le> \<bar>x + m\<bar>)"
  using assms by auto

lemma rounded_succ:
  assumes "m \<noteq> 0" and "mode \<notin> {Floor, Ceil}"
  shows "\<not> (rounded mode n m r \<and> rounded mode n m (r + 1))"
proof
  assume both: "rounded mode n m r \<and> rounded mode n m (r + 1)"
  have e: "(r + 1) * m = r * m + m" by (simp add: algebra_simps)
  have up: "0 \<le> r * m \<or> r * m + m \<le> 0" if "0 < m"
    using that mult_nonneg_nonneg [of r m] mult_nonpos_nonneg [of "r + 1" m] e by linarith
  have down: "r * m \<le> 0 \<or> 0 \<le> r * m + m" if "m < 0"
    using that mult_nonneg_nonpos [of r m] mult_nonpos_nonpos [of "r + 1" m] e by linarith
  have "\<bar>n - r * m\<bar> < \<bar>m\<bar>" "\<bar>n - (r * m + m)\<bar> < \<bar>m\<bar>"
    using rounded_near [OF assms(1) _ assms(2)] both e by metis+
  note mag = one_magnitude_between [OF between_neighbours [OF this] up down]
  show False
  proof (cases mode)
    case Exact
    then show ?thesis using both assms(1) e by simp
  next
    case HalfUp
    then show ?thesis
      using both mag tie_of_halves [of n "r * m" m] unfolding HalfUp rounded.simps e by blast
  next
    case HalfEven
    then have "even r" "even (r + 1)"
      using both tie_of_halves [of n "r * m" m] unfolding HalfEven rounded.simps e by blast+
    then show ?thesis by simp
  qed (use both mag assms(2) in \<open>auto simp: e\<close>)
qed

lemma rounded_unique:
  assumes "m \<noteq> 0" and "rounded mode n m r" and "rounded mode n m r'"
  shows "r = r'"
proof (cases "mode \<in> {Floor, Ceil}")
  case True
  then show ?thesis using assms by auto
next
  case False
  note near = rounded_near [OF assms(1) _ False]
  show ?thesis
  proof (rule ccontr)
    assume "r \<noteq> r'"
    then consider "r < r'" | "r' < r" by linarith
    then show False
    proof cases
      case 1
      then have "r' = r + 1" using near_unique [OF near near] assms(2,3) by blast
      then show ?thesis using rounded_succ [OF assms(1) False] assms(2,3) by blast
    next
      case 2
      then have "r = r' + 1" using near_unique [OF near near] assms(2,3) by blast
      then show ?thesis using rounded_succ [OF assms(1) False] assms(2,3) by blast
    qed
  qed
qed

lemma round_ratio_total: "m \<noteq> 0 \<Longrightarrow> mode \<noteq> Exact \<or> m dvd n \<Longrightarrow> \<exists>r. round_ratio n m mode = Ok r"
proof -
  assume "m \<noteq> 0" and "mode \<noteq> Exact \<or> m dvd n"
  moreover from this have "mode = Exact \<Longrightarrow> \<bar>n\<bar> mod \<bar>m\<bar> = 0"
    by (simp flip: dvd_eq_mod_eq_0)
  ultimately show ?thesis
    unfolding round_ratio_def Let_def by (metis (no_types, lifting))
qed

text \<open>The computed rounding is the specified one, and is an error exactly when there is none.\<close>

lemma round_ratio_iff: "m \<noteq> 0 \<Longrightarrow> round_ratio n m mode = Ok r \<longleftrightarrow> rounded mode n m r"
proof
  assume m: "m \<noteq> 0" and r: "rounded mode n m r"
  from r have "mode \<noteq> Exact \<or> m dvd n" by (cases mode) auto
  then obtain r' where "round_ratio n m mode = Ok r'" using round_ratio_total m by blast
  with round_ratio_sound [OF m this] rounded_unique [OF m r] show "round_ratio n m mode = Ok r" by simp
qed (rule round_ratio_sound)

lemma rounded_exact: "m \<noteq> 0 \<Longrightarrow> rounded mode (c * m) m r \<longleftrightarrow> r = c"
proof -
  assume m: "m \<noteq> 0"
  then have "- (c * m) div m = - c" using nonzero_mult_div_cancel_right [of m "- c"] by simp
  with m have "rounded mode (c * m) m c" by (cases mode) simp_all
  with m show ?thesis using rounded_unique by blast
qed

section \<open>Decimals of a declared type\<close>

text \<open>The invariant of a value of type \<open>decimal p s\<close>.\<close>

definition decimal_ok :: "nat \<Rightarrow> nat \<Rightarrow> decimal \<Rightarrow> bool" where
  "decimal_ok p s d \<longleftrightarrow>
     1 \<le> p \<and> p \<le> 38 \<and> s \<le> p \<and> scale d = s \<and> \<bar>coefficient d\<bar> < 10 ^ p"

lemma decimal_new_iff: "decimal_new c p s = Ok d \<longleftrightarrow> decimal_ok p s d \<and> coefficient d = c"
  by (cases d) (auto simp: decimal_new_def decimal_ok_def validate_decimal_type_def result_simps)

lemma pow10_i128: "p \<le> 38 \<Longrightarrow> \<bar>c\<bar> < 10 ^ p \<Longrightarrow> in_i128 c"
proof -
  assume "p \<le> 38" and c: "\<bar>c\<bar> < 10 ^ p"
  then have "(10::int) ^ p \<le> 10 ^ 38" by (intro power_increasing) auto
  with c have "\<bar>c\<bar> < 10 ^ 38" by linarith
  then show "in_i128 c" by (simp add: in_i128_def abs_less_iff)
qed

lemma checked_i128_Some [simp]: "checked_i128 x = Some y \<longleftrightarrow> in_i128 x \<and> y = x"
  by (auto simp: checked_i128_def)

lemma decimal_ok_i128: "decimal_ok p s d \<Longrightarrow> in_i128 (coefficient d)"
  by (auto simp: decimal_ok_def intro: pow10_i128)

lemma from_bigint_iff: "decimal_from_bigint c p s = Ok d \<longleftrightarrow> decimal_ok p s d \<and> coefficient d = c"
  using decimal_ok_i128 by (auto simp: decimal_from_bigint_def decimal_new_iff result_simps)

lemma valid_of_ok: "decimal_ok p s d \<Longrightarrow> validate_decimal_type p s = Ok ()"
  by (auto simp: decimal_ok_def validate_decimal_type_def)

lemma power_split: "k \<le> n \<Longrightarrow> (10::int) ^ n = 10 ^ (n - k) * 10 ^ k"
  by (simp flip: power_add)

text \<open>The four operations that round end in the same computation.\<close>

lemma rounded_scaled_result:
  fixes x y :: int
  assumes "y \<noteq> 0"
  shows "(if k \<le> n then round_ratio (x * power_of_ten (n - k)) y mode
          else round_ratio x (y * power_of_ten (k - n)) mode) = Ok c \<longleftrightarrow>
         rounded mode (x * 10 ^ n) (y * 10 ^ k) c"
proof (cases "k \<le> n")
  case True
  have "rounded mode (x * 10 ^ n) (y * 10 ^ k) c \<longleftrightarrow> rounded mode (x * 10 ^ (n - k)) y c"
    using rounded_scale [of "10 ^ k" mode "x * 10 ^ (n - k)" y c] power_split [OF True]
    by (simp add: mult.assoc)
  with True assms show ?thesis by (simp add: round_ratio_iff power_of_ten_def)
next
  case False
  then have "n \<le> k" by simp
  have "rounded mode (x * 10 ^ n) (y * 10 ^ k) c \<longleftrightarrow> rounded mode x (y * 10 ^ (k - n)) c"
    using rounded_scale [of "10 ^ n" mode x "y * 10 ^ (k - n)" c] power_split [OF \<open>n \<le> k\<close>]
    by (simp add: mult.assoc)
  with False assms show ?thesis by (simp add: round_ratio_iff power_of_ten_def)
qed

lemma rounded_shifted_result:
  fixes x :: int
  shows "(if k \<le> n then Ok (x * power_of_ten (n - k))
          else round_ratio x (power_of_ten (k - n)) mode) = Ok c \<longleftrightarrow>
         rounded mode (x * 10 ^ n) (10 ^ k) c"
proof (cases "k \<le> n")
  case True
  have "rounded mode (x * 10 ^ n) (10 ^ k) c \<longleftrightarrow> c = x * 10 ^ (n - k)"
    using rounded_exact [of "10 ^ k" mode "x * 10 ^ (n - k)" c] power_split [OF True]
    by (simp add: mult.assoc)
  with True show ?thesis by (auto simp: power_of_ten_def)
next
  case False
  with rounded_scaled_result [of 1 k n x mode c] show ?thesis by simp
qed

lemma checked_mul_to_iff:
  "checked_mul_to a b p s mode = Ok d \<longleftrightarrow>
   decimal_ok p s d \<and>
   rounded mode (coefficient a * coefficient b * 10 ^ s) (10 ^ (scale a + scale b)) (coefficient d)"
  unfolding checked_mul_to_def Let_def
  by (auto simp: and_then_Ok_iff rounded_shifted_result from_bigint_iff valid_of_ok)

lemma checked_div_to_iff:
  "checked_div_to a b p s mode = Ok d \<longleftrightarrow>
   decimal_ok p s d \<and> coefficient b \<noteq> 0 \<and>
   rounded mode (coefficient a * 10 ^ (s + scale b)) (coefficient b * 10 ^ scale a) (coefficient d)"
proof (cases "coefficient b = 0")
  case True
  then show ?thesis by (simp add: checked_div_to_def and_then_Ok_iff)
next
  case False
  note key = rounded_scaled_result [OF False, of "scale a" "s + scale b" "coefficient a" mode]
  have "checked_div_to a b p s mode =
        and_then (validate_decimal_type p s) (\<lambda>_.
          and_then (if scale a \<le> s + scale b
                    then round_ratio (coefficient a * power_of_ten (s + scale b - scale a)) (coefficient b) mode
                    else round_ratio (coefficient a) (coefficient b * power_of_ten (scale a - (s + scale b))) mode)
            (\<lambda>c. decimal_from_bigint c p s))"
    using False by (auto simp: checked_div_to_def Let_def)
  then show ?thesis
    using False by (auto simp: and_then_Ok_iff key from_bigint_iff valid_of_ok)
qed

lemma rescale_with_rounding_iff:
  "rescale_with_rounding a p s mode = Ok d \<longleftrightarrow>
   decimal_ok p s d \<and> rounded mode (coefficient a * 10 ^ s) (10 ^ scale a) (coefficient d)"
  unfolding rescale_with_rounding_def
  by (auto simp: and_then_Ok_iff rounded_shifted_result from_bigint_iff valid_of_ok)

lemma average_coefficients_iff:
  assumes "n \<noteq> 0"
  shows "average_coefficients c k n p s mode = Ok d \<longleftrightarrow>
         decimal_ok p s d \<and> rounded mode (c * 10 ^ s) (n * 10 ^ k) (coefficient d)"
proof -
  have "average_coefficients c k n p s mode =
        and_then (validate_decimal_type p s) (\<lambda>_.
          and_then (if k \<le> s then round_ratio (c * power_of_ten (s - k)) n mode
                    else round_ratio c (n * power_of_ten (k - s)) mode)
            (\<lambda>x. decimal_from_bigint x p s))"
    by (auto simp: average_coefficients_def Let_def)
  then show ?thesis
    using assms by (auto simp: and_then_Ok_iff rounded_scaled_result from_bigint_iff valid_of_ok)
qed

text \<open>Rescaling without rounding: the same as rounding with mode \<open>exact\<close>, up to the error code.\<close>

lemma rust_rem_0_iff: "rust_rem a b = 0 \<longleftrightarrow> b dvd a"
  by (auto simp: rust_rem_def sgn_0_0 simp flip: dvd_eq_mod_eq_0)

lemma rust_div_exact: "b dvd a \<Longrightarrow> 0 < b \<Longrightarrow> rust_div a b = a div b"
proof (elim dvdE)
  fix k
  assume "0 < b" and "a = b * k"
  then show "rust_div a b = a div b"
    using nonzero_mult_div_cancel_left [of b "- k"]
    by (auto simp: rust_div_def sgn_if abs_if zero_less_mult_iff mult_less_0_iff)
qed

lemma decimal_rescale_iff:
  "decimal_rescale a p s = Ok d \<longleftrightarrow>
   decimal_ok p s d \<and> coefficient d * 10 ^ scale a = coefficient a * 10 ^ s"
proof (cases "scale a \<le> s")
  case True
  have "decimal_rescale a p s = Ok d \<longleftrightarrow>
        decimal_ok p s d \<and> coefficient d = coefficient a * 10 ^ (s - scale a)"
    using True decimal_ok_i128 [of p s d]
    by (auto simp: decimal_rescale_def result_simps decimal_new_iff valid_of_ok)
  then show ?thesis by (simp add: power_split [OF True])
next
  case False
  define k where "k = scale a - s"
  have k: "(10::int) ^ scale a = 10 ^ k * 10 ^ s"
    using False power_split [of s "scale a"] by (simp add: k_def)
  have "decimal_rescale a p s = Ok d \<longleftrightarrow>
        decimal_ok p s d \<and> 10 ^ k dvd coefficient a \<and> coefficient d = coefficient a div 10 ^ k"
    using False
    by (auto simp: decimal_rescale_def Let_def result_simps decimal_new_iff valid_of_ok
             rust_rem_0_iff rust_div_exact simp flip: k_def)
  moreover have "10 ^ k dvd coefficient a \<and> coefficient d = coefficient a div 10 ^ k \<longleftrightarrow>
        coefficient d * 10 ^ k = coefficient a"
    by (metis dvd_div_mult_self dvd_triv_right nonzero_mult_div_cancel_right power_not_zero
        zero_neq_numeral)
  ultimately show ?thesis by (simp add: k)
qed

section \<open>Literals\<close>

text \<open>
  The shape of a plain decimal literal: an optional minus sign, digits, and an optional
  point followed by digits.
\<close>

definition decimal_parts :: "string \<Rightarrow> (bool \<times> string \<times> string) option" where
  "decimal_parts source =
     (let negative = (source \<noteq> [] \<and> hd source = CHR ''-'');
          body = (if negative then tl source else source);
          (i, f) = (case split_once CHR ''.'' body of None \<Rightarrow> (body, []) | Some p \<Rightarrow> p)
      in if (split_once CHR ''.'' body \<noteq> None \<longrightarrow> f \<noteq> []) \<and> i \<noteq> [] \<and> list_all is_ascii_digit (i @ f)
         then Some (negative, i, f) else None)"

definition parts_value :: "bool \<Rightarrow> string \<Rightarrow> string \<Rightarrow> int" where
  "parts_value negative i f = (if negative then -1 else 1) * int (digits_val (i @ f))"

lemma digit_zero_iff: "is_ascii_digit c \<Longrightarrow> digit_val c = 0 \<longleftrightarrow> c = CHR ''0''"
proof
  assume "is_ascii_digit c" "digit_val c = 0"
  then have "(of_char c :: nat) = 48" by (simp add: is_ascii_digit_def digit_val_def)
  also have "48 = (of_char CHR ''0'' :: nat)" by (simp add: of_char_def)
  finally show "c = CHR ''0''" by (simp only: of_char_eq_iff)
qed simp

lemma digits_zero_iff:
  "list_all is_ascii_digit t \<Longrightarrow> digits_val t = 0 \<longleftrightarrow> (\<forall>b \<in> set t. b = CHR ''0'')"
  by (induction t rule: rev_induct) (auto simp: digit_zero_iff)

lemma push_digits:
  assumes "list_all is_ascii_digit ds" and "0 \<le> a"
  shows "try_fold push_digit a ds =
         (if in_i128 (a * 10 ^ length ds + int (digits_val ds)) \<or> ds = []
          then Ok (a * 10 ^ length ds + int (digits_val ds)) else Err E_DECIMAL_RANGE)"
  using assms
proof (induction ds rule: rev_induct)
  case (snoc c ds)
  let ?v = "a * 10 ^ length ds + int (digits_val ds)"
  have v: "0 \<le> ?v" using snoc.prems by simp
  have e: "a * 10 ^ length (ds @ [c]) + int (digits_val (ds @ [c])) = ?v * 10 + int (digit_val c)"
    by (simp add: algebra_simps)
  have IH: "try_fold push_digit a ds = (if in_i128 ?v \<or> ds = [] then Ok ?v else Err E_DECIMAL_RANGE)"
    using snoc by simp
  have mono: "in_i128 x" if "0 \<le> x" "x \<le> y" "in_i128 y" for x y
    using that by (simp add: in_i128_def)
  have step: "push_digit ?v c = (if in_i128 (?v * 10 + int (digit_val c))
      then Ok (?v * 10 + int (digit_val c)) else Err E_DECIMAL_RANGE)"
    using v mono [of "?v * 10" "?v * 10 + int (digit_val c)"]
    by (auto simp: push_digit_def checked_i128_def)
  have "in_i128 ?v" if "in_i128 (?v * 10 + int (digit_val c))"
    using mono [OF v _ that] v by simp
  then show ?case unfolding e by (auto simp: try_fold_append IH step)
qed simp

text \<open>Dropping zero digits and padding with zeros both keep the value.\<close>

lemma fraction_to_scale:
  fixes c :: int
  assumes "list_all is_ascii_digit (i @ f)"
  shows "\<not> (s \<le> length f \<and> (\<exists>b \<in> set (drop s f). b \<noteq> CHR ''0'')) \<and>
           c = int (digits_val (i @ take s f)) * 10 ^ (s - length f) \<longleftrightarrow>
         c * 10 ^ length f = int (digits_val (i @ f)) * 10 ^ s"
proof (cases "length f \<le> s")
  case True
  then show ?thesis by (simp add: power_split [OF True])
next
  case False
  define k where "k = length f - s"
  have k: "(10::int) ^ length f = 10 ^ k * 10 ^ s"
    using False power_split [of s "length f"] by (simp add: k_def)
  have dr: "list_all is_ascii_digit (drop s f)" "length (drop s f) = k"
    using assms by (auto simp: k_def list_all_iff dest: in_set_dropD)
  let ?A = "digits_val (i @ take s f)" and ?Z = "digits_val (drop s f)"
  have z: "int ?Z < 10 ^ k" using digits_val_less [OF dr(1)] dr(2) by (metis of_nat_less_iff of_nat_numeral of_nat_power)
  have "digits_val (i @ f) = digits_val ((i @ take s f) @ drop s f)" by simp
  then have n: "int (digits_val (i @ f)) = int ?A * 10 ^ k + int ?Z"
    by (simp only: digits_val_append dr(2)) simp
  have "c * 10 ^ k = int ?A * 10 ^ k + int ?Z \<longleftrightarrow> ?Z = 0 \<and> c = int ?A"
  proof
    assume h: "c * 10 ^ k = int ?A * 10 ^ k + int ?Z"
    then have "int ?Z = (c * 10 ^ k) mod 10 ^ k"
      using z by (simp add: mod_pos_pos_trivial)
    with h show "?Z = 0 \<and> c = int ?A" by simp
  qed simp
  then show ?thesis
    using False digits_zero_iff [OF dr(1)] by (auto simp: n k)
qed

text \<open>What \<open>parse\<close> accepts and what it returns.\<close>

lemma decimal_of_digits_iff:
  "decimal_of_digits negative i f p s = Ok d \<longleftrightarrow>
   i \<noteq> [] \<and> list_all is_ascii_digit (i @ f) \<and> decimal_ok p s d \<and>
   coefficient d * 10 ^ length f = parts_value negative i f * 10 ^ s"
proof (cases "i \<noteq> [] \<and> list_all is_ascii_digit (i @ f)")
  case True
  let ?c = "int (digits_val (i @ take s f))"
  let ?z = "s \<le> length f \<and> (\<exists>b \<in> set (drop s f). b \<noteq> CHR ''0'')"
  define sg :: int where "sg = (if negative then -1 else 1)"
  have nt: "\<not> (i = [] \<or> \<not> list_all is_ascii_digit (i @ f))" using True by blast
  have ds: "list_all is_ascii_digit (i @ take s f)"
    using True by (auto simp: list_all_iff dest: in_set_takeD)
  have c: "in_i128 ?c" if "in_i128 (?c * 10 ^ (s - length f))"
    using that mult_left_mono [of 1 "10 ^ (s - length f)" ?c] by (simp add: in_i128_def)
  have fold: "try_fold push_digit 0 (i @ take s f) = (if in_i128 ?c then Ok ?c else Err E_DECIMAL_RANGE)"
    using push_digits [OF ds, of 0] True by simp
  have "decimal_of_digits negative i f p s = Ok d \<longleftrightarrow>
      \<not> ?z \<and> in_i128 (?c * 10 ^ (s - length f)) \<and> decimal_ok p s d \<and>
      coefficient d = sg * (?c * 10 ^ (s - length f))"
  proof (cases ?z)
    case False
    have "decimal_of_digits negative i f p s =
        and_then (if in_i128 ?c then Ok ?c else Err E_DECIMAL_RANGE) (\<lambda>coef.
          and_then (ok_or E_DECIMAL_RANGE (checked_i128 (coef * 10 ^ (s - length f)))) (\<lambda>coef'.
            decimal_new (sg * coef') p s))"
      unfolding decimal_of_digits_def fold if_not_P [OF False] if_not_P [OF nt]
      by (cases negative) (simp_all add: sg_def)
    then show ?thesis using c False by (auto simp: and_then_Ok_iff ok_or_Ok_iff decimal_new_iff)
  qed (use True in \<open>auto simp: decimal_of_digits_def\<close>)
  also have "\<dots> \<longleftrightarrow> decimal_ok p s d \<and> \<not> ?z \<and> sg * coefficient d = ?c * 10 ^ (s - length f)"
  proof -
    have "in_i128 (sg * coefficient d)" if "decimal_ok p s d"
      using that pow10_i128 [of p "sg * coefficient d"] by (simp add: sg_def decimal_ok_def)
    moreover have "sg * (sg * x) = x" for x by (simp add: sg_def)
    ultimately show ?thesis by metis
  qed
  also have "\<dots> \<longleftrightarrow> decimal_ok p s d \<and> sg * coefficient d * 10 ^ length f = int (digits_val (i @ f)) * 10 ^ s"
    using fraction_to_scale [of i f s "sg * coefficient d"] True by blast
  also have "\<dots> \<longleftrightarrow> decimal_ok p s d \<and> coefficient d * 10 ^ length f = parts_value negative i f * 10 ^ s"
    by (auto simp: sg_def parts_value_def)
  finally show ?thesis using True by blast
qed (auto simp: decimal_of_digits_def)

lemma decimal_parse_iff:
  "decimal_parse source p s = Ok d \<longleftrightarrow>
   (\<exists>negative i f. decimal_parts source = Some (negative, i, f) \<and> decimal_ok p s d \<and>
      coefficient d * 10 ^ length f = parts_value negative i f * 10 ^ s)"
proof -
  define negative where "negative = (source \<noteq> [] \<and> hd source = CHR ''-'')"
  define body where "body = (if negative then tl source else source)"
  have parse: "decimal_parse source p s = and_then (validate_decimal_type p s) (\<lambda>_.
      case split_once CHR ''.'' body of
        Some (i, f) \<Rightarrow> if f \<noteq> [] then decimal_of_digits negative i f p s else Err E_DECIMAL_RANGE
      | None \<Rightarrow> decimal_of_digits negative body [] p s)"
    unfolding decimal_parse_def Let_def negative_def body_def by (rule refl)
  have parts: "decimal_parts source =
      (case split_once CHR ''.'' body of
         None \<Rightarrow> if body \<noteq> [] \<and> list_all is_ascii_digit body then Some (negative, body, []) else None
       | Some (i, f) \<Rightarrow>
           if f \<noteq> [] \<and> i \<noteq> [] \<and> list_all is_ascii_digit (i @ f) then Some (negative, i, f) else None)"
    by (simp add: decimal_parts_def Let_def negative_def body_def split: option.splits)
  show ?thesis
    unfolding parse parts
    by (cases "split_once CHR ''.'' body")
       (auto simp: and_then_Ok_iff decimal_of_digits_iff valid_of_ok split: if_splits)
qed

lemma decimal_parts_display:
  assumes "scale d \<le> 38"
  shows "\<exists>i f. decimal_parts (decimal_display d) = Some (coefficient d < 0, i, f) \<and>
           length f = scale d \<and> digits_val (i @ f) = nat \<bar>coefficient d\<bar>"
proof -
  define u where "u = nat \<bar>coefficient d\<bar>"
  define i where "i = show_nat (u div 10 ^ scale d)"
  define f where "f = (if scale d = 0 then [] else show_padded (scale d) (u mod 10 ^ scale d))"
  define body where "body = (if f = [] then i else i @ CHR ''.'' # f)"
  have digits: "list_all is_ascii_digit i" "list_all is_ascii_digit f"
    by (auto simp: i_def f_def show_nat_digits show_padded_digits)
  have len: "length f = scale d" by (auto simp: f_def length_show_padded)
  have disp: "decimal_display d = (if coefficient d < 0 then ''-'' else []) @ body"
    by (auto simp: decimal_display_def Let_def u_def i_def f_def body_def)
  have hd: "body \<noteq> []" "hd body \<noteq> CHR ''-''"
    using show_nat_hd [of "CHR ''-''" "u div 10 ^ scale d" "[]"]
      show_nat_hd [of "CHR ''-''" "u div 10 ^ scale d" "CHR ''.'' # f"]
    by (auto simp: body_def i_def)
  have split: "split_once CHR ''.'' body = (if f = [] then None else Some (i, f))"
    using digits_without [OF digits(1), of "CHR ''.''"]
    by (auto simp: body_def split_once_None split_once_append)
  have "decimal_parts (decimal_display d) = Some (coefficient d < 0, i, f)"
    using hd digits show_nat_nonempty [of "u div 10 ^ scale d", folded i_def]
    by (cases "f = []") (auto simp: disp decimal_parts_def Let_def split, auto simp: body_def)
  moreover have "digits_val (i @ f) = u"
    by (auto simp: digits_val_append len i_def) (auto simp: f_def div_mult_mod_eq)
  ultimately show ?thesis using len by (auto simp: u_def)
qed

lemma decimal_parse_display:
  assumes "decimal_ok p s d"
  shows "decimal_parse (decimal_display d) p s = Ok d"
proof -
  from assms have sc: "scale d = s" "scale d \<le> 38" by (auto simp: decimal_ok_def)
  from decimal_parts_display [OF sc(2)] obtain i f where
    "decimal_parts (decimal_display d) = Some (coefficient d < 0, i, f)"
    "length f = s" "digits_val (i @ f) = nat \<bar>coefficient d\<bar>" using sc by auto
  then show ?thesis using assms by (auto simp: decimal_parse_iff parts_value_def)
qed

interpretation dec: canonical_text "decimal_ok p s" decimal_display "\<lambda>t. decimal_parse t p s" for p s
  by unfold_locales (auto simp: decimal_parse_display, auto simp: decimal_parse_iff)

section \<open>Properties\<close>

text \<open>
  (C20) \<open>round_ratio\<close> implements every rounding mode: a zero denominator is \<open>E_ARITH\<close>; otherwise
  the result is \<open>r\<close> exactly when \<open>r\<close> is the quotient rounded by the mode's specification
  \<open>rounded\<close>, that integer is unique, and the only failure left is mode \<open>exact\<close> on a quotient
  that is not an integer.
\<close>

theorem round_ratio_correct:
  "round_ratio n 0 mode = Err E_ARITH \<and>
   (m \<noteq> 0 \<longrightarrow>
      (\<forall>r. round_ratio n m mode = Ok r \<longleftrightarrow> rounded mode n m r) \<and>
      (\<forall>r r'. rounded mode n m r \<and> rounded mode n m r' \<longrightarrow> r = r') \<and>
      (mode \<noteq> Exact \<or> m dvd n \<longrightarrow> (\<exists>r. round_ratio n m mode = Ok r)) \<and>
      (mode = Exact \<and> \<not> m dvd n \<longrightarrow> round_ratio n m mode = Err E_ARITH))"
proof -
  have "round_ratio n m Exact = Err E_ARITH" if "m \<noteq> 0" "\<not> m dvd n"
  proof (cases "round_ratio n m Exact")
    case (Ok r)
    with that show ?thesis by (auto simp: round_ratio_iff)
  next
    case (Err e)
    with that show ?thesis by (auto simp: round_ratio_def Let_def split: if_splits)
  qed
  moreover have "round_ratio n 0 mode = Err E_ARITH" by (simp add: round_ratio_def)
  ultimately show ?thesis
    using rounded_unique [of m mode n] round_ratio_total [of m mode n]
    by (simp add: round_ratio_iff)
qed

theorem round_ratio_correct_witness:
  "round_ratio (-7) 2 HalfEven = Ok (-4) \<and> rounded HalfEven (-7) 2 (-4) \<and>
   round_ratio (-7) 2 Exact = Err E_ARITH"
proof -
  have "round_ratio (-7) 2 HalfEven = Ok (-4)" by code_simp
  moreover from this have "rounded HalfEven (-7) 2 (-4)"
    using round_ratio_correct [of "-7" HalfEven 2] by simp
  moreover have "round_ratio (-7) 2 Exact = Err E_ARITH"
    using round_ratio_correct [of "-7" Exact 2] by simp
  ultimately show ?thesis by blast
qed

text \<open>
  (C21) Decimal multiplication, division, averaging and rescaling compute the exact rational
  result and round it once: each returns \<open>d\<close> exactly when \<open>d\<close> is a value of the target type
  \<open>decimal p s\<close> and its coefficient is the exact result, scaled to \<open>s\<close> digits, rounded by
  the requested mode.  Intermediate precision never affects the result.
\<close>

theorem decimal_arithmetic_correct:
  "(checked_mul_to a b p s mode = Ok d \<longleftrightarrow> decimal_ok p s d \<and>
      rounded mode (coefficient a * coefficient b * 10 ^ s) (10 ^ (scale a + scale b)) (coefficient d)) \<and>
   (checked_div_to a b p s mode = Ok d \<longleftrightarrow> decimal_ok p s d \<and> coefficient b \<noteq> 0 \<and>
      rounded mode (coefficient a * 10 ^ (s + scale b)) (coefficient b * 10 ^ scale a) (coefficient d)) \<and>
   (rescale_with_rounding a p s mode = Ok d \<longleftrightarrow> decimal_ok p s d \<and>
      rounded mode (coefficient a * 10 ^ s) (10 ^ scale a) (coefficient d)) \<and>
   (n = 0 \<or> (average_coefficients c k n p s mode = Ok d \<longleftrightarrow> decimal_ok p s d \<and>
      rounded mode (c * 10 ^ s) (n * 10 ^ k) (coefficient d)))"
  by (cases "n = 0")
     (simp_all add: checked_mul_to_iff checked_div_to_iff rescale_with_rounding_iff
        average_coefficients_iff)

text \<open>
  (C22) Reading decimal literals: \<open>parse\<close> accepts exactly the plain literals (optional minus,
  digits, optional point and digits) whose value fits \<open>decimal p s\<close> without losing a nonzero
  digit, and returns that value; in particular it reads back what \<open>Display\<close> writes.
\<close>

theorem decimal_parse_correct:
  "(decimal_parse source p s = Ok d \<longleftrightarrow>
      (\<exists>negative i f. decimal_parts source = Some (negative, i, f) \<and> decimal_ok p s d \<and>
         coefficient d * 10 ^ length f = parts_value negative i f * 10 ^ s)) \<and>
   (decimal_ok p s d \<longrightarrow> decimal_parse (decimal_display d) p s = Ok d)"
  using dec.parse_display by (auto simp: decimal_parse_iff)

theorem decimal_parse_correct_witness:
  "decimal_ok 10 2 \<lparr>coefficient = -1050, scale = 2\<rparr> \<and>
   decimal_display \<lparr>coefficient = -1050, scale = 2\<rparr> = ''-10.50'' \<and>
   decimal_parse ''-10.50'' 10 2 = Ok \<lparr>coefficient = -1050, scale = 2\<rparr>"
proof -
  have ok: "decimal_ok 10 2 \<lparr>coefficient = -1050, scale = 2\<rparr>" by (simp add: decimal_ok_def)
  have disp: "decimal_display \<lparr>coefficient = -1050, scale = 2\<rparr> = ''-10.50''" by code_simp
  show ?thesis
    using decimal_parse_correct [of "''-10.50''" 10 2 "\<lparr>coefficient = -1050, scale = 2\<rparr>"] ok disp by simp
qed

text \<open>
  (C23) The two ways to change the scale agree: \<open>rescale\<close> (machine arithmetic with overflow
  checks) succeeds exactly when \<open>rescale_with_rounding\<close> in mode \<open>exact\<close> (big integers) does,
  with the same value; only the error code of a refusal differs.
\<close>

theorem rescale_equivalence:
  "decimal_rescale a p s = Ok d \<longleftrightarrow> rescale_with_rounding a p s Exact = Ok d"
  by (simp add: decimal_rescale_iff rescale_with_rounding_iff)

end
