(* ===== verification/Temporal_Scalar.thy ===== *)
theory Temporal_Scalar
  imports Text_Forms
begin

text \<open>
  Dates, durations and timestamps (\<^verbatim>\<open>src/src/scalars/temporal.rs\<close>).  A date is its
  \<open>i32\<close> day number relative to 1970-01-01, a duration and a timestamp their \<open>i64\<close>
  microseconds; all three are read as \<open>int\<close>, with the ranges the constructors check.
  Months and days of a month (\<open>u8\<close>) are naturals.  Years are at least 1 wherever
  \<open>year_days\<close> is called, so Rust's truncating division there is \<open>div\<close>.
\<close>

section \<open>Calendar arithmetic\<close>

definition EPOCH_DAYS :: int where
  "EPOCH_DAYS = 719162"

definition DAY_MICROS :: int where
  "DAY_MICROS = 86400000000"

definition MIN_DAYS :: int where
  "MIN_DAYS = - EPOCH_DAYS"

definition MAX_DAYS :: int where
  "MAX_DAYS = 2932896"

definition leap :: "int \<Rightarrow> bool" where
  "leap year \<longleftrightarrow> year mod 4 = 0 \<and> (year mod 100 \<noteq> 0 \<or> year mod 400 = 0)"

definition year_days :: "int \<Rightarrow> int" where
  "year_days year = (let previous = year - 1
     in previous * 365 + previous div 4 - previous div 100 + previous div 400)"

definition month_days :: "int \<Rightarrow> nat \<Rightarrow> int" where
  "month_days year month =
     (if month = 2 then (if leap year then 29 else 28)
      else if month = 4 \<or> month = 6 \<or> month = 9 \<or> month = 11 then 30
      else 31)"

definition parse_digits :: "string \<Rightarrow> int result" where
  "parse_digits source =
     (if source = [] \<or> \<not> list_all is_ascii_digit source then Err E_SCALAR_LITERAL
      else Ok (int (digits_val source)))"

definition fixed_offset_seconds :: "string \<Rightarrow> int result" where
  "fixed_offset_seconds source =
     (if source = ''Z'' \<or> source = ''z'' then Ok 0
      else if length source \<noteq> 6 \<or> \<not> (source ! 0 = CHR ''+'' \<or> source ! 0 = CHR ''-'')
              \<or> source ! 3 \<noteq> CHR '':'' then Err E_SCALAR_LITERAL
      else and_then (parse_digits (take 2 (drop 1 source))) (\<lambda>hours.
             and_then (parse_digits (take 2 (drop 4 source))) (\<lambda>minutes.
               if hours > 23 \<or> minutes > 59 \<or> source = ''-00:00'' then Err E_SCALAR_LITERAL
               else Ok ((hours * 3600 + minutes * 60) * (if source ! 0 = CHR ''-'' then -1 else 1)))))"

datatype timestamp_unit =
  Year | Month | Week | Day | Hour | Minute | Second | Millisecond | Microsecond

definition timestamp_unit_parse :: "string \<Rightarrow> timestamp_unit option" where
  "timestamp_unit_parse source =
     (if source = ''year'' then Some Year
      else if source = ''month'' then Some Month
      else if source = ''week'' then Some Week
      else if source = ''day'' then Some Day
      else if source = ''hour'' then Some Hour
      else if source = ''minute'' then Some Minute
      else if source = ''second'' then Some Second
      else if source = ''millisecond'' then Some Millisecond
      else if source = ''microsecond'' then Some Microsecond
      else None)"

section \<open>Dates\<close>

definition date_from_epoch_days :: "int \<Rightarrow> int result" where
  "date_from_epoch_days days =
     (if \<not> (MIN_DAYS \<le> days \<and> days \<le> MAX_DAYS) then Err E_SCALAR_LITERAL else Ok days)"

text \<open>The binary search for the year and the month loop of \<open>components\<close>.\<close>

function year_search :: "int \<Rightarrow> int \<Rightarrow> int \<Rightarrow> int" where
  "year_search days low high =
     (if low + 1 < high
      then let middle = (low + high) div 2
           in if year_days middle \<le> days then year_search days middle high
              else year_search days low middle
      else low)"
  by auto
termination by (relation "measure (\<lambda>(days, low, high). nat (high - low))") auto

declare year_search.simps [simp del]

lemma month_days_pos: "0 < month_days year month"
  by (auto simp: month_days_def)

function month_search :: "int \<Rightarrow> nat \<Rightarrow> int \<Rightarrow> nat \<times> int" where
  "month_search year month remaining =
     (if month_days year month \<le> remaining
      then month_search year (month + 1) (remaining - month_days year month)
      else (month, remaining))"
  by auto
termination
proof (relation "measure (\<lambda>(year, month, remaining). nat remaining)")
  fix year month remaining
  assume "month_days year month \<le> remaining"
  with month_days_pos [of year month]
  show "((year, month + 1, remaining - month_days year month), year, month, remaining)
          \<in> measure (\<lambda>(year, month, remaining). nat remaining)"
    by simp
qed simp

declare month_search.simps [simp del]

definition date_components :: "int \<Rightarrow> int \<times> nat \<times> nat" where
  "date_components date =
     (let days = date + EPOCH_DAYS;
          low = year_search days 1 10000;
          (month, remaining) = month_search low 1 (days - year_days low)
      in (low, month, nat remaining + 1))"

text \<open>\<open>(1..month).map(|m| month_days(year, m)).sum()\<close>\<close>

definition months_before :: "int \<Rightarrow> nat \<Rightarrow> int" where
  "months_before year month = sum_list (map (month_days year) [1..<month])"

definition date_from_str :: "string \<Rightarrow> int result" where
  "date_from_str source =
     (if length source \<noteq> 10 \<or> source ! 4 \<noteq> CHR ''-'' \<or> source ! 7 \<noteq> CHR ''-''
      then Err E_SCALAR_LITERAL
      else and_then (parse_digits (take 4 source)) (\<lambda>year.
        and_then (map_ok nat (parse_digits (take 2 (drop 5 source)))) (\<lambda>month.
          and_then (map_ok nat (parse_digits (drop 8 source))) (\<lambda>day.
            if year = 0 \<or> \<not> (1 \<le> month \<and> month \<le> 12) \<or> day = 0 \<or> int day > month_days year month
            then Err E_SCALAR_LITERAL
            else date_from_epoch_days
                   (year_days year + months_before year month + int day - 1 - EPOCH_DAYS)))))"

definition date_display :: "int \<Rightarrow> string" where
  "date_display date =
     (let (year, month, day) = date_components date
      in show_padded 4 (nat year) @ ''-'' @ show_padded 2 month @ ''-'' @ show_padded 2 day)"

section \<open>Durations\<close>

definition UNITS :: "(string \<times> int) list" where
  "UNITS = [(''week'', 604800000000), (''day'', DAY_MICROS), (''hour'', 3600000000),
            (''minute'', 60000000), (''second'', 1000000), (''millisecond'', 1000),
            (''microsecond'', 1)]"

text \<open>\<open>str::parse::<i64>\<close> on an optional minus sign and at least one digit.\<close>

definition parse_i64 :: "bool \<Rightarrow> string \<Rightarrow> int option" where
  "parse_i64 negative ds =
     (let n = (if negative then - int (digits_val ds) else int (digits_val ds))
      in if in_i64 n then Some n else None)"

text \<open>\<open>strip_suffix('s').unwrap_or(..)\<close>\<close>

definition strip_plural :: "string \<Rightarrow> string" where
  "strip_plural s = (if s \<noteq> [] \<and> last s = CHR ''s'' then butlast s else s)"

definition duration_from_str :: "string \<Rightarrow> int result" where
  "duration_from_str source =
     (let negative = (source \<noteq> [] \<and> hd source = CHR ''-'');
          body = (if negative then tl source else source);
          ds = takeWhile is_ascii_digit body;
          rest = dropWhile is_ascii_digit body
      in if ds = [] then Err E_SCALAR_LITERAL
         else and_then (ok_or E_SCALAR_LITERAL (parse_i64 negative ds)) (\<lambda>amount.
           and_then (ok_or E_SCALAR_LITERAL
                       (map_option snd (find (\<lambda>u. fst u = strip_plural rest) UNITS))) (\<lambda>multiplier.
             if in_i64 (amount * multiplier) then Ok (amount * multiplier)
             else Err E_SCALAR_LITERAL)))"

text \<open>
  The first unit that divides the duration; the source's \<open>expect\<close> documents that the last
  one always does, so the remaining case of the option is never taken.
\<close>

definition duration_display :: "int \<Rightarrow> string" where
  "duration_display micros =
     (if micros = 0 then ''0microseconds''
      else case find (\<lambda>u. snd u dvd micros) UNITS of
             None \<Rightarrow> []
           | Some (unit, sz) \<Rightarrow>
               let amount = micros div sz
               in show_int amount @ unit @ (if amount = 1 \<or> amount = -1 then '''' else ''s''))"

section \<open>Timestamps\<close>

definition timestamp_from_epoch_microseconds :: "int \<Rightarrow> int result" where
  "timestamp_from_epoch_microseconds v =
     (let days = v div DAY_MICROS
      in if \<not> (MIN_DAYS \<le> days \<and> days \<le> MAX_DAYS) then Err E_SCALAR_LITERAL else Ok v)"

definition local_at_offset :: "int \<Rightarrow> int \<Rightarrow> int result" where
  "local_at_offset self offset_seconds =
     (let shifted = self + offset_seconds * 1000000
      in if in_i64 shifted
         then map_err (\<lambda>_. E_ARITH) (timestamp_from_epoch_microseconds shifted)
         else Err E_ARITH)"

definition date_at_offset :: "int \<Rightarrow> int \<Rightarrow> int result" where
  "date_at_offset self offset_seconds =
     and_then (local_at_offset self offset_seconds) (\<lambda>loc.
       map_err (\<lambda>_. E_ARITH) (date_from_epoch_days (loc div DAY_MICROS)))"

fun unit_size :: "timestamp_unit \<Rightarrow> int" where
  "unit_size Hour = 3600000000"
| "unit_size Minute = 60000000"
| "unit_size Second = 1000000"
| "unit_size Millisecond = 1000"
| "unit_size Microsecond = 1"
| "unit_size _ = DAY_MICROS"

definition truncate_start :: "timestamp_unit \<Rightarrow> int \<Rightarrow> int" where
  "truncate_start unit loc =
     (let days = loc div DAY_MICROS;
          (year, month, _) = date_components days
      in case unit of
           Year \<Rightarrow> (year_days year - EPOCH_DAYS) * DAY_MICROS
         | Month \<Rightarrow> (year_days year - EPOCH_DAYS + months_before year month) * DAY_MICROS
         | Week \<Rightarrow> (days - (days + 3) mod 7) * DAY_MICROS
         | _ \<Rightarrow> loc div unit_size unit * unit_size unit)"

definition truncate_at_offset :: "int \<Rightarrow> timestamp_unit \<Rightarrow> int \<Rightarrow> int result" where
  "truncate_at_offset self unit offset_seconds =
     and_then (local_at_offset self offset_seconds) (\<lambda>loc.
       let utc = truncate_start unit loc - offset_seconds * 1000000
       in if in_i64 utc then map_err (\<lambda>_. E_ARITH) (timestamp_from_epoch_microseconds utc)
          else Err E_ARITH)"

text \<open>The fraction loop: up to six digits count, later ones must be zero.\<close>

fun fraction_loop :: "nat \<Rightarrow> int \<Rightarrow> string \<Rightarrow> (int \<times> nat \<times> string) result" where
  "fraction_loop n micros [] = Ok (micros, n, [])"
| "fraction_loop n micros (b # bs) =
     (if \<not> is_ascii_digit b then Ok (micros, n, b # bs)
      else if n < 6 then fraction_loop (n + 1) (micros * 10 + int (digit_val b)) bs
      else if digit_val b \<noteq> 0 then Err E_SCALAR_LITERAL
      else fraction_loop (n + 1) micros bs)"

text \<open>The fraction and the offset: what follows the seconds.\<close>

definition parse_fraction :: "string \<Rightarrow> (int \<times> string) result" where
  "parse_fraction rest =
     (if rest \<noteq> [] \<and> hd rest = CHR ''.''
      then and_then (fraction_loop 0 0 (tl rest)) (\<lambda>(micros, n, offset).
             if n = 0 then Err E_SCALAR_LITERAL else Ok (micros * 10 ^ (6 - n), offset))
      else Ok (0, rest))"

definition timestamp_from_str :: "string \<Rightarrow> int result" where
  "timestamp_from_str source =
     (if length source < 20 \<or> \<not> list_all (\<lambda>c. (of_char c :: nat) < 128) source
         \<or> \<not> (source ! 10 = CHR ''T'' \<or> source ! 10 = CHR ''t'')
         \<or> source ! 13 \<noteq> CHR '':'' \<or> source ! 16 \<noteq> CHR '':''
      then Err E_SCALAR_LITERAL
      else and_then (date_from_str (take 10 source)) (\<lambda>date.
        and_then (parse_digits (take 2 (drop 11 source))) (\<lambda>hour.
          and_then (parse_digits (take 2 (drop 14 source))) (\<lambda>minute.
            and_then (parse_digits (take 2 (drop 17 source))) (\<lambda>second.
              if hour > 23 \<or> minute > 59 \<or> second > 59 then Err E_SCALAR_LITERAL
              else and_then (parse_fraction (drop 19 source)) (\<lambda>(micros, offset).
                and_then (fixed_offset_seconds offset) (\<lambda>offset_seconds.
                  timestamp_from_epoch_microseconds
                    (date * DAY_MICROS
                     + (hour * 3600 + minute * 60 + second - offset_seconds) * 1000000
                     + micros))))))))"

text \<open>\<open>trim_end_matches('0')\<close>\<close>

definition trim_zeros :: "string \<Rightarrow> string" where
  "trim_zeros s = rev (dropWhile (\<lambda>c. c = CHR ''0'') (rev s))"

definition timestamp_display :: "int \<Rightarrow> string" where
  "timestamp_display self =
     (let date = self div DAY_MICROS;
          remainder = self mod DAY_MICROS;
          seconds = remainder div 1000000;
          fraction = remainder mod 1000000
      in date_display date @ ''T'' @ show_padded 2 (nat (seconds div 3600)) @ '':''
         @ show_padded 2 (nat (seconds div 60 mod 60)) @ '':''
         @ show_padded 2 (nat (seconds mod 60))
         @ (if fraction \<noteq> 0 then ''.'' @ trim_zeros (show_padded 6 (nat fraction)) else [])
         @ ''Z'')"

section \<open>The calendar is consistent\<close>

definition year_length :: "int \<Rightarrow> int" where
  "year_length year = (if leap year then 366 else 365)"

lemma div_succ_diff:
  assumes "(0::int) < k"
  shows "y div k - (y - 1) div k = (if y mod k = 0 then 1 else 0)"
proof (cases "y mod k = 0")
  case True
  then obtain c where y: "y = k * c" by (auto elim!: dvdE simp flip: dvd_eq_mod_eq_0)
  have "(y - 1) div k = c - 1"
    using assms by (intro int_div_pos_eq [of _ _ _ "k - 1"]) (auto simp: y algebra_simps)
  with True assms show ?thesis by (simp add: y)
next
  case False
  have "(y - 1) div k = y div k"
    using assms False pos_mod_bound [OF assms, of y] pos_mod_sign [OF assms, of y]
    by (intro int_div_pos_eq [of _ _ _ "y mod k - 1"]) (auto simp: algebra_simps)
  with False show ?thesis by simp
qed

lemma year_days_Suc: "year_days (y + 1) = year_days y + year_length y"
proof -
  have step: "y div k = (y - 1) div k + (if y mod k = 0 then 1 else 0)" if "0 < k" for k
    using div_succ_diff [OF that, of y] by (simp only: diff_eq_eq add.commute)
  define p q r where "p = (y mod 4 = 0)" and "q = (y mod 100 = 0)" and "r = (y mod 400 = 0)"
  define a b c where "a = (y - 1) div 4" and "b = (y - 1) div 100" and "c = (y - 1) div 400"
  have imp: "q \<longrightarrow> p" "r \<longrightarrow> q"
    using mod_mod_cancel [of 4 100 y] mod_mod_cancel [of 100 400 y] unfolding p_def q_def r_def by auto
  have "y div 4 = a + (if p then 1 else 0)" "y div 100 = b + (if q then 1 else 0)"
    "y div 400 = c + (if r then 1 else 0)"
    unfolding a_def b_def c_def p_def q_def r_def by (rule step; simp)+
  then have "year_days (y + 1) = y * 365 + (a + (if p then 1 else 0))
      - (b + (if q then 1 else 0)) + (c + (if r then 1 else 0))"
    by (simp only: year_days_def Let_def add_diff_cancel_right')
  moreover have "year_days y = (y - 1) * 365 + a - b + c"
    by (simp only: year_days_def Let_def a_def b_def c_def)
  moreover have "year_length y = (if p \<and> (\<not> q \<or> r) then 366 else 365)"
    by (simp only: year_length_def leap_def p_def q_def r_def)
  ultimately show ?thesis using imp by (cases p; cases q; cases r; simp)
qed

lemma year_length_pos: "365 \<le> year_length y"
  by (simp add: year_length_def)

lemma year_days_strict_mono: "y < z \<Longrightarrow> year_days y + year_length y \<le> year_days z"
proof (induction z rule: int_gr_induct)
  case base
  then show ?case by (simp add: year_days_Suc)
next
  case (step z)
  then show ?case using year_length_pos [of z] by (simp add: year_days_Suc)
qed

lemma year_days_mono: "y \<le> z \<Longrightarrow> year_days y \<le> year_days z"
  using year_days_strict_mono [of y z] year_length_pos [of y] by (cases "y = z") auto

lemma year_of_day_unique:
  assumes "year_days y \<le> n" "n < year_days y + year_length y"
    and "year_days z \<le> n" "n < year_days z + year_length z"
  shows "y = z"
  using assms year_days_strict_mono [of y z] year_days_strict_mono [of z y]
  by (cases y z rule: linorder_cases) auto

lemma year_search_correct:
  assumes "low < high" "year_days low \<le> days" "days < year_days high"
  shows "low \<le> year_search days low high \<and> year_search days low high < high \<and>
         year_days (year_search days low high) \<le> days \<and>
         days < year_days (year_search days low high) + year_length (year_search days low high)"
  using assms
proof (induction days low high rule: year_search.induct)
  case (1 days low high)
  show ?case
  proof (cases "low + 1 < high")
    case True
    define mid where "mid = (low + high) div 2"
    have mid: "low < mid" "mid < high" using True by (auto simp: mid_def)
    have eq: "year_search days low high =
        (if year_days mid \<le> days then year_search days mid high else year_search days low mid)"
      using True by (subst year_search.simps) (simp add: Let_def mid_def)
    show ?thesis
    proof (cases "year_days mid \<le> days")
      case le: True
      with 1(1) [OF True mid_def] 1(5) mid show ?thesis by (simp add: eq)
    next
      case le: False
      with 1(2) [OF True mid_def] 1(4) mid show ?thesis by (simp add: eq)
    qed
  next
    case False
    with 1 have "high = low + 1" by simp
    moreover have "year_search days low high = low" using False by (subst year_search.simps) simp
    ultimately show ?thesis using 1 by (simp add: year_days_Suc)
  qed
qed

lemma months_before_Suc: "1 \<le> m \<Longrightarrow> months_before y (Suc m) = months_before y m + month_days y m"
  by (simp add: months_before_def)

lemma months_before_1 [simp]: "months_before y (Suc 0) = 0" "months_before y 1 = 0"
  by (simp_all add: months_before_def)

lemma months_before_13: "months_before y 13 = year_length y"
  by (simp add: months_before_def month_days_def year_length_def upt_rec)

lemma months_before_strict_mono:
  assumes "1 \<le> m" "m < k"
  shows "months_before y m + month_days y m \<le> months_before y k"
proof -
  have "Suc m \<le> k \<Longrightarrow> months_before y (Suc m) \<le> months_before y k"
  proof (induction k rule: dec_induct)
    case (step k)
    then show ?case using assms(1) month_days_pos [of y k] by (simp add: months_before_Suc)
  qed simp
  with assms show ?thesis by (simp add: months_before_Suc)
qed

lemma month_of_day_unique:
  assumes "1 \<le> m" "months_before y m \<le> n" "n < months_before y m + month_days y m"
    and "1 \<le> k" "months_before y k \<le> n" "n < months_before y k + month_days y k"
  shows "m = k"
  using assms months_before_strict_mono [of m k y] months_before_strict_mono [of k m y]
  by (cases m k rule: linorder_cases) auto

lemma month_search_correct:
  assumes "1 \<le> month" "0 \<le> r" "month_search year month r = (m, r')"
  shows "month \<le> m \<and> 0 \<le> r' \<and> r' < month_days year m \<and>
         months_before year m + r' = months_before year month + r"
  using assms
proof (induction year month r rule: month_search.induct)
  case (1 year month r)
  show ?case
  proof (cases "month_days year month \<le> r")
    case True
    then have "month_search year (month + 1) (r - month_days year month) = (m, r')"
      using 1(4) by (subst (asm) month_search.simps) simp
    with 1(1) [OF True] True 1(2) show ?thesis by (simp add: months_before_Suc)
  next
    case False
    with 1(4) have "m = month" "r' = r" by (subst (asm) month_search.simps; simp)+
    with False 1(3) show ?thesis by simp
  qed
qed

section \<open>Civil dates\<close>

definition date_ok :: "int \<Rightarrow> bool" where
  "date_ok n \<longleftrightarrow> MIN_DAYS \<le> n \<and> n \<le> MAX_DAYS"

definition civil_ok :: "int \<Rightarrow> nat \<Rightarrow> nat \<Rightarrow> bool" where
  "civil_ok y m d \<longleftrightarrow>
     1 \<le> y \<and> y \<le> 9999 \<and> 1 \<le> m \<and> m \<le> 12 \<and> 1 \<le> d \<and> int d \<le> month_days y m"

definition days_of_civil :: "int \<Rightarrow> nat \<Rightarrow> nat \<Rightarrow> int" where
  "days_of_civil y m d = year_days y + months_before y m + int d - 1 - EPOCH_DAYS"

lemma year_days_bounds: "year_days 1 = 0" "year_days 10000 = 3652059"
  by (simp_all add: year_days_def)

lemma date_ok_iff: "date_ok n \<longleftrightarrow> 0 \<le> n + EPOCH_DAYS \<and> n + EPOCH_DAYS < 3652059"
  by (auto simp: date_ok_def MIN_DAYS_def MAX_DAYS_def EPOCH_DAYS_def)

lemma date_from_epoch_days_iff: "date_from_epoch_days n = Ok k \<longleftrightarrow> date_ok n \<and> k = n"
  by (auto simp: date_from_epoch_days_def date_ok_def)

lemma date_components_sound:
  assumes "date_ok n" and c: "date_components n = (y, m, d)"
  shows "civil_ok y m d" and "days_of_civil y m d = n"
proof -
  define days where "days = n + EPOCH_DAYS"
  have range: "year_days 1 \<le> days" "days < year_days 10000"
    using assms(1) by (auto simp: days_def date_ok_iff year_days_bounds)
  have y: "y = year_search days 1 10000"
    and "(let (k, r) = month_search y 1 (days - year_days y) in (y, k, nat r + 1)) = (y, m, d)"
    using c by (auto simp: date_components_def days_def Let_def split: prod.splits)
  then obtain r where ms: "month_search y 1 (days - year_days y) = (m, r)" and d: "d = nat r + 1"
    by (auto simp: Let_def split: prod.splits)
  have yr: "1 \<le> y" "y < 10000" "year_days y \<le> days" "days < year_days y + year_length y"
    using year_search_correct [OF _ range] y by auto
  have m: "1 \<le> m" "0 \<le> r" "r < month_days y m" "months_before y m + r = days - year_days y"
    using month_search_correct [OF _ _ ms] yr by auto
  have "m \<le> 12"
  proof (rule ccontr)
    assume "\<not> m \<le> 12"
    then have "months_before y 13 \<le> months_before y m"
      using months_before_strict_mono [of 13 m y] month_days_pos [of y 13] by (cases "m = 13") auto
    with m yr show False by (simp add: months_before_13)
  qed
  with yr m show "civil_ok y m d" by (auto simp: civil_ok_def d)
  from m show "days_of_civil y m d = n" by (simp add: days_of_civil_def d days_def)
qed

lemma civil_in_year:
  assumes "civil_ok y m d"
  shows "0 \<le> months_before y m + int d - 1" and "months_before y m + int d - 1 < year_length y"
proof -
  have "0 \<le> months_before y m"
    using assms months_before_strict_mono [of 1 m y] month_days_pos [of y 1]
    by (cases "m = 1") (auto simp: civil_ok_def)
  then show "0 \<le> months_before y m + int d - 1" using assms by (simp add: civil_ok_def)
  have "months_before y m + month_days y m \<le> year_length y"
    using assms months_before_strict_mono [of m 13 y] by (simp add: civil_ok_def months_before_13)
  then show "months_before y m + int d - 1 < year_length y" using assms by (simp add: civil_ok_def)
qed

lemma days_of_civil_ok: "civil_ok y m d \<Longrightarrow> date_ok (days_of_civil y m d)"
  using civil_in_year [of y m d] year_days_mono [of 1 y] year_days_strict_mono [of y 10000]
  by (auto simp: date_ok_iff days_of_civil_def year_days_bounds civil_ok_def)

lemma days_of_civil_inj:
  assumes "civil_ok y m d" "civil_ok y' m' d'" "days_of_civil y m d = days_of_civil y' m' d'"
  shows "y = y' \<and> m = m' \<and> d = d'"
proof -
  have y: "y = y'"
    using civil_in_year [OF assms(1)] civil_in_year [OF assms(2)] assms(3)
    by (intro year_of_day_unique [of _ "days_of_civil y m d + EPOCH_DAYS"])
       (auto simp: days_of_civil_def)
  then have eq: "months_before y m + int d = months_before y m' + int d'"
    using assms(3) by (simp add: days_of_civil_def)
  have "m = m'"
    using assms(1,2) y eq
    by (intro month_of_day_unique [of _ y "months_before y m + int d - 1"]) (auto simp: civil_ok_def)
  with y eq show ?thesis by simp
qed

lemma date_components_complete:
  assumes "civil_ok y m d"
  shows "date_components (days_of_civil y m d) = (y, m, d)"
proof -
  obtain y' m' d' where c: "date_components (days_of_civil y m d) = (y', m', d')"
    using prod_cases3 by blast
  from date_components_sound [OF days_of_civil_ok [OF assms] c] days_of_civil_inj [of y' m' d' y m d] assms
  show ?thesis using c by simp
qed

section \<open>Round trips\<close>

lemma parse_digits_padded: "n < 10 ^ w \<Longrightarrow> 0 < w \<Longrightarrow> parse_digits (show_padded w n) = Ok (int n)"
  by (simp add: parse_digits_def show_padded_digits)

lemma month_days_le: "month_days y m \<le> 31"
  by (simp add: month_days_def)

text \<open>The three fields of a displayed date, at fixed positions.\<close>

lemma date_display_fields:
  assumes "date_ok n" and "date_components n = (y, m, d)"
  shows "date_display n = show_padded 4 (nat y) @ CHR ''-'' # show_padded 2 m @ CHR ''-'' # show_padded 2 d"
    and "length (show_padded 4 (nat y)) = 4" "length (show_padded 2 m) = 2" "length (show_padded 2 d) = 2"
    and "nat y < 10 ^ 4" "m < 10 ^ 2" "d < 10 ^ 2"
proof -
  have c: "civil_ok y m d" using date_components_sound [OF assms] by simp
  then show "nat y < 10 ^ 4" "m < 10 ^ 2" "d < 10 ^ 2"
    using month_days_le [of y m] by (auto simp: civil_ok_def)
  then show "length (show_padded 4 (nat y)) = 4" "length (show_padded 2 m) = 2" "length (show_padded 2 d) = 2"
    by (simp_all add: length_show_padded)
qed (simp add: date_display_def assms(2))

lemma date_display_length: "date_ok n \<Longrightarrow> length (date_display n) = 10"
  using date_display_fields [of n] by (cases "date_components n") auto

lemma date_from_str_display:
  assumes "date_ok n"
  shows "date_from_str (date_display n) = Ok n"
proof -
  obtain y m d where c: "date_components n = (y, m, d)" using prod_cases3 by blast
  note f = date_display_fields [OF assms c]
  note s = date_components_sound [OF assms c]
  have "date_display n ! 4 = CHR ''-''" "date_display n ! 7 = CHR ''-''"
    using f(2-4) by (simp_all add: f(1) nth_append)
  moreover have "take 4 (date_display n) = show_padded 4 (nat y)"
    "take 2 (drop 5 (date_display n)) = show_padded 2 m" "drop 8 (date_display n) = show_padded 2 d"
    using f(2-4) by (simp_all add: f(1))
  ultimately show ?thesis
    using s f(5-7) date_display_length [OF assms] assms
    by (simp add: date_from_str_def parse_digits_padded civil_ok_def date_from_epoch_days_iff days_of_civil_def)
qed

text \<open>Durations.\<close>

lemma UNITS_entry:
  assumes "(u, sz) \<in> set UNITS"
  shows "find (\<lambda>x. fst x = u) UNITS = Some (u, sz)" and "0 < sz"
    and "strip_plural (u @ ''s'') = u" and "strip_plural u = u"
    and "u \<noteq> []" and "\<not> is_ascii_digit (hd u)"
proof -
  have "list_all (\<lambda>(u, sz). find (\<lambda>x. fst x = u) UNITS = Some (u, sz) \<and> 0 < sz \<and>
          strip_plural (u @ ''s'') = u \<and> strip_plural u = u \<and> u \<noteq> [] \<and> \<not> is_ascii_digit (hd u)) UNITS"
    by code_simp
  with assms show "find (\<lambda>x. fst x = u) UNITS = Some (u, sz)" and "0 < sz"
    and "strip_plural (u @ ''s'') = u" and "strip_plural u = u"
    and "u \<noteq> []" and "\<not> is_ascii_digit (hd u)"
    by (auto simp: list_all_iff)
qed

lemma duration_parse_form:
  assumes "(u, sz) \<in> set UNITS" and "in_i64 a" and "in_i64 (a * sz)" and "sfx = [] \<or> sfx = ''s''"
  shows "duration_from_str (show_int a @ u @ sfx) = Ok (a * sz)"
proof -
  note un = UNITS_entry [OF assms(1)]
  have tw: "takeWhile is_ascii_digit (show_nat n @ u @ sfx) = show_nat n"
      "dropWhile is_ascii_digit (show_nat n @ u @ sfx) = u @ sfx" for n
    using takeWhile_digits [OF show_nat_digits, of "u @ sfx" n] un(5,6) by auto
  have pl: "strip_plural (u @ sfx) = u" using assms(4) un(3,4) by auto
  show ?thesis
    using show_nat_hd [of "CHR ''-''" "nat a" "u @ sfx"] assms(2,3)
    by (cases "a < 0")
       (simp_all add: duration_from_str_def show_int_def Let_def tw pl un(1) parse_i64_def)
qed

lemma duration_from_str_display:
  assumes "in_i64 n"
  shows "duration_from_str (duration_display n) = Ok n"
proof (cases "n = 0")
  case True
  have "duration_from_str (show_int 0 @ ''microsecond'' @ ''s'') = Ok (0 * 1)"
    by (rule duration_parse_form) (auto simp: UNITS_def in_i64_def)
  moreover have "show_int 0 = ''0''" by code_simp
  ultimately show ?thesis using True by (simp add: duration_display_def)
next
  case False
  have "find (\<lambda>x. snd x dvd n) UNITS \<noteq> None"
    by (auto simp: find_None_iff UNITS_def)
  then obtain u sz where f: "find (\<lambda>x. snd x dvd n) UNITS = Some (u, sz)" by auto
  then have m: "(u, sz) \<in> set UNITS" "sz dvd n"
    unfolding find_Some_iff by (metis nth_mem, metis snd_conv)
  define a where "a = n div sz"
  have n: "n = a * sz" using m(2) by (simp add: a_def)
  have sz: "1 \<le> sz" using UNITS_entry(2) [OF m(1)] by simp
  have "\<bar>a\<bar> \<le> \<bar>n\<bar>" using sz mult_left_mono [of 1 sz "\<bar>a\<bar>"] by (simp add: n abs_mult)
  moreover have "a < 0 \<longleftrightarrow> n < 0" using sz by (auto simp: n mult_less_0_iff)
  ultimately have "in_i64 a" using assms by (auto simp: in_i64_def)
  then show ?thesis
    using duration_parse_form [OF m(1), of a] assms False
    by (auto simp: duration_display_def f Let_def a_def [symmetric] n [symmetric])
qed

text \<open>Timestamps.\<close>

lemma fraction_loop_digits:
  assumes "list_all is_ascii_digit ds" and "n + length ds \<le> 6" and "t = [] \<or> \<not> is_ascii_digit (hd t)"
  shows "fraction_loop n k (ds @ t) = Ok (k * 10 ^ length ds + int (digits_val ds), n + length ds, t)"
  using assms
proof (induction ds arbitrary: n k)
  case Nil
  then show ?case by (cases t) auto
next
  case (Cons b ds)
  have "digits_val (b # ds) = digit_val b * 10 ^ length ds + digits_val ds"
    using digits_val_append [of "[b]" ds] digits_val_snoc [of "[]" b] by simp
  with Cons show ?case by (simp add: algebra_simps)
qed

lemma trim_zeros_append: "\<exists>k. s = trim_zeros s @ replicate k CHR ''0''"
proof -
  let ?P = "\<lambda>c. c = CHR ''0''"
  have "takeWhile ?P (rev s) = replicate (length (takeWhile ?P (rev s))) CHR ''0''"
    by (rule replicate_length_same [symmetric]) (auto dest: set_takeWhileD)
  moreover have "s = rev (dropWhile ?P (rev s)) @ rev (takeWhile ?P (rev s))"
    by (metis rev_append rev_rev_ident takeWhile_dropWhile_id)
  ultimately show ?thesis unfolding trim_zeros_def by (metis rev_replicate)
qed

lemma parse_fraction_display:
  assumes "0 < fr" "fr < 1000000"
  shows "parse_fraction (CHR ''.'' # trim_zeros (show_padded 6 (nat fr)) @ ''Z'') = Ok (fr, ''Z'')"
proof -
  let ?s = "show_padded 6 (nat fr)" and ?t = "trim_zeros (show_padded 6 (nat fr))"
  obtain k where k: "?s = ?t @ replicate k CHR ''0''" using trim_zeros_append by blast
  have len: "length ?s = 6" using assms by (intro length_show_padded) auto
  then have lt: "length ?t + k = 6" using arg_cong [OF k, of length] by simp
  have dig: "list_all is_ascii_digit ?t"
    using show_padded_digits [of 6 "nat fr"] k by (metis list_all_append)
  have "digits_val ?s = digits_val ?t * 10 ^ k"
    using arg_cong [OF k, of digits_val] by (simp add: digits_val_append)
  then have "nat fr = digits_val ?t * 10 ^ k" by simp
  then have v: "fr = int (digits_val ?t) * 10 ^ k"
    using assms by (metis less_le nat_0_le of_nat_mult of_nat_numeral of_nat_power)
  then have "?t \<noteq> []" using assms by auto
  then show ?thesis
    using fraction_loop_digits [OF dig, of 0 "''Z''" 0] lt v
    by (simp add: parse_fraction_def) (metis add_diff_cancel_left')
qed

definition timestamp_ok :: "int \<Rightarrow> bool" where
  "timestamp_ok v \<longleftrightarrow> date_ok (v div DAY_MICROS)"

lemma timestamp_from_epoch_iff:
  "timestamp_from_epoch_microseconds v = Ok k \<longleftrightarrow> timestamp_ok v \<and> k = v"
  by (auto simp: timestamp_from_epoch_microseconds_def timestamp_ok_def date_ok_def Let_def)

lemma DAY_MICROS_pos [simp]: "0 < DAY_MICROS"
  by (simp add: DAY_MICROS_def)

lemma timestamp_ok_i64: "timestamp_ok v \<Longrightarrow> in_i64 v"
proof -
  assume "timestamp_ok v"
  then have b: "-719162 \<le> v div DAY_MICROS" "v div DAY_MICROS \<le> 2932896"
    by (simp_all add: timestamp_ok_def date_ok_def MIN_DAYS_def MAX_DAYS_def EPOCH_DAYS_def)
  have v: "v = v div DAY_MICROS * DAY_MICROS + v mod DAY_MICROS" by simp
  have m: "0 \<le> v mod DAY_MICROS" "v mod DAY_MICROS < DAY_MICROS" by simp_all
  have "-719162 * DAY_MICROS \<le> v div DAY_MICROS * DAY_MICROS"
    "v div DAY_MICROS * DAY_MICROS \<le> 2932896 * DAY_MICROS"
    using b by (intro mult_right_mono; simp add: DAY_MICROS_def)+
  with v m have "-719162 * DAY_MICROS \<le> v" "v < 2932896 * DAY_MICROS + DAY_MICROS" by linarith+
  then show "in_i64 v" by (simp add: in_i64_def DAY_MICROS_def)
qed

lemma ascii_of_digits: "list_all is_ascii_digit s \<Longrightarrow> list_all (\<lambda>c. (of_char c :: nat) < 128) s"
  by (auto simp: list_all_iff is_ascii_digit_def)

lemma date_display_ascii: "list_all (\<lambda>c. (of_char c :: nat) < 128) (date_display n)"
  by (cases "date_components n")
     (simp add: date_display_def ascii_of_digits show_padded_digits)

text \<open>The clock reading of the microseconds of a day.\<close>

lemma clock_split:
  fixes s :: int
  assumes "0 \<le> s" "s < 86400"
  shows "s div 3600 < 24" "s div 60 mod 60 < 60" "s mod 60 < 60"
    and "s div 3600 * 3600 + s div 60 mod 60 * 60 + s mod 60 = s"
proof -
  have "s div 60 div 60 * 60 + s div 60 mod 60 = s div 60" by simp
  moreover have "s div 60 * 60 + s mod 60 = s" by simp
  moreover have "s div 3600 = s div 60 div 60" by (simp add: zdiv_zmult2_eq [symmetric])
  ultimately show "s div 3600 * 3600 + s div 60 mod 60 * 60 + s mod 60 = s" by linarith
qed (use assms in auto)

lemma timestamp_from_str_fields:
  assumes "length ds = 10" "date_from_str ds = Ok date" "list_all (\<lambda>c. (of_char c :: nat) < 128) ds"
    and "h < 24" "m < 60" "s < 60"
    and "parse_fraction (fr @ ''Z'') = Ok (micros, ''Z'')" "list_all (\<lambda>c. (of_char c :: nat) < 128) fr"
  shows "timestamp_from_str (ds @ CHR ''T'' # show_padded 2 h @ CHR '':'' # show_padded 2 m
           @ CHR '':'' # show_padded 2 s @ fr @ ''Z'') =
         timestamp_from_epoch_microseconds
           (date * DAY_MICROS + (int h * 3600 + int m * 60 + int s) * 1000000 + micros)"
proof -
  let ?src = "ds @ CHR ''T'' # show_padded 2 h @ CHR '':'' # show_padded 2 m
           @ CHR '':'' # show_padded 2 s @ fr @ ''Z''"
  have len: "length (show_padded 2 h) = 2" "length (show_padded 2 m) = 2" "length (show_padded 2 s) = 2"
    using assms(4-6) by (simp_all add: length_show_padded)
  have pd: "parse_digits (show_padded 2 h) = Ok (int h)" "parse_digits (show_padded 2 m) = Ok (int m)"
    "parse_digits (show_padded 2 s) = Ok (int s)"
    using assms(4-6) by (simp_all add: parse_digits_padded)
  have asc: "list_all (\<lambda>c. (of_char c :: nat) < 128) ?src"
    using assms(3,8) by (simp add: ascii_of_digits show_padded_digits)
  have "20 \<le> length ?src" "take 10 ?src = ds" "?src ! 10 = CHR ''T''" "?src ! 13 = CHR '':''"
    "?src ! 16 = CHR '':''" "take 2 (drop 11 ?src) = show_padded 2 h"
    "take 2 (drop 14 ?src) = show_padded 2 m" "take 2 (drop 17 ?src) = show_padded 2 s"
    "drop 19 ?src = fr @ ''Z''"
    using assms(1) len by (simp_all add: nth_append)
  then show ?thesis
    unfolding timestamp_from_str_def using asc assms(2,4-7)
    by (simp add: pd fixed_offset_seconds_def)
qed

lemma timestamp_from_str_display:
  assumes "timestamp_ok v"
  shows "timestamp_from_str (timestamp_display v) = Ok v"
proof -
  define date where "date = v div DAY_MICROS"
  define r where "r = v mod DAY_MICROS"
  define secs where "secs = r div 1000000"
  define fr where "fr = r mod 1000000"
  have d: "date_ok date" using assms by (simp add: timestamp_ok_def date_def)
  have r: "0 \<le> r" "r < 86400 * 1000000" by (simp_all add: r_def DAY_MICROS_def)
  then have s: "0 \<le> secs" "secs < 86400" by (auto simp: secs_def)
  have f: "0 \<le> fr" "fr < 1000000" by (simp_all add: fr_def)
  note c = clock_split [OF s]
  define frs where "frs = (if fr \<noteq> 0 then CHR ''.'' # trim_zeros (show_padded 6 (nat fr)) else [])"
  have pf: "parse_fraction (frs @ ''Z'') = Ok (fr, ''Z'')"
    using parse_fraction_display [of fr] f by (auto simp: frs_def) (simp add: parse_fraction_def)
  have "list_all is_ascii_digit (trim_zeros (show_padded 6 (nat fr)))"
    using show_padded_digits [of 6 "nat fr"] trim_zeros_append [of "show_padded 6 (nat fr)"]
    by (metis list_all_append)
  then have asc: "list_all (\<lambda>c. (of_char c :: nat) < 128) frs"
    by (simp add: frs_def ascii_of_digits)
  have disp: "timestamp_display v = date_display date @ CHR ''T'' # show_padded 2 (nat (secs div 3600))
      @ CHR '':'' # show_padded 2 (nat (secs div 60 mod 60)) @ CHR '':'' # show_padded 2 (nat (secs mod 60))
      @ frs @ ''Z''"
    by (simp add: timestamp_display_def Let_def date_def r_def secs_def fr_def frs_def)
  have "timestamp_from_str (timestamp_display v) = timestamp_from_epoch_microseconds
      (date * DAY_MICROS + (int (nat (secs div 3600)) * 3600 + int (nat (secs div 60 mod 60)) * 60
         + int (nat (secs mod 60))) * 1000000 + fr)"
    unfolding disp
    using c(1-3) s(1) by (intro timestamp_from_str_fields date_display_length date_from_str_display
        date_display_ascii d pf asc) auto
  also have "int (nat (secs div 3600)) * 3600 + int (nat (secs div 60 mod 60)) * 60
         + int (nat (secs mod 60)) = secs"
    using s(1) c(4) by (simp add: pos_imp_zdiv_nonneg_iff)
  also have "date * DAY_MICROS + secs * 1000000 + fr = v"
    unfolding date_def secs_def fr_def r_def by (simp add: algebra_simps)
  finally show ?thesis using assms by (simp add: timestamp_from_epoch_iff)
qed

lemma date_from_str_ok: "date_from_str s = Ok n \<Longrightarrow> date_ok n"
  by (auto simp: date_from_str_def result_simps date_from_epoch_days_iff split: if_splits)

lemma timestamp_from_str_ok: "timestamp_from_str s = Ok n \<Longrightarrow> timestamp_ok n"
  by (auto simp: timestamp_from_str_def result_simps timestamp_from_epoch_iff split: if_splits prod.splits)

lemma duration_from_str_ok: "duration_from_str s = Ok n \<Longrightarrow> in_i64 n"
  by (auto simp: duration_from_str_def Let_def result_simps split: if_splits)

interpretation date_text: canonical_text date_ok date_display date_from_str
  by unfold_locales (auto simp: date_from_str_display date_from_str_ok)

interpretation duration_text: canonical_text in_i64 duration_display duration_from_str
  by unfold_locales (auto simp: duration_from_str_display duration_from_str_ok)

interpretation timestamp_text: canonical_text timestamp_ok timestamp_display timestamp_from_str
  by unfold_locales (auto simp: timestamp_from_str_display timestamp_from_str_ok)

section \<open>Truncation\<close>

text \<open>The local instants at which a unit begins.\<close>

definition unit_boundary :: "timestamp_unit \<Rightarrow> int \<Rightarrow> bool" where
  "unit_boundary unit loc \<longleftrightarrow>
     unit_size unit dvd loc \<and>
     (case date_components (loc div DAY_MICROS) of (year, month, day) \<Rightarrow>
        case unit of
          Year \<Rightarrow> month = 1 \<and> day = 1
        | Month \<Rightarrow> day = 1
        | Week \<Rightarrow> (loc div DAY_MICROS + 3) mod 7 = 0
        | _ \<Rightarrow> True)"

lemma civil_start_ok: "civil_ok y m d \<Longrightarrow> civil_ok y m 1 \<and> civil_ok y 1 1"
  by (auto simp: civil_ok_def month_days_def)

lemma days_of_civil_bounds:
  assumes "civil_ok y m d"
  shows "days_of_civil y 1 1 \<le> days_of_civil y m 1" and "days_of_civil y m 1 \<le> days_of_civil y m d"
  using civil_in_year [of y m 1] civil_start_ok [OF assms] assms
  by (auto simp: days_of_civil_def civil_ok_def)

text \<open>Earlier years and months begin earlier.\<close>

lemma year_start_le:
  assumes "civil_ok y m d" "civil_ok y' 1 1" "days_of_civil y' 1 1 \<le> days_of_civil y m d"
  shows "days_of_civil y' 1 1 \<le> days_of_civil y 1 1"
proof -
  have "\<not> y < y'"
    using civil_in_year [OF assms(1)] assms(3) year_days_strict_mono [of y y'] by (auto simp: days_of_civil_def)
  then show ?thesis using year_days_mono [of y' y] by (simp add: days_of_civil_def)
qed

lemma month_start_le:
  assumes "civil_ok y m d" "civil_ok y' m' 1" "days_of_civil y' m' 1 \<le> days_of_civil y m d"
  shows "days_of_civil y' m' 1 \<le> days_of_civil y m 1"
proof (cases y y' rule: linorder_cases)
  case less
  then show ?thesis
    using civil_in_year [OF assms(1)] civil_in_year [OF assms(2)] assms(3) year_days_strict_mono [of y y']
    by (auto simp: days_of_civil_def)
next
  case equal
  have "m' \<le> m"
    using assms equal months_before_strict_mono [of m m' y]
    by (auto simp: days_of_civil_def civil_ok_def not_less [symmetric])
  then show ?thesis
    using equal assms(2) months_before_strict_mono [of m' m y] month_days_pos [of y m']
    by (cases "m' = m") (auto simp: days_of_civil_def civil_ok_def)
next
  case greater
  then show ?thesis
    using civil_in_year [OF assms(2)] civil_in_year [of y m 1] civil_start_ok [OF assms(1)]
      year_days_strict_mono [of y' y]
    by (auto simp: days_of_civil_def)
qed

lemma times_le_iff_le_div:
  assumes "0 < (k::int)"
  shows "n * k \<le> loc \<longleftrightarrow> n \<le> loc div k"
proof
  assume "n * k \<le> loc"
  then have "n * k div k \<le> loc div k" using assms by (rule zdiv_mono1)
  then show "n \<le> loc div k" using assms by simp
next
  assume "n \<le> loc div k"
  then have "n * k \<le> loc div k * k" using assms by (simp add: mult_right_mono)
  also have "\<dots> \<le> loc" using minus_mod_eq_div_mult [of loc k] pos_mod_sign [OF assms, of loc] by linarith
  finally show "n * k \<le> loc" .
qed

lemma fixed_unit_boundary:
  assumes "unit \<notin> {Year, Month, Week}"
  shows "unit_boundary unit loc \<longleftrightarrow> unit_size unit dvd loc"
  using assms by (cases unit) (auto simp: unit_boundary_def split: prod.splits)

lemma unit_size_pos: "0 < unit_size unit"
  by (cases unit) auto

lemma fixed_truncate:
  assumes "unit \<notin> {Year, Month, Week}"
  shows "truncate_start unit loc = loc div unit_size unit * unit_size unit"
  using assms by (cases unit) (auto simp: truncate_start_def Let_def split: prod.splits)

text \<open>The greatest boundary of the unit that is not after the instant.\<close>

lemma truncate_start_fixed:
  assumes "unit \<notin> {Year, Month, Week}"
  shows "unit_boundary unit (truncate_start unit loc)" and "truncate_start unit loc \<le> loc"
    and "unit_boundary unit l \<Longrightarrow> l \<le> loc \<Longrightarrow> l \<le> truncate_start unit loc"
proof -
  show "unit_boundary unit (truncate_start unit loc)"
    by (simp add: fixed_unit_boundary [OF assms] fixed_truncate [OF assms])
  show "truncate_start unit loc \<le> loc"
    using times_le_iff_le_div [OF unit_size_pos] by (simp add: fixed_truncate [OF assms])
  assume "unit_boundary unit l" "l \<le> loc"
  then obtain n where "l = n * unit_size unit"
    unfolding fixed_unit_boundary [OF assms] by (metis dvd_div_mult_self)
  then show "l \<le> truncate_start unit loc"
    using times_le_iff_le_div [OF unit_size_pos, of n unit loc] \<open>l \<le> loc\<close> unit_size_pos [of unit]
    by (simp add: fixed_truncate [OF assms] mult_right_mono)
qed

text \<open>Units of whole days: the day on which the unit begins.\<close>

definition start_day :: "timestamp_unit \<Rightarrow> int \<Rightarrow> int" where
  "start_day unit n =
     (case date_components n of (year, month, _) \<Rightarrow>
        case unit of
          Year \<Rightarrow> days_of_civil year 1 1
        | Month \<Rightarrow> days_of_civil year month 1
        | _ \<Rightarrow> n - (n + 3) mod 7)"

definition day_boundary :: "timestamp_unit \<Rightarrow> int \<Rightarrow> bool" where
  "day_boundary unit n \<longleftrightarrow>
     (case date_components n of (year, month, day) \<Rightarrow>
        case unit of
          Year \<Rightarrow> month = 1 \<and> day = 1
        | Month \<Rightarrow> day = 1
        | _ \<Rightarrow> (n + 3) mod 7 = 0)"

lemma day_truncate:
  assumes "unit \<in> {Year, Month, Week}"
  shows "truncate_start unit loc = start_day unit (loc div DAY_MICROS) * DAY_MICROS"
    and "unit_boundary unit l \<longleftrightarrow> DAY_MICROS dvd l \<and> day_boundary unit (l div DAY_MICROS)"
  using assms
  by (auto simp: truncate_start_def start_day_def unit_boundary_def day_boundary_def
      days_of_civil_def Let_def split: prod.splits)

lemma start_day_correct:
  assumes "unit \<in> {Year, Month, Week}" and "date_ok n"
  shows "date_ok (start_day unit n)" and "day_boundary unit (start_day unit n)"
    and "start_day unit n \<le> n"
    and "date_ok k \<Longrightarrow> day_boundary unit k \<Longrightarrow> k \<le> n \<Longrightarrow> k \<le> start_day unit n"
proof -
  obtain y m d where c: "date_components n = (y, m, d)" using prod_cases3 by blast
  note s = date_components_sound [OF assms(2) c]
  note st = civil_start_ok [OF s(1)]
  note b = days_of_civil_bounds [OF s(1)]
  have week: "0 \<le> (n + 3) mod 7" "(n + 3) mod 7 < 7" by simp_all
  have week0: "(n - (n + 3) mod 7 + 3) mod 7 = 0"
    by (metis add_diff_eq diff_add_eq minus_mod_eq_mult_div mod_mult_self1_is_0)
  have min: "(MIN_DAYS + 3) mod 7 = 0" by (simp add: MIN_DAYS_def EPOCH_DAYS_def)
  have weekmax: "k \<le> n - (n + 3) mod 7" if "(k + 3) mod 7 = 0" "k \<le> n" for k
  proof -
    from that(1) obtain q where q: "k + 3 = q * 7" by (auto elim!: dvdE simp flip: dvd_eq_mod_eq_0)
    with that(2) have "q \<le> (n + 3) div 7" using times_le_iff_le_div [of 7 q "n + 3"] by simp
    then show ?thesis using q minus_mod_eq_div_mult [of "n + 3" 7] by linarith
  qed
  show "start_day unit n \<le> n"
    using assms(1) b s(2) week by (auto simp: start_day_def c)
  show "date_ok (start_day unit n)"
    using assms st days_of_civil_ok weekmax [OF min] week
    by (auto simp: start_day_def c date_ok_def)
  show "day_boundary unit (start_day unit n)"
    using assms(1) st week0
    by (auto simp: day_boundary_def start_day_def c date_components_complete split: prod.splits)
  assume k: "date_ok k" "day_boundary unit k" "k \<le> n"
  obtain y' m' d' where c': "date_components k = (y', m', d')" using prod_cases3 by blast
  note s' = date_components_sound [OF k(1) c']
  show "k \<le> start_day unit n"
    using assms(1) k(2,3) s s' weekmax year_start_le [OF s(1), of y'] month_start_le [OF s(1), of y' m']
    by (auto simp: day_boundary_def start_day_def c c')
qed

lemma truncate_start_correct:
  assumes "timestamp_ok loc"
  shows "unit_boundary unit (truncate_start unit loc)" and "truncate_start unit loc \<le> loc"
    and "timestamp_ok (truncate_start unit loc)"
    and "timestamp_ok l \<Longrightarrow> unit_boundary unit l \<Longrightarrow> l \<le> loc \<Longrightarrow> l \<le> truncate_start unit loc"
proof -
  have *: "unit_boundary unit (truncate_start unit loc) \<and> truncate_start unit loc \<le> loc \<and>
      timestamp_ok (truncate_start unit loc) \<and>
      (timestamp_ok l \<longrightarrow> unit_boundary unit l \<longrightarrow> l \<le> loc \<longrightarrow> l \<le> truncate_start unit loc)"
  proof (cases "unit \<in> {Year, Month, Week}")
    case True
    note d = start_day_correct [OF True assms [unfolded timestamp_ok_def]]
    have "l div DAY_MICROS \<le> start_day unit (loc div DAY_MICROS)"
      if "timestamp_ok l" "day_boundary unit (l div DAY_MICROS)" "l \<le> loc"
      using d(4) that by (simp add: timestamp_ok_def zdiv_mono1)
    then have "l \<le> start_day unit (loc div DAY_MICROS) * DAY_MICROS"
      if "timestamp_ok l" "DAY_MICROS dvd l" "day_boundary unit (l div DAY_MICROS)" "l \<le> loc"
      using that mult_right_mono [of "l div DAY_MICROS" _ DAY_MICROS] by fastforce
    moreover have "k * DAY_MICROS div DAY_MICROS = k" for k
      by (rule nonzero_mult_div_cancel_right) (simp add: DAY_MICROS_def)
    ultimately show ?thesis
      using d(1-3) unfolding day_truncate [OF True]
      by (simp add: timestamp_ok_def times_le_iff_le_div)
  next
    case False
    have "unit_size unit dvd DAY_MICROS" using False by (cases unit) (auto simp: DAY_MICROS_def)
    then obtain q where q: "DAY_MICROS = q * unit_size unit" by (metis dvd_div_mult_self)
    have "unit_size unit dvd loc div DAY_MICROS * DAY_MICROS"
      by (subst (2) q) simp
    then have "loc div DAY_MICROS * DAY_MICROS \<le> truncate_start unit loc"
      using times_le_iff_le_div [of DAY_MICROS "loc div DAY_MICROS" loc]
      by (intro truncate_start_fixed(3) [OF False]) (simp_all add: fixed_unit_boundary [OF False])
    then have "loc div DAY_MICROS \<le> truncate_start unit loc div DAY_MICROS"
      by (simp add: times_le_iff_le_div)
    moreover have "truncate_start unit loc div DAY_MICROS \<le> loc div DAY_MICROS"
      using truncate_start_fixed(2) [OF False] by (simp add: zdiv_mono1)
    ultimately have "truncate_start unit loc div DAY_MICROS = loc div DAY_MICROS" by simp
    then show ?thesis using truncate_start_fixed [OF False] assms by (auto simp: timestamp_ok_def)
  qed
  show "unit_boundary unit (truncate_start unit loc)" "truncate_start unit loc \<le> loc"
    "timestamp_ok (truncate_start unit loc)"
    "timestamp_ok l \<Longrightarrow> unit_boundary unit l \<Longrightarrow> l \<le> loc \<Longrightarrow> l \<le> truncate_start unit loc"
    using * by blast+
qed

lemma local_at_offset_iff:
  "local_at_offset v off = Ok loc \<longleftrightarrow> loc = v + off * 1000000 \<and> timestamp_ok loc"
  using timestamp_ok_i64
  by (auto simp: local_at_offset_def Let_def map_err_Ok_iff timestamp_from_epoch_iff)

lemma truncate_at_offset_iff:
  "truncate_at_offset v unit off = Ok t \<longleftrightarrow>
   timestamp_ok (v + off * 1000000) \<and> timestamp_ok t \<and>
   t + off * 1000000 = truncate_start unit (v + off * 1000000)"
proof -
  have "t + off * 1000000 = s \<longleftrightarrow> t = s - off * 1000000" for s by auto
  then show ?thesis
    using timestamp_ok_i64
    by (auto simp: truncate_at_offset_def Let_def and_then_Ok_iff local_at_offset_iff map_err_Ok_iff
        timestamp_from_epoch_iff)
qed

section \<open>Properties\<close>

text \<open>
  (C24) The civil calendar is exact: for every day of the years 0001 to 9999, the binary search
  and the month loop of \<open>components\<close> return a valid Gregorian date whose day number, as
  \<open>FromStr\<close> computes it, is the day itself, and every valid date is returned for its day.
\<close>

theorem calendar_bijection:
  "(date_ok n \<longrightarrow> (case date_components n of (y, m, d) \<Rightarrow> civil_ok y m d \<and> days_of_civil y m d = n)) \<and>
   (civil_ok y m d \<longrightarrow> date_ok (days_of_civil y m d) \<and>
      date_components (days_of_civil y m d) = (y, m, d))"
  using date_components_sound [of n] date_components_complete [of y m d] days_of_civil_ok [of y m d]
  by (auto split: prod.splits)

theorem calendar_bijection_witness:
  "date_ok 19782 \<and> date_components 19782 = (2024, 2, 29) \<and> civil_ok 2024 2 29 \<and>
   days_of_civil 2024 2 29 = 19782"
proof -
  have ok: "date_ok 19782" by code_simp
  have c: "date_components 19782 = (2024, 2, 29)" by code_simp
  show ?thesis
    using calendar_bijection [of 19782 2024 2 29] ok c by simp
qed

text \<open>
  (C25) Every temporal value is read back from its text form: dates as \<open>YYYY-MM-DD\<close>,
  durations as an amount of the largest exact unit, timestamps as RFC 3339 in UTC with
  the trailing zeros of the fraction removed.
\<close>

theorem temporal_text_roundtrip:
  "(date_ok n \<longrightarrow> date_from_str (date_display n) = Ok n) \<and>
   (in_i64 n \<longrightarrow> duration_from_str (duration_display n) = Ok n) \<and>
   (timestamp_ok n \<longrightarrow> timestamp_from_str (timestamp_display n) = Ok n)"
  by (simp add: date_text.parse_display duration_text.parse_display timestamp_text.parse_display)

theorem temporal_text_roundtrip_witness:
  "date_from_str (date_display 19782) = Ok 19782 \<and>
   duration_from_str (duration_display 172800000000) = Ok 172800000000 \<and>
   duration_display 172800000000 = ''2days'' \<and>
   timestamp_from_str (timestamp_display 1000000) = Ok 1000000 \<and>
   timestamp_display 1000000 = ''1970-01-01T00:00:01Z''"
proof -
  have "date_ok 19782" "in_i64 172800000000" "timestamp_ok 1000000" by code_simp+
  moreover have "duration_display 172800000000 = ''2days''"
    "timestamp_display 1000000 = ''1970-01-01T00:00:01Z''" by code_simp+
  ultimately show ?thesis
    using temporal_text_roundtrip [of 19782] temporal_text_roundtrip [of 172800000000]
      temporal_text_roundtrip [of 1000000] by simp
qed

text \<open>
  (C28) Truncating a timestamp to a unit at a fixed offset returns the greatest instant, not after
  the timestamp, at which the unit begins in local time (first day of the year or month,
  Monday, or a multiple of the unit); truncating again changes nothing, and the only
  failure is a local or resulting instant outside the years 0001 to 9999.
\<close>

theorem truncate_correct:
  "(truncate_at_offset v unit off = Ok t \<longrightarrow>
      t \<le> v \<and> timestamp_ok t \<and> unit_boundary unit (t + off * 1000000) \<and>
      (\<forall>u. timestamp_ok (u + off * 1000000) \<and> unit_boundary unit (u + off * 1000000) \<and> u \<le> v
           \<longrightarrow> u \<le> t) \<and>
      truncate_at_offset t unit off = Ok t) \<and>
   (\<not> is_ok (truncate_at_offset v unit off) \<longleftrightarrow>
      \<not> timestamp_ok (v + off * 1000000) \<or>
      \<not> timestamp_ok (truncate_start unit (v + off * 1000000) - off * 1000000))"
proof -
  have "truncate_start unit loc = loc" if "timestamp_ok loc" "unit_boundary unit loc" for loc
    using truncate_start_correct(2,4) [OF that(1)] that by (meson order_antisym order_refl)
  then have "truncate_at_offset t unit off = Ok t" if "truncate_at_offset v unit off = Ok t"
    using that truncate_start_correct(1,3) [of "v + off * 1000000" unit]
    by (simp add: truncate_at_offset_iff)
  moreover have "t \<le> v \<and> timestamp_ok t \<and> unit_boundary unit (t + off * 1000000) \<and>
      (\<forall>u. timestamp_ok (u + off * 1000000) \<and> unit_boundary unit (u + off * 1000000) \<and> u \<le> v \<longrightarrow> u \<le> t)"
    if "truncate_at_offset v unit off = Ok t"
  proof -
    from that have ok: "timestamp_ok (v + off * 1000000)" "timestamp_ok t"
      and t: "t + off * 1000000 = truncate_start unit (v + off * 1000000)"
      by (simp_all add: truncate_at_offset_iff)
    note c = truncate_start_correct [OF ok(1), where unit = unit, folded t]
    show ?thesis using c(1,2) c(4) ok(2) by fastforce
  qed
  moreover have "is_ok (truncate_at_offset v unit off) \<longleftrightarrow> timestamp_ok (v + off * 1000000) \<and>
      timestamp_ok (truncate_start unit (v + off * 1000000) - off * 1000000)"
    unfolding is_ok_iff truncate_at_offset_iff by (metis diff_add_cancel add_diff_cancel)
  ultimately show ?thesis by blast
qed

theorem truncate_correct_witness:
  "truncate_at_offset 1709164800000000 Month 3600 = Ok 1706742000000000 \<and>
   unit_boundary Month (1706742000000000 + 3600 * 1000000)"
proof -
  have "truncate_at_offset 1709164800000000 Month 3600 = Ok 1706742000000000" by code_simp
  then show ?thesis
    using truncate_correct [of 1709164800000000 Month 3600 1706742000000000] by blast
qed

end
