(* ===== verification/Byte_Scalar.thy ===== *)
theory Byte_Scalar
  imports Text_Forms
begin

text \<open>
  Hexadecimal text, UUIDs and bounded byte strings (\<^verbatim>\<open>src/src/scalars/mod.rs\<close>).
  The base64url conversion of \<open>Bytes\<close> belongs to a third-party crate and is not modelled.
\<close>

section \<open>Definitions\<close>

definition MAX_BYTES :: nat where
  "MAX_BYTES = 16 * 1024 * 1024"

definition MAX_INDEXED_BYTES :: nat where
  "MAX_INDEXED_BYTES = 8 * 1024"

definition hex_digit :: "char \<Rightarrow> u8 result" where
  "hex_digit c =
     (let byte = (of_char c :: nat)
      in if 48 \<le> byte \<and> byte \<le> 57 then Ok (of_nat (byte - 48))
         else if 97 \<le> byte \<and> byte \<le> 102 then Ok (of_nat (byte - 97 + 10))
         else if 65 \<le> byte \<and> byte \<le> 70 then Ok (of_nat (byte - 65 + 10))
         else Err E_SCALAR_LITERAL)"

text \<open>\<open>chunks_exact(2)\<close>\<close>

fun hex_pairs :: "string \<Rightarrow> u8 list result" where
  "hex_pairs (a # b # rest) =
     and_then (hex_digit a) (\<lambda>high. and_then (hex_digit b) (\<lambda>low.
       and_then (hex_pairs rest) (\<lambda>bs. Ok ((high * 16 + low) # bs))))"
| "hex_pairs _ = Ok []"

definition decode_hex :: "string \<Rightarrow> u8 list result" where
  "decode_hex source =
     (if length source > MAX_BYTES * 2 \<or> length source mod 2 \<noteq> 0 then Err E_SCALAR_LITERAL
      else hex_pairs source)"

text \<open>\<open>{byte:02x}\<close>\<close>

definition hex_char :: "nat \<Rightarrow> char" where
  "hex_char n = char_of (if n < 10 then 48 + n else 87 + n)"

definition show_hex :: "u8 \<Rightarrow> string" where
  "show_hex b = [hex_char (unat b div 16), hex_char (unat b mod 16)]"

definition uuid_step :: "u8 list \<times> nat \<Rightarrow> nat \<times> char \<Rightarrow> (u8 list \<times> nat) result" where
  "uuid_step st ib =
     (case st of (bytes, offset) \<Rightarrow> case ib of (index, byte) \<Rightarrow>
        if index \<in> {8, 13, 18, 23}
        then if byte \<noteq> CHR ''-'' then Err E_SCALAR_LITERAL else Ok (bytes, offset)
        else and_then (hex_digit byte) (\<lambda>digit.
               Ok (bytes[offset div 2 := bytes ! (offset div 2) * 16 + digit], offset + 1)))"

definition uuid_from_str :: "string \<Rightarrow> u8 list result" where
  "uuid_from_str source =
     (if length source \<noteq> 36 then Err E_SCALAR_LITERAL
      else map_ok fst (try_fold uuid_step (replicate 16 0, 0) (enumerate 0 source)))"

definition uuid_display :: "u8 list \<Rightarrow> string" where
  "uuid_display bytes =
     concat (map (\<lambda>(index, byte). (if index \<in> {4, 6, 8, 10} then ''-'' else []) @ show_hex byte)
                 (enumerate 0 bytes))"

definition bytes_new :: "u8 list \<Rightarrow> u8 list result" where
  "bytes_new v = (if length v > MAX_BYTES then Err E_SCALAR_LITERAL else Ok v)"

definition bytes_from_str :: "string \<Rightarrow> u8 list result" where
  "bytes_from_str source = decode_hex source"

definition bytes_display :: "u8 list \<Rightarrow> string" where
  "bytes_display bs = concat (map show_hex bs)"

section \<open>Lemmas\<close>

lemma hex_digit_char: "n < 16 \<Longrightarrow> hex_digit (hex_char n) = Ok (of_nat n)"
  by (auto simp: hex_digit_def hex_char_def Let_def)

lemma unat_hex: "unat b div 16 < 16" "unat b mod 16 < 16" for b :: u8
  using unat_u8_less [of b] by auto

lemma hex_join: "of_nat (unat b div 16) * 16 + of_nat (unat b mod 16) = (b :: u8)"
proof -
  have "of_nat (unat b div 16 * 16 + unat b mod 16) = b" by simp
  then show ?thesis by (simp only: of_nat_add of_nat_mult of_nat_numeral)
qed

lemma hex_digits_show:
  "hex_digit (hex_char (unat b div 16)) = Ok (of_nat (unat b div 16))"
  "hex_digit (hex_char (unat b mod 16)) = Ok (of_nat (unat b mod 16))" for b :: u8
  by (simp_all only: hex_digit_char unat_hex)

lemma hex_pairs_show: "hex_pairs (bytes_display bs) = Ok bs"
proof (induction bs)
  case (Cons b bs)
  then show ?case by (simp add: bytes_display_def show_hex_def hex_digits_show hex_join)
qed (simp add: bytes_display_def)

lemma length_bytes_display: "length (bytes_display bs) = 2 * length bs"
  by (induction bs) (auto simp: bytes_display_def show_hex_def)

lemma bytes_from_str_display:
  "length bs \<le> MAX_BYTES \<Longrightarrow> bytes_from_str (bytes_display bs) = Ok bs"
  by (simp add: bytes_from_str_def decode_hex_def length_bytes_display hex_pairs_show)

lemma hex_pairs_length: "hex_pairs s = Ok bs \<Longrightarrow> length bs = length s div 2"
  by (induction s arbitrary: bs rule: hex_pairs.induct) (auto simp: result_simps)

lemma bytes_from_str_ok: "bytes_from_str s = Ok bs \<Longrightarrow> length bs \<le> MAX_BYTES"
  by (auto simp: bytes_from_str_def decode_hex_def result_simps dest: hex_pairs_length)

text \<open>A group of bytes between two hyphens of a UUID.\<close>

lemma uuid_group:
  assumes "\<forall>x. i \<le> x \<and> x < i + 2 * length g \<longrightarrow> x \<notin> {8, 13, 18, 23}"
  shows "try_fold uuid_step (done @ replicate (length g + r) 0, 2 * length done)
           (enumerate i (bytes_display g) @ rest) =
         try_fold uuid_step (done @ g @ replicate r 0, 2 * length (done @ g)) rest"
  using assms
proof (induction g arbitrary: i "done")
  case (Cons b g)
  have i: "i \<notin> {8, 13, 18, 23}" "Suc i \<notin> {8, 13, 18, 23}"
    using Cons.prems [THEN spec, of i] Cons.prems [THEN spec, of "Suc i"] by auto
  define hi :: u8 where "hi = of_nat (unat b div 16)"
  define lo :: u8 where "lo = of_nat (unat b mod 16)"
  have join: "hi * 16 + lo = b" by (simp only: hi_def lo_def hex_join)
  have dig: "hex_digit (hex_char (unat b div 16)) = Ok hi" "hex_digit (hex_char (unat b mod 16)) = Ok lo"
    by (simp_all only: hi_def lo_def hex_digits_show)
  have "try_fold uuid_step (done @ replicate (length (b # g) + r) 0, 2 * length done)
          (enumerate i (bytes_display (b # g)) @ rest) =
        try_fold uuid_step ((done @ [b]) @ replicate (length g + r) 0, 2 * length (done @ [b]))
          (enumerate (i + 2) (bytes_display g) @ rest)"
    using i by (simp add: bytes_display_def show_hex_def uuid_step_def dig nth_append list_update_append join)
  also have "\<dots> = try_fold uuid_step ((done @ [b]) @ g @ replicate r 0, 2 * length ((done @ [b]) @ g)) rest"
    using Cons.prems by (intro Cons.IH) auto
  finally show ?case by simp
qed (simp add: bytes_display_def)

lemma uuid_hyphen:
  "i \<in> {8, 13, 18, 23} \<Longrightarrow> uuid_step st (i, CHR ''-'') = Ok st"
  by (cases st) (auto simp: uuid_step_def)

lemma uuid_from_str_groups:
  assumes "length a = 4" "length b = 2" "length c = 2" "length d = 2" "length e = 6"
  shows "uuid_from_str (bytes_display a @ CHR ''-'' # bytes_display b @ CHR ''-'' # bytes_display c
           @ CHR ''-'' # bytes_display d @ CHR ''-'' # bytes_display e) = Ok (a @ b @ c @ d @ e)"
    using assms uuid_group [of 0 a "[]" 12] uuid_group [of 9 b a 10] uuid_group [of 14 c "a @ b" 8]
      uuid_group [of 19 d "a @ b @ c" 6] uuid_group [of 24 e "a @ b @ c @ d" 0 "[]"]
    by (simp add: uuid_from_str_def length_bytes_display enumerate_append_eq uuid_hyphen)

lemma uuid_from_str_display:
  assumes "length bs = 16"
  shows "uuid_from_str (uuid_display bs) = Ok bs"
proof -
  from assms obtain b0 b1 b2 b3 b4 b5 b6 b7 b8 b9 b10 b11 b12 b13 b14 b15
    where bs: "bs = [b0, b1, b2, b3, b4, b5, b6, b7, b8, b9, b10, b11, b12, b13, b14, b15]"
    by (auto simp: numeral_eq_Suc length_Suc_conv)
  have "uuid_display bs = bytes_display [b0, b1, b2, b3] @ CHR ''-'' # bytes_display [b4, b5]
      @ CHR ''-'' # bytes_display [b6, b7] @ CHR ''-'' # bytes_display [b8, b9]
      @ CHR ''-'' # bytes_display [b10, b11, b12, b13, b14, b15]"
    by (simp add: bs uuid_display_def bytes_display_def)
  then show ?thesis
    using uuid_from_str_groups [of "[b0, b1, b2, b3]" "[b4, b5]" "[b6, b7]" "[b8, b9]"
        "[b10, b11, b12, b13, b14, b15]"]
    by (simp add: bs)
qed

lemma uuid_from_str_length: "uuid_from_str s = Ok bs \<Longrightarrow> length bs = 16"
proof -
  assume "uuid_from_str s = Ok bs"
  then obtain n where "try_fold uuid_step (replicate 16 0, 0) (enumerate 0 s) = Ok (bs, n)"
    by (auto simp: uuid_from_str_def result_simps)
  then have "length (fst (bs, n)) = 16"
    by (rule try_fold_invariant)
       (auto simp: uuid_step_def result_simps split: prod.splits if_splits)
  then show ?thesis by simp
qed

interpretation uuid_text: canonical_text "\<lambda>bs. length bs = 16" uuid_display uuid_from_str
  by unfold_locales (auto simp: uuid_from_str_display uuid_from_str_length)

interpretation bytes_text: canonical_text "\<lambda>bs. length bs \<le> MAX_BYTES" bytes_display bytes_from_str
  by unfold_locales (auto simp: bytes_from_str_display bytes_from_str_ok)

end
