(* ===== verification/Scalar_Payload.thy ===== *)
theory Scalar_Payload
  imports Decimal_Scalar Temporal_Scalar Byte_Scalar
begin

text \<open>
  The text payloads of the scalar markers (\<^verbatim>\<open>src/src/scalars/serde.rs\<close>, the
  \<open>ScalarRepr\<close> implementations).  The serde data model around a payload and the base64url
  payload of \<open>Bytes\<close> are third-party code and are left out.
\<close>

section \<open>Integers as text\<close>

text \<open>\<open>str::parse\<close> of a signed integer type with the given range.\<close>

definition parse_signed :: "(int \<Rightarrow> bool) \<Rightarrow> string \<Rightarrow> int result" where
  "parse_signed in_range s =
     (let negative = (s \<noteq> [] \<and> hd s = CHR ''-'');
          ds = (if s \<noteq> [] \<and> (hd s = CHR ''-'' \<or> hd s = CHR ''+'') then tl s else s);
          n = (if negative then - int (digits_val ds) else int (digits_val ds))
      in if ds = [] \<or> \<not> list_all is_ascii_digit ds \<or> \<not> in_range n then Err E_SCALAR_LITERAL
         else Ok n)"

lemma parse_signed_show: "in_range n \<Longrightarrow> parse_signed in_range (show_int n) = Ok n"
  using show_nat_hd [of "CHR ''-''" "nat n" "[]"] show_nat_hd [of "CHR ''+''" "nat n" "[]"]
  by (auto simp: parse_signed_def Let_def show_int_def show_nat_digits)

lemma parse_signed_range: "parse_signed in_range s = Ok n \<Longrightarrow> in_range n"
  by (auto simp: parse_signed_def Let_def split: if_splits)

interpretation int_text: canonical_text in_range show_int "parse_signed in_range" for in_range
  by unfold_locales (auto simp: parse_signed_show parse_signed_range)

section \<open>Payloads\<close>

definition uuid_from_payload :: "string \<Rightarrow> u8 list result" where
  "uuid_from_payload = from_canonical uuid_from_str uuid_display"

definition date_from_payload :: "string \<Rightarrow> int result" where
  "date_from_payload = from_canonical date_from_str date_display"

definition timestamp_from_payload :: "string \<Rightarrow> int result" where
  "timestamp_from_payload = from_canonical timestamp_from_str timestamp_display"

definition duration_payload :: "int \<Rightarrow> string" where
  "duration_payload micros = show_int micros"

definition duration_from_payload :: "string \<Rightarrow> int result" where
  "duration_from_payload = from_canonical (parse_signed in_i64) show_int"

record decimal_repr =
  repr_coefficient :: string
  repr_scale :: nat

definition decimal_payload :: "decimal \<Rightarrow> decimal_repr" where
  "decimal_payload d = \<lparr>repr_coefficient = show_int (coefficient d), repr_scale = scale d\<rparr>"

definition decimal_from_payload :: "decimal_repr \<Rightarrow> decimal result" where
  "decimal_from_payload p =
     and_then (from_canonical (parse_signed in_i128) show_int (repr_coefficient p)) (\<lambda>c.
       decimal_new c 38 (repr_scale p))"

section \<open>Properties\<close>

lemma decimal_payload_iff:
  "decimal_from_payload p = Ok d \<longleftrightarrow> decimal_ok 38 (scale d) d \<and> p = decimal_payload d"
proof -
  have "decimal_from_payload p = Ok d \<longleftrightarrow>
      (\<exists>c. in_i128 c \<and> repr_coefficient p = show_int c \<and> decimal_ok 38 (repr_scale p) d \<and> coefficient d = c)"
    by (auto simp: decimal_from_payload_def and_then_Ok_iff int_text.from_canonical_iff decimal_new_iff)
  then show ?thesis
    using decimal_ok_i128 [of 38 "scale d" d]
    by (cases p) (auto simp: decimal_payload_def decimal_ok_def)
qed


end
