(* ===== verification/Float64.thy ===== *)
theory Float64
  imports Prelude
begin

text \<open>
  The \<open>f64\<close> of the Rust language, as its IEEE 754 bit pattern.  The value of a finite
  pattern is an integer multiple of \<open>2 ^ -1074\<close>; \<open>f64_scaled\<close> is that integer, so that
  equality and order of floats are equality and order of integers.  Only what the source
  uses is modelled: classification, \<open>==\<close>, \<open>partial_cmp\<close>, the cast from \<open>i64\<close> (rounding
  to nearest, ties to even) and the cast to \<open>i128\<close> (truncating, for the values the former
  produces).
\<close>

section \<open>Definitions\<close>

type_synonym f64 = u64

definition f64_negative :: "f64 \<Rightarrow> bool" where
  "f64_negative w \<longleftrightarrow> 2 ^ 63 \<le> unat w"

definition f64_magnitude :: "f64 \<Rightarrow> nat" where
  "f64_magnitude w = unat w mod 2 ^ 63"

definition f64_exponent :: "f64 \<Rightarrow> nat" where
  "f64_exponent w = f64_magnitude w div 2 ^ 52"

definition f64_mantissa :: "f64 \<Rightarrow> nat" where
  "f64_mantissa w = f64_magnitude w mod 2 ^ 52"

definition is_finite :: "f64 \<Rightarrow> bool" where
  "is_finite w \<longleftrightarrow> f64_exponent w \<noteq> 2047"

definition is_nan :: "f64 \<Rightarrow> bool" where
  "is_nan w \<longleftrightarrow> f64_exponent w = 2047 \<and> f64_mantissa w \<noteq> 0"

text \<open>The magnitude in units of \<open>2 ^ -1074\<close>, from exponent and mantissa.\<close>

definition scaled_magnitude :: "nat \<Rightarrow> nat" where
  "scaled_magnitude g =
     (let e = g div 2 ^ 52; m = g mod 2 ^ 52
      in if e = 0 then m else (2 ^ 52 + m) * 2 ^ (e - 1))"

definition f64_scaled :: "f64 \<Rightarrow> int" where
  "f64_scaled w = (if f64_negative w then - 1 else 1) * int (scaled_magnitude (f64_magnitude w))"

definition f64_eq :: "f64 \<Rightarrow> f64 \<Rightarrow> bool" where
  "f64_eq a b \<longleftrightarrow> \<not> is_nan a \<and> \<not> is_nan b \<and> f64_scaled a = f64_scaled b"

definition f64_partial_cmp :: "f64 \<Rightarrow> f64 \<Rightarrow> ordering option" where
  "f64_partial_cmp a b =
     (if is_nan a \<or> is_nan b then None else Some (cmp (f64_scaled a) (f64_scaled b)))"

text \<open>\<open>v == 0.0\<close>\<close>

definition f64_is_zero :: "f64 \<Rightarrow> bool" where
  "f64_is_zero w = f64_eq w 0"

text \<open>\<open>v as f64\<close> for \<open>v : i64\<close>.\<close>

fun bit_count :: "nat \<Rightarrow> nat" where
  "bit_count n = (if n = 0 then 0 else Suc (bit_count (n div 2)))"

declare bit_count.simps [simp del]

text \<open>A significand \<open>s\<close> below \<open>2 ^ 53\<close>, at least \<open>2 ^ 52\<close>, times \<open>2 ^ k\<close>.\<close>

definition f64_make :: "bool \<Rightarrow> nat \<Rightarrow> nat \<Rightarrow> f64" where
  "f64_make negative s k =
     of_nat ((if negative then 2 ^ 63 else 0) + (k + 1075) * 2 ^ 52 + (s - 2 ^ 52))"

definition i64_to_f64 :: "int \<Rightarrow> f64" where
  "i64_to_f64 v =
     (let n = nat \<bar>v\<bar>; l = bit_count n; negative = (v < 0)
      in if n = 0 then 0
         else if l \<le> 53
         then of_nat ((if negative then 2 ^ 63 else 0) + (l + 1022) * 2 ^ 52
                      + (n * 2 ^ (53 - l) - 2 ^ 52))
         else let s = l - 53; q = n div 2 ^ s; r = n mod 2 ^ s;
                  q' = (if 2 * r > 2 ^ s \<or> (2 * r = 2 ^ s \<and> odd q) then q + 1 else q)
              in if q' = 2 ^ 53 then f64_make negative (2 ^ 52) (s + 1) else f64_make negative q' s)"

text \<open>The value 1 in units of \<open>2 ^ -1074\<close>.\<close>

definition f64_unit :: nat where
  "f64_unit = 2 ^ 1074"

text \<open>\<open>f as i128\<close>, on finite floats below \<open>2 ^ 127\<close>.\<close>

definition f64_to_i128 :: "f64 \<Rightarrow> int" where
  "f64_to_i128 w =
     (if f64_negative w then - 1 else 1) * (int (scaled_magnitude (f64_magnitude w)) div int f64_unit)"

section \<open>Order\<close>

lemma scaled_magnitude_0 [simp]: "scaled_magnitude 0 = 0"
  by (simp add: scaled_magnitude_def)

lemma scaled_magnitude_Suc: "scaled_magnitude g < scaled_magnitude (Suc g)"
proof -
  define e m :: nat where "e = g div 2 ^ 52" and "m = g mod 2 ^ 52"
  have m: "m < 2 ^ 52" by (simp add: m_def)
  have g: "g = e * 2 ^ 52 + m" by (simp add: e_def m_def)
  have now: "scaled_magnitude g = (if e = 0 then m else (2 ^ 52 + m) * 2 ^ (e - 1))"
    unfolding scaled_magnitude_def Let_def e_def m_def by (rule refl)
  have "next": "scaled_magnitude (Suc g) = (if e' = 0 then m' else (2 ^ 52 + m') * 2 ^ (e' - 1))"
    if "Suc g div 2 ^ 52 = e'" "Suc g mod 2 ^ 52 = m'" for e' m'
    unfolding scaled_magnitude_def Let_def that by (rule refl)
  show ?thesis
  proof (cases "Suc m < 2 ^ 52")
    case True
    then have "Suc g div 2 ^ 52 = e" "Suc g mod 2 ^ 52 = Suc m" by (auto simp: g)
    from "next" [OF this] show ?thesis by (simp add: now)
  next
    case False
    with m have m': "m = 2 ^ 52 - 1" by simp
    then have "Suc g = Suc e * 2 ^ 52" by (simp add: g)
    then have "Suc g div 2 ^ 52 = Suc e" "Suc g mod 2 ^ 52 = 0"
      by (metis div_mult_self_is_m zero_less_power zero_less_numeral, metis mod_mult_self2_is_0)
    from "next" [OF this] show ?thesis
      unfolding now m' by (cases e) auto
  qed
qed

lemma scaled_magnitude_less_iff [simp]: "scaled_magnitude g < scaled_magnitude h \<longleftrightarrow> g < h"
  by (rule strict_mono_less) (simp add: strict_mono_Suc_iff scaled_magnitude_Suc)

lemma scaled_magnitude_eq_iff [simp]: "scaled_magnitude g = scaled_magnitude h \<longleftrightarrow> g = h"
  by (rule strict_mono_eq) (simp add: strict_mono_Suc_iff scaled_magnitude_Suc)

lemma scaled_magnitude_zero_iff [simp]: "scaled_magnitude g = 0 \<longleftrightarrow> g = 0"
  using scaled_magnitude_eq_iff [of g 0] by simp

lemma scaled_magnitude_pos_iff [simp]: "0 < scaled_magnitude g \<longleftrightarrow> 0 < g"
  using scaled_magnitude_less_iff [of 0 g] by simp

text \<open>The order of two floats, read off their sign and magnitude bits.\<close>

definition f64_signed :: "f64 \<Rightarrow> int" where
  "f64_signed w = (if f64_negative w then - int (f64_magnitude w) else int (f64_magnitude w))"

lemma f64_scaled_less_iff: "f64_scaled a < f64_scaled b \<longleftrightarrow> f64_signed a < f64_signed b"
proof -
  have "- int x < int y \<longleftrightarrow> x \<noteq> 0 \<or> y \<noteq> 0" "int y < - int x \<longleftrightarrow> False" for x y :: nat by auto
  then show ?thesis by (simp add: f64_scaled_def f64_signed_def)
qed

lemma f64_scaled_eq_iff: "f64_scaled a = f64_scaled b \<longleftrightarrow> f64_signed a = f64_signed b"
  using f64_scaled_less_iff [of a b] f64_scaled_less_iff [of b a] by linarith

lemma f64_signed_zero_iff: "f64_signed w = 0 \<longleftrightarrow> f64_magnitude w = 0"
  by (simp add: f64_signed_def)

lemma finite_not_nan: "is_finite w \<Longrightarrow> \<not> is_nan w"
  by (simp add: is_finite_def is_nan_def)

lemma f64_eq_finite: "is_finite a \<Longrightarrow> is_finite b \<Longrightarrow> f64_eq a b \<longleftrightarrow> f64_signed a = f64_signed b"
  by (simp add: f64_eq_def finite_not_nan f64_scaled_eq_iff)

lemma f64_partial_cmp_finite:
  "is_finite a \<Longrightarrow> is_finite b \<Longrightarrow> f64_partial_cmp a b = Some (cmp (f64_signed a) (f64_signed b))"
  by (simp add: f64_partial_cmp_def finite_not_nan cmp_def f64_scaled_less_iff f64_scaled_eq_iff)

lemma f64_zero [simp]: "f64_signed 0 = 0" "is_finite 0" "\<not> is_nan 0"
  by (simp_all add: f64_signed_def f64_magnitude_def is_finite_def is_nan_def f64_exponent_def)

lemma f64_is_zero_iff: "is_finite w \<Longrightarrow> f64_is_zero w \<longleftrightarrow> f64_magnitude w = 0"
  by (simp add: f64_is_zero_def f64_eq_finite f64_signed_zero_iff)

text \<open>Sign and magnitude determine the pattern; only the two zeros share a value.\<close>

lemma unat_f64: "unat w = (if f64_negative w then 2 ^ 63 else 0) + f64_magnitude w"
proof -
  have "unat w < 2 ^ 64" using unsigned_less [of w] by simp
  then have "unat w < 2 * 2 ^ 63" by simp
  then show ?thesis
    by (auto simp: f64_negative_def f64_magnitude_def le_mod_geq)
qed

lemma f64_signed_inj:
  assumes "f64_signed a = f64_signed b" and "f64_magnitude a \<noteq> 0 \<or> f64_negative a = f64_negative b"
  shows "a = b"
proof -
  have "f64_magnitude a = f64_magnitude b" "f64_negative a = f64_negative b"
    using assms by (auto simp: f64_signed_def split: if_splits)
  then have "unat a = unat b" by (simp only: unat_f64)
  then show ?thesis by (simp add: word_unat_eq_iff)
qed

section \<open>Casts\<close>

lemma bit_count_bounds: "0 < n \<Longrightarrow> 2 ^ (bit_count n - 1) \<le> n \<and> n < 2 ^ bit_count n \<and> 0 < bit_count n"
proof (induction n rule: bit_count.induct)
  case (1 n)
  show ?case
  proof (cases "n = 1")
    case True
    then show ?thesis by (subst (1 2 3) bit_count.simps, simp)+ (simp add: bit_count.simps)
  next
    case False
    with 1 have "2 ^ (bit_count (n div 2) - 1) \<le> n div 2" "n div 2 < 2 ^ bit_count (n div 2)"
      "0 < bit_count (n div 2)" by auto
    moreover have "bit_count n = Suc (bit_count (n div 2))" using 1(2) by (subst bit_count.simps) simp
    ultimately show ?thesis by (cases "bit_count (n div 2)") auto
  qed
qed

lemma f64_fields:
  assumes "m < 2 ^ 52" "e < 2048"
    and w: "w = of_nat ((if negative then 2 ^ 63 else 0) + e * 2 ^ 52 + m)"
  shows "f64_negative w = negative" and "f64_magnitude w = e * 2 ^ 52 + m"
proof -
  have g: "e * 2 ^ 52 + m < 2 ^ 63"
  proof -
    have "e * 2 ^ 52 + m < Suc e * 2 ^ 52" using assms(1) by simp
    also have "\<dots> \<le> 2048 * 2 ^ 52" using assms(2) by (intro mult_right_mono) auto
    finally show ?thesis by simp
  qed
  have u: "unat w = (if negative then 2 ^ 63 else 0) + (e * 2 ^ 52 + m)"
    unfolding w using g by (subst unat_of_nat) (auto simp: add.assoc)
  show "f64_negative w = negative" using u g by (auto simp: f64_negative_def)
  show "f64_magnitude w = e * 2 ^ 52 + m"
    unfolding f64_magnitude_def u using g by auto
qed

lemma scaled_of_fields:
  assumes "m < 2 ^ 52" "0 < e"
  shows "scaled_magnitude (e * 2 ^ 52 + m) = (2 ^ 52 + m) * 2 ^ (e - 1)"
proof -
  have "(e * 2 ^ 52 + m) div 2 ^ 52 = e" "(e * 2 ^ 52 + m) mod 2 ^ 52 = m" using assms by auto
  then show ?thesis using assms(2) by (simp only: scaled_magnitude_def Let_def) simp
qed

text \<open>A pattern whose scaled magnitude is a multiple of one unit holds an integer.\<close>

lemma f64_integer:
  assumes "scaled_magnitude (f64_magnitude w) = n * f64_unit"
  shows "f64_scaled w = (if f64_negative w then - int n else int n) * int f64_unit"
    and "f64_to_i128 w = (if f64_negative w then - int n else int n)"
proof -
  have i: "int (scaled_magnitude (f64_magnitude w)) = int n * int f64_unit"
    unfolding assms of_nat_mult by (rule refl)
  show "f64_scaled w = (if f64_negative w then - int n else int n) * int f64_unit"
    unfolding f64_scaled_def i by (cases "f64_negative w") (simp_all only: if_True if_False mult_minus_left mult_1)
  have "int n * int f64_unit div int f64_unit = int n" by (rule nonzero_mult_div_cancel_right) (simp add: f64_unit_def)
  then show "f64_to_i128 w = (if f64_negative w then - int n else int n)"
    unfolding f64_to_i128_def i by (cases "f64_negative w") (simp_all only: if_True if_False mult_minus_left mult_1)
qed

lemma normal_value:
  assumes "2 ^ 52 \<le> s" "s < 2 ^ 53" "0 < e" "e < 2047" "s * 2 ^ (e - 1) = n * f64_unit"
    and w: "w = of_nat ((if negative then 2 ^ 63 else 0) + e * 2 ^ 52 + (s - 2 ^ 52))"
  shows "scaled_magnitude (f64_magnitude w) = n * f64_unit" and "is_finite w" and "f64_negative w = negative"
proof -
  have m: "s - 2 ^ 52 < 2 ^ 52" and s: "2 ^ 52 + (s - 2 ^ 52) = s" using assms(1,2) by auto
  have "e < 2048" using assms(4) by simp
  note f = f64_fields [OF m this w]
  show "scaled_magnitude (f64_magnitude w) = n * f64_unit"
    using scaled_of_fields [OF m assms(3)] unfolding f(2) s assms(5) by assumption
  have "f64_exponent w = e" unfolding f64_exponent_def f(2) using m by simp
  then show "is_finite w" using assms(4) by (simp add: is_finite_def)
  show "f64_negative w = negative" by (rule f(1))
qed

lemma f64_make_value:
  assumes "2 ^ 52 \<le> s" "s < 2 ^ 53" "k < 100"
  shows "scaled_magnitude (f64_magnitude (f64_make negative s k)) = s * 2 ^ k * f64_unit"
    and "is_finite (f64_make negative s k)" and "f64_negative (f64_make negative s k) = negative"
proof -
  have "k + 1075 - 1 = k + 1074" by simp
  then have "s * 2 ^ (k + 1075 - 1) = s * 2 ^ k * f64_unit"
    by (simp only: f64_unit_def power_add mult.assoc)
  note v = normal_value [OF assms(1,2) _ _ this f64_make_def [of negative s k]]
  show "scaled_magnitude (f64_magnitude (f64_make negative s k)) = s * 2 ^ k * f64_unit"
    and "is_finite (f64_make negative s k)" and "f64_negative (f64_make negative s k) = negative"
    using v assms(3) by auto
qed

lemma i64_to_f64_integer:
  assumes "in_i64 v"
  shows "is_finite (i64_to_f64 v) \<and>
         (\<exists>n. scaled_magnitude (f64_magnitude (i64_to_f64 v)) = n * f64_unit)"
proof (cases "v = 0")
  case True
  then show ?thesis by (auto simp: i64_to_f64_def f64_magnitude_def intro: exI [of _ 0])
next
  case False
  define n where "n = nat \<bar>v\<bar>"
  define l where "l = bit_count n"
  have n: "0 < n" "n \<le> 2 ^ 63" using False assms by (auto simp: n_def in_i64_def)
  have l: "2 ^ (l - 1) \<le> n" "n < 2 ^ l" "0 < l" using bit_count_bounds [OF n(1)] by (auto simp: l_def)
  have "(2::nat) ^ (l - 1) \<le> 2 ^ 63" using l(1) n(2) by linarith
  then have l64: "l \<le> 64" by (simp add: power_increasing_iff del: power_numeral)
  show ?thesis
  proof (cases "l \<le> 53")
    case True
    have w: "i64_to_f64 v = of_nat ((if v < 0 then 2 ^ 63 else 0) + (l + 1022) * 2 ^ 52 + (n * 2 ^ (53 - l) - 2 ^ 52))"
      using True n(1) unfolding i64_to_f64_def Let_def n_def [symmetric] l_def [symmetric] by simp
    have p: "(2::nat) ^ (l - 1) * 2 ^ (53 - l) = 2 ^ 52" "(2::nat) ^ l * 2 ^ (53 - l) = 2 ^ 53"
      using True l(3) by (simp_all flip: power_add)
    have a: "2 ^ 52 \<le> n * 2 ^ (53 - l)" using mult_right_mono [OF l(1), of "2 ^ (53 - l)"] unfolding p(1) by simp
    have b: "n * 2 ^ (53 - l) < 2 ^ 53" using l(2) p(2) by (metis mult_less_cancel2 zero_less_numeral zero_less_power)
    have c: "n * 2 ^ (53 - l) * 2 ^ (l + 1022 - 1) = n * f64_unit"
    proof -
      have "53 - l + (l + 1022 - 1) = 1074" using True l(3) by simp
      then show ?thesis by (simp only: f64_unit_def mult.assoc flip: power_add)
    qed
    have "0 < l + 1022" "l + 1022 < 2047" using l64 by auto
    from normal_value [OF a b this c w] show ?thesis by blast
  next
    case F: False
    define s where "s = l - 53"
    define q where "q = n div 2 ^ s"
    define q' where "q' = (if 2 * (n mod 2 ^ s) > 2 ^ s \<or> (2 * (n mod 2 ^ s) = 2 ^ s \<and> odd q) then q + 1 else q)"
    have q': "q' = q \<or> q' = q + 1" by (simp add: q'_def)
    have w: "i64_to_f64 v = (if q' = 2 ^ 53 then f64_make (v < 0) (2 ^ 52) (s + 1) else f64_make (v < 0) q' s)"
      using F n(1) unfolding i64_to_f64_def Let_def n_def [symmetric] l_def [symmetric]
        s_def [symmetric] q_def [symmetric] q'_def [symmetric] by simp
    have p: "(2::nat) ^ (l - 1) = 2 ^ 52 * 2 ^ s" "(2::nat) ^ l = 2 ^ 53 * 2 ^ s"
    proof -
      have e: "l - 1 = 52 + s" "l = 53 + s" using F by (simp_all add: s_def)
      show "(2::nat) ^ (l - 1) = 2 ^ 52 * 2 ^ s" unfolding e(1) by (rule power_add)
      show "(2::nat) ^ l = 2 ^ 53 * 2 ^ s" by (subst e(2)) (rule power_add)
    qed
    have "2 ^ 52 \<le> q" using div_le_mono [OF l(1), of "2 ^ s"] by (simp only: p q_def) simp
    moreover have "q < 2 ^ 53" using l(2) by (simp only: p q_def less_mult_imp_div_less)
    ultimately have q: "2 ^ 52 \<le> q'" "q' \<le> 2 ^ 53" using q' by auto
    have s: "s < 99" using l64 by (simp add: s_def)
    show ?thesis
    proof (cases "q' = 2 ^ 53")
      case True
      with s show ?thesis using f64_make_value [of "2 ^ 52" "s + 1" "v < 0"] unfolding w by auto
    next
      case False
      with q s show ?thesis using f64_make_value [of q' s "v < 0"] unfolding w by auto
    qed
  qed
qed

text \<open>The test the source makes before turning an integer into a float: no rounding happened.\<close>

lemma i64_to_f64_exact:
  assumes "in_i64 v" and "f64_to_i128 (i64_to_f64 v) = v"
  shows "is_finite (i64_to_f64 v)" and "f64_scaled (i64_to_f64 v) = v * int f64_unit"
proof -
  from i64_to_f64_integer [OF assms(1)] obtain n where
    fin: "is_finite (i64_to_f64 v)" and n: "scaled_magnitude (f64_magnitude (i64_to_f64 v)) = n * f64_unit"
    by blast
  show "is_finite (i64_to_f64 v)" by (rule fin)
  show "f64_scaled (i64_to_f64 v) = v * int f64_unit"
    using f64_integer [OF n] assms(2) by metis
qed

end
