(* ===== verification/Values.thy ===== *)
theory Values
  imports Btree_Map Scalar_Payload Float64
begin

text \<open>
  Dynamic values (\<^verbatim>\<open>src/src/model.rs\<close>, \<open>Value\<close> and its methods): equality, the partial
  order of scalars, field access, and the canonical equality key of an index entry.
\<close>

section \<open>Values\<close>

datatype "value" =
    VInt int
  | VFloat f64
  | VBool bool
  | VText string
  | VUuid "u8 list"
  | VDate int
  | VTimestamp int
  | VDuration int
  | VDecimal decimal
  | VBytes "u8 list"
  | VNull
  | VEnum (variant: string) (enum_args: "value list") (enum_id: u64)
  | VRecord "(string \<times> value) list"
  | VTuple "value list"
  | VList "value list"
  | VMap "(string \<times> value) list"
  | VOption "value option"
  | VNamed u64 "value"

text \<open>
  The invariants the Rust types of the payloads enforce: integer widths, valid UTF-8,
  validated scalar wrappers, maps with sorted distinct keys.
\<close>

fun value_ok :: "value \<Rightarrow> bool" where
  "value_ok (VInt i) = in_i64 i"
| "value_ok (VFloat f) = True"
| "value_ok (VBool b) = True"
| "value_ok (VText s) = string_ok s"
| "value_ok (VUuid u) = (length u = 16)"
| "value_ok (VDate n) = date_ok n"
| "value_ok (VTimestamp n) = timestamp_ok n"
| "value_ok (VDuration n) = in_i64 n"
| "value_ok (VDecimal d) = (\<exists>p \<in> {1..38}. decimal_ok p (scale d) d)"
| "value_ok (VBytes bs) = (length bs \<le> MAX_BYTES)"
| "value_ok VNull = True"
| "value_ok (VEnum n as i) = (string_ok n \<and> list_all value_ok as)"
| "value_ok (VRecord fs) = (bt_ok fs \<and> list_all (\<lambda>(k, v). string_ok k \<and> value_ok v) fs)"
| "value_ok (VTuple vs) = list_all value_ok vs"
| "value_ok (VList vs) = list_all value_ok vs"
| "value_ok (VMap es) = (bt_ok es \<and> list_all (\<lambda>(k, v). string_ok k \<and> value_ok v) es)"
| "value_ok (VOption ov) = (case ov of None \<Rightarrow> True | Some v \<Rightarrow> value_ok v)"
| "value_ok (VNamed i v) = value_ok v"

section \<open>Access\<close>

fun unwrapped :: "value \<Rightarrow> value" where
  "unwrapped (VNamed i v) = unwrapped v"
| "unwrapped v = v"

definition field_step :: "value \<Rightarrow> string \<Rightarrow> value option" where
  "field_step v component =
     (case unwrapped v of VRecord fs \<Rightarrow> bt_get fs component | _ \<Rightarrow> None)"

definition value_field :: "value \<Rightarrow> string \<Rightarrow> value option" where
  "value_field v path =
     foldl (\<lambda>acc component. Option.bind acc (\<lambda>v. field_step v component)) (Some v) (split_on CHR ''.'' path)"

section \<open>Equality\<close>

lemma size_list_mem: "x \<in> set xs \<Longrightarrow> f x \<le> size_list f xs"
  by (simp add: size_list_estimation')

lemma size_snd_mem: "(k, v) \<in> set fs \<Longrightarrow> size v < Suc (size_list (size_prod g size) fs)"
  using size_list_mem [of "(k, v)" fs "size_prod g size"] by simp

lemma size_zip_mem: "(a, b) \<in> set (zip xs ys) \<Longrightarrow> size a < Suc (size_list size xs)"
  using size_list_mem [of a xs size] by (auto dest: set_zip_leftD)

function cmp_eq :: "value \<Rightarrow> value \<Rightarrow> bool" where
  "cmp_eq x y =
     (case (x, y) of
        (VInt a, VInt b) \<Rightarrow> a = b
      | (VFloat a, VFloat b) \<Rightarrow> f64_eq a b
      | (VBool a, VBool b) \<Rightarrow> a = b
      | (VText a, VText b) \<Rightarrow> a = b
      | (VUuid a, VUuid b) \<Rightarrow> a = b
      | (VDate a, VDate b) \<Rightarrow> a = b
      | (VTimestamp a, VTimestamp b) \<Rightarrow> a = b
      | (VDuration a, VDuration b) \<Rightarrow> a = b
      | (VDecimal a, VDecimal b) \<Rightarrow> a = b
      | (VBytes a, VBytes b) \<Rightarrow> a = b
      | (VNull, VNull) \<Rightarrow> True
      | (VNamed a av, VNamed b bv) \<Rightarrow> a = b \<and> cmp_eq av bv
      | (VEnum an aas ai, VEnum bn bas bi) \<Rightarrow>
          (if ai = 0 \<or> bi = 0 then ai = bi \<and> an = bn else ai = bi) \<and>
          length aas = length bas \<and> list_all (\<lambda>(v, w). cmp_eq v w) (zip aas bas)
      | (VRecord a, VRecord b) \<Rightarrow>
          length a = length b \<and>
          list_all (\<lambda>(k, v). case bt_get b k of Some w \<Rightarrow> cmp_eq v w | None \<Rightarrow> False) a
      | (VTuple a, VTuple b) \<Rightarrow> length a = length b \<and> list_all (\<lambda>(v, w). cmp_eq v w) (zip a b)
      | (VList a, VList b) \<Rightarrow> length a = length b \<and> list_all (\<lambda>(v, w). cmp_eq v w) (zip a b)
      | (VMap a, VMap b) \<Rightarrow>
          length a = length b \<and>
          list_all (\<lambda>(k, v). case bt_get b k of Some w \<Rightarrow> cmp_eq v w | None \<Rightarrow> False) a
      | (VOption None, VOption None) \<Rightarrow> True
      | (VOption (Some a), VOption (Some b)) \<Rightarrow> cmp_eq a b
      | _ \<Rightarrow> False)"
  by pat_completeness auto
termination
  by (relation "measure (\<lambda>(x, y). size x)")
     (auto intro: size_zip_mem size_snd_mem)

declare cmp_eq.simps [simp del]

definition equal_items :: "value list \<Rightarrow> value list \<Rightarrow> bool" where
  "equal_items a b \<longleftrightarrow> length a = length b \<and> list_all (\<lambda>(v, w). cmp_eq v w) (zip a b)"

definition equal_entries :: "(string \<times> value) list \<Rightarrow> (string \<times> value) list \<Rightarrow> bool" where
  "equal_entries a b \<longleftrightarrow> length a = length b \<and>
     list_all (\<lambda>(k, v). case bt_get b k of Some w \<Rightarrow> cmp_eq v w | None \<Rightarrow> False) a"

lemma cmp_eq_simps [simp]:
  "cmp_eq (VInt a) y \<longleftrightarrow> y = VInt a"
  "cmp_eq (VFloat f) y \<longleftrightarrow> (\<exists>g. y = VFloat g \<and> f64_eq f g)"
  "cmp_eq (VBool b) y \<longleftrightarrow> y = VBool b"
  "cmp_eq (VText s) y \<longleftrightarrow> y = VText s"
  "cmp_eq (VUuid u) y \<longleftrightarrow> y = VUuid u"
  "cmp_eq (VDate n) y \<longleftrightarrow> y = VDate n"
  "cmp_eq (VTimestamp n) y \<longleftrightarrow> y = VTimestamp n"
  "cmp_eq (VDuration n) y \<longleftrightarrow> y = VDuration n"
  "cmp_eq (VDecimal d) y \<longleftrightarrow> y = VDecimal d"
  "cmp_eq (VBytes bs) y \<longleftrightarrow> y = VBytes bs"
  "cmp_eq VNull y \<longleftrightarrow> y = VNull"
  "cmp_eq (VNamed i v) y \<longleftrightarrow> (\<exists>w. y = VNamed i w \<and> cmp_eq v w)"
  "cmp_eq (VEnum nm as i) y \<longleftrightarrow>
     (\<exists>nm' as'. y = VEnum nm' as' i \<and> (i = 0 \<longrightarrow> nm = nm') \<and> equal_items as as')"
  "cmp_eq (VRecord fs) y \<longleftrightarrow> (\<exists>gs. y = VRecord gs \<and> equal_entries fs gs)"
  "cmp_eq (VTuple vs) y \<longleftrightarrow> (\<exists>ws. y = VTuple ws \<and> equal_items vs ws)"
  "cmp_eq (VList vs) y \<longleftrightarrow> (\<exists>ws. y = VList ws \<and> equal_items vs ws)"
  "cmp_eq (VMap es) y \<longleftrightarrow> (\<exists>gs. y = VMap gs \<and> equal_entries es gs)"
  "cmp_eq (VOption None) y \<longleftrightarrow> y = VOption None"
  "cmp_eq (VOption (Some v)) y \<longleftrightarrow> (\<exists>w. y = VOption (Some w) \<and> cmp_eq v w)"
  by (subst cmp_eq.simps; auto simp: equal_items_def equal_entries_def split: "value.splits" option.splits)+

lemma equal_items_all2: "equal_items a b \<longleftrightarrow> list_all2 cmp_eq a b"
  by (auto simp: equal_items_def list_all2_iff list_all_iff)

text \<open>On sorted maps the lookups of the second map visit its entries in order.\<close>

lemma equal_entries_all2:
  assumes "bt_ok a" "bt_ok b"
  shows "equal_entries a b \<longleftrightarrow> list_all2 (\<lambda>x y. fst x = fst y \<and> cmp_eq (snd x) (snd y)) a b"
proof
  assume "list_all2 (\<lambda>x y. fst x = fst y \<and> cmp_eq (snd x) (snd y)) a b"
  then have len: "length a = length b" and at: "\<And>i. i < length a \<Longrightarrow> fst (a ! i) = fst (b ! i) \<and> cmp_eq (snd (a ! i)) (snd (b ! i))"
    by (auto simp: list_all2_conv_all_nth)
  have "\<exists>w. bt_get b k = Some w \<and> cmp_eq v w" if kv: "(k, v) \<in> set a" for k v
  proof -
    from kv obtain i where i: "i < length a" "a ! i = (k, v)" by (auto simp: in_set_conv_nth)
    then have "b ! i = (k, snd (b ! i))" "cmp_eq v (snd (b ! i))" using at [OF i(1)] by (auto simp: prod_eq_iff)
    moreover have "b ! i \<in> set b" using i len by simp
    ultimately show ?thesis using bt_get_Some_iff [OF assms(2), of k "snd (b ! i)"] by auto
  qed
  with len show "equal_entries a b" by (fastforce simp: equal_entries_def list_all_iff)
next
  assume eq: "equal_entries a b"
  have sub: "fst ` set a \<subseteq> fst ` set b"
    using eq bt_get_None_iff [of b] by (fastforce simp: equal_entries_def list_all_iff split: option.splits)
  have len: "length a = length b" using eq by (simp add: equal_entries_def)
  have "card (fst ` set a) = length a" "card (fst ` set b) = length b"
    using assms [THEN bt_ok_distinct] by (metis distinct_card length_map set_map)+
  then have "fst ` set a = fst ` set b" using sub len by (metis card_subset_eq finite_imageI finite_set)
  then have keys: "map fst a = map fst b"
    using assms unfolding bt_ok_def by (intro sorted_wrt_less_unique) auto
  have "fst (a ! i) = fst (b ! i) \<and> cmp_eq (snd (a ! i)) (snd (b ! i))" if i: "i < length a" for i
  proof -
    have k: "fst (a ! i) = fst (b ! i)" using keys i len by (metis nth_map)
    have "b ! i \<in> set b" using i len by simp
    then have "bt_get b (fst (a ! i)) = Some (snd (b ! i))"
      using bt_get_Some_iff [OF assms(2)] k by simp
    moreover have "a ! i \<in> set a" using i by simp
    then have "case bt_get b (fst (a ! i)) of Some w \<Rightarrow> cmp_eq (snd (a ! i)) w | None \<Rightarrow> False"
      using eq by (auto simp: equal_entries_def list_all_iff split_beta)
    ultimately show ?thesis using k by simp
  qed
  with len show "list_all2 (\<lambda>x y. fst x = fst y \<and> cmp_eq (snd x) (snd y)) a b"
    by (simp add: list_all2_conv_all_nth)
qed

section \<open>Order of scalars\<close>

function cmp_ord :: "value \<Rightarrow> value \<Rightarrow> ordering option" where
  "cmp_ord x y =
     (case (x, y) of
        (VInt a, VInt b) \<Rightarrow> Some (cmp a b)
      | (VFloat a, VFloat b) \<Rightarrow> f64_partial_cmp a b
      | (VUuid a, VUuid b) \<Rightarrow> Some (cmp a b)
      | (VDate a, VDate b) \<Rightarrow> Some (cmp a b)
      | (VTimestamp a, VTimestamp b) \<Rightarrow> Some (cmp a b)
      | (VDuration a, VDuration b) \<Rightarrow> Some (cmp a b)
      | (VBytes a, VBytes b) \<Rightarrow> Some (cmp a b)
      | (VDecimal a, VDecimal b) \<Rightarrow>
          if scale a = scale b then Some (cmp (coefficient a) (coefficient b)) else None
      | (VText a, VText b) \<Rightarrow> Some (cmp (as_bytes a) (as_bytes b))
      | (VNamed a av, VNamed b bv) \<Rightarrow> if a = b then cmp_ord av bv else None
      | _ \<Rightarrow> None)"
  by pat_completeness auto
termination by (relation "measure (\<lambda>(x, y). size x)") auto

declare cmp_ord.simps [simp del]

section \<open>Protocol boundary\<close>

fun value_requires_v2 :: "value \<Rightarrow> bool" where
  "value_requires_v2 (VUuid _) = True"
| "value_requires_v2 (VDate _) = True"
| "value_requires_v2 (VTimestamp _) = True"
| "value_requires_v2 (VDuration _) = True"
| "value_requires_v2 (VDecimal _) = True"
| "value_requires_v2 (VBytes _) = True"
| "value_requires_v2 (VNamed _ v) = value_requires_v2 v"
| "value_requires_v2 (VOption ov) = (case ov of Some v \<Rightarrow> value_requires_v2 v | None \<Rightarrow> False)"
| "value_requires_v2 (VEnum _ as _) = list_ex value_requires_v2 as"
| "value_requires_v2 (VRecord fs) = list_ex (\<lambda>(k, v). value_requires_v2 v) fs"
| "value_requires_v2 (VMap _) = True"
| "value_requires_v2 (VTuple vs) = list_ex value_requires_v2 vs"
| "value_requires_v2 (VList vs) = list_ex value_requires_v2 vs"
| "value_requires_v2 _ = False"

section \<open>Equality keys\<close>

text \<open>
  The JSON values \<open>index_value\<close> builds.  The base64url text of a byte string comes from a
  third-party crate and is the parameter \<open>b64\<close>.
\<close>

datatype json =
    JNull
  | JBool bool
  | JNat nat
  | JStr string
  | JArr "json list"
  | JObj "(string \<times> json) list"

fun index_value :: "(u8 list \<Rightarrow> string) \<Rightarrow> value \<Rightarrow> json" where
  "index_value b64 (VInt v) = JArr [JStr ''int'', JStr (show_int v)]"
| "index_value b64 (VFloat v) = JArr [JStr ''float'', JNat (if f64_is_zero v then 0 else unat v)]"
| "index_value b64 (VBool v) = JArr [JStr ''bool'', JBool v]"
| "index_value b64 (VText v) = JArr [JStr ''text'', JStr v]"
| "index_value b64 (VUuid v) = JArr [JStr ''uuid'', JStr (uuid_display v)]"
| "index_value b64 (VDate v) = JArr [JStr ''date'', JStr (date_display v)]"
| "index_value b64 (VTimestamp v) = JArr [JStr ''timestamp'', JStr (timestamp_display v)]"
| "index_value b64 (VDuration v) = JArr [JStr ''duration'', JStr (duration_payload v)]"
| "index_value b64 (VDecimal v) =
     JArr [JStr ''decimal'',
           JObj [(''coefficient'', JStr (repr_coefficient (decimal_payload v))),
                 (''scale'', JNat (repr_scale (decimal_payload v)))]]"
| "index_value b64 (VBytes v) = JArr [JStr ''bytes'', JStr (b64 v)]"
| "index_value b64 VNull = JArr [JStr ''null'']"
| "index_value b64 (VNamed i v) = JArr [JStr ''named'', JNat (unat i), index_value b64 v]"
| "index_value b64 (VEnum n as i) =
     JArr [JStr ''enum'', JNat (unat i), JStr (if i = 0 then n else []),
           JArr (map (index_value b64) as)]"
| "index_value b64 (VRecord fs) =
     JArr [JStr ''record'', JArr (map (\<lambda>(k, v). JArr [JStr k, index_value b64 v]) fs)]"
| "index_value b64 (VTuple vs) = JArr [JStr ''tuple'', JArr (map (index_value b64) vs)]"
| "index_value b64 (VList vs) = JArr [JStr ''list'', JArr (map (index_value b64) vs)]"
| "index_value b64 (VMap es) =
     JArr [JStr ''map'', JArr (map (\<lambda>(k, v). JArr [JStr k, index_value b64 v]) es)]"
| "index_value b64 (VOption ov) =
     JArr [JStr ''option'', (case ov of None \<Rightarrow> JNull | Some v \<Rightarrow> index_value b64 v)]"

text \<open>Floats the language admits: no infinities and no NaN anywhere inside the value.\<close>

fun all_finite :: "value \<Rightarrow> bool" where
  "all_finite (VFloat f) = is_finite f"
| "all_finite (VNamed _ v) = all_finite v"
| "all_finite (VOption ov) = (case ov of Some v \<Rightarrow> all_finite v | None \<Rightarrow> True)"
| "all_finite (VEnum _ as _) = list_all all_finite as"
| "all_finite (VRecord fs) = list_all (\<lambda>(k, v). all_finite v) fs"
| "all_finite (VMap fs) = list_all (\<lambda>(k, v). all_finite v) fs"
| "all_finite (VTuple vs) = list_all all_finite vs"
| "all_finite (VList vs) = list_all all_finite vs"
| "all_finite _ = True"

lemma float_key_iff:
  assumes "is_finite f" "is_finite g"
  shows "(if f64_is_zero f then 0 else unat f) = (if f64_is_zero g then 0 else unat g) \<longleftrightarrow> f64_eq f g"
proof -
  have nz: "unat w \<noteq> 0" if "f64_magnitude w \<noteq> 0" for w using unat_f64 [of w] that by simp
  show ?thesis
  proof (cases "f64_magnitude f = 0 \<or> f64_magnitude g = 0")
    case True
    with nz show ?thesis
      using assms by (auto simp: f64_is_zero_iff f64_eq_finite f64_signed_def)
  next
    case False
    then have "f64_eq f g \<longleftrightarrow> f = g"
      using f64_signed_inj [of f g] assms by (auto simp: f64_eq_finite)
    with False assms show ?thesis by (simp add: f64_is_zero_iff word_unat_eq_iff)
  qed
qed

lemma map_eq_all2:
  "(\<And>x y. x \<in> set xs \<Longrightarrow> y \<in> set ys \<Longrightarrow> f x = f y \<longleftrightarrow> R x y) \<Longrightarrow> map f xs = map f ys \<longleftrightarrow> list_all2 R xs ys"
proof (induction xs arbitrary: ys)
  case (Cons x xs)
  then show ?case by (cases ys) auto
qed auto

definition b64_injective :: "(u8 list \<Rightarrow> string) \<Rightarrow> bool" where
  "b64_injective b64 \<longleftrightarrow>
     (\<forall>x y. length x \<le> MAX_BYTES \<longrightarrow> length y \<le> MAX_BYTES \<longrightarrow> b64 x = b64 y \<longrightarrow> x = y)"

lemma index_value_iff:
  assumes "b64_injective b64"
  shows "value_ok a \<Longrightarrow> value_ok b \<Longrightarrow> all_finite a \<Longrightarrow> all_finite b \<Longrightarrow>
         index_value b64 a = index_value b64 b \<longleftrightarrow> cmp_eq a b"
proof (induction a arbitrary: b)
  case (VInt x)
  then show ?case by (cases b) (auto simp: int_text.display_inj [of in_i64])
next
  case (VFloat x)
  then show ?case by (cases b) (auto simp: float_key_iff)
next
  case (VUuid x)
  then show ?case by (cases b) (auto simp: uuid_text.display_inj)
next
  case (VDate x)
  then show ?case by (cases b) (auto simp: date_text.display_inj)
next
  case (VTimestamp x)
  then show ?case by (cases b) (auto simp: timestamp_text.display_inj)
next
  case (VDuration x)
  then show ?case by (cases b) (auto simp: duration_payload_def int_text.display_inj [of in_i64])
next
  case (VDecimal x)
  have "show_int i = show_int j \<longleftrightarrow> i = j" for i j
    by (rule int_text.display_inj [of "\<lambda>_. True"]) auto
  then show ?case using VDecimal by (cases b) (auto simp: decimal_payload_def)
next
  case (VBytes x)
  with assms show ?case by (cases b) (auto simp: b64_injective_def)
next
  case (VEnum nm as i)
  show ?case
  proof (cases b)
    case (VEnum nm' as' i')
    have "map (index_value b64) as = map (index_value b64) as' \<longleftrightarrow> list_all2 cmp_eq as as'"
      using VEnum.prems VEnum.IH VEnum by (intro map_eq_all2) (auto simp: list_all_iff)
    with VEnum show ?thesis by (auto simp: equal_items_all2 word_unat_eq_iff)
  qed (auto)
next
  case (VTuple vs)
  show ?case
  proof (cases b)
    case (VTuple ws)
    have "map (index_value b64) vs = map (index_value b64) ws \<longleftrightarrow> list_all2 cmp_eq vs ws"
      using VTuple.prems VTuple.IH VTuple by (intro map_eq_all2) (auto simp: list_all_iff)
    with VTuple show ?thesis by (auto simp: equal_items_all2)
  qed (auto)
next
  case (VList vs)
  show ?case
  proof (cases b)
    case (VList ws)
    have "map (index_value b64) vs = map (index_value b64) ws \<longleftrightarrow> list_all2 cmp_eq vs ws"
      using VList.prems VList.IH VList by (intro map_eq_all2) (auto simp: list_all_iff)
    with VList show ?thesis by (auto simp: equal_items_all2)
  qed (auto)
next
  case (VRecord fs)
  show ?case
  proof (cases b)
    case (VRecord gs)
    have "map (\<lambda>(k, v). JArr [JStr k, index_value b64 v]) fs = map (\<lambda>(k, v). JArr [JStr k, index_value b64 v]) gs
        \<longleftrightarrow> list_all2 (\<lambda>x y. fst x = fst y \<and> cmp_eq (snd x) (snd y)) fs gs"
      using VRecord.prems VRecord.IH VRecord
      by (intro map_eq_all2) (fastforce simp: list_all_iff split_beta)
    with VRecord VRecord.prems show ?thesis by (auto simp: equal_entries_all2)
  qed (auto)
next
  case (VMap fs)
  show ?case
  proof (cases b)
    case (VMap gs)
    have "map (\<lambda>(k, v). JArr [JStr k, index_value b64 v]) fs = map (\<lambda>(k, v). JArr [JStr k, index_value b64 v]) gs
        \<longleftrightarrow> list_all2 (\<lambda>x y. fst x = fst y \<and> cmp_eq (snd x) (snd y)) fs gs"
      using VMap.prems VMap.IH VMap
      by (intro map_eq_all2) (fastforce simp: list_all_iff split_beta)
    with VMap VMap.prems show ?thesis by (auto simp: equal_entries_all2)
  qed (auto)
next
  case (VOption ov)
  have arr: "index_value b64 v \<noteq> JNull" for v by (cases v) auto
  show ?case
  proof (cases b)
    case (VOption ow)
    with VOption.prems VOption.IH arr show ?thesis
      by (cases ov; cases ow) (auto, metis arr)
  qed (cases ov; auto)+
next
  case (VNamed i v)
  then show ?case by (cases b) (auto simp: word_unat_eq_iff)
next
  case (VBool x)
  then show ?case by (cases b) auto
next
  case (VText x)
  then show ?case by (cases b) auto
next
  case VNull
  then show ?case by (cases b) auto
qed

text \<open>Equality of values is an equivalence wherever keys exist.\<close>

lemma b64_injective_hex: "b64_injective bytes_display"
  using bytes_text.display_inj by (auto simp: b64_injective_def)

lemma cmp_eq_refl: "value_ok a \<Longrightarrow> all_finite a \<Longrightarrow> cmp_eq a a"
  using index_value_iff [OF b64_injective_hex, of a a] by simp

lemma cmp_eq_sym:
  "value_ok a \<Longrightarrow> value_ok b \<Longrightarrow> all_finite a \<Longrightarrow> all_finite b \<Longrightarrow> cmp_eq a b \<Longrightarrow> cmp_eq b a"
  using index_value_iff [OF b64_injective_hex, of a b] index_value_iff [OF b64_injective_hex, of b a] by simp

lemma cmp_eq_trans:
  "value_ok a \<Longrightarrow> value_ok b \<Longrightarrow> value_ok c \<Longrightarrow> all_finite a \<Longrightarrow> all_finite b \<Longrightarrow> all_finite c \<Longrightarrow>
   cmp_eq a b \<Longrightarrow> cmp_eq b c \<Longrightarrow> cmp_eq a c"
  using index_value_iff [OF b64_injective_hex, of a b] index_value_iff [OF b64_injective_hex, of b c]
    index_value_iff [OF b64_injective_hex, of a c] by simp

section \<open>Properties\<close>

text \<open>
  (C17) The canonical equality key of a value decides equality: two values without infinities or
  NaN have the same key exactly when \<open>cmp_eq\<close> holds of them, whatever their nesting; the two
  float zeros share a key, values of different kinds never do.  The base64url text of byte
  strings enters only through its injectivity.
\<close>

theorem index_value_decides_equality:
  assumes "b64_injective b64" and "value_ok a" "value_ok b" and "all_finite a" "all_finite b"
  shows "index_value b64 a = index_value b64 b \<longleftrightarrow> cmp_eq a b"
  using index_value_iff assms by blast

theorem index_value_decides_equality_witness:
  "b64_injective bytes_display \<and>
   (index_value bytes_display (VRecord [(''a'', VFloat 0), (''b'', VOption (Some (VBytes [7])))]) =
    index_value bytes_display (VRecord [(''a'', VFloat 0x8000000000000000), (''b'', VOption (Some (VBytes [7])))])
    \<longleftrightarrow> cmp_eq (VRecord [(''a'', VFloat 0), (''b'', VOption (Some (VBytes [7])))])
               (VRecord [(''a'', VFloat 0x8000000000000000), (''b'', VOption (Some (VBytes [7])))]))"
proof -
  have "value_ok (VRecord [(''a'', VFloat 0), (''b'', VOption (Some (VBytes [7])))])"
    "value_ok (VRecord [(''a'', VFloat 0x8000000000000000), (''b'', VOption (Some (VBytes [7])))])"
    "all_finite (VRecord [(''a'', VFloat 0), (''b'', VOption (Some (VBytes [7])))])"
    "all_finite (VRecord [(''a'', VFloat 0x8000000000000000), (''b'', VOption (Some (VBytes [7])))])"
    by (simp_all add: MAX_BYTES_def is_finite_def f64_exponent_def f64_magnitude_def string_ok_def
        as_bytes_def byte_of_def less_char_def of_char_def)
  then show ?thesis using index_value_decides_equality [OF b64_injective_hex] b64_injective_hex by blast
qed

end
