(* ===== verification/Catalog.thy ===== *)
theory Catalog
  imports Values
begin

text \<open>
  Types and the type catalog (\<^verbatim>\<open>src/src/model.rs\<close>): the type language, lookup by name and
  by stable ID, field paths, and the ID allocation of \<open>resolve\<close>.  \<open>usize\<close> depths are
  naturals.  The catalog is passed explicitly; a method that takes \<open>&mut self\<close> returns
  the new catalog.
\<close>

section \<open>Types\<close>

datatype scalar_type =
    TInt | TFloat | TBool | TText | TUuid | TDate | TTimestamp | TDuration
  | TDecimal nat nat
  | TBytes
  | TEnum "variant_def list"
  | TRecord "column list"
  | TTuple "scalar_type list"
  | TOption scalar_type
  | TList scalar_type
  | TMap scalar_type
  | TNamed string
  | TRef u64
and variant_def =
    VariantDef (vd_name: string) (vd_args: "scalar_type list") (vd_id: u64)
and column =
    Column (col_name: string) (col_ty: scalar_type) (col_default: "value option") (col_id: u64)

record type_definition =
  def_id :: u64
  def_name :: string
  def_ty :: scalar_type

record catalog =
  types :: "(string, type_definition) btree"
  next_id :: u64

definition empty_catalog :: catalog where
  "empty_catalog = \<lparr>types = [], next_id = 1\<rparr>"

definition check_depth :: "nat \<Rightarrow> unit result" where
  "check_depth depth = check (depth < MAX_DEPTH) E_LIMIT"

section \<open>Lookup\<close>

definition restore_next_id :: "catalog \<Rightarrow> u64 \<Rightarrow> catalog result" where
  "restore_next_id c i = (if i = 0 then Err E_STORAGE else Ok (c\<lparr>next_id := i\<rparr>))"

definition allocate :: "catalog \<Rightarrow> (u64 \<times> catalog) result" where
  "allocate c =
     and_then (ok_or E_SCHEMA (checked_add_u64 (next_id c) 1)) (\<lambda>n. Ok (next_id c, c\<lparr>next_id := n\<rparr>))"

definition definition_of :: "catalog \<Rightarrow> u64 \<Rightarrow> type_definition result" where
  "definition_of c i = ok_or E_SCHEMA (find (\<lambda>d. def_id d = i) (bt_values (types c)))"

text \<open>\<open>for _ in 0..MAX_DEPTH\<close>: at most 64 references are followed.\<close>

fun underlying_loop :: "catalog \<Rightarrow> nat \<Rightarrow> scalar_type \<Rightarrow> scalar_type result" where
  "underlying_loop c 0 ty = Err E_LIMIT"
| "underlying_loop c (Suc n) ty =
     (case ty of
        TRef i \<Rightarrow> and_then (definition_of c i) (\<lambda>d. underlying_loop c n (def_ty d))
      | _ \<Rightarrow> Ok ty)"

definition underlying :: "catalog \<Rightarrow> scalar_type \<Rightarrow> scalar_type result" where
  "underlying c ty = underlying_loop c MAX_DEPTH ty"

definition find_column :: "column list \<Rightarrow> string \<Rightarrow> column option" where
  "find_column cols name = find (\<lambda>col. col_name col = name) cols"

definition field_type_step :: "catalog \<Rightarrow> scalar_type \<Rightarrow> string \<Rightarrow> scalar_type result" where
  "field_type_step c ty part =
     and_then (underlying c ty) (\<lambda>u.
       case u of
         TRecord cols \<Rightarrow> map_ok col_ty (ok_or E_FIELD (find_column cols part))
       | _ \<Rightarrow> Err E_TYPE)"

definition field_type :: "catalog \<Rightarrow> column list \<Rightarrow> string \<Rightarrow> scalar_type result" where
  "field_type c cols path =
     (case find_column cols path of
        Some col \<Rightarrow> Ok (col_ty col)
      | None \<Rightarrow>
          let parts = split_on CHR ''.'' path
          in and_then (ok_or E_FIELD (find_column cols (hd parts))) (\<lambda>col.
               try_fold (field_type_step c) (col_ty col) (tl parts)))"

fun field_path_loop :: "catalog \<Rightarrow> column list \<Rightarrow> string list \<Rightarrow> u64 list result" where
  "field_path_loop c cols [] = Ok []"
| "field_path_loop c cols (part # parts) =
     and_then (ok_or E_FIELD (find_column cols part)) (\<lambda>field.
       if parts = [] then Ok [col_id field]
       else and_then (underlying c (col_ty field)) (\<lambda>u.
              case u of
                TRecord nested \<Rightarrow> map_ok ((#) (col_id field)) (field_path_loop c nested parts)
              | _ \<Rightarrow> Err E_TYPE))"

definition field_path_ids :: "catalog \<Rightarrow> column list \<Rightarrow> string \<Rightarrow> u64 list result" where
  "field_path_ids c cols path = field_path_loop c cols (split_on CHR ''.'' path)"

section \<open>Resolving names and allocating IDs\<close>

text \<open>
  \<open>into_iter().map(|t| self.resolve_inner(t, depth + 1)).collect()\<close>: a traversal that
  threads the catalog.
\<close>

fun traverse_state :: "('s \<Rightarrow> 'a \<Rightarrow> ('b \<times> 's) result) \<Rightarrow> 's \<Rightarrow> 'a list \<Rightarrow> ('b list \<times> 's) result" where
  "traverse_state f s [] = Ok ([], s)"
| "traverse_state f s (x # xs) =
     and_then (f s x) (\<lambda>(y, s1). and_then (traverse_state f s1 xs) (\<lambda>(ys, s2). Ok (y # ys, s2)))"

lemma traverse_state_cong [fundef_cong]:
  "s = s' \<Longrightarrow> xs = ys \<Longrightarrow> (\<And>s x. x \<in> set ys \<Longrightarrow> f s x = g s x) \<Longrightarrow>
   traverse_state f s xs = traverse_state g s' ys"
proof (induction ys arbitrary: xs s s')
  case (Cons y ys)
  have "traverse_state f t ys = traverse_state g t ys" for t
    using Cons.prems(3) by (intro Cons.IH) auto
  with Cons.prems show ?case by simp
qed simp

function resolve_inner :: "catalog \<Rightarrow> scalar_type \<Rightarrow> nat \<Rightarrow> (scalar_type \<times> catalog) result" where
  "resolve_inner c ty depth =
     (if MAX_DEPTH \<le> depth then Err E_LIMIT
      else case ty of
        TDecimal precision scl \<Rightarrow>
          and_then (validate_decimal_type precision scl) (\<lambda>_. Ok (TDecimal precision scl, c))
      | TNamed name \<Rightarrow>
          and_then (ok_or E_SCHEMA (bt_get (types c) name)) (\<lambda>d. Ok (TRef (def_id d), c))
      | TRecord columns \<Rightarrow>
          and_then
            (try_fold (\<lambda>(seen, resolved, c) column.
               if col_name column \<in> set seen then Err E_SCHEMA
               else and_then (resolve_inner c (col_ty column) (Suc depth)) (\<lambda>(ty, c).
                 and_then (allocate c) (\<lambda>(i, c).
                   Ok (bs_insert (col_name column) seen,
                       resolved @ [Column (col_name column) ty (col_default column) i], c))))
               ([], [], c) columns)
            (\<lambda>(_, resolved, c). Ok (TRecord resolved, c))
      | TEnum variants \<Rightarrow>
          and_then
            (try_fold (\<lambda>(seen, resolved, c) v.
               if vd_name v \<in> set seen then Err E_SCHEMA
               else and_then (traverse_state (\<lambda>c t. resolve_inner c t (Suc depth)) c (vd_args v)) (\<lambda>(args, c).
                 and_then (allocate c) (\<lambda>(i, c).
                   Ok (bs_insert (vd_name v) seen, resolved @ [VariantDef (vd_name v) args i], c))))
               ([], [], c) variants)
            (\<lambda>(_, resolved, c). Ok (TEnum resolved, c))
      | TOption t \<Rightarrow> and_then (resolve_inner c t (Suc depth)) (\<lambda>(t, c). Ok (TOption t, c))
      | TList t \<Rightarrow> and_then (resolve_inner c t (Suc depth)) (\<lambda>(t, c). Ok (TList t, c))
      | TMap t \<Rightarrow> and_then (resolve_inner c t (Suc depth)) (\<lambda>(t, c). Ok (TMap t, c))
      | TTuple ts \<Rightarrow>
          and_then (traverse_state (\<lambda>c t. resolve_inner c t (Suc depth)) c ts)
            (\<lambda>(ts, c). Ok (TTuple ts, c))
      | other \<Rightarrow> Ok (other, c))"
  by pat_completeness auto
termination by (relation "measure (\<lambda>(c, ty, depth). MAX_DEPTH - depth)") auto

declare resolve_inner.simps [simp del]

function structural_id_count :: "scalar_type \<Rightarrow> nat \<Rightarrow> u64 result" where
  "structural_id_count ty depth =
     (if MAX_DEPTH \<le> depth then Err E_LIMIT
      else case ty of
        TRecord columns \<Rightarrow>
          try_fold (\<lambda>count column.
            and_then (ok_or E_SCHEMA (checked_add_u64 count 1)) (\<lambda>count.
              and_then (structural_id_count (col_ty column) (Suc depth)) (\<lambda>n.
                ok_or E_SCHEMA (checked_add_u64 count n)))) 0 columns
      | TEnum variants \<Rightarrow>
          try_fold (\<lambda>count v.
            and_then (ok_or E_SCHEMA (checked_add_u64 count 1)) (\<lambda>count.
              try_fold (\<lambda>count argument.
                and_then (structural_id_count argument (Suc depth)) (\<lambda>n.
                  ok_or E_SCHEMA (checked_add_u64 count n))) count (vd_args v))) 0 variants
      | TTuple items \<Rightarrow>
          try_fold (\<lambda>count item.
            and_then (structural_id_count item (Suc depth)) (\<lambda>n.
              ok_or E_SCHEMA (checked_add_u64 count n))) 0 items
      | TOption inner \<Rightarrow> structural_id_count inner (Suc depth)
      | TList inner \<Rightarrow> structural_id_count inner (Suc depth)
      | TMap inner \<Rightarrow> structural_id_count inner (Suc depth)
      | _ \<Rightarrow> Ok 0)"
  by pat_completeness auto
termination by (relation "measure (\<lambda>(ty, depth). MAX_DEPTH - depth)") auto

declare structural_id_count.simps [simp del]

section \<open>Structure of types\<close>

text \<open>The immediate components of a type; structural recursions descend to them.\<close>

fun subtypes :: "scalar_type \<Rightarrow> scalar_type list" where
  "subtypes (TRecord cols) = map col_ty cols"
| "subtypes (TEnum vs) = concat (map vd_args vs)"
| "subtypes (TTuple ts) = ts"
| "subtypes (TOption t) = [t]"
| "subtypes (TList t) = [t]"
| "subtypes (TMap t) = [t]"
| "subtypes _ = []"

lemma size_column: "col \<in> set cols \<Longrightarrow> size (col_ty col) < size (TRecord cols)"
  using size_list_mem [of col cols size] by (cases col) auto

lemma size_variant: "v \<in> set vs \<Longrightarrow> t \<in> set (vd_args v) \<Longrightarrow> size t < size (TEnum vs)"
  using size_list_mem [of v vs size] size_list_mem [of t "vd_args v" size] by (cases v) auto

lemma size_subtype: "t \<in> set (subtypes ty) \<Longrightarrow> size t < size ty"
proof (cases ty)
  case (TEnum vs)
  then show "t \<in> set (subtypes ty) \<Longrightarrow> size t < size ty" using size_variant by fastforce
next
  case (TRecord cols)
  then show "t \<in> set (subtypes ty) \<Longrightarrow> size t < size ty" using size_column by fastforce
next
  case (TTuple ts)
  then show "t \<in> set (subtypes ty) \<Longrightarrow> size t < size ty" using size_list_mem [of t ts size] by auto
qed auto

lemma type_induct [case_names step]:
  assumes "\<And>ty. (\<And>t. t \<in> set (subtypes ty) \<Longrightarrow> P t) \<Longrightarrow> P ty"
  shows "P ty"
proof (induction ty rule: measure_induct_rule [where f = size])
  case (less ty)
  then show ?case using assms size_subtype by blast
qed

text \<open>The IDs of a type, in the order in which \<open>resolve_inner\<close> allocates them.\<close>

function type_ids :: "scalar_type \<Rightarrow> u64 list" where
  "type_ids ty =
     (case ty of
        TRecord cols \<Rightarrow> concat (map (\<lambda>col. type_ids (col_ty col) @ [col_id col]) cols)
      | TEnum vs \<Rightarrow> concat (map (\<lambda>v. concat (map type_ids (vd_args v)) @ [vd_id v]) vs)
      | TTuple ts \<Rightarrow> concat (map type_ids ts)
      | TOption t \<Rightarrow> type_ids t
      | TList t \<Rightarrow> type_ids t
      | TMap t \<Rightarrow> type_ids t
      | _ \<Rightarrow> [])"
  by pat_completeness auto
termination
  by (relation "measure size")
     (auto intro: size_column [simplified] size_variant [simplified] size_subtype [of _ "TTuple ts" for ts, simplified])

declare type_ids.simps [simp del]

lemmas type_ids_simps [simp] =
  type_ids.simps [of "TRecord cols" for cols, simplified] type_ids.simps [of "TEnum vs" for vs, simplified]
  type_ids.simps [of "TTuple ts" for ts, simplified] type_ids.simps [of "TOption t" for t, simplified]
  type_ids.simps [of "TList t" for t, simplified] type_ids.simps [of "TMap t" for t, simplified]

lemma type_ids_leaf [simp]:
  "type_ids TInt = []" "type_ids TFloat = []" "type_ids TBool = []" "type_ids TText = []"
  "type_ids TUuid = []" "type_ids TDate = []" "type_ids TTimestamp = []" "type_ids TDuration = []"
  "type_ids (TDecimal p s) = []" "type_ids TBytes = []" "type_ids (TNamed n) = []" "type_ids (TRef i) = []"
  by (simp_all add: type_ids.simps)

section \<open>Allocation\<close>


text \<open>A step that leaves the types alone and allocates a run of consecutive IDs.\<close>

definition allocates :: "catalog \<Rightarrow> catalog \<Rightarrow> u64 list \<Rightarrow> bool" where
  "allocates c c' ids \<longleftrightarrow> types c' = types c \<and> unat (next_id c) \<le> unat (next_id c') \<and>
     map unat ids = [unat (next_id c) ..< unat (next_id c')]"

lemma allocates_refl: "allocates c c []"
  by (simp add: allocates_def)

lemma upt_split: "i \<le> j \<Longrightarrow> j \<le> k \<Longrightarrow> [i..<k] = [i..<j] @ [j..<k]"
  using upt_add_eq_append [of i j "k - j"] by simp

lemma allocates_append: "allocates c c1 is \<Longrightarrow> allocates c1 c2 js \<Longrightarrow> allocates c c2 (is @ js)"
  using upt_split [of "unat (next_id c)" "unat (next_id c1)" "unat (next_id c2)"]
  by (simp add: allocates_def)

lemma allocates_one: "allocate c = Ok (i, c') \<Longrightarrow> allocates c c' [i]"
  by (auto simp: allocate_def and_then_Ok_iff ok_or_Ok_iff checked_add_u64_Some allocates_def)

lemma allocates_snoc: "allocates c c1 is \<Longrightarrow> allocate c1 = Ok (i, c2) \<Longrightarrow> allocates c c2 (is @ [i])"
  by (rule allocates_append [OF _ allocates_one])

lemma traverse_state_allocates:
  assumes "traverse_state f c xs = Ok (ys, c')"
    and "\<And>c x y c'. x \<in> set xs \<Longrightarrow> f c x = Ok (y, c') \<Longrightarrow> allocates c c' (ids y) \<and> R x y"
  shows "allocates c c' (concat (map ids ys)) \<and> list_all2 R xs ys"
  using assms
proof (induction xs arbitrary: c ys)
  case (Cons x xs)
  from Cons.prems(1) obtain y c1 ys' where y: "f c x = Ok (y, c1)"
    and ys: "traverse_state f c1 xs = Ok (ys', c')" "ys = y # ys'"
    by (auto simp: and_then_Ok_iff split: prod.splits)
  have "allocates c1 c' (concat (map ids ys')) \<and> list_all2 R xs ys'"
    using Cons.prems(2) by (intro Cons.IH [OF ys(1)]) auto
  with Cons.prems(2) [OF _ y] ys(2) show ?case by (auto intro: allocates_append)
qed (simp add: allocates_refl)

text \<open>The loops over named members, with the set of names seen so far.\<close>

lemma try_fold_members:
  assumes "try_fold (\<lambda>(seen, resolved, c) x. f seen resolved c x) (seen, resolved, c) xs = Ok (seen', resolved', c')"
    and "\<And>seen resolved c x seen' resolved' c'. x \<in> set xs \<Longrightarrow>
           f seen resolved c x = Ok (seen', resolved', c') \<Longrightarrow>
           \<exists>y. resolved' = resolved @ [y] \<and> allocates c c' (ids y) \<and> R x y \<and>
               nm y \<notin> set seen \<and> set seen' = insert (nm y) (set seen)"
    and "set seen = nm ` set resolved" "distinct (map nm resolved)"
  shows "\<exists>ys. resolved' = resolved @ ys \<and> allocates c c' (concat (map ids ys)) \<and> list_all2 R xs ys \<and>
              distinct (map nm resolved')"
  using assms
proof (induction xs arbitrary: seen resolved c)
  case (Cons x xs)
  from Cons.prems(1) obtain s1 r1 c1 where x: "f seen resolved c x = Ok (s1, r1, c1)"
    and rest: "try_fold (\<lambda>(seen, resolved, c) x. f seen resolved c x) (s1, r1, c1) xs = Ok (seen', resolved', c')"
    by (auto simp: and_then_Ok_iff)
  from Cons.prems(2) [OF _ x] obtain y where y: "r1 = resolved @ [y]" "allocates c c1 (ids y)" "R x y"
    "nm y \<notin> set seen" "set s1 = insert (nm y) (set seen)" by auto
  have "\<exists>ys. resolved' = r1 @ ys \<and> allocates c1 c' (concat (map ids ys)) \<and> list_all2 R xs ys \<and>
      distinct (map nm resolved')"
  proof (rule Cons.IH [OF rest])
    show "set s1 = nm ` set r1" "distinct (map nm r1)" using y Cons.prems(3,4) by auto
  qed (meson Cons.prems(2) list.set_intros(2))
  then obtain ys where "resolved' = r1 @ ys" "allocates c1 c' (concat (map ids ys))" "list_all2 R xs ys"
    "distinct (map nm resolved')" by blast
  with y show ?case by (intro exI [of _ "y # ys"]) (auto intro: allocates_append)
qed (simp add: allocates_refl)

text \<open>
  What a resolved type satisfies: no names are left, decimal parameters are valid and members
  have distinct names.
\<close>

fun own_wf :: "scalar_type \<Rightarrow> bool" where
  "own_wf (TDecimal p s) = (validate_decimal_type p s = Ok ())"
| "own_wf (TNamed _) = False"
| "own_wf (TRecord cols) = distinct (map col_name cols)"
| "own_wf (TEnum vs) = distinct (map vd_name vs)"
| "own_wf _ = True"

function wf_type :: "scalar_type \<Rightarrow> bool" where
  "wf_type ty \<longleftrightarrow> own_wf ty \<and> list_all wf_type (subtypes ty)"
  by auto
termination by (relation "measure size") (auto simp: size_subtype)

declare wf_type.simps [simp del]

lemma wf_type_simps [simp]:
  "wf_type TInt" "wf_type TFloat" "wf_type TBool" "wf_type TText" "wf_type TUuid" "wf_type TDate"
  "wf_type TTimestamp" "wf_type TDuration" "wf_type TBytes" "wf_type (TRef i)" "\<not> wf_type (TNamed n)"
  "wf_type (TDecimal p s) \<longleftrightarrow> validate_decimal_type p s = Ok ()"
  "wf_type (TOption t) \<longleftrightarrow> wf_type t" "wf_type (TList t) \<longleftrightarrow> wf_type t" "wf_type (TMap t) \<longleftrightarrow> wf_type t"
  "wf_type (TTuple ts) \<longleftrightarrow> list_all wf_type ts"
  "wf_type (TRecord cols) \<longleftrightarrow> distinct (map col_name cols) \<and> list_all wf_type (map col_ty cols)"
  "wf_type (TEnum vs) \<longleftrightarrow> distinct (map vd_name vs) \<and> list_all wf_type (concat (map vd_args vs))"
  by (subst wf_type.simps; simp)+

text \<open>What the parser guarantees of a declared type: identifiers without a dot and valid default values.\<close>

definition name_ok :: "string \<Rightarrow> bool" where
  "name_ok n \<longleftrightarrow> string_ok n \<and> CHR ''.'' \<notin> set n"

definition column_ok :: "column \<Rightarrow> bool" where
  "column_ok col \<longleftrightarrow> name_ok (col_name col) \<and> (case col_default col of None \<Rightarrow> True | Some v \<Rightarrow> value_ok v)"

fun own_members_ok :: "scalar_type \<Rightarrow> bool" where
  "own_members_ok (TRecord cols) = list_all column_ok cols"
| "own_members_ok (TEnum vs) = list_all (\<lambda>v. name_ok (vd_name v)) vs"
| "own_members_ok _ = True"

function members_ok :: "scalar_type \<Rightarrow> bool" where
  "members_ok ty \<longleftrightarrow> own_members_ok ty \<and> list_all members_ok (subtypes ty)"
  by auto
termination by (relation "measure size") (auto simp: size_subtype)

declare members_ok.simps [simp del]

lemma members_ok_simps [simp]:
  "members_ok TInt" "members_ok TFloat" "members_ok TBool" "members_ok TText" "members_ok TUuid" "members_ok TDate"
  "members_ok TTimestamp" "members_ok TDuration" "members_ok TBytes" "members_ok (TRef i)" "members_ok (TNamed n)"
  "members_ok (TDecimal p s)"
  "members_ok (TOption t) \<longleftrightarrow> members_ok t" "members_ok (TList t) \<longleftrightarrow> members_ok t" "members_ok (TMap t) \<longleftrightarrow> members_ok t"
  "members_ok (TTuple ts) \<longleftrightarrow> list_all members_ok ts"
  "members_ok (TRecord cols) \<longleftrightarrow> list_all column_ok cols \<and> list_all members_ok (map col_ty cols)"
  "members_ok (TEnum vs) \<longleftrightarrow> list_all (\<lambda>v. name_ok (vd_name v)) vs \<and> list_all members_ok (concat (map vd_args vs))"
  by (subst members_ok.simps; simp)+

text \<open>Resolving keeps the shape: as many IDs, and members keep their names and defaults.\<close>

definition resolves :: "scalar_type \<Rightarrow> scalar_type \<Rightarrow> bool" where
  "resolves ty ty' \<longleftrightarrow> wf_type ty' \<and> length (type_ids ty') = length (type_ids ty) \<and>
     (members_ok ty \<longrightarrow> members_ok ty')"

lemma list_all2_conj:
  "list_all2 (\<lambda>x y. P x y \<and> Q x y) xs ys \<longleftrightarrow> list_all2 P xs ys \<and> list_all2 Q xs ys"
  by (auto simp: list_all2_conv_all_nth)

lemma list_all2_imp_all: "list_all2 (\<lambda>x y. P x \<longrightarrow> Q y) xs ys \<Longrightarrow> list_all P xs \<longrightarrow> list_all Q ys"
  by (induction rule: list_all2_induct) auto

lemma sum_list_all2: "list_all2 (\<lambda>x y. f y = g x) xs ys \<Longrightarrow> sum_list (map f ys) = sum_list (map g xs)"
  by (induction rule: list_all2_induct) auto

lemma resolves_list:
  "list_all2 resolves ts ts' \<Longrightarrow>
   list_all wf_type ts' \<and> length (concat (map type_ids ts')) = length (concat (map type_ids ts)) \<and>
   (list_all members_ok ts \<longrightarrow> list_all members_ok ts')"
  by (induction rule: list_all2_induct) (auto simp: resolves_def)

lemma resolve_inner_correct:
  "resolve_inner c ty d = Ok (ty', c') \<Longrightarrow> allocates c c' (type_ids ty') \<and> resolves ty ty'"
proof (induction d arbitrary: c ty ty' c' rule: depth_induct)
  case (limit d)
  then show ?case by (simp add: resolve_inner.simps)
next
  case (step d)
  show ?case
  proof (cases ty)
    case (TRecord cols)
    with step.prems obtain seen cols' where
      fold: "try_fold (\<lambda>(seen, resolved, c) column.
          if col_name column \<in> set seen then Err E_SCHEMA
          else and_then (resolve_inner c (col_ty column) (Suc d)) (\<lambda>(ty, c).
            and_then (allocate c) (\<lambda>(i, c).
              Ok (bs_insert (col_name column) seen,
                  resolved @ [Column (col_name column) ty (col_default column) i], c))))
          ([], [], c) cols = Ok (seen, cols', c')" and ty': "ty' = TRecord cols'"
      using step.hyps by (subst (asm) resolve_inner.simps) (auto simp: and_then_Ok_iff)
    have "\<exists>ys. cols' = [] @ ys \<and>
        allocates c c' (concat (map (\<lambda>col. type_ids (col_ty col) @ [col_id col]) ys)) \<and>
        list_all2 (\<lambda>x y. resolves (col_ty x) (col_ty y) \<and> (column_ok x \<longrightarrow> column_ok y)) cols ys \<and> distinct (map col_name cols')"
      by (rule try_fold_members [OF fold])
         (auto simp: and_then_Ok_iff column_ok_def split: if_splits intro: allocates_snoc dest!: step.IH)
    then have a: "allocates c c' (type_ids ty')" and r: "list_all2 resolves (map col_ty cols) (map col_ty cols')"
      and "distinct (map col_name cols')" and len: "length cols' = length cols"
      and "list_all column_ok cols \<longrightarrow> list_all column_ok cols'"
      by (auto simp: ty' list_all2_map1 list_all2_map2 list_all2_conj dest: list_all2_lengthD list_all2_imp_all)
    then show ?thesis
      using resolves_list [OF r] by (simp add: TRecord resolves_def ty' length_concat comp_def sum_list_Suc)
  next
    case (TEnum vs)
    with step.prems obtain seen vs' where
      fold: "try_fold (\<lambda>(seen, resolved, c) v.
          if vd_name v \<in> set seen then Err E_SCHEMA
          else and_then (traverse_state (\<lambda>c t. resolve_inner c t (Suc d)) c (vd_args v)) (\<lambda>(args, c).
            and_then (allocate c) (\<lambda>(i, c).
              Ok (bs_insert (vd_name v) seen, resolved @ [VariantDef (vd_name v) args i], c))))
          ([], [], c) vs = Ok (seen, vs', c')" and ty': "ty' = TEnum vs'"
      using step.hyps by (subst (asm) resolve_inner.simps) (auto simp: and_then_Ok_iff)
    have args: "allocates c c' (concat (map type_ids ts')) \<and> list_all2 resolves ts ts'"
      if "traverse_state (\<lambda>c t. resolve_inner c t (Suc d)) c ts = Ok (ts', c')" for c c' ts ts'
      by (rule traverse_state_allocates [OF that]) (rule step.IH)
    have "\<exists>ys. vs' = [] @ ys \<and>
        allocates c c' (concat (map (\<lambda>v. concat (map type_ids (vd_args v)) @ [vd_id v]) ys)) \<and>
        list_all2 (\<lambda>x y. list_all2 resolves (vd_args x) (vd_args y) \<and> vd_name y = vd_name x) vs ys \<and> distinct (map vd_name vs')"
      by (rule try_fold_members [OF fold])
         (auto simp: and_then_Ok_iff split: if_splits intro: allocates_snoc dest!: args)
    then have a: "allocates c c' (type_ids ty')" and r: "list_all2 (\<lambda>x y. list_all2 resolves (vd_args x) (vd_args y) \<and> vd_name y = vd_name x) vs vs'"
      and dist: "distinct (map vd_name vs')"
      by (auto simp: ty')
    have "length (concat (map (\<lambda>v. concat (map type_ids (vd_args v)) @ [vd_id v]) vs')) =
          length (concat (map (\<lambda>v. concat (map type_ids (vd_args v)) @ [vd_id v]) vs))"
      using r by (induction rule: list_all2_induct) (auto dest: resolves_list)
    moreover have "list_all wf_type (concat (map vd_args vs'))"
      using r by (induction rule: list_all2_induct) (auto dest: resolves_list)
    moreover have "members_ok (TEnum vs) \<longrightarrow> members_ok (TEnum vs')"
      using r by (induction rule: list_all2_induct) (auto dest: resolves_list)
    ultimately show ?thesis using a dist by (simp add: TEnum resolves_def ty')
  next
    case (TTuple ts)
    with step.prems obtain ts' where t: "traverse_state (\<lambda>c t. resolve_inner c t (Suc d)) c ts = Ok (ts', c')"
      and ty': "ty' = TTuple ts'"
      using step.hyps by (subst (asm) resolve_inner.simps) (auto simp: and_then_Ok_iff)
    have "allocates c c' (concat (map type_ids ts')) \<and> list_all2 resolves ts ts'"
      by (rule traverse_state_allocates [OF t]) (rule step.IH)
    then show ?thesis using resolves_list by (fastforce simp: ty' TTuple resolves_def)
  qed (use step.prems step.hyps in \<open>subst (asm) resolve_inner.simps, auto simp: and_then_Ok_iff ok_or_Ok_iff resolves_def
      allocates_refl dest!: step.IH\<close>)+
qed

lemma try_fold_adds:
  assumes "try_fold f a xs = Ok b"
    and "\<And>a x b. x \<in> set xs \<Longrightarrow> f a x = Ok b \<Longrightarrow> unat b = unat a + w x"
  shows "unat b = unat a + sum_list (map w xs)"
  using assms
proof (induction xs arbitrary: a)
  case (Cons x xs)
  from Cons.prems(1) obtain a' where a': "f a x = Ok a'" "try_fold f a' xs = Ok b"
    by (auto simp: and_then_Ok_iff)
  have "unat b = unat a' + sum_list (map w xs)"
    using Cons.prems(2) by (intro Cons.IH [OF a'(2)]) auto
  with Cons.prems(2) [OF _ a'(1)] show ?case by simp
qed simp

lemma structural_id_count_correct: "structural_id_count ty d = Ok n \<Longrightarrow> unat n = length (type_ids ty)"
proof (induction d arbitrary: ty n rule: depth_induct)
  case (limit d)
  then show ?case by (simp add: structural_id_count.simps)
next
  case (step d)
  have items: "unat b = unat a + sum_list (map (\<lambda>t. length (type_ids t)) ts)"
    if "try_fold (\<lambda>count argument. and_then (structural_id_count argument (Suc d)) (\<lambda>n.
          ok_or E_SCHEMA (checked_add_u64 count n))) a ts = Ok b" for a b :: u64 and ts
    by (rule try_fold_adds [OF that]) (auto simp: and_then_Ok_iff ok_or_Ok_iff checked_add_u64_Some dest: step.IH)
  show ?case
  proof (cases ty)
    case (TRecord cols)
    with step.prems step.hyps have
      "try_fold (\<lambda>count column.
            and_then (ok_or E_SCHEMA (checked_add_u64 count 1)) (\<lambda>count.
              and_then (structural_id_count (col_ty column) (Suc d)) (\<lambda>n.
                ok_or E_SCHEMA (checked_add_u64 count n)))) 0 cols = Ok n"
      by (subst (asm) structural_id_count.simps) simp
    then have "unat n = unat (0::u64) + sum_list (map (\<lambda>col. length (type_ids (col_ty col)) + 1) cols)"
      by (rule try_fold_adds) (auto simp: and_then_Ok_iff ok_or_Ok_iff checked_add_u64_Some dest: step.IH)
    then show ?thesis by (simp add: TRecord length_concat comp_def)
  next
    case (TEnum vs)
    with step.prems step.hyps have
      "try_fold (\<lambda>count v.
            and_then (ok_or E_SCHEMA (checked_add_u64 count 1)) (\<lambda>count.
              try_fold (\<lambda>count argument.
                and_then (structural_id_count argument (Suc d)) (\<lambda>n.
                  ok_or E_SCHEMA (checked_add_u64 count n))) count (vd_args v))) 0 vs = Ok n"
      by (subst (asm) structural_id_count.simps) simp
    then have "unat n = unat (0::u64) +
        sum_list (map (\<lambda>v. sum_list (map (\<lambda>t. length (type_ids t)) (vd_args v)) + 1) vs)"
      by (rule try_fold_adds) (auto simp: and_then_Ok_iff ok_or_Ok_iff checked_add_u64_Some dest!: items)
    then show ?thesis by (simp add: TEnum length_concat comp_def)
  next
    case (TTuple ts)
    with step.prems step.hyps have
      "try_fold (\<lambda>count argument. and_then (structural_id_count argument (Suc d)) (\<lambda>n.
          ok_or E_SCHEMA (checked_add_u64 count n))) 0 ts = Ok n"
      by (subst (asm) structural_id_count.simps) simp
    from items [OF this] show ?thesis by (simp add: TTuple length_concat comp_def)
  qed (use step.prems step.hyps in \<open>subst (asm) structural_id_count.simps, auto dest: step.IH\<close>)+
qed

end
