(* ===== verification/Typing.thy ===== *)
theory Typing
  imports Catalog
begin

text \<open>
  When a value is a canonical value of a type: the form every stored value has, which
  coercion produces and which comparison, indexing and the codec consume.  \<open>has_type\<close> is
  the typing itself, \<open>value_depth\<close> the nesting the depth limit counts, and \<open>conforms\<close>
  their combination at a given depth.
\<close>

section \<open>Typing\<close>

definition MAX_MAP_ENTRIES :: nat where
  "MAX_MAP_ENTRIES = 4096"

definition MAX_MAP_KEY_BYTES :: nat where
  "MAX_MAP_KEY_BYTES = 4096"

definition canonical_float :: "f64 \<Rightarrow> bool" where
  "canonical_float f \<longleftrightarrow> is_finite f \<and> (f64_is_zero f \<longrightarrow> f = 0)"

definition find_variant :: "variant_def list \<Rightarrow> u64 \<Rightarrow> variant_def option" where
  "find_variant vs i = find (\<lambda>v. vd_id v = i) vs"

function has_type :: "catalog \<Rightarrow> scalar_type \<Rightarrow> value \<Rightarrow> bool" where
  "has_type c ty x =
     (case (ty, x) of
        (TInt, VInt i) \<Rightarrow> in_i64 i
      | (TFloat, VFloat f) \<Rightarrow> canonical_float f
      | (TBool, VBool b) \<Rightarrow> True
      | (TText, VText s) \<Rightarrow> string_ok s
      | (TUuid, VUuid u) \<Rightarrow> length u = 16
      | (TDate, VDate n) \<Rightarrow> date_ok n
      | (TTimestamp, VTimestamp n) \<Rightarrow> timestamp_ok n
      | (TDuration, VDuration n) \<Rightarrow> in_i64 n
      | (TDecimal p s, VDecimal d) \<Rightarrow> decimal_ok p s d
      | (TBytes, VBytes bs) \<Rightarrow> length bs \<le> MAX_BYTES
      | (TRef i, VNamed j w) \<Rightarrow>
          i = j \<and> (case definition_of c i of Ok d \<Rightarrow> has_type c (def_ty d) w | Err _ \<Rightarrow> False)
      | (TEnum vs, VEnum n as i) \<Rightarrow>
          i \<noteq> 0 \<and>
          (case find_variant vs i of
             Some v \<Rightarrow> vd_name v = n \<and> length as = length (vd_args v) \<and>
                       list_all (\<lambda>(a, t). has_type c t a) (zip as (vd_args v))
           | None \<Rightarrow> False)
      | (TRecord cols, VRecord fs) \<Rightarrow>
          bt_ok fs \<and> length fs = length cols \<and>
          list_all (\<lambda>(k, w). case find_column cols k of
                               Some col \<Rightarrow> string_ok k \<and> has_type c (col_ty col) w
                             | None \<Rightarrow> False) fs
      | (TTuple ts, VTuple ws) \<Rightarrow>
          length ws = length ts \<and> list_all (\<lambda>(w, t). has_type c t w) (zip ws ts)
      | (TOption t, VOption ov) \<Rightarrow> (case ov of None \<Rightarrow> True | Some w \<Rightarrow> has_type c t w)
      | (TList t, VList ws) \<Rightarrow> list_all (\<lambda>w. has_type c t w) ws
      | (TMap t, VMap es) \<Rightarrow>
          bt_ok es \<and> length es \<le> MAX_MAP_ENTRIES \<and>
          list_all (\<lambda>(k, w). string_ok k \<and> length k \<le> MAX_MAP_KEY_BYTES \<and> has_type c t w) es
      | _ \<Rightarrow> False)"
  by pat_completeness auto
termination
  by (relation "measure (\<lambda>(c, ty, x). size x)")
     (auto intro: size_zip_mem size_snd_mem size_list_mem [where f = size, THEN le_imp_less_Suc])

declare has_type.simps [simp del]

lemma list_all_zip: "length as = length ts \<and> list_all (\<lambda>(a, t). P t a) (zip as ts) \<longleftrightarrow> list_all2 P ts as"
  by (auto simp: list_all_iff list_all2_iff set_zip)

lemma find_variant_Some: "find_variant vs i = Some v \<Longrightarrow> v \<in> set vs \<and> vd_id v = i"
  by (auto simp: find_variant_def find_Some_iff)

lemma find_column_Some: "find_column cols n = Some col \<Longrightarrow> col \<in> set cols \<and> col_name col = n"
  by (auto simp: find_column_def find_Some_iff)

lemma has_type_simps [simp]:
  "has_type c TInt x \<longleftrightarrow> (\<exists>i. x = VInt i \<and> in_i64 i)"
  "has_type c TFloat x \<longleftrightarrow> (\<exists>f. x = VFloat f \<and> canonical_float f)"
  "has_type c TBool x \<longleftrightarrow> (\<exists>b. x = VBool b)"
  "has_type c TText x \<longleftrightarrow> (\<exists>s. x = VText s \<and> string_ok s)"
  "has_type c TUuid x \<longleftrightarrow> (\<exists>u. x = VUuid u \<and> length u = 16)"
  "has_type c TDate x \<longleftrightarrow> (\<exists>n. x = VDate n \<and> date_ok n)"
  "has_type c TTimestamp x \<longleftrightarrow> (\<exists>n. x = VTimestamp n \<and> timestamp_ok n)"
  "has_type c TDuration x \<longleftrightarrow> (\<exists>n. x = VDuration n \<and> in_i64 n)"
  "has_type c (TDecimal p s) x \<longleftrightarrow> (\<exists>d. x = VDecimal d \<and> decimal_ok p s d)"
  "has_type c TBytes x \<longleftrightarrow> (\<exists>bs. x = VBytes bs \<and> length bs \<le> MAX_BYTES)"
  "has_type c (TRef i) x \<longleftrightarrow> (\<exists>w d. x = VNamed i w \<and> definition_of c i = Ok d \<and> has_type c (def_ty d) w)"
  "has_type c (TEnum vs) x \<longleftrightarrow> (\<exists>as v. x = VEnum (vd_name v) as (vd_id v) \<and> vd_id v \<noteq> 0 \<and>
     find_variant vs (vd_id v) = Some v \<and> list_all2 (has_type c) (vd_args v) as)"
  "has_type c (TTuple ts) x \<longleftrightarrow> (\<exists>ws. x = VTuple ws \<and> list_all2 (has_type c) ts ws)"
  "has_type c (TOption t) x \<longleftrightarrow> x = VOption None \<or> (\<exists>w. x = VOption (Some w) \<and> has_type c t w)"
  "has_type c (TList t) x \<longleftrightarrow> (\<exists>ws. x = VList ws \<and> list_all (has_type c t) ws)"
  "has_type c (TMap t) x \<longleftrightarrow> (\<exists>es. x = VMap es \<and> bt_ok es \<and> length es \<le> MAX_MAP_ENTRIES \<and>
     list_all (\<lambda>(k, w). string_ok k \<and> length k \<le> MAX_MAP_KEY_BYTES \<and> has_type c t w) es)"
  "has_type c (TRecord cols) x \<longleftrightarrow> (\<exists>fs. x = VRecord fs \<and> bt_ok fs \<and> length fs = length cols \<and>
     (\<forall>(k, w) \<in> set fs. \<exists>col. find_column cols k = Some col \<and> string_ok k \<and> has_type c (col_ty col) w))"
  "\<not> has_type c (TNamed n) x"
  by (subst has_type.simps;
      auto simp: list_all_zip split: "value.splits" option.splits result.splits dest: find_variant_Some;
      auto simp: list_all_iff)+

section \<open>Depth\<close>

fun value_depth :: "value \<Rightarrow> nat" where
  "value_depth (VEnum _ as _) = Suc (foldr max (map value_depth as) 0)"
| "value_depth (VRecord fs) = Suc (foldr max (map (\<lambda>(k, v). value_depth v) fs) 0)"
| "value_depth (VTuple vs) = Suc (foldr max (map value_depth vs) 0)"
| "value_depth (VList vs) = Suc (foldr max (map value_depth vs) 0)"
| "value_depth (VMap es) = Suc (foldr max (map (\<lambda>(k, v). value_depth v) es) 0)"
| "value_depth (VOption ov) = (case ov of None \<Rightarrow> 1 | Some v \<Rightarrow> Suc (value_depth v))"
| "value_depth (VNamed _ v) = Suc (value_depth v)"
| "value_depth _ = 1"

lemma foldr_max_le: "foldr max xs 0 \<le> n \<longleftrightarrow> (\<forall>x \<in> set xs. x \<le> (n :: nat))"
  by (induction xs) auto

definition conforms :: "catalog \<Rightarrow> nat \<Rightarrow> scalar_type \<Rightarrow> value \<Rightarrow> bool" where
  "conforms c d ty x \<longleftrightarrow> has_type c ty x \<and> d + value_depth x \<le> MAX_DEPTH"

lemma value_depth_pos: "0 < value_depth x"
  by (cases x) (auto split: option.splits)

lemma conforms_depth: "conforms c d ty x \<Longrightarrow> d < MAX_DEPTH"
  using value_depth_pos [of x] by (simp add: conforms_def)

lemma depth_le_simps:
  "d + value_depth (VEnum n as i) \<le> MAX_DEPTH \<longleftrightarrow> d < MAX_DEPTH \<and> (\<forall>a \<in> set as. Suc d + value_depth a \<le> MAX_DEPTH)"
  "d + value_depth (VTuple vs) \<le> MAX_DEPTH \<longleftrightarrow> d < MAX_DEPTH \<and> (\<forall>a \<in> set vs. Suc d + value_depth a \<le> MAX_DEPTH)"
  "d + value_depth (VList vs) \<le> MAX_DEPTH \<longleftrightarrow> d < MAX_DEPTH \<and> (\<forall>a \<in> set vs. Suc d + value_depth a \<le> MAX_DEPTH)"
  "d + value_depth (VRecord fs) \<le> MAX_DEPTH \<longleftrightarrow>
     d < MAX_DEPTH \<and> (\<forall>(k, a) \<in> set fs. Suc d + value_depth a \<le> MAX_DEPTH)"
  "d + value_depth (VMap fs) \<le> MAX_DEPTH \<longleftrightarrow>
     d < MAX_DEPTH \<and> (\<forall>(k, a) \<in> set fs. Suc d + value_depth a \<le> MAX_DEPTH)"
proof -
  have *: "d + Suc (foldr max xs 0) \<le> MAX_DEPTH \<longleftrightarrow> d < MAX_DEPTH \<and> (\<forall>x \<in> set xs. Suc d + x \<le> MAX_DEPTH)"
    for xs
    using foldr_max_le [of xs "MAX_DEPTH - Suc d"] by fastforce
  show "d + value_depth (VEnum n as i) \<le> MAX_DEPTH \<longleftrightarrow> d < MAX_DEPTH \<and> (\<forall>a \<in> set as. Suc d + value_depth a \<le> MAX_DEPTH)"
    "d + value_depth (VTuple vs) \<le> MAX_DEPTH \<longleftrightarrow> d < MAX_DEPTH \<and> (\<forall>a \<in> set vs. Suc d + value_depth a \<le> MAX_DEPTH)"
    "d + value_depth (VList vs) \<le> MAX_DEPTH \<longleftrightarrow> d < MAX_DEPTH \<and> (\<forall>a \<in> set vs. Suc d + value_depth a \<le> MAX_DEPTH)"
    "d + value_depth (VRecord fs) \<le> MAX_DEPTH \<longleftrightarrow>
     d < MAX_DEPTH \<and> (\<forall>(k, a) \<in> set fs. Suc d + value_depth a \<le> MAX_DEPTH)"
    "d + value_depth (VMap fs) \<le> MAX_DEPTH \<longleftrightarrow>
     d < MAX_DEPTH \<and> (\<forall>(k, a) \<in> set fs. Suc d + value_depth a \<le> MAX_DEPTH)"
    unfolding value_depth.simps * by (auto split: prod.splits)
qed

lemma conforms_leaf [simp]:
  "conforms c d TInt x \<longleftrightarrow> d < MAX_DEPTH \<and> (\<exists>i. x = VInt i \<and> in_i64 i)"
  "conforms c d TFloat x \<longleftrightarrow> d < MAX_DEPTH \<and> (\<exists>f. x = VFloat f \<and> canonical_float f)"
  "conforms c d TBool x \<longleftrightarrow> d < MAX_DEPTH \<and> (\<exists>b. x = VBool b)"
  "conforms c d TText x \<longleftrightarrow> d < MAX_DEPTH \<and> (\<exists>s. x = VText s \<and> string_ok s)"
  "conforms c d TUuid x \<longleftrightarrow> d < MAX_DEPTH \<and> (\<exists>u. x = VUuid u \<and> length u = 16)"
  "conforms c d TDate x \<longleftrightarrow> d < MAX_DEPTH \<and> (\<exists>n. x = VDate n \<and> date_ok n)"
  "conforms c d TTimestamp x \<longleftrightarrow> d < MAX_DEPTH \<and> (\<exists>n. x = VTimestamp n \<and> timestamp_ok n)"
  "conforms c d TDuration x \<longleftrightarrow> d < MAX_DEPTH \<and> (\<exists>n. x = VDuration n \<and> in_i64 n)"
  "conforms c d (TDecimal p s) x \<longleftrightarrow> d < MAX_DEPTH \<and> (\<exists>n. x = VDecimal n \<and> decimal_ok p s n)"
  "conforms c d TBytes x \<longleftrightarrow> d < MAX_DEPTH \<and> (\<exists>bs. x = VBytes bs \<and> length bs \<le> MAX_BYTES)"
  "\<not> conforms c d (TNamed n) x"
  by (auto simp: conforms_def)

lemma conforms_node [simp]:
  "conforms c d (TRef i) x \<longleftrightarrow> d < MAX_DEPTH \<and>
     (\<exists>w def. x = VNamed i w \<and> definition_of c i = Ok def \<and> conforms c (Suc d) (def_ty def) w)"
  "conforms c d (TEnum vs) x \<longleftrightarrow> d < MAX_DEPTH \<and>
     (\<exists>as v. x = VEnum (vd_name v) as (vd_id v) \<and> vd_id v \<noteq> 0 \<and> find_variant vs (vd_id v) = Some v \<and>
        list_all2 (conforms c (Suc d)) (vd_args v) as)"
  "conforms c d (TTuple ts) x \<longleftrightarrow> d < MAX_DEPTH \<and> (\<exists>ws. x = VTuple ws \<and> list_all2 (conforms c (Suc d)) ts ws)"
  "conforms c d (TOption t) x \<longleftrightarrow> d < MAX_DEPTH \<and>
     (x = VOption None \<or> (\<exists>w. x = VOption (Some w) \<and> conforms c (Suc d) t w))"
  "conforms c d (TList t) x \<longleftrightarrow> d < MAX_DEPTH \<and> (\<exists>ws. x = VList ws \<and> list_all (conforms c (Suc d) t) ws)"
  "conforms c d (TMap t) x \<longleftrightarrow> d < MAX_DEPTH \<and>
     (\<exists>es. x = VMap es \<and> bt_ok es \<and> length es \<le> MAX_MAP_ENTRIES \<and>
        list_all (\<lambda>(k, w). string_ok k \<and> length k \<le> MAX_MAP_KEY_BYTES \<and> conforms c (Suc d) t w) es)"
  "conforms c d (TRecord cols) x \<longleftrightarrow> d < MAX_DEPTH \<and>
     (\<exists>fs. x = VRecord fs \<and> bt_ok fs \<and> length fs = length cols \<and>
        (\<forall>(k, w) \<in> set fs. \<exists>col. find_column cols k = Some col \<and> string_ok k \<and> conforms c (Suc d) (col_ty col) w))"
proof -
  have all2: "list_all2 (\<lambda>t w. P t w \<and> Q w) ts ws \<longleftrightarrow> list_all2 P ts ws \<and> (\<forall>w \<in> set ws. Q w)"
    for P :: "scalar_type \<Rightarrow> value \<Rightarrow> bool" and Q ts ws
    by (auto simp: list_all2_conv_all_nth all_set_conv_all_nth)
  show "conforms c d (TEnum vs) x \<longleftrightarrow> d < MAX_DEPTH \<and>
     (\<exists>as v. x = VEnum (vd_name v) as (vd_id v) \<and> vd_id v \<noteq> 0 \<and> find_variant vs (vd_id v) = Some v \<and>
        list_all2 (conforms c (Suc d)) (vd_args v) as)"
    "conforms c d (TTuple ts) x \<longleftrightarrow> d < MAX_DEPTH \<and> (\<exists>ws. x = VTuple ws \<and> list_all2 (conforms c (Suc d)) ts ws)"
    unfolding conforms_def all2 by (auto simp: depth_le_simps simp del: value_depth.simps; blast)+
  show "conforms c d (TList t) x \<longleftrightarrow> d < MAX_DEPTH \<and> (\<exists>ws. x = VList ws \<and> list_all (conforms c (Suc d) t) ws)"
    "conforms c d (TMap t) x \<longleftrightarrow> d < MAX_DEPTH \<and>
     (\<exists>es. x = VMap es \<and> bt_ok es \<and> length es \<le> MAX_MAP_ENTRIES \<and>
        list_all (\<lambda>(k, w). string_ok k \<and> length k \<le> MAX_MAP_KEY_BYTES \<and> conforms c (Suc d) t w) es)"
    "conforms c d (TRecord cols) x \<longleftrightarrow> d < MAX_DEPTH \<and>
     (\<exists>fs. x = VRecord fs \<and> bt_ok fs \<and> length fs = length cols \<and>
        (\<forall>(k, w) \<in> set fs. \<exists>col. find_column cols k = Some col \<and> string_ok k \<and> conforms c (Suc d) (col_ty col) w))"
    unfolding conforms_def
    by (auto simp: depth_le_simps list_all_iff simp del: value_depth.simps; fastforce)+
  show "conforms c d (TRef i) x \<longleftrightarrow> d < MAX_DEPTH \<and>
     (\<exists>w def. x = VNamed i w \<and> definition_of c i = Ok def \<and> conforms c (Suc d) (def_ty def) w)"
   "conforms c d (TOption t) x \<longleftrightarrow> d < MAX_DEPTH \<and>
     (x = VOption None \<or> (\<exists>w. x = VOption (Some w) \<and> conforms c (Suc d) t w))"
    by (auto simp: conforms_def)
qed

section \<open>Members by name and by ID\<close>

lemma find_column_distinct:
  "distinct (map col_name cols) \<Longrightarrow> col \<in> set cols \<Longrightarrow> find_column cols (col_name col) = Some col"
  unfolding find_column_def by (induction cols) (auto simp: image_iff)

lemma find_variant_distinct:
  "distinct (map vd_id vs) \<Longrightarrow> v \<in> set vs \<Longrightarrow> find_variant vs (vd_id v) = Some v"
  unfolding find_variant_def by (induction vs) (auto simp: image_iff)

text \<open>A record with as many fields as columns, each of a column, has every column.\<close>

lemma record_columns:
  assumes "bt_ok fs" "length fs = length cols" "distinct (map col_name cols)"
    and "\<forall>(k, w) \<in> set fs. \<exists>col. find_column cols k = Some col \<and> Q col w"
  shows "\<forall>col \<in> set cols. \<exists>w. bt_get fs (col_name col) = Some w \<and> Q col w"
    and "fst ` set fs = col_name ` set cols"
proof -
  have sub: "fst ` set fs \<subseteq> col_name ` set cols"
    using assms(4) by (auto dest!: find_column_Some bspec)
  have "card (fst ` set fs) = length fs" "card (col_name ` set cols) = length cols"
    using bt_ok_distinct [OF assms(1)] assms(3) by (metis distinct_card length_map set_map)+
  with sub assms(2) show keys: "fst ` set fs = col_name ` set cols"
    by (metis card_subset_eq finite_imageI finite_set)
  show "\<forall>col \<in> set cols. \<exists>w. bt_get fs (col_name col) = Some w \<and> Q col w"
  proof
    fix col assume col: "col \<in> set cols"
    with keys obtain w where w: "(col_name col, w) \<in> set fs" by (metis imageE image_eqI prod.collapse)
    with assms(4) col find_column_distinct [OF assms(3)] have "Q col w" by fastforce
    with w bt_get_Some_iff [OF assms(1)] show "\<exists>w. bt_get fs (col_name col) = Some w \<and> Q col w" by blast
  qed
qed

section \<open>Well-formed types\<close>

text \<open>
  What every type of a valid catalog satisfies: resolved references, valid decimal
  parameters, members with distinct names and distinct nonzero IDs, names that are text
  without a point, and defaults that are valid values.
\<close>

fun own_ok :: "catalog \<Rightarrow> scalar_type \<Rightarrow> bool" where
  "own_ok c (TDecimal p s) = (validate_decimal_type p s = Ok ())"
| "own_ok c (TNamed _) = False"
| "own_ok c (TRef i) = is_ok (definition_of c i)"
| "own_ok c (TRecord cols) =
     (distinct (map col_name cols) \<and> distinct (map col_id cols) \<and>
      list_all (\<lambda>col. column_ok col \<and> col_id col \<noteq> 0) cols)"
| "own_ok c (TEnum vs) =
     (distinct (map vd_name vs) \<and> distinct (map vd_id vs) \<and>
      list_all (\<lambda>v. name_ok (vd_name v) \<and> vd_id v \<noteq> 0) vs)"
| "own_ok c _ = True"

function type_ok :: "catalog \<Rightarrow> scalar_type \<Rightarrow> bool" where
  "type_ok c ty \<longleftrightarrow> own_ok c ty \<and> list_all (type_ok c) (subtypes ty)"
  by auto
termination by (relation "measure (\<lambda>(c, ty). size ty)") (auto simp: size_subtype)

declare type_ok.simps [simp del]

lemma type_ok_simps [simp]:
  "type_ok c TInt" "type_ok c TFloat" "type_ok c TBool" "type_ok c TText" "type_ok c TUuid" "type_ok c TDate"
  "type_ok c TTimestamp" "type_ok c TDuration" "type_ok c TBytes" "\<not> type_ok c (TNamed n)"
  "type_ok c (TRef i) \<longleftrightarrow> is_ok (definition_of c i)"
  "type_ok c (TDecimal p s) \<longleftrightarrow> validate_decimal_type p s = Ok ()"
  "type_ok c (TOption t) \<longleftrightarrow> type_ok c t" "type_ok c (TList t) \<longleftrightarrow> type_ok c t" "type_ok c (TMap t) \<longleftrightarrow> type_ok c t"
  "type_ok c (TTuple ts) \<longleftrightarrow> list_all (type_ok c) ts"
  "type_ok c (TRecord cols) \<longleftrightarrow> own_ok c (TRecord cols) \<and> (\<forall>col \<in> set cols. type_ok c (col_ty col))"
  "type_ok c (TEnum vs) \<longleftrightarrow> own_ok c (TEnum vs) \<and> (\<forall>v \<in> set vs. \<forall>t \<in> set (vd_args v). type_ok c t)"
  by (subst type_ok.simps; auto simp: list_all_iff)+

definition types_ok :: "catalog \<Rightarrow> bool" where
  "types_ok c \<longleftrightarrow> (\<forall>d \<in> set (bt_values (types c)). type_ok c (def_ty d))"

lemma definition_of_Ok: "definition_of c i = Ok d \<Longrightarrow> d \<in> set (bt_values (types c)) \<and> def_id d = i"
  by (auto simp: definition_of_def ok_or_Ok_iff find_Some_iff)

lemma types_okD: "types_ok c \<Longrightarrow> definition_of c i = Ok d \<Longrightarrow> type_ok c (def_ty d)"
  by (auto simp: types_ok_def dest: definition_of_Ok)

text \<open>Typed values are valid values without infinities.\<close>

lemma decimal_ok_some: "decimal_ok p s d \<Longrightarrow> \<exists>q \<in> {1..38}. decimal_ok q (scale d) d"
  by (auto simp: decimal_ok_def intro!: bexI [of _ p])

lemma has_type_ok:
  assumes "types_ok c"
  shows "has_type c ty x \<Longrightarrow> type_ok c ty \<Longrightarrow> value_ok x \<and> all_finite x"
proof (induction x arbitrary: ty)
  case (VEnum n as i)
  then obtain vs v where v: "ty = TEnum vs" "v \<in> set vs" "n = vd_name v" "list_all2 (has_type c) (vd_args v) as"
    by (cases ty) (auto dest: find_variant_Some)
  then have "\<exists>t \<in> set (vd_args v). has_type c t a" if "a \<in> set as" for a
    using that by (metis in_set_conv_nth list_all2_conv_all_nth nth_mem)
  then have "value_ok a \<and> all_finite a" if "a \<in> set as" for a
    using VEnum.IH [OF that] VEnum.prems(2) v that by fastforce
  with v VEnum.prems(2) show ?case by (auto simp: list_all_iff name_ok_def)
next
  case (VRecord fs)
  from VRecord.prems(1) obtain cols where r: "ty = TRecord cols" "bt_ok fs"
    "\<forall>(k, w) \<in> set fs. \<exists>col. find_column cols k = Some col \<and> string_ok k \<and> has_type c (col_ty col) w"
    by (cases ty) auto
  have "string_ok k \<and> value_ok w \<and> all_finite w" if kw: "(k, w) \<in> set fs" for k w
  proof -
    from r(3) kw obtain col where col: "find_column cols k = Some col" "string_ok k" "has_type c (col_ty col) w"
      by auto
    then have "type_ok c (col_ty col)" using VRecord.prems(2) r(1) by (auto dest: find_column_Some)
    then show ?thesis using VRecord.IH [OF kw _ col(3)] col(2) by (simp add: prod_set_defs)
  qed
  with r(2) show ?case by (auto simp: list_all_iff)
next
  case (VTuple vs)
  then obtain ts where t: "ty = TTuple ts" "list_all2 (has_type c) ts vs" by (cases ty) auto
  have "value_ok a \<and> all_finite a" if "a \<in> set vs" for a
  proof -
    from that t(2) obtain t' where "t' \<in> set ts" "has_type c t' a"
      by (metis in_set_conv_nth list_all2_conv_all_nth nth_mem)
    then show ?thesis using VTuple.IH [OF that] VTuple.prems(2) t(1) by (auto simp: list_all_iff)
  qed
  then show ?case by (simp add: list_all_iff)
next
  case (VList vs)
  then obtain t where "ty = TList t" "list_all (has_type c t) vs" by (cases ty) auto
  then show ?case using VList by (auto simp: list_all_iff)
next
  case (VMap es)
  from VMap.prems(1) obtain t where t: "ty = TMap t" "bt_ok es"
    "\<forall>(k, w) \<in> set es. string_ok k \<and> has_type c t w"
    by (cases ty) (auto simp: list_all_iff split_beta)
  have "string_ok k \<and> value_ok w \<and> all_finite w" if "(k, w) \<in> set es" for k w
    using VMap.IH [OF that] VMap.prems(2) t that by (auto simp: prod_set_defs)
  with t(2) show ?case by (auto simp: list_all_iff)
next
  case (VOption ov)
  then show ?case by (cases ty; cases ov) auto
next
  case (VNamed i w)
  then show ?case using types_okD [OF assms] by (cases ty) auto
next
  case (VDecimal d)
  then show ?case using decimal_ok_some by (cases ty) auto
next
  case (VInt y)
  then show ?case by (cases ty) (auto simp: canonical_float_def)
next
  case (VFloat y)
  then show ?case by (cases ty) (auto simp: canonical_float_def)
next
  case (VBool y)
  then show ?case by (cases ty) (auto simp: canonical_float_def)
next
  case (VText y)
  then show ?case by (cases ty) (auto simp: canonical_float_def)
next
  case (VUuid y)
  then show ?case by (cases ty) (auto simp: canonical_float_def)
next
  case (VDate y)
  then show ?case by (cases ty) (auto simp: canonical_float_def)
next
  case (VTimestamp y)
  then show ?case by (cases ty) (auto simp: canonical_float_def)
next
  case (VDuration y)
  then show ?case by (cases ty) (auto simp: canonical_float_def)
next
  case (VBytes y)
  then show ?case by (cases ty) (auto simp: canonical_float_def)
next
  case VNull
  then show ?case by (cases ty) auto
qed

section \<open>Underlying types\<close>

lemma underlying_loop_type:
  assumes "underlying_loop c n ty = Ok u"
  shows "has_type c ty v \<Longrightarrow> has_type c u (unwrapped v)"
    and "has_type c u w \<Longrightarrow> \<exists>v. has_type c ty v \<and> unwrapped v = w"
    and "types_ok c \<Longrightarrow> type_ok c ty \<Longrightarrow> type_ok c u"
    and "\<nexists>i. u = TRef i"
  using assms
proof (induction n arbitrary: ty v)
  case (Suc n)
  {
    case 1
    then show ?case using Suc.IH(1)
      by (cases ty) (auto simp: result_simps)
  next
    case 2
    show ?case
    proof (cases "\<exists>i. ty = TRef i")
      case True
      then obtain i d where d: "ty = TRef i" "definition_of c i = Ok d" "underlying_loop c n (def_ty d) = Ok u"
        using 2 by (auto simp: result_simps)
      then obtain v' where "has_type c (def_ty d) v'" "unwrapped v' = w" using Suc.IH(2) 2 by blast
      with d show ?thesis by (intro exI [of _ "VNamed i v'"]) simp
    next
      case False
      then have "ty = u" using 2(2) by (auto split: scalar_type.splits)
      moreover have "unwrapped w = w" using 2(1) False calculation by (cases u) auto
      ultimately show ?thesis using 2 by blast
    qed
  next
    case 3
    then show ?case using Suc.IH(3) types_okD by (cases ty) (auto simp: result_simps)
  next
    case 4
    then show ?case using Suc.IH(4) by (cases ty) (auto simp: result_simps)
  }
qed simp_all

lemmas underlying_type = underlying_loop_type [where n = MAX_DEPTH, folded underlying_def]

section \<open>An example catalog\<close>

definition example_catalog :: catalog where
  "example_catalog =
     \<lparr>types =
        [(''Point'', \<lparr>def_id = 1, def_name = ''Point'',
            def_ty = TRecord [Column ''x'' TInt None 2, Column ''y'' TFloat (Some (VFloat 0)) 3]\<rparr>),
         (''Shape'', \<lparr>def_id = 4, def_name = ''Shape'',
            def_ty = TEnum [VariantDef ''Circle'' [TRef 1, TDecimal 4 2] 5, VariantDef ''Path'' [TList (TRef 1)] 6]\<rparr>)],
      next_id = 7\<rparr>"

end
