(* ===== verification/Coerce.thy ===== *)
theory Coerce
  imports Typing
begin

text \<open>
  Coercion of a value to a type (\<^verbatim>\<open>src/src/model.rs\<close>, \<open>coerce_inner\<close>).  The \<open>path\<close>
  argument of the source only feeds error messages and is left out.
\<close>

section \<open>Coercion\<close>

fun is_record :: "value \<Rightarrow> bool" where
  "is_record (VRecord _) = True"
| "is_record _ = False"

text \<open>The value a reference type coerces: a nominal wrapper or a record constructor is removed.\<close>

definition coerce_raw :: "type_definition \<Rightarrow> u64 \<Rightarrow> value \<Rightarrow> value result" where
  "coerce_raw d i v =
     (case v of
        VNamed j w \<Rightarrow> if j = i then Ok w else Err E_TYPE
      | VEnum n as _ \<Rightarrow>
          if length as = 1 \<and> is_record (as ! 0) \<and> n = def_name d then Ok (as ! 0) else Ok v
      | _ \<Rightarrow> Ok v)"

text \<open>The optional type qualifier of a variant name: it must name an enum that shares a variant ID.\<close>

definition check_qualifier :: "catalog \<Rightarrow> variant_def list \<Rightarrow> string option \<Rightarrow> unit result" where
  "check_qualifier c vs qualifier =
     (case qualifier of
        None \<Rightarrow> Ok ()
      | Some q \<Rightarrow>
          and_then (ok_or E_TYPE (bt_get (types c) q)) (\<lambda>d.
            case def_ty d of
              TEnum expected \<Rightarrow>
                check (list_ex (\<lambda>ev. list_ex (\<lambda>actual. vd_id ev \<noteq> 0 \<and> vd_id ev = vd_id actual) vs) expected)
                      E_TYPE
            | _ \<Rightarrow> Err E_TYPE))"

definition coerce_variant :: "catalog \<Rightarrow> variant_def list \<Rightarrow> string \<Rightarrow> u64 \<Rightarrow> variant_def result" where
  "coerce_variant c vs name i =
     (let (qualifier, variant_name) =
            (case rsplit_once CHR ''.'' name of Some (q, n) \<Rightarrow> (Some q, n) | None \<Rightarrow> (None, name))
      in and_then (check_qualifier c vs qualifier) (\<lambda>_.
           ok_or E_TYPE
             (if i = 0 then find (\<lambda>v. vd_name v = variant_name) vs else find_variant vs i)))"

function coerce_inner :: "catalog \<Rightarrow> value \<Rightarrow> scalar_type \<Rightarrow> nat \<Rightarrow> value result" where
  "coerce_inner c x ty depth =
     (if MAX_DEPTH \<le> depth then Err E_LIMIT
      else case (x, ty) of
        (v, TRef i) \<Rightarrow>
          and_then (definition_of c i) (\<lambda>d.
            and_then (coerce_raw d i v) (\<lambda>raw.
              map_ok (VNamed i) (coerce_inner c raw (def_ty d) (Suc depth))))
      | (VInt v, TInt) \<Rightarrow> Ok (VInt v)
      | (VInt v, TFloat) \<Rightarrow>
          if f64_to_i128 (i64_to_f64 v) = v then Ok (VFloat (i64_to_f64 v)) else Err E_TYPE
      | (VFloat v, TFloat) \<Rightarrow>
          if is_finite v then Ok (VFloat (if f64_is_zero v then 0 else v)) else Err E_TYPE
      | (VBool v, TBool) \<Rightarrow> Ok (VBool v)
      | (VUuid v, TUuid) \<Rightarrow> Ok (VUuid v)
      | (VDate v, TDate) \<Rightarrow> Ok (VDate v)
      | (VTimestamp v, TTimestamp) \<Rightarrow> Ok (VTimestamp v)
      | (VDuration v, TDuration) \<Rightarrow> Ok (VDuration v)
      | (VBytes v, TBytes) \<Rightarrow> Ok (VBytes v)
      | (VDecimal v, TDecimal p s) \<Rightarrow> map_ok VDecimal (decimal_rescale v p s)
      | (VText v, TText) \<Rightarrow> Ok (VText v)
      | (VRecord fs, TRecord cols) \<Rightarrow>
          and_then
            (try_fold (\<lambda>out col.
               and_then
                 (case bt_get fs (col_name col) of
                    Some v \<Rightarrow> coerce_inner c v (col_ty col) (Suc depth)
                  | None \<Rightarrow>
                      and_then (ok_or E_FIELD (col_default col)) (\<lambda>default.
                        coerce_inner c default (col_ty col) (Suc depth)))
                 (\<lambda>v. Ok (bt_insert (col_name col) v out))) [] cols)
            (\<lambda>out.
               if list_ex (\<lambda>k. \<not> list_ex (\<lambda>col. col_name col = k) cols) (bt_keys fs)
               then Err E_FIELD
               else Ok (VRecord out))
      | (VTuple vs, TTuple ts) \<Rightarrow>
          if length vs = length ts
          then map_ok VTuple (traverse (\<lambda>(v, t). coerce_inner c v t (Suc depth)) (zip vs ts))
          else Err E_TYPE
      | (VList vs, TList t) \<Rightarrow> map_ok VList (traverse (\<lambda>v. coerce_inner c v t (Suc depth)) vs)
      | (VMap es, TMap t) \<Rightarrow>
          if length es > MAX_MAP_ENTRIES then Err E_MAP_LIMIT
          else map_ok VMap
                 (traverse (\<lambda>(k, v).
                    if length k > MAX_MAP_KEY_BYTES then Err E_MAP_LIMIT
                    else map_ok (Pair k) (coerce_inner c v t (Suc depth))) es)
      | (VOption ov, TOption t) \<Rightarrow>
          (case ov of
             None \<Rightarrow> Ok (VOption None)
           | Some v \<Rightarrow> map_ok (\<lambda>w. VOption (Some w)) (coerce_inner c v t (Suc depth)))
      | (VEnum n as i, TOption t) \<Rightarrow>
          if n = ''None'' \<and> as = [] then Ok (VOption None)
          else if n = ''Some'' \<and> length as = 1
          then map_ok (\<lambda>w. VOption (Some w)) (coerce_inner c (as ! 0) t (Suc depth))
          else Err E_TYPE
      | (VEnum n as i, TEnum vs) \<Rightarrow>
          and_then (coerce_variant c vs n i) (\<lambda>variant.
            if length (vd_args variant) \<noteq> length as then Err E_TYPE
            else map_ok (\<lambda>args. VEnum (vd_name variant) args (vd_id variant))
                   (traverse (\<lambda>(v, t). coerce_inner c v t (Suc depth)) (zip as (vd_args variant))))
      | _ \<Rightarrow> Err E_TYPE)"
  by pat_completeness auto
termination by (relation "measure (\<lambda>(c, x, ty, depth). MAX_DEPTH - depth)") auto

declare coerce_inner.simps [simp del]

definition coerce :: "catalog \<Rightarrow> value \<Rightarrow> scalar_type \<Rightarrow> value result" where
  "coerce c x ty = coerce_inner c x ty 0"

section \<open>Inversion\<close>

lemma coerce_limit: "MAX_DEPTH \<le> d \<Longrightarrow> coerce_inner c x ty d = Err E_LIMIT"
  by (subst coerce_inner.simps) simp

lemma coerce_leaf:
  assumes "d < MAX_DEPTH"
  shows "coerce_inner c x TInt d = Ok y \<longleftrightarrow> (\<exists>i. x = VInt i \<and> y = x)"
    "coerce_inner c x TFloat d = Ok y \<longleftrightarrow>
       (\<exists>i. x = VInt i \<and> f64_to_i128 (i64_to_f64 i) = i \<and> y = VFloat (i64_to_f64 i)) \<or>
       (\<exists>f. x = VFloat f \<and> is_finite f \<and> y = VFloat (if f64_is_zero f then 0 else f))"
    "coerce_inner c x TBool d = Ok y \<longleftrightarrow> (\<exists>b. x = VBool b \<and> y = x)"
    "coerce_inner c x TText d = Ok y \<longleftrightarrow> (\<exists>b. x = VText b \<and> y = x)"
    "coerce_inner c x TUuid d = Ok y \<longleftrightarrow> (\<exists>b. x = VUuid b \<and> y = x)"
    "coerce_inner c x TDate d = Ok y \<longleftrightarrow> (\<exists>b. x = VDate b \<and> y = x)"
    "coerce_inner c x TTimestamp d = Ok y \<longleftrightarrow> (\<exists>b. x = VTimestamp b \<and> y = x)"
    "coerce_inner c x TDuration d = Ok y \<longleftrightarrow> (\<exists>b. x = VDuration b \<and> y = x)"
    "coerce_inner c x TBytes d = Ok y \<longleftrightarrow> (\<exists>b. x = VBytes b \<and> y = x)"
    "coerce_inner c x (TDecimal p s) d = Ok y \<longleftrightarrow>
       (\<exists>b e. x = VDecimal b \<and> decimal_rescale b p s = Ok e \<and> y = VDecimal e)"
    "coerce_inner c x (TNamed n) d \<noteq> Ok y"
  using assms
  by (subst coerce_inner.simps; auto simp: map_ok_Ok_iff split: "value.splits")+

lemma coerce_ref:
  "d < MAX_DEPTH \<Longrightarrow> coerce_inner c x (TRef i) d = Ok y \<longleftrightarrow>
     (\<exists>def raw w. definition_of c i = Ok def \<and> coerce_raw def i x = Ok raw \<and>
        coerce_inner c raw (def_ty def) (Suc d) = Ok w \<and> y = VNamed i w)"
  by (subst coerce_inner.simps) (auto simp: and_then_Ok_iff map_ok_Ok_iff split: "value.splits")

lemma coerce_enum:
  "d < MAX_DEPTH \<Longrightarrow> coerce_inner c x (TEnum vs) d = Ok y \<longleftrightarrow>
     (\<exists>n as i v ws. x = VEnum n as i \<and> coerce_variant c vs n i = Ok v \<and> y = VEnum (vd_name v) ws (vd_id v) \<and>
        length as = length (vd_args v) \<and>
        list_all2 (\<lambda>p w. coerce_inner c (fst p) (snd p) (Suc d) = Ok w) (zip as (vd_args v)) ws)"
  by (subst coerce_inner.simps; cases x)
     (auto simp: and_then_Ok_iff map_ok_Ok_iff traverse_Ok_iff split_beta if_Err_eq_Ok)

lemma coerce_tuple:
  "d < MAX_DEPTH \<Longrightarrow> coerce_inner c x (TTuple ts) d = Ok y \<longleftrightarrow>
     (\<exists>as ws. x = VTuple as \<and> y = VTuple ws \<and> length as = length ts \<and>
        list_all2 (\<lambda>p w. coerce_inner c (fst p) (snd p) (Suc d) = Ok w) (zip as ts) ws)"
  by (subst coerce_inner.simps; cases x) (auto simp: map_ok_Ok_iff traverse_Ok_iff split_beta)

lemma coerce_list:
  "d < MAX_DEPTH \<Longrightarrow> coerce_inner c x (TList t) d = Ok y \<longleftrightarrow>
     (\<exists>as ws. x = VList as \<and> y = VList ws \<and> list_all2 (\<lambda>a w. coerce_inner c a t (Suc d) = Ok w) as ws)"
  by (subst coerce_inner.simps) (auto simp: map_ok_Ok_iff traverse_Ok_iff split: "value.splits")

lemma coerce_map:
  assumes "d < MAX_DEPTH"
  shows "coerce_inner c x (TMap t) d = Ok y \<longleftrightarrow>
     (\<exists>es ws. x = VMap es \<and> y = VMap ws \<and> length es \<le> MAX_MAP_ENTRIES \<and>
        list_all2 (\<lambda>e w. length (fst e) \<le> MAX_MAP_KEY_BYTES \<and> fst w = fst e \<and>
                     coerce_inner c (snd e) t (Suc d) = Ok (snd w)) es ws)"
proof -
  have entry: "(case e of (k, v) \<Rightarrow> if length k > MAX_MAP_KEY_BYTES then Err E_MAP_LIMIT
         else map_ok (Pair k) (coerce_inner c v t (Suc d))) = Ok w \<longleftrightarrow>
        length (fst e) \<le> MAX_MAP_KEY_BYTES \<and> fst w = fst e \<and> coerce_inner c (snd e) t (Suc d) = Ok (snd w)"
    for e w by (cases e; cases w) (auto simp: map_ok_Ok_iff)
  show ?thesis
    using assms by (subst coerce_inner.simps; cases x) (auto simp: map_ok_Ok_iff traverse_Ok_iff entry if_Err_eq_Ok)
qed

lemma coerce_option:
  "d < MAX_DEPTH \<Longrightarrow> coerce_inner c x (TOption t) d = Ok y \<longleftrightarrow>
     y = VOption None \<and> (x = VOption None \<or> (\<exists>i. x = VEnum ''None'' [] i)) \<or>
     (\<exists>a w. (x = VOption (Some a) \<or> (\<exists>i. x = VEnum ''Some'' [a] i)) \<and>
        coerce_inner c a t (Suc d) = Ok w \<and> y = VOption (Some w))"
  by (subst coerce_inner.simps)
     (auto simp: map_ok_Ok_iff length_Suc_conv split: "value.splits" option.splits if_splits)

text \<open>The value a record coercion stores in a column: the given field or the default.\<close>

definition column_source :: "(string \<times> value) list \<Rightarrow> column \<Rightarrow> value option" where
  "column_source fs col = (case bt_get fs (col_name col) of Some v \<Rightarrow> Some v | None \<Rightarrow> col_default col)"

lemma record_loop:
  assumes "try_fold (\<lambda>out col. and_then (g col) (\<lambda>v. Ok (bt_insert (col_name col) v out))) out cols = Ok out'"
    and "bt_ok out"
  shows "bt_ok out' \<and> fst ` set out' = fst ` set out \<union> col_name ` set cols \<and>
         (distinct (map col_name cols) \<longrightarrow>
            (\<forall>col \<in> set cols. \<exists>v. g col = Ok v \<and> bt_get out' (col_name col) = Some v) \<and>
            (\<forall>k. k \<notin> col_name ` set cols \<longrightarrow> bt_get out' k = bt_get out k))"
  using assms
proof (induction cols arbitrary: out)
  case (Cons col cols)
  from Cons.prems(1) obtain v where v: "g col = Ok v"
    and rest: "try_fold (\<lambda>out col. and_then (g col) (\<lambda>v. Ok (bt_insert (col_name col) v out)))
                 (bt_insert (col_name col) v out) cols = Ok out'"
    by (auto simp: and_then_Ok_iff)
  from Cons.IH [OF rest] Cons.prems(2) v show ?case
    by (auto simp: fst_set_bt_insert bt_get_insert image_iff)
qed simp

lemma record_loop_total:
  "(\<forall>col \<in> set cols. \<exists>v. g col = Ok v) \<Longrightarrow>
   \<exists>out'. try_fold (\<lambda>out col. and_then (g col) (\<lambda>v. Ok (bt_insert (col_name col) v out))) out cols = Ok out'"
  by (induction cols arbitrary: out) auto

lemma record_loop_iff:
  assumes "distinct (map col_name cols)"
  shows "try_fold (\<lambda>out col. and_then (g col) (\<lambda>v. Ok (bt_insert (col_name col) v out))) [] cols = Ok out \<longleftrightarrow>
     bt_ok out \<and> fst ` set out = col_name ` set cols \<and>
     (\<forall>col \<in> set cols. \<exists>v. g col = Ok v \<and> bt_get out (col_name col) = Some v)"
    (is "?loop = Ok out \<longleftrightarrow> ?spec out")
proof
  assume "?loop = Ok out"
  from record_loop [OF this] assms show "?spec out" by simp
next
  assume spec: "?spec out"
  then have "\<forall>col \<in> set cols. \<exists>v. g col = Ok v" by blast
  from record_loop_total [OF this] obtain out' where loop: "?loop = Ok out'" by blast
  from record_loop [OF loop] assms have spec': "?spec out'" by simp
  have "out' = out"
  proof (rule bt_ext_keys_values)
    fix k show "bt_get out' k = bt_get out k"
    proof (cases "k \<in> col_name ` set cols")
      case True then show ?thesis using spec spec' by fastforce
    next
      case False then show ?thesis using spec spec' by (metis bt_get_None_iff)
    qed
  qed (use spec spec' in auto)
  with loop show "?loop = Ok out" by simp
qed

lemma coerce_record:
  assumes "d < MAX_DEPTH" and "distinct (map col_name cols)"
  shows "coerce_inner c x (TRecord cols) d = Ok y \<longleftrightarrow>
     (\<exists>fs out. x = VRecord fs \<and> y = VRecord out \<and> bt_ok out \<and> fst ` set out = col_name ` set cols \<and>
        fst ` set fs \<subseteq> col_name ` set cols \<and>
        (\<forall>col \<in> set cols. \<exists>w. (\<exists>a. column_source fs col = Some a \<and>
           coerce_inner c a (col_ty col) (Suc d) = Ok w) \<and> bt_get out (col_name col) = Some w))"
proof -
  have source: "(case bt_get fs (col_name col) of
          Some v \<Rightarrow> coerce_inner c v (col_ty col) (Suc d)
        | None \<Rightarrow> and_then (ok_or E_FIELD (col_default col)) (\<lambda>default. coerce_inner c default (col_ty col) (Suc d))) = Ok w \<longleftrightarrow>
      (\<exists>a. column_source fs col = Some a \<and> coerce_inner c a (col_ty col) (Suc d) = Ok w)" for fs col w
    by (auto simp: column_source_def and_then_Ok_iff ok_or_Ok_iff split: option.splits)
  have keys: "list_ex (\<lambda>k. \<not> list_ex (\<lambda>col. col_name col = k) cols) (bt_keys fs) \<longleftrightarrow>
      \<not> fst ` set fs \<subseteq> col_name ` set cols" for fs :: "(string \<times> value) list"
    by (fastforce simp: list_ex_iff bt_keys_def)
  show ?thesis
    using assms(1)
    by (subst coerce_inner.simps; cases x)
       (auto simp: and_then_Ok_iff record_loop_iff [OF assms(2)] source keys if_Err_eq_Ok)
qed

section \<open>Coerced values conform to the type\<close>

lemma coerce_raw_ok: "coerce_raw def i x = Ok raw \<Longrightarrow> value_ok x \<Longrightarrow> value_ok raw"
  by (cases x) (auto simp: coerce_raw_def list_all_iff split: if_splits)

lemma coerce_variant_Ok:
  "coerce_variant c vs n i = Ok v \<Longrightarrow> v \<in> set vs \<and> (i \<noteq> 0 \<longrightarrow> find_variant vs i = Some v)"
  by (auto simp: coerce_variant_def and_then_Ok_iff ok_or_Ok_iff find_Some_iff
           split: option.splits if_splits dest: find_variant_Some)

lemma zip_all2_conv:
  assumes "list_all2 (\<lambda>p w. P (fst p) (snd p) w) (zip as ts) ws" "length as = length ts"
    and "\<And>a t w. a \<in> set as \<Longrightarrow> t \<in> set ts \<Longrightarrow> P a t w \<Longrightarrow> Q t w"
  shows "list_all2 Q ts ws"
proof (rule list_all2_all_nthI)
  show "length ts = length ws" using assms(1,2) by (auto dest: list_all2_lengthD)
  fix i assume "i < length ts"
  with assms(1,2) show "Q (ts ! i) (ws ! i)"
    by (intro assms(3) [of "as ! i"]) (auto simp: list_all2_conv_all_nth)
qed

lemma i64_to_f64_zero:
  assumes "in_i64 v" "f64_to_i128 (i64_to_f64 v) = v" "f64_is_zero (i64_to_f64 v)"
  shows "i64_to_f64 v = 0"
proof -
  note exact = i64_to_f64_exact [OF assms(1,2)]
  have "f64_magnitude (i64_to_f64 v) = 0" using f64_is_zero_iff exact(1) assms(3) by blast
  then have "f64_scaled (i64_to_f64 v) = 0" by (simp add: f64_scaled_def scaled_magnitude_def)
  with exact(2) have "v = 0" by (simp add: f64_unit_def)
  then show ?thesis by (simp add: i64_to_f64_def)
qed

lemma column_source_ok:
  assumes "type_ok c (TRecord cols)" "col \<in> set cols" "value_ok (VRecord fs)"
    and "column_source fs col = Some a"
  shows "value_ok a"
proof (cases "bt_get fs (col_name col)")
  case None
  with assms show ?thesis by (auto simp: column_source_def column_ok_def list_all_iff)
next
  case (Some v)
  with assms show ?thesis by (auto simp: column_source_def list_all_iff dest!: bt_get_SomeD)
qed

lemma coerce_inner_conforms:
  assumes "types_ok c"
  shows "coerce_inner c x ty d = Ok y \<Longrightarrow> value_ok x \<Longrightarrow> type_ok c ty \<Longrightarrow> conforms c d ty y"
proof (induction d arbitrary: x ty y rule: depth_induct)
  case (limit d)
  then show ?case by (simp add: coerce_limit)
next
  case (step d)
  note d = step.hyps and IH = step.IH
  show ?case
  proof (cases ty)
    case (TRef i)
    with step.prems obtain def raw w where "definition_of c i = Ok def" "coerce_raw def i x = Ok raw"
      "coerce_inner c raw (def_ty def) (Suc d) = Ok w" "y = VNamed i w"
      by (auto simp: coerce_ref [OF d])
    then show ?thesis using TRef d step.prems(2) IH coerce_raw_ok types_okD [OF assms] by auto
  next
    case (TEnum vs)
    with step.prems(1) obtain n as i v ws where e: "x = VEnum n as i" "coerce_variant c vs n i = Ok v"
      "y = VEnum (vd_name v) ws (vd_id v)" "length as = length (vd_args v)"
      and args: "list_all2 (\<lambda>p w. coerce_inner c (fst p) (snd p) (Suc d) = Ok w) (zip as (vd_args v)) ws"
      by (auto simp: coerce_enum [OF d])
    have v: "v \<in> set vs" using coerce_variant_Ok [OF e(2)] by simp
    have "list_all2 (conforms c (Suc d)) (vd_args v) ws"
      using v TEnum e(1) step.prems
      by (intro zip_all2_conv [OF args e(4)] IH) (auto simp: list_all_iff)
    moreover have "vd_id v \<noteq> 0" "find_variant vs (vd_id v) = Some v"
      using step.prems(3) TEnum v find_variant_distinct by (auto simp: list_all_iff)
    ultimately show ?thesis using TEnum e d by auto
  next
    case (TRecord cols)
    then have dist: "distinct (map col_name cols)" using step.prems(3) by simp
    obtain fs out where r: "x = VRecord fs" "y = VRecord out" "bt_ok out" "fst ` set out = col_name ` set cols"
      and get: "\<forall>col \<in> set cols. \<exists>w. (\<exists>a. column_source fs col = Some a \<and>
           coerce_inner c a (col_ty col) (Suc d) = Ok w) \<and> bt_get out (col_name col) = Some w"
      using step.prems(1) [unfolded TRecord coerce_record [OF d dist]] by (elim exE conjE) (rule that)
    have "length out = length cols"
      using r(3,4) dist bt_ok_distinct by (metis distinct_card length_map set_map)
    moreover have "\<exists>col. find_column cols k = Some col \<and> string_ok k \<and> conforms c (Suc d) (col_ty col) w"
      if kw: "(k, w) \<in> set out" for k w
    proof -
      from kw r(4) obtain col where col: "col \<in> set cols" "k = col_name col" by (metis fst_conv image_iff)
      with bspec [OF get col(1)] kw r(3) obtain a where
        a: "column_source fs col = Some a" "coerce_inner c a (col_ty col) (Suc d) = Ok w"
        by (metis bt_get_Some_iff option.inject)
      have "value_ok a"
        using column_source_ok [OF _ col(1) _ a(1)] step.prems r(1) TRecord by blast
      then have "conforms c (Suc d) (col_ty col) w"
        using IH [OF a(2)] step.prems(3) TRecord col(1) by simp
      moreover have "string_ok k" using step.prems(3) TRecord col by (auto simp: list_all_iff column_ok_def name_ok_def)
      ultimately show ?thesis using find_column_distinct [OF dist col(1)] col(2) by blast
    qed
    ultimately show ?thesis using TRecord r d by auto
  next
    case (TTuple ts)
    with step.prems(1) obtain as ws where t: "x = VTuple as" "y = VTuple ws" "length as = length ts"
      and args: "list_all2 (\<lambda>p w. coerce_inner c (fst p) (snd p) (Suc d) = Ok w) (zip as ts) ws"
      by (auto simp: coerce_tuple [OF d])
    have "list_all2 (conforms c (Suc d)) ts ws"
      using TTuple t(1) step.prems by (intro zip_all2_conv [OF args t(3)] IH) (auto simp: list_all_iff)
    with TTuple t d show ?thesis by simp
  next
    case (TOption t)
    with step.prems d IH show ?thesis by (auto simp: coerce_option [OF d])
  next
    case (TList t)
    with step.prems(1) obtain as ws where t: "x = VList as" "y = VList ws"
      and args: "list_all2 (\<lambda>a w. coerce_inner c a t (Suc d) = Ok w) as ws"
      by (auto simp: coerce_list [OF d])
    have "list_all (conforms c (Suc d) t) ws"
      using args t(1) TList step.prems IH
      by (fastforce simp: list_all_iff list_all2_conv_all_nth in_set_conv_nth)
    with TList t d show ?thesis by simp
  next
    case (TMap t)
    with step.prems(1) obtain es ws where m: "x = VMap es" "y = VMap ws" "length es \<le> MAX_MAP_ENTRIES"
      and args: "list_all2 (\<lambda>e w. length (fst e) \<le> MAX_MAP_KEY_BYTES \<and> fst w = fst e \<and>
                     coerce_inner c (snd e) t (Suc d) = Ok (snd w)) es ws"
      by (auto simp: coerce_map [OF d])
    have keys: "map fst ws = map fst es"
      using args by (auto simp: list_all2_conv_all_nth intro!: nth_equalityI)
    have "list_all (\<lambda>(k, w). string_ok k \<and> length k \<le> MAX_MAP_KEY_BYTES \<and> conforms c (Suc d) t w) ws"
      using args m(1) TMap step.prems IH
      by (fastforce simp: list_all_iff list_all2_conv_all_nth in_set_conv_nth split_beta)
    moreover have "bt_ok ws" using keys step.prems(2) m(1) by (simp add: bt_ok_def)
    moreover have "length ws \<le> MAX_MAP_ENTRIES" using keys m(3) by (metis length_map)
    ultimately show ?thesis unfolding TMap m(2) conforms_node using d by blast
  next
    case TFloat
    with step.prems d show ?thesis
      by (auto simp: coerce_leaf [OF d] canonical_float_def intro: i64_to_f64_exact(1) i64_to_f64_zero)
  next
    case (TDecimal p s)
    with step.prems d show ?thesis by (auto simp: coerce_leaf [OF d] decimal_rescale_iff)
  qed (use step.prems d in \<open>auto simp: coerce_leaf [OF d]\<close>)
qed

section \<open>Coercion keeps values that already conform\<close>

lemma coerce_variant_named:
  "name_ok (vd_name v) \<Longrightarrow> vd_id v \<noteq> 0 \<Longrightarrow> find_variant vs (vd_id v) = Some v \<Longrightarrow>
   coerce_variant c vs (vd_name v) (vd_id v) = Ok v"
  by (simp add: coerce_variant_def name_ok_def rsplit_once_None [THEN iffD2] check_qualifier_def)

lemma list_all2_refl_on: "(\<And>x. x \<in> set xs \<Longrightarrow> P x x) \<Longrightarrow> list_all2 P xs xs"
  by (simp add: list_all2_conv_all_nth)

lemma all2_zip_same:
  "list_all2 Q ts ws \<Longrightarrow> (\<And>t w. t \<in> set ts \<Longrightarrow> Q t w \<Longrightarrow> P w t w) \<Longrightarrow>
   list_all2 (\<lambda>p w. P (fst p) (snd p) w) (zip ws ts) ws"
  by (auto simp: list_all2_conv_all_nth)

lemma coerce_inner_same:
  assumes "types_ok c"
  shows "conforms c d ty x \<Longrightarrow> type_ok c ty \<Longrightarrow> coerce_inner c x ty d = Ok x"
proof (induction d arbitrary: x ty rule: depth_induct)
  case (limit d)
  then show ?case using conforms_depth by fastforce
next
  case (step d)
  note d = step.hyps and IH = step.IH
  show ?case
  proof (cases ty)
    case (TRef i)
    with step.prems obtain def w where "x = VNamed i w" "definition_of c i = Ok def"
      "conforms c (Suc d) (def_ty def) w"
      by auto
    moreover have "coerce_raw def i (VNamed i w) = Ok w" by (simp add: coerce_raw_def)
    ultimately show ?thesis using IH types_okD [OF assms] unfolding TRef coerce_ref [OF d] by blast
  next
    case (TEnum vs)
    with step.prems obtain as v where e: "x = VEnum (vd_name v) as (vd_id v)" "vd_id v \<noteq> 0"
      "find_variant vs (vd_id v) = Some v" "list_all2 (conforms c (Suc d)) (vd_args v) as"
      by auto
    then have v: "v \<in> set vs" by (auto dest: find_variant_Some)
    with step.prems(2) TEnum have "coerce_variant c vs (vd_name v) (vd_id v) = Ok v"
      using coerce_variant_named [OF _ e(2,3)] by (simp add: list_all_iff)
    moreover have "list_all2 (\<lambda>p w. coerce_inner c (fst p) (snd p) (Suc d) = Ok w) (zip as (vd_args v)) as"
      using v step.prems(2) TEnum by (intro all2_zip_same [OF e(4)] IH) auto
    moreover have "length as = length (vd_args v)" using e(4) by (simp add: list_all2_lengthD)
    ultimately show ?thesis unfolding TEnum coerce_enum [OF d] e(1) by blast
  next
    case (TRecord cols)
    then have dist: "distinct (map col_name cols)" using step.prems(2) by simp
    from step.prems(1) [unfolded TRecord conforms_node] obtain fs where r: "x = VRecord fs" "bt_ok fs" "length fs = length cols"
      "\<forall>(k, w) \<in> set fs. \<exists>col. find_column cols k = Some col \<and> string_ok k \<and> conforms c (Suc d) (col_ty col) w"
      by blast
    then have cols: "\<forall>(k, w) \<in> set fs. \<exists>col. find_column cols k = Some col \<and> conforms c (Suc d) (col_ty col) w"
      by fast
    note columns = record_columns [OF r(2,3) dist cols]
    have "\<exists>w. (\<exists>a. column_source fs col = Some a \<and> coerce_inner c a (col_ty col) (Suc d) = Ok w) \<and>
               bt_get fs (col_name col) = Some w" if "col \<in> set cols" for col
      using columns(1) that IH step.prems(2) TRecord by (fastforce simp: column_source_def)
    then show ?thesis
      unfolding TRecord coerce_record [OF d dist] r(1) using r(2) columns(2) by blast
  next
    case (TTuple ts)
    with step.prems obtain ws where t: "x = VTuple ws" "list_all2 (conforms c (Suc d)) ts ws" by auto
    have "list_all2 (\<lambda>p w. coerce_inner c (fst p) (snd p) (Suc d) = Ok w) (zip ws ts) ws"
      using step.prems(2) TTuple by (intro all2_zip_same [OF t(2)] IH) (auto simp: list_all_iff)
    then show ?thesis using t list_all2_lengthD [OF t(2)] unfolding TTuple coerce_tuple [OF d] by auto
  next
    case (TOption t)
    with step.prems IH show ?thesis by (auto simp: coerce_option [OF d])
  next
    case (TList t)
    with step.prems obtain ws where t: "x = VList ws" "list_all (conforms c (Suc d) t) ws" by auto
    then have "list_all2 (\<lambda>a w. coerce_inner c a t (Suc d) = Ok w) ws ws"
      using IH step.prems(2) TList by (auto simp: list_all_iff intro: list_all2_refl_on)
    with t show ?thesis unfolding TList coerce_list [OF d] by blast
  next
    case (TMap t)
    with step.prems obtain es where m: "x = VMap es" "length es \<le> MAX_MAP_ENTRIES"
      "list_all (\<lambda>(k, w). string_ok k \<and> length k \<le> MAX_MAP_KEY_BYTES \<and> conforms c (Suc d) t w) es" by auto
    then have "list_all2 (\<lambda>e w. length (fst e) \<le> MAX_MAP_KEY_BYTES \<and> fst w = fst e \<and>
                     coerce_inner c (snd e) t (Suc d) = Ok (snd w)) es es"
      using IH step.prems(2) TMap by (auto simp: list_all_iff split_beta intro: list_all2_refl_on)
    with m show ?thesis unfolding TMap coerce_map [OF d] by blast
  next
    case TFloat
    with step.prems show ?thesis by (auto simp: coerce_leaf [OF d] canonical_float_def)
  next
    case (TDecimal p s)
    with step.prems show ?thesis by (auto simp: coerce_leaf [OF d] decimal_rescale_iff decimal_ok_def)
  qed (use step.prems in \<open>auto simp: coerce_leaf [OF d]\<close>)
qed

section \<open>Properties\<close>

text \<open>
  (C8) Coercion is sound and canonical.  In a catalog whose types are well formed, a successful
  \<open>coerce\<close> of a valid value yields a value of the requested type within the depth limit (records
  complete and in key order, floats finite with one zero, decimals at the declared scale,
  enum values with the resolved variant ID, references wrapped), and coercing the result again
  returns it unchanged.
\<close>

theorem coerce_sound:
  assumes "types_ok c" and "type_ok c ty" and "value_ok x" and "coerce c x ty = Ok y"
  shows "conforms c 0 ty y \<and> coerce c y ty = Ok y"
proof -
  have "conforms c 0 ty y"
    using coerce_inner_conforms [OF assms(1)] assms(2-4) by (simp add: coerce_def)
  then show ?thesis
    using coerce_inner_same [OF assms(1)] assms(2) by (simp add: coerce_def)
qed

definition example_shape :: "value" where
  "example_shape =
     VEnum ''Shape.Circle'' [VRecord [(''x'', VInt 3)], VDecimal \<lparr>coefficient = 15, scale = 1\<rparr>] 0"

definition example_shape_coerced :: "value" where
  "example_shape_coerced =
     VNamed 4 (VEnum ''Circle'' [VNamed 1 (VRecord [(''x'', VInt 3), (''y'', VFloat 0)]),
                                 VDecimal \<lparr>coefficient = 150, scale = 2\<rparr>] 5)"

lemma example_catalog_ok: "types_ok example_catalog"
  by code_simp

lemma example_shape_coerce: "coerce example_catalog example_shape (TRef 4) = Ok example_shape_coerced"
  by code_simp

theorem coerce_sound_witness:
  "coerce example_catalog example_shape (TRef 4) = Ok example_shape_coerced \<and>
   conforms example_catalog 0 (TRef 4) example_shape_coerced"
proof -
  have "type_ok example_catalog (TRef 4)" "value_ok example_shape" by code_simp+
  from coerce_sound [OF example_catalog_ok this example_shape_coerce] show ?thesis
    using example_shape_coerce by simp
qed

text \<open>
  (C16) The values of a type are exactly the fixed points of coercion: a valid value conforms to a
  well-formed type when and only when \<open>coerce\<close> returns it unchanged.
\<close>

theorem coerce_fixed_points:
  assumes "types_ok c" and "type_ok c ty" and "value_ok x"
  shows "coerce c x ty = Ok x \<longleftrightarrow> conforms c 0 ty x"
  using coerce_inner_conforms [OF assms(1)] coerce_inner_same [OF assms(1)] assms(2,3)
  by (auto simp: coerce_def)

theorem coerce_fixed_points_witness:
  "coerce example_catalog (VNamed 1 (VRecord [(''x'', VInt 3), (''y'', VFloat 0)])) (TRef 1) =
     Ok (VNamed 1 (VRecord [(''x'', VInt 3), (''y'', VFloat 0)])) \<and>
   \<not> coerce example_catalog (VRecord [(''x'', VInt 3), (''y'', VFloat 0)]) (TRef 1) =
     Ok (VRecord [(''x'', VInt 3), (''y'', VFloat 0)])"
proof -
  have ok: "type_ok example_catalog (TRef 1)" "value_ok (VNamed 1 (VRecord [(''x'', VInt 3), (''y'', VFloat 0)]))"
    "value_ok (VRecord [(''x'', VInt 3), (''y'', VFloat 0)])"
    "conforms example_catalog 0 (TRef 1) (VNamed 1 (VRecord [(''x'', VInt 3), (''y'', VFloat 0)]))"
    "\<not> conforms example_catalog 0 (TRef 1) (VRecord [(''x'', VInt 3), (''y'', VFloat 0)])"
    by code_simp+
  show ?thesis
    using coerce_fixed_points [OF example_catalog_ok ok(1,2)] coerce_fixed_points [OF example_catalog_ok ok(1,3)] ok(4,5)
    by simp
qed

end
