(* ===== verification/Type_Graph.thy ===== *)
theory Type_Graph
  imports Coerce
begin

text \<open>
  The checks on the graph of named types (\<^verbatim>\<open>src/src/model.rs\<close>, \<open>validate_finite_types\<close>):
  every reference is defined, no two distinct types refer to each other in a cycle, and
  every type has a finite value.  The depth-first search is shown to decide acyclicity and
  the fixed-point loop to compute the inhabited types.
\<close>

section \<open>The checks\<close>

function type_is_finite :: "scalar_type \<Rightarrow> u64 list \<Rightarrow> bool" where
  "type_is_finite ty fin =
     (case ty of
        TRef i \<Rightarrow> i \<in> set fin
      | TTuple items \<Rightarrow> list_all (\<lambda>item. type_is_finite item fin) items
      | TRecord cols \<Rightarrow> list_all (\<lambda>field. type_is_finite (col_ty field) fin) cols
      | TEnum variants \<Rightarrow> list_ex (\<lambda>v. list_all (\<lambda>argument. type_is_finite argument fin) (vd_args v)) variants
      | TNamed _ \<Rightarrow> False
      | _ \<Rightarrow> True)"
  by pat_completeness auto
termination
  by (relation "measure (\<lambda>(ty, fin). size ty)")
     (auto intro: size_column [simplified] size_variant [simplified] size_subtype [of _ "TTuple ts" for ts, simplified])

declare type_is_finite.simps [simp del]

lemma type_is_finite_simps [simp]:
  "type_is_finite TInt f" "type_is_finite TFloat f" "type_is_finite TBool f" "type_is_finite TText f"
  "type_is_finite TUuid f" "type_is_finite TDate f" "type_is_finite TTimestamp f" "type_is_finite TDuration f"
  "type_is_finite TBytes f" "type_is_finite (TDecimal p s) f" "\<not> type_is_finite (TNamed n) f"
  "type_is_finite (TRef i) f \<longleftrightarrow> i \<in> set f"
  "type_is_finite (TOption t) f" "type_is_finite (TList t) f" "type_is_finite (TMap t) f"
  "type_is_finite (TTuple ts) f \<longleftrightarrow> (\<forall>t \<in> set ts. type_is_finite t f)"
  "type_is_finite (TRecord cols) f \<longleftrightarrow> (\<forall>col \<in> set cols. type_is_finite (col_ty col) f)"
  "type_is_finite (TEnum vs) f \<longleftrightarrow> (\<exists>v \<in> set vs. \<forall>t \<in> set (vd_args v). type_is_finite t f)"
  by (subst type_is_finite.simps; simp add: list_all_iff list_ex_iff)+

function validate_type_references :: "catalog \<Rightarrow> scalar_type \<Rightarrow> nat \<Rightarrow> unit result" where
  "validate_type_references c ty depth =
     (if MAX_DEPTH \<le> depth then Err E_LIMIT
      else case ty of
        TDecimal precision scl \<Rightarrow> validate_decimal_type precision scl
      | TRef i \<Rightarrow> map_ok (\<lambda>_. ()) (definition_of c i)
      | TRecord cols \<Rightarrow> try_fold (\<lambda>_ field. validate_type_references c (col_ty field) (Suc depth)) () cols
      | TEnum variants \<Rightarrow>
          try_fold (\<lambda>_ v. try_fold (\<lambda>_ argument. validate_type_references c argument (Suc depth)) () (vd_args v)) ()
            variants
      | TTuple items \<Rightarrow> try_fold (\<lambda>_ item. validate_type_references c item (Suc depth)) () items
      | TOption inner \<Rightarrow> validate_type_references c inner (Suc depth)
      | TList inner \<Rightarrow> validate_type_references c inner (Suc depth)
      | TMap inner \<Rightarrow> validate_type_references c inner (Suc depth)
      | TNamed name \<Rightarrow> Err E_SCHEMA
      | _ \<Rightarrow> Ok ())"
  by pat_completeness auto
termination by (relation "measure (\<lambda>(c, ty, depth). MAX_DEPTH - depth)") auto

declare validate_type_references.simps [simp del]

function collect_type_references :: "scalar_type \<Rightarrow> u64 list \<Rightarrow> u64 list" where
  "collect_type_references ty references =
     (case ty of
        TRef i \<Rightarrow> bs_insert i references
      | TRecord cols \<Rightarrow> foldl (\<lambda>references field. collect_type_references (col_ty field) references) references cols
      | TEnum variants \<Rightarrow>
          foldl (\<lambda>references v. foldl (\<lambda>references argument. collect_type_references argument references)
            references (vd_args v)) references variants
      | TTuple items \<Rightarrow> foldl (\<lambda>references item. collect_type_references item references) references items
      | TOption inner \<Rightarrow> collect_type_references inner references
      | TList inner \<Rightarrow> collect_type_references inner references
      | TMap inner \<Rightarrow> collect_type_references inner references
      | _ \<Rightarrow> references)"
  by pat_completeness auto
termination
  by (relation "measure (\<lambda>(ty, references). size ty)")
     (auto intro: size_column [simplified] size_variant [simplified] size_subtype [of _ "TTuple ts" for ts, simplified])

declare collect_type_references.simps [simp del]

definition catalog_type_ids :: "catalog \<Rightarrow> u64 set" where
  "catalog_type_ids c = def_id ` set (bt_values (types c))"

text \<open>
  \<open>visit\<close> of \<open>validate_no_mutual_cycles\<close>.  The set \<open>visiting\<close> is an argument instead of
  mutable state: each call removes exactly the ID it has inserted, because it is only made
  for an ID outside the set.
\<close>

function visit :: "catalog \<Rightarrow> u64 \<Rightarrow> u64 list \<Rightarrow> u64 list \<Rightarrow> u64 list result" where
  "visit c i visiting visited =
     (if i \<in> set visited then Ok visited
      else and_then (definition_of c i) (\<lambda>d.
        map_ok (bs_insert i)
          (try_fold (\<lambda>visited reference.
             if reference = i then Ok visited
             else if reference \<in> set (bs_insert i visiting) then Err E_SCHEMA
             else visit c reference (bs_insert i visiting) visited)
           visited (collect_type_references (def_ty d) []))))"
  by pat_completeness auto
termination
proof (relation "measure (\<lambda>(c, i, visiting, visited).
    2 * card (catalog_type_ids c - set visiting) + (if i \<in> set visiting then 1 else 0))", goal_cases)
  case (2 c i visiting visited d visited' reference)
  then have "i \<in> catalog_type_ids c"
    by (force simp: catalog_type_ids_def dest!: definition_of_Ok)
  moreover have "finite (catalog_type_ids c)" by (simp add: catalog_type_ids_def)
  ultimately have "i \<notin> set visiting \<Longrightarrow>
      card (catalog_type_ids c - insert i (set visiting)) < card (catalog_type_ids c - set visiting)"
    by (intro psubset_card_mono) auto
  then show ?case using 2(4,5) by (cases "i \<in> set visiting") (auto simp: insert_absorb)
qed simp

declare visit.simps [simp del]

definition validate_no_mutual_cycles :: "catalog \<Rightarrow> unit result" where
  "validate_no_mutual_cycles c =
     map_ok (\<lambda>_. ()) (try_fold (\<lambda>visited d. visit c (def_id d) [] visited) [] (bt_values (types c)))"

text \<open>One pass of the fixed-point loop, and the loop: it repeats while a pass has added an ID.\<close>

definition finite_pass :: "catalog \<Rightarrow> u64 list \<Rightarrow> u64 list \<times> bool" where
  "finite_pass c fin =
     foldl (\<lambda>(fin, changed) d.
       if def_id d \<notin> set fin \<and> type_is_finite (def_ty d) fin
       then (bs_insert (def_id d) fin, True) else (fin, changed))
     (fin, False) (bt_values (types c))"

lemma pass_step:
  assumes "foldl (\<lambda>(fin, changed) d.
       if def_id d \<notin> set fin \<and> type_is_finite (def_ty d) fin
       then (bs_insert (def_id d) fin, True) else (fin, changed)) (fin, changed) ds = (fin', changed')"
  shows "set fin \<subseteq> set fin' \<and> set fin' \<subseteq> set fin \<union> def_id ` set ds \<and>
         (changed' \<longrightarrow> changed \<or> set fin \<subset> set fin') \<and>
         (\<not> changed' \<longrightarrow> \<not> changed \<and> fin' = fin \<and> (\<forall>d \<in> set ds. type_is_finite (def_ty d) fin \<longrightarrow> def_id d \<in> set fin))"
  using assms
proof (induction ds arbitrary: fin changed)
  case (Cons d ds)
  show ?case
  proof (cases "def_id d \<notin> set fin \<and> type_is_finite (def_ty d) fin")
    case True
    with Cons.prems have "foldl (\<lambda>(fin, changed) d.
       if def_id d \<notin> set fin \<and> type_is_finite (def_ty d) fin
       then (bs_insert (def_id d) fin, True) else (fin, changed)) (bs_insert (def_id d) fin, True) ds = (fin', changed')"
      by simp
    from Cons.IH [OF this] True show ?thesis by auto
  next
    case False
    with Cons.prems have "foldl (\<lambda>(fin, changed) d.
       if def_id d \<notin> set fin \<and> type_is_finite (def_ty d) fin
       then (bs_insert (def_id d) fin, True) else (fin, changed)) (fin, changed) ds = (fin', changed')"
      by auto
    from Cons.IH [OF this] False show ?thesis by auto
  qed
qed simp

lemma finite_pass_step:
  assumes "finite_pass c fin = (fin', changed)"
  shows "set fin \<subseteq> set fin'" "set fin' \<subseteq> set fin \<union> catalog_type_ids c"
    "changed \<Longrightarrow> set fin \<subset> set fin'" "\<not> changed \<Longrightarrow> fin' = fin"
    "\<not> changed \<Longrightarrow> d \<in> set (bt_values (types c)) \<Longrightarrow> type_is_finite (def_ty d) fin \<Longrightarrow> def_id d \<in> set fin"
  using pass_step [OF assms [unfolded finite_pass_def]] by (auto simp: catalog_type_ids_def)

function finite_loop :: "catalog \<Rightarrow> u64 list \<Rightarrow> u64 list" where
  "finite_loop c fin =
     (case finite_pass c fin of (fin', changed) \<Rightarrow> if changed then finite_loop c fin' else fin')"
  by pat_completeness auto
termination
proof (relation "measure (\<lambda>(c, fin). card (catalog_type_ids c - set fin))", goal_cases)
  case (2 c fin fin' changed)
  then have "set fin \<subset> set fin'" "set fin' \<subseteq> set fin \<union> catalog_type_ids c"
    using finite_pass_step(2,3) [of c fin fin' changed] by simp_all
  then have "catalog_type_ids c - set fin' \<subset> catalog_type_ids c - set fin" by blast
  then show ?case by (simp add: psubset_card_mono catalog_type_ids_def)
qed simp

declare finite_loop.simps [simp del]

definition validate_finite_types :: "catalog \<Rightarrow> unit result" where
  "validate_finite_types c =
     and_then (try_fold (\<lambda>_ d. validate_type_references c (def_ty d) 0) () (bt_values (types c))) (\<lambda>_.
       and_then (validate_no_mutual_cycles c) (\<lambda>_.
         let fin = finite_loop c [];
             uninhabited = map def_name (filter (\<lambda>d. def_id d \<notin> set fin) (bt_values (types c)))
         in if uninhabited = [] then Ok () else Err E_SCHEMA))"

section \<open>References\<close>

fun own_refs :: "scalar_type \<Rightarrow> u64 set" where
  "own_refs (TRef i) = {i}"
| "own_refs _ = {}"

function type_refs :: "scalar_type \<Rightarrow> u64 set" where
  "type_refs ty = own_refs ty \<union> (\<Union>t \<in> set (subtypes ty). type_refs t)"
  by auto
termination by (relation "measure size") (auto simp: size_subtype)

declare type_refs.simps [simp del]

lemma type_refs_simps [simp]:
  "type_refs TInt = {}" "type_refs TFloat = {}" "type_refs TBool = {}" "type_refs TText = {}" "type_refs TUuid = {}"
  "type_refs TDate = {}" "type_refs TTimestamp = {}" "type_refs TDuration = {}" "type_refs TBytes = {}"
  "type_refs (TDecimal p s) = {}" "type_refs (TNamed n) = {}" "type_refs (TRef i) = {i}"
  "type_refs (TOption t) = type_refs t" "type_refs (TList t) = type_refs t" "type_refs (TMap t) = type_refs t"
  "type_refs (TTuple ts) = (\<Union>t \<in> set ts. type_refs t)"
  "type_refs (TRecord cols) = (\<Union>col \<in> set cols. type_refs (col_ty col))"
  "type_refs (TEnum vs) = (\<Union>v \<in> set vs. \<Union>t \<in> set (vd_args v). type_refs t)"
  by (subst type_refs.simps; simp)+

lemma set_foldl_union:
  "(\<And>x rs. x \<in> set xs \<Longrightarrow> set (f rs x) = set rs \<union> g x) \<Longrightarrow> set (foldl f rs xs) = set rs \<union> (\<Union>x \<in> set xs. g x)"
  by (induction xs arbitrary: rs) (auto simp del: Un_iff)

lemma set_collect_type_references [simp]: "set (collect_type_references ty rs) = set rs \<union> type_refs ty"
proof (induction ty arbitrary: rs rule: type_induct)
  case (step ty)
  show ?case
  proof (cases ty)
    case (TRecord cols)
    then have "set (foldl (\<lambda>rs col. collect_type_references (col_ty col) rs) rs cols) =
        set rs \<union> (\<Union>col \<in> set cols. type_refs (col_ty col))"
      using step by (intro set_foldl_union) auto
    with TRecord show ?thesis by (simp add: collect_type_references.simps)
  next
    case (TEnum vs)
    then have "set (foldl (\<lambda>rs v. foldl (\<lambda>rs t. collect_type_references t rs) rs (vd_args v)) rs vs) =
        set rs \<union> (\<Union>v \<in> set vs. \<Union>t \<in> set (vd_args v). type_refs t)"
      using step by (intro set_foldl_union) auto
    with TEnum show ?thesis by (simp add: collect_type_references.simps)
  next
    case (TTuple ts)
    then have "set (foldl (\<lambda>rs t. collect_type_references t rs) rs ts) = set rs \<union> (\<Union>t \<in> set ts. type_refs t)"
      using step by (intro set_foldl_union) auto
    with TTuple show ?thesis by (simp add: collect_type_references.simps)
  qed (use step in \<open>simp_all add: collect_type_references.simps\<close>)
qed

definition refs_defined :: "catalog \<Rightarrow> scalar_type \<Rightarrow> bool" where
  "refs_defined c ty \<longleftrightarrow> (\<forall>i \<in> type_refs ty. is_ok (definition_of c i))"

section \<open>Mutual recursion\<close>

text \<open>An edge leads from a type to another type its definition mentions.\<close>

definition type_edges :: "catalog \<Rightarrow> (u64 \<times> u64) set" where
  "type_edges c = {(i, j). \<exists>d. definition_of c i = Ok d \<and> j \<in> type_refs (def_ty d) \<and> j \<noteq> i}"

text \<open>The IDs from which every path of edges is finite.\<close>

definition grounded :: "catalog \<Rightarrow> u64 set" where
  "grounded c = Wellfounded.acc ((type_edges c)\<inverse>)"

lemma groundedI: "(\<And>j. (i, j) \<in> type_edges c \<Longrightarrow> j \<in> grounded c) \<Longrightarrow> i \<in> grounded c"
  unfolding grounded_def by (rule accI) simp

lemma grounded_acyclic: "i \<in> grounded c \<Longrightarrow> (i, i) \<notin> (type_edges c)\<^sup>+"
  unfolding grounded_def
proof (induction rule: acc.induct)
  case (accI i)
  show ?case
  proof
    assume "(i, i) \<in> (type_edges c)\<^sup>+"
    then obtain j where j: "(i, j) \<in> type_edges c" "(j, i) \<in> (type_edges c)\<^sup>*" by (meson tranclD)
    then have "(j, j) \<in> (type_edges c)\<^sup>+" by (meson rtrancl_into_trancl1)
    then show False using accI j(1) by blast
  qed
qed

text \<open>Folds that grow a set: everything a step promises of the set still holds at the end.\<close>

lemma try_fold_grows:
  assumes "try_fold f s xs = Ok out" and "I s"
    and "\<And>s x s'. x \<in> set xs \<Longrightarrow> I s \<Longrightarrow> f s x = Ok s' \<Longrightarrow> set s \<subseteq> set s' \<and> I s' \<and> (P x \<or> x' x \<in> set s')"
  shows "set s \<subseteq> set out \<and> I out \<and> (\<forall>x \<in> set xs. P x \<or> x' x \<in> set out)"
  using assms
proof (induction xs arbitrary: s)
  case (Cons x xs)
  from Cons.prems(1) obtain s1 where s1: "f s x = Ok s1" "try_fold f s1 xs = Ok out"
    by (auto simp: and_then_Ok_iff)
  have "set s \<subseteq> set s1 \<and> I s1 \<and> (P x \<or> x' x \<in> set s1)" using Cons.prems(2,3) s1(1) by auto
  moreover from this have "set s1 \<subseteq> set out \<and> I out \<and> (\<forall>x \<in> set xs. P x \<or> x' x \<in> set out)"
    using Cons.prems(3) by (intro Cons.IH [OF s1(2)]) auto
  ultimately show ?case by auto
qed simp

lemma visit_unfold:
  assumes "visit c i visiting visited = Ok visited'" and "i \<notin> set visited"
  obtains d out where "definition_of c i = Ok d" "visited' = bs_insert i out"
    "try_fold (\<lambda>visited reference.
             if reference = i then Ok visited
             else if reference \<in> set (bs_insert i visiting) then Err E_SCHEMA
             else visit c reference (bs_insert i visiting) visited)
       visited (collect_type_references (def_ty d) []) = Ok out"
  using assms by (subst (asm) visit.simps) (auto simp: and_then_Ok_iff map_ok_Ok_iff)

lemma visit_grounded:
  "visit c i visiting visited = Ok visited' \<Longrightarrow> set visited \<subseteq> grounded c \<Longrightarrow>
   set visited \<subseteq> set visited' \<and> set visited' \<subseteq> grounded c \<and> i \<in> set visited'"
proof (induction c i visiting visited arbitrary: visited' rule: visit.induct)
  case (1 c i visiting visited)
  show ?case
  proof (cases "i \<in> set visited")
    case True
    with 1(2,3) show ?thesis by (simp add: visit.simps)
  next
    case False
    from visit_unfold [OF 1(2) False] obtain d out where d: "definition_of c i = Ok d"
      and out: "visited' = bs_insert i out"
      and fold: "try_fold (\<lambda>visited reference.
             if reference = i then Ok visited
             else if reference \<in> set (bs_insert i visiting) then Err E_SCHEMA
             else visit c reference (bs_insert i visiting) visited)
           visited (collect_type_references (def_ty d) []) = Ok out" by blast
    have "set visited \<subseteq> set out \<and> set out \<subseteq> grounded c \<and>
        (\<forall>r \<in> set (collect_type_references (def_ty d) []). r = i \<or> r \<in> set out)"
    proof (rule try_fold_grows [OF fold, where I = "\<lambda>s. set s \<subseteq> grounded c", OF 1(3)])
      fix s r s' assume r: "r \<in> set (collect_type_references (def_ty d) [])" and s: "set s \<subseteq> grounded c"
        and s': "(if r = i then Ok s else if r \<in> set (bs_insert i visiting) then Err E_SCHEMA
                  else visit c r (bs_insert i visiting) s) = Ok s'"
      show "set s \<subseteq> set s' \<and> set s' \<subseteq> grounded c \<and> (r = i \<or> r \<in> set s')"
      proof (cases "r = i \<or> r \<in> set (bs_insert i visiting)")
        case True
        with s s' show ?thesis by (auto split: if_splits)
      next
        case new: False
        with s' have "visit c r (bs_insert i visiting) s = Ok s'" by simp
        with 1(1) [OF False d r] new s show ?thesis by blast
      qed
    qed
    moreover from this have "i \<in> grounded c"
      using d by - (rule groundedI, auto simp: type_edges_def)
    ultimately show ?thesis using out by auto
  qed
qed

text \<open>On an acyclic graph whose references are defined, the search cannot fail.\<close>

lemma try_fold_total:
  "(\<And>s x. x \<in> set xs \<Longrightarrow> \<exists>s'. f s x = Ok s') \<Longrightarrow> \<exists>s'. try_fold f s xs = Ok s'"
  by (induction xs arbitrary: s) (auto, metis and_then.simps(1))

lemma visit_succeeds:
  assumes "acyclic (type_edges c)" and "\<forall>d \<in> set (bt_values (types c)). refs_defined c (def_ty d)"
  shows "is_ok (definition_of c i) \<Longrightarrow> \<forall>v \<in> set visiting. (v, i) \<in> (type_edges c)\<^sup>+ \<Longrightarrow>
         \<exists>visited'. visit c i visiting visited = Ok visited'"
  using assms
proof (induction c i visiting visited rule: visit.induct)
  case (1 c i visiting visited)
  show ?case
  proof (cases "i \<in> set visited")
    case True
    then show ?thesis by (simp add: visit.simps)
  next
    case False
    from 1(2) obtain d where d: "definition_of c i = Ok d" by (auto simp: is_ok_iff)
    have "\<exists>visited'. try_fold (\<lambda>visited reference.
             if reference = i then Ok visited
             else if reference \<in> set (bs_insert i visiting) then Err E_SCHEMA
             else visit c reference (bs_insert i visiting) visited)
           visited (collect_type_references (def_ty d) []) = Ok visited'"
    proof (rule try_fold_total)
      fix s r assume r: "r \<in> set (collect_type_references (def_ty d) [])"
      show "\<exists>s'. (if r = i then Ok s else if r \<in> set (bs_insert i visiting) then Err E_SCHEMA
                  else visit c r (bs_insert i visiting) s) = Ok s'"
      proof (cases "r = i")
        case ri: False
        with r d have edge: "(i, r) \<in> type_edges c" by (auto simp: type_edges_def)
        have new: "r \<notin> set (bs_insert i visiting)"
        proof
          assume "r \<in> set (bs_insert i visiting)"
          with ri 1(3) have "(r, i) \<in> (type_edges c)\<^sup>+" by auto
          with edge have "(i, i) \<in> (type_edges c)\<^sup>+" by (meson trancl_into_trancl2)
          with 1(4) show False by (simp add: acyclic_def)
        qed
        have "is_ok (definition_of c r)"
          using 1(5) d r definition_of_Ok [OF d] by (auto simp: refs_defined_def)
        moreover have "\<forall>v \<in> set (bs_insert i visiting). (v, r) \<in> (type_edges c)\<^sup>+"
          using edge 1(3) by (auto intro: trancl_into_trancl)
        ultimately have "\<exists>s'. visit c r (bs_insert i visiting) s = Ok s'"
          using 1(1) [OF False d r ri new] 1(4,5) by blast
        with ri new show ?thesis by simp
      qed simp
    qed
    with False d show ?thesis by (subst visit.simps) (auto simp: map_ok_Ok_iff)
  qed
qed

lemma validate_no_mutual_cycles_acyclic:
  assumes "validate_no_mutual_cycles c = Ok ()"
  shows "acyclic (type_edges c)"
proof -
  from assms obtain out where fold: "try_fold (\<lambda>visited d. visit c (def_id d) [] visited) [] (bt_values (types c)) = Ok out"
    by (auto simp: validate_no_mutual_cycles_def map_ok_Ok_iff)
  have "set [] \<subseteq> set out \<and> set out \<subseteq> grounded c \<and> (\<forall>d \<in> set (bt_values (types c)). False \<or> def_id d \<in> set out)"
    by (rule try_fold_grows [OF fold, where I = "\<lambda>s. set s \<subseteq> grounded c"]) (auto dest: visit_grounded)
  then have "d \<in> set (bt_values (types c)) \<Longrightarrow> def_id d \<in> grounded c" for d by blast
  moreover have "\<exists>d. i = def_id d \<and> d \<in> set (bt_values (types c))" if "(i, j) \<in> (type_edges c)\<^sup>+" for i j
    using that by (induction rule: trancl_induct) (auto simp: type_edges_def dest: definition_of_Ok)
  ultimately show ?thesis using grounded_acyclic unfolding acyclic_def by metis
qed

lemma validate_no_mutual_cycles_iff:
  assumes "\<forall>d \<in> set (bt_values (types c)). refs_defined c (def_ty d)"
  shows "validate_no_mutual_cycles c = Ok () \<longleftrightarrow> acyclic (type_edges c)"
proof
  assume acyclic: "acyclic (type_edges c)"
  have "\<exists>out. try_fold (\<lambda>visited d. visit c (def_id d) [] visited) [] (bt_values (types c)) = Ok out"
  proof (rule try_fold_total)
    fix s d assume "d \<in> set (bt_values (types c))"
    then have "is_ok (definition_of c (def_id d))"
      by (auto simp: definition_of_def is_ok_iff ok_or_Ok_iff find_None_iff not_None_eq [symmetric])
    then show "\<exists>s'. visit c (def_id d) [] s = Ok s'" by (intro visit_succeeds acyclic assms(1)) auto
  qed
  then show "validate_no_mutual_cycles c = Ok ()" by (auto simp: validate_no_mutual_cycles_def)
qed (rule validate_no_mutual_cycles_acyclic)

section \<open>Defined references\<close>

fun own_refs_ok :: "catalog \<Rightarrow> scalar_type \<Rightarrow> bool" where
  "own_refs_ok c (TDecimal p s) = (validate_decimal_type p s = Ok ())"
| "own_refs_ok c (TNamed _) = False"
| "own_refs_ok c (TRef i) = is_ok (definition_of c i)"
| "own_refs_ok c _ = True"

function refs_ok :: "catalog \<Rightarrow> scalar_type \<Rightarrow> bool" where
  "refs_ok c ty \<longleftrightarrow> own_refs_ok c ty \<and> list_all (refs_ok c) (subtypes ty)"
  by auto
termination by (relation "measure (\<lambda>(c, ty). size ty)") (auto simp: size_subtype)

function type_depth :: "scalar_type \<Rightarrow> nat" where
  "type_depth ty = Suc (foldr max (map type_depth (subtypes ty)) 0)"
  by auto
termination by (relation "measure size") (auto simp: size_subtype)

declare refs_ok.simps [simp del] type_depth.simps [simp del]

lemma try_fold_unit: "try_fold (\<lambda>_. f) () xs = Ok () \<longleftrightarrow> (\<forall>x \<in> set xs. f x = Ok ())"
  by (induction xs) (auto simp: and_then_Ok_iff)

lemma validate_type_references_step:
  "d < MAX_DEPTH \<Longrightarrow> validate_type_references c ty d = Ok () \<longleftrightarrow>
     own_refs_ok c ty \<and> (\<forall>t \<in> set (subtypes ty). validate_type_references c t (Suc d) = Ok ())"
  by (subst validate_type_references.simps; cases ty) (auto simp: map_ok_Ok_iff try_fold_unit is_ok_iff)

lemma validate_type_references_iff:
  "validate_type_references c ty d = Ok () \<longleftrightarrow> d + type_depth ty \<le> MAX_DEPTH \<and> refs_ok c ty"
proof (induction d arbitrary: ty rule: depth_induct)
  case (limit d)
  then show ?case by (subst type_depth.simps) (simp add: validate_type_references.simps)
next
  case (step d)
  have "d + type_depth ty \<le> MAX_DEPTH \<longleftrightarrow> (\<forall>t \<in> set (subtypes ty). Suc d + type_depth t \<le> MAX_DEPTH)"
    using foldr_max_le [of "map type_depth (subtypes ty)" "MAX_DEPTH - Suc d"] step.hyps
    by (subst type_depth.simps) fastforce
  then show ?case
    unfolding validate_type_references_step [OF step.hyps] step.IH
    by (subst refs_ok.simps) (auto simp: list_all_iff)
qed

lemma refs_ok_defined: "refs_ok c ty \<Longrightarrow> refs_defined c ty"
proof (induction ty rule: type_induct)
  case (step ty)
  then show ?case
    by (subst (asm) refs_ok.simps, unfold refs_defined_def, subst type_refs.simps)
       (cases ty; auto simp: list_all_iff)
qed

lemma type_ok_refs_ok: "type_ok c ty \<Longrightarrow> refs_ok c ty"
proof (induction ty rule: type_induct)
  case (step ty)
  then have "own_ok c ty" "\<forall>t \<in> set (subtypes ty). type_ok c t"
    by (subst (asm) (2) type_ok.simps, simp add: list_all_iff)+
  with step.IH show ?case by (subst refs_ok.simps) (cases ty; auto simp: list_all_iff)
qed

section \<open>Inhabited types\<close>

definition inhabited :: "catalog \<Rightarrow> scalar_type \<Rightarrow> bool" where
  "inhabited c ty \<longleftrightarrow> (\<exists>x. has_type c ty x)"

lemma inhabited_leaf:
  "inhabited c TInt" "inhabited c TFloat" "inhabited c TBool" "inhabited c TText" "inhabited c TUuid"
  "inhabited c TDate" "inhabited c TTimestamp" "inhabited c TDuration" "inhabited c TBytes"
  "inhabited c (TOption t)" "inhabited c (TList t)" "inhabited c (TMap t)"
proof -
  have "in_i64 0" "canonical_float 0" "string_ok []" "length (replicate 16 (0 :: u8)) = 16" "date_ok 0" "timestamp_ok 0"
    "length ([] :: u8 list) \<le> MAX_BYTES"
    by code_simp+
  then show "inhabited c TInt" "inhabited c TFloat" "inhabited c TText" "inhabited c TUuid"
    "inhabited c TDate" "inhabited c TTimestamp" "inhabited c TDuration" "inhabited c TBytes"
    unfolding inhabited_def has_type_simps by blast+
  have "has_type c TBool (VBool True)" "has_type c (TOption t) (VOption None)" "has_type c (TList t) (VList [])"
    "has_type c (TMap t) (VMap [])"
    by auto
  then show "inhabited c TBool" "inhabited c (TOption t)" "inhabited c (TList t)" "inhabited c (TMap t)"
    unfolding inhabited_def by blast+
qed

lemma list_all2_setD: "list_all2 P xs ys \<Longrightarrow> x \<in> set xs \<Longrightarrow> \<exists>y \<in> set ys. P x y"
  by (metis in_set_conv_nth list_all2_conv_all_nth)

lemma inhabited_decimal: "validate_decimal_type p s = Ok () \<Longrightarrow> inhabited c (TDecimal p s)"
  unfolding inhabited_def
  by (rule exI [of _ "VDecimal \<lparr>coefficient = 0, scale = s\<rparr>"])
     (auto simp: decimal_ok_def validate_decimal_type_def check_Ok_iff)

text \<open>A record with given values for its columns.\<close>

lemma record_of_columns:
  assumes "type_ok c (TRecord cols)" and f: "\<forall>col \<in> set cols. has_type c (col_ty col) (f col)"
  shows "\<exists>fs. has_type c (TRecord cols) (VRecord fs) \<and> (\<forall>col \<in> set cols. bt_get fs (col_name col) = Some (f col))"
proof -
  define ps where "ps = map (\<lambda>col. (col_name col, f col)) cols"
  define fs where "fs = bt.from_pairs ps"
  have dist: "distinct (map fst ps)" using assms(1) by (simp add: ps_def comp_def)
  have ok: "bt_ok fs" unfolding fs_def by (rule bt.ok_from_pairs)
  have set_fs: "set fs = set ps"
  proof (rule set_eqI)
    fix e :: "string \<times> value"
    have "e \<in> set fs \<longleftrightarrow> bt_get fs (fst e) = Some (snd e)" using bt_get_Some_iff [OF ok] by simp
    also have "\<dots> \<longleftrightarrow> e \<in> set ps"
      unfolding fs_def bt.get_from_pairs [OF dist] using dist by (simp add: map_of_eq_Some_iff)
    finally show "e \<in> set fs \<longleftrightarrow> e \<in> set ps" .
  qed
  have "length fs = length cols"
    using distinct_card [OF bt_ok_distinct [OF ok]] distinct_card [OF dist] set_fs by (simp add: ps_def image_image)
  moreover have "\<exists>col. find_column cols k = Some col \<and> string_ok k \<and> has_type c (col_ty col) w" if "(k, w) \<in> set fs" for k w
  proof -
    from that set_fs obtain col where "col \<in> set cols" "k = col_name col" "w = f col" by (auto simp: ps_def)
    then show ?thesis using f assms(1) find_column_distinct by (auto simp: list_all_iff column_ok_def name_ok_def)
  qed
  moreover have "\<forall>col \<in> set cols. bt_get fs (col_name col) = Some (f col)"
    using bt_get_Some_iff [OF ok] set_fs by (auto simp: ps_def)
  ultimately show ?thesis using ok unfolding has_type_simps by blast
qed

lemma inhabited_record:
  "type_ok c (TRecord cols) \<Longrightarrow> \<forall>col \<in> set cols. inhabited c (col_ty col) \<Longrightarrow> inhabited c (TRecord cols)"
  using record_of_columns unfolding inhabited_def by metis

lemma inhabited_list: "\<forall>t \<in> set ts. inhabited c t \<Longrightarrow> \<exists>ws. list_all2 (has_type c) ts ws"
  by (induction ts) (auto simp: inhabited_def list_all2_Cons1)

lemma inhabited_of_finite:
  assumes "types_ok c" and "\<forall>i \<in> set fin. inhabited c (TRef i)"
  shows "type_is_finite ty fin \<Longrightarrow> type_ok c ty \<Longrightarrow> inhabited c ty"
proof (induction ty rule: type_induct)
  case (step ty)
  show ?case
  proof (cases ty)
    case (TRecord cols)
    with step have "\<forall>col \<in> set cols. inhabited c (col_ty col)" by simp
    then show ?thesis unfolding TRecord using inhabited_record step.prems TRecord by blast
  next
    case (TTuple ts)
    with step have "\<forall>t \<in> set ts. inhabited c t" by (simp add: list_all_iff)
    from inhabited_list [OF this] TTuple show ?thesis by (auto simp: inhabited_def)
  next
    case (TEnum vs)
    with step.prems obtain v where v: "v \<in> set vs" "\<forall>t \<in> set (vd_args v). type_is_finite t fin" by auto
    have "inhabited c t" if "t \<in> set (vd_args v)" for t
      using that v TEnum step.prems(2) by (intro step.IH) auto
    then have "\<forall>t \<in> set (vd_args v). inhabited c t" by blast
    from inhabited_list [OF this] obtain ws where "list_all2 (has_type c) (vd_args v) ws" by blast
    moreover have "vd_id v \<noteq> 0" "find_variant vs (vd_id v) = Some v"
      using TEnum v(1) step.prems(2) find_variant_distinct by (auto simp: list_all_iff)
    ultimately show ?thesis unfolding TEnum inhabited_def has_type_simps by blast
  next
    case (TRef i)
    then show ?thesis using step.prems(1) assms(2) by simp
  next
    case (TDecimal p s)
    then show ?thesis using step.prems(2) inhabited_decimal by simp
  next
    case (TNamed n)
    then show ?thesis using step.prems by simp
  qed (simp_all only: inhabited_leaf)
qed

lemma finite_of_inhabited:
  assumes "types_ok c"
    and closed: "\<And>i d. definition_of c i = Ok d \<Longrightarrow> type_is_finite (def_ty d) fin \<Longrightarrow> i \<in> set fin"
  shows "has_type c ty x \<Longrightarrow> type_ok c ty \<Longrightarrow> type_is_finite ty fin"
proof (induction x arbitrary: ty)
  case (VEnum n as i)
  then obtain vs v where v: "ty = TEnum vs" "v \<in> set vs" "list_all2 (has_type c) (vd_args v) as"
    by (cases ty) (auto dest: find_variant_Some)
  have "type_is_finite t fin" if "t \<in> set (vd_args v)" for t
    using list_all2_setD [OF v(3) that] VEnum v(1,2) that by fastforce
  with v show ?case by auto
next
  case (VRecord fs)
  then obtain cols where r: "ty = TRecord cols" "bt_ok fs" "length fs = length cols"
    "\<forall>(k, w) \<in> set fs. \<exists>col. find_column cols k = Some col \<and> string_ok k \<and> has_type c (col_ty col) w"
    by (cases ty) auto
  then have r4: "\<forall>(k, w) \<in> set fs. \<exists>col. find_column cols k = Some col \<and> has_type c (col_ty col) w" by fast
  have dist: "distinct (map col_name cols)" using VRecord.prems(2) r(1) by simp
  from record_columns(1) [OF r(2,3) dist r4] show ?case
    using VRecord r(1) by (fastforce dest!: bt_get_SomeD simp: prod_set_defs)
next
  case (VTuple vs)
  then obtain ts where t: "ty = TTuple ts" "list_all2 (has_type c) ts vs" by (cases ty) auto
  have "type_is_finite t fin" if "t \<in> set ts" for t
    using list_all2_setD [OF t(2) that] VTuple t(1) that by (fastforce simp: list_all_iff)
  with t show ?case by auto
next
  case (VNamed i w)
  then obtain d where "ty = TRef i" "definition_of c i = Ok d" "has_type c (def_ty d) w" by (cases ty) auto
  then show ?case using VNamed.IH types_okD [OF assms(1)] closed by auto
qed (case_tac ty; simp)+

section \<open>The fixed-point loop\<close>

lemma finite_loop_closed:
  "d \<in> set (bt_values (types c)) \<Longrightarrow> type_is_finite (def_ty d) (finite_loop c fin) \<Longrightarrow>
   def_id d \<in> set (finite_loop c fin)"
proof (induction c fin rule: finite_loop.induct)
  case (1 c fin)
  obtain fin' changed where p: "finite_pass c fin = (fin', changed)" by fastforce
  show ?case
  proof (cases changed)
    case True
    then have "finite_loop c fin = finite_loop c fin'" using p by (subst finite_loop.simps) simp
    then show ?thesis using 1(1) [OF p [symmetric] True] 1(2,3) by simp
  next
    case False
    then have "finite_loop c fin = fin" using p finite_pass_step(4) [OF p] by (subst finite_loop.simps) simp
    then show ?thesis using finite_pass_step(5) [OF p False 1(2)] 1(3) by simp
  qed
qed

lemma foldl_pass_sound:
  assumes "\<forall>i \<in> set fin. Q i"
    and "\<And>fin d. \<forall>i \<in> set fin. Q i \<Longrightarrow> d \<in> set ds \<Longrightarrow> type_is_finite (def_ty d) fin \<Longrightarrow> Q (def_id d)"
  shows "\<forall>i \<in> set (fst (foldl (\<lambda>(fin, changed) d.
       if def_id d \<notin> set fin \<and> type_is_finite (def_ty d) fin
       then (bs_insert (def_id d) fin, True) else (fin, changed)) (fin, changed) ds)). Q i"
  using assms
proof (induction ds arbitrary: fin changed)
  case (Cons d ds)
  show ?case
  proof (cases "def_id d \<notin> set fin \<and> type_is_finite (def_ty d) fin")
    case True
    with Cons.prems have "\<forall>i \<in> set (bs_insert (def_id d) fin). Q i" by auto
    from Cons.IH [OF this] Cons.prems(2) True show ?thesis by simp
  next
    case False
    have "foldl (\<lambda>(fin, changed) d.
       if def_id d \<notin> set fin \<and> type_is_finite (def_ty d) fin
       then (bs_insert (def_id d) fin, True) else (fin, changed)) (fin, changed) (d # ds) =
      foldl (\<lambda>(fin, changed) d.
       if def_id d \<notin> set fin \<and> type_is_finite (def_ty d) fin
       then (bs_insert (def_id d) fin, True) else (fin, changed)) (fin, changed) ds" using False by auto
    with Cons.IH [OF Cons.prems(1)] Cons.prems(2) show ?thesis by simp
  qed
qed simp

lemma finite_loop_sound:
  assumes "\<And>fin d. \<forall>i \<in> set fin. Q i \<Longrightarrow> d \<in> set (bt_values (types c)) \<Longrightarrow> type_is_finite (def_ty d) fin \<Longrightarrow> Q (def_id d)"
  shows "\<forall>i \<in> set fin. Q i \<Longrightarrow> \<forall>i \<in> set (finite_loop c fin). Q i"
  using assms
proof (induction c fin rule: finite_loop.induct)
  case (1 c fin)
  obtain fin' changed where p: "finite_pass c fin = (fin', changed)" by fastforce
  have fin': "\<forall>i \<in> set fin'. Q i"
    using foldl_pass_sound [of fin Q "bt_values (types c)" False] 1(2,3) p unfolding finite_pass_def by simp
  show ?case
  proof (cases changed)
    case True
    then have "finite_loop c fin = finite_loop c fin'" using p by (subst finite_loop.simps) simp
    then show ?thesis using 1(1) [OF p [symmetric] True fin' 1(3)] by simp
  next
    case False
    then have "finite_loop c fin = fin'" using p by (subst finite_loop.simps) simp
    with fin' show ?thesis by simp
  qed
qed

lemma definition_of_distinct:
  "distinct (map def_id (bt_values (types c))) \<Longrightarrow> d \<in> set (bt_values (types c)) \<Longrightarrow> definition_of c (def_id d) = Ok d"
proof -
  have "distinct (map def_id ds) \<Longrightarrow> d \<in> set ds \<Longrightarrow> find (\<lambda>x. def_id x = def_id d) ds = Some d" for ds
    by (induction ds) (auto simp: image_iff)
  then show "distinct (map def_id (bt_values (types c))) \<Longrightarrow> d \<in> set (bt_values (types c)) \<Longrightarrow> definition_of c (def_id d) = Ok d"
    by (simp add: definition_of_def)
qed

text \<open>The loop computes exactly the types that have a value.\<close>

lemma finite_loop_inhabited:
  assumes ok: "types_ok c" and dist: "distinct (map def_id (bt_values (types c)))"
    and d: "d \<in> set (bt_values (types c))"
  shows "def_id d \<in> set (finite_loop c []) \<longleftrightarrow> inhabited c (TRef (def_id d))"
proof
  have "\<forall>i \<in> set (finite_loop c []). inhabited c (TRef i)"
  proof (rule finite_loop_sound)
    fix fin d assume fin: "\<forall>i \<in> set fin. inhabited c (TRef i)" and d: "d \<in> set (bt_values (types c))"
      and "type_is_finite (def_ty d) fin"
    then have "inhabited c (def_ty d)"
      using inhabited_of_finite [OF ok fin] ok by (simp add: types_ok_def)
    with definition_of_distinct [OF dist d] show "inhabited c (TRef (def_id d))" by (auto simp: inhabited_def)
  qed simp
  then show "def_id d \<in> set (finite_loop c []) \<Longrightarrow> inhabited c (TRef (def_id d))" by blast
next
  assume "inhabited c (TRef (def_id d))"
  then obtain x where "has_type c (TRef (def_id d)) x" unfolding inhabited_def by blast
  moreover have "type_ok c (TRef (def_id d))" using definition_of_distinct [OF dist d] by simp
  ultimately have "type_is_finite (TRef (def_id d)) (finite_loop c [])"
    by (intro finite_of_inhabited [OF ok]) (auto dest!: definition_of_Ok intro: finite_loop_closed)
  then show "def_id d \<in> set (finite_loop c [])" by simp
qed

text \<open>The part of well-formedness that does not depend on the catalog.\<close>

fun own_struct_ok :: "scalar_type \<Rightarrow> bool" where
  "own_struct_ok (TRecord cols) =
     (distinct (map col_name cols) \<and> distinct (map col_id cols) \<and>
      list_all (\<lambda>col. column_ok col \<and> col_id col \<noteq> 0) cols)"
| "own_struct_ok (TEnum vs) =
     (distinct (map vd_name vs) \<and> distinct (map vd_id vs) \<and>
      list_all (\<lambda>v. name_ok (vd_name v) \<and> vd_id v \<noteq> 0) vs)"
| "own_struct_ok _ = True"

function struct_ok :: "scalar_type \<Rightarrow> bool" where
  "struct_ok ty \<longleftrightarrow> own_struct_ok ty \<and> list_all struct_ok (subtypes ty)"
  by auto
termination by (relation "measure size") (auto simp: size_subtype)

declare struct_ok.simps [simp del]

lemma type_ok_iff: "type_ok c ty \<longleftrightarrow> struct_ok ty \<and> refs_ok c ty"
proof (induction ty rule: type_induct)
  case (step ty)
  have "own_ok c ty \<longleftrightarrow> own_struct_ok ty \<and> own_refs_ok c ty" by (cases ty) auto
  with step show ?case
    by (subst type_ok.simps, subst struct_ok.simps, subst refs_ok.simps) (auto simp: list_all_iff)
qed

lemma validate_finite_types_iff:
  assumes "\<forall>d \<in> set (bt_values (types c)). struct_ok (def_ty d)"
    and "distinct (map def_id (bt_values (types c)))"
  shows "validate_finite_types c = Ok () \<longleftrightarrow>
     (\<forall>d \<in> set (bt_values (types c)). type_depth (def_ty d) \<le> MAX_DEPTH \<and> refs_ok c (def_ty d)) \<and>
     acyclic (type_edges c) \<and>
     (\<forall>d \<in> set (bt_values (types c)). inhabited c (TRef (def_id d)))"
proof (cases "\<forall>d \<in> set (bt_values (types c)). refs_ok c (def_ty d)")
  case True
  with assms(1) have ok: "types_ok c" by (simp add: types_ok_def type_ok_iff)
  have "\<forall>d \<in> set (bt_values (types c)). refs_defined c (def_ty d)" using True refs_ok_defined by blast
  from validate_no_mutual_cycles_iff [OF this] finite_loop_inhabited [OF ok assms(2)] show ?thesis
    by (auto simp: validate_finite_types_def and_then_Ok_iff try_fold_unit validate_type_references_iff Let_def
        filter_empty_conv if_Err_eq_Ok)
next
  case False
  then show ?thesis
    by (auto simp: validate_finite_types_def and_then_Ok_iff try_fold_unit validate_type_references_iff)
qed

section \<open>Property\<close>

text \<open>
  (C12) The check of the named types is exact.  For definitions with distinct IDs whose members have
  distinct names and IDs, \<open>validate_finite_types\<close> succeeds if and only if every type stays within the
  depth limit and mentions only defined types and valid decimal parameters, no cycle of references
  leads through two different types, and every named type has a finite value.  In particular the
  depth-first search and the fixed-point loop terminate on every catalog.
\<close>

theorem validate_finite_types_correct:
  assumes "\<forall>d \<in> set (bt_values (types c)). struct_ok (def_ty d)"
    and "distinct (map def_id (bt_values (types c)))"
  shows "validate_finite_types c = Ok () \<longleftrightarrow>
     (\<forall>d \<in> set (bt_values (types c)). type_depth (def_ty d) \<le> MAX_DEPTH \<and> refs_ok c (def_ty d)) \<and>
     acyclic (type_edges c) \<and>
     (\<forall>d \<in> set (bt_values (types c)). inhabited c (TRef (def_id d)))"
  using assms by (rule validate_finite_types_iff)

theorem validate_finite_types_correct_witness:
  "validate_finite_types example_catalog = Ok () \<and> acyclic (type_edges example_catalog) \<and>
   inhabited example_catalog (TRef 4)"
proof -
  have ok: "\<forall>d \<in> set (bt_values (types example_catalog)). struct_ok (def_ty d)"
    "distinct (map def_id (bt_values (types example_catalog)))" "validate_finite_types example_catalog = Ok ()"
    by code_simp+
  have "\<exists>d \<in> set (bt_values (types example_catalog)). def_id d = 4" by code_simp
  with validate_finite_types_correct [OF ok(1,2)] ok(3) show ?thesis by auto
qed

end
