(* ===== verification/Define.thy ===== *)
theory Define
  imports Type_Graph
begin

text \<open>
  Declaring a named type (\<^verbatim>\<open>src/src/model.rs\<close>, \<open>Catalog::define\<close>): the nominal identity
  is reserved before the body is resolved, defaults are normalised against the complete
  definition, and the catalog is restored when a step fails.  The catalog invariant is
  preserved.
\<close>

section \<open>Operations\<close>

function normalize_defaults :: "catalog \<Rightarrow> scalar_type \<Rightarrow> nat \<Rightarrow> scalar_type result" where
  "normalize_defaults c ty depth =
     (if MAX_DEPTH \<le> depth then Err E_LIMIT
      else case ty of
        TRecord columns \<Rightarrow>
          map_ok TRecord (traverse (\<lambda>column.
            and_then (normalize_defaults c (col_ty column) (Suc depth)) (\<lambda>ty.
              and_then
                (case col_default column of
                   None \<Rightarrow> Ok None
                 | Some v \<Rightarrow> map_ok Some (coerce_inner c v ty (Suc depth)))
                (\<lambda>default. Ok (Column (col_name column) ty default (col_id column))))) columns)
      | TEnum variants \<Rightarrow>
          map_ok TEnum (traverse (\<lambda>v.
            map_ok (\<lambda>args. VariantDef (vd_name v) args (vd_id v))
              (traverse (\<lambda>argument. normalize_defaults c argument (Suc depth)) (vd_args v))) variants)
      | TTuple items \<Rightarrow> map_ok TTuple (traverse (\<lambda>item. normalize_defaults c item (Suc depth)) items)
      | TOption inner \<Rightarrow> map_ok TOption (normalize_defaults c inner (Suc depth))
      | TList inner \<Rightarrow> map_ok TList (normalize_defaults c inner (Suc depth))
      | TMap inner \<Rightarrow> map_ok TMap (normalize_defaults c inner (Suc depth))
      | other \<Rightarrow> Ok other)"
  by pat_completeness auto
termination by (relation "measure (\<lambda>(c, ty, depth). MAX_DEPTH - depth)") auto

declare normalize_defaults.simps [simp del]

definition resolve :: "catalog \<Rightarrow> scalar_type \<Rightarrow> nat \<Rightarrow> (scalar_type \<times> catalog) result" where
  "resolve c ty depth =
     and_then (resolve_inner c ty depth) (\<lambda>(ty, c).
       and_then (normalize_defaults c ty depth) (\<lambda>ty. Ok (ty, c)))"

definition set_type :: "catalog \<Rightarrow> string \<Rightarrow> type_definition \<Rightarrow> catalog" where
  "set_type c name d = c\<lparr>types := bt_insert name d (types c)\<rparr>"

text \<open>The closure of \<open>define\<close> whose error rolls the catalog back.\<close>

definition define_body :: "catalog \<Rightarrow> string \<Rightarrow> scalar_type \<Rightarrow> catalog result" where
  "define_body c name ty =
     and_then (structural_id_count ty 0) (\<lambda>body_ids.
     and_then (ok_or E_SCHEMA (checked_add_u64 (next_id c) body_ids)) (\<lambda>i.
     and_then (resolve_inner (set_type c name \<lparr>def_id = i, def_name = name, def_ty = TBool\<rparr>) ty 0) (\<lambda>(ty, c).
     and_then (allocate c) (\<lambda>(allocated, c).
     let c = set_type c name \<lparr>def_id = i, def_name = name, def_ty = ty\<rparr>
     in and_then (normalize_defaults c ty 0) (\<lambda>ty.
     let c = set_type c name \<lparr>def_id = i, def_name = name, def_ty = ty\<rparr>
     in map_ok (\<lambda>_. c) (validate_finite_types c))))))"

definition define_type :: "catalog \<Rightarrow> string \<Rightarrow> scalar_type \<Rightarrow> unit result \<times> catalog" where
  "define_type c name ty =
     (if bt_get (types c) name \<noteq> None then (Err E_SCHEMA, c)
      else case define_body c name ty of
        Ok c' \<Rightarrow> (Ok (), c')
      | Err e \<Rightarrow> (Err e, c))"

section \<open>Types up to their defaults\<close>

function erase :: "scalar_type \<Rightarrow> scalar_type" where
  "erase ty =
     (case ty of
        TRecord cols \<Rightarrow> TRecord (map (\<lambda>col. Column (col_name col) (erase (col_ty col)) None (col_id col)) cols)
      | TEnum vs \<Rightarrow> TEnum (map (\<lambda>v. VariantDef (vd_name v) (map erase (vd_args v)) (vd_id v)) vs)
      | TTuple ts \<Rightarrow> TTuple (map erase ts)
      | TOption t \<Rightarrow> TOption (erase t)
      | TList t \<Rightarrow> TList (erase t)
      | TMap t \<Rightarrow> TMap (erase t)
      | other \<Rightarrow> other)"
  by pat_completeness auto
termination
  by (relation "measure size")
     (auto intro: size_column [simplified] size_variant [simplified] size_subtype [of _ "TTuple ts" for ts, simplified])

declare erase.simps [simp del]

lemma erase_simps [simp]:
  "erase TInt = TInt" "erase TFloat = TFloat" "erase TBool = TBool" "erase TText = TText" "erase TUuid = TUuid"
  "erase TDate = TDate" "erase TTimestamp = TTimestamp" "erase TDuration = TDuration" "erase TBytes = TBytes"
  "erase (TDecimal p s) = TDecimal p s" "erase (TNamed n) = TNamed n" "erase (TRef i) = TRef i"
  "erase (TOption t) = TOption (erase t)" "erase (TList t) = TList (erase t)" "erase (TMap t) = TMap (erase t)"
  "erase (TTuple ts) = TTuple (map erase ts)"
  "erase (TRecord cols) = TRecord (map (\<lambda>col. Column (col_name col) (erase (col_ty col)) None (col_id col)) cols)"
  "erase (TEnum vs) = TEnum (map (\<lambda>v. VariantDef (vd_name v) (map erase (vd_args v)) (vd_id v)) vs)"
  by (simp_all add: erase.simps)

text \<open>The values of a type do not depend on its defaults.\<close>

definition extends :: "catalog \<Rightarrow> catalog \<Rightarrow> bool" where
  "extends c c' \<longleftrightarrow> (\<forall>i d. definition_of c i = Ok d \<longrightarrow>
     (\<exists>d'. definition_of c' i = Ok d' \<and> erase (def_ty d') = erase (def_ty d)))"

lemma erase_eq_iff:
  "erase t' = TOption t \<longleftrightarrow> (\<exists>u. t' = TOption u \<and> erase u = t)"
  "erase t' = TList t \<longleftrightarrow> (\<exists>u. t' = TList u \<and> erase u = t)"
  "erase t' = TMap t \<longleftrightarrow> (\<exists>u. t' = TMap u \<and> erase u = t)"
  "erase t' = TTuple ts \<longleftrightarrow> (\<exists>us. t' = TTuple us \<and> map erase us = ts)"
  "erase t' = TRecord cols \<longleftrightarrow> (\<exists>cols'. t' = TRecord cols' \<and>
     map (\<lambda>col. Column (col_name col) (erase (col_ty col)) None (col_id col)) cols' = cols)"
  "erase t' = TEnum vs \<longleftrightarrow> (\<exists>vs'. t' = TEnum vs' \<and>
     map (\<lambda>v. VariantDef (vd_name v) (map erase (vd_args v)) (vd_id v)) vs' = vs)"
  "erase t' = TRef i \<longleftrightarrow> t' = TRef i"
  "erase t' = TDecimal p s \<longleftrightarrow> t' = TDecimal p s"
  "erase t' = TInt \<longleftrightarrow> t' = TInt"
  "erase t' = TFloat \<longleftrightarrow> t' = TFloat"
  "erase t' = TBool \<longleftrightarrow> t' = TBool"
  "erase t' = TText \<longleftrightarrow> t' = TText"
  "erase t' = TUuid \<longleftrightarrow> t' = TUuid"
  "erase t' = TDate \<longleftrightarrow> t' = TDate"
  "erase t' = TTimestamp \<longleftrightarrow> t' = TTimestamp"
  "erase t' = TDuration \<longleftrightarrow> t' = TDuration"
  "erase t' = TBytes \<longleftrightarrow> t' = TBytes"
  by (cases t'; auto)+

lemma find_map: "find P (map f xs) = map_option f (find (P \<circ> f) xs)"
  by (induction xs) auto

lemma find_column_erase:
  assumes "map (\<lambda>col. Column (col_name col) (erase (col_ty col)) None (col_id col)) cols' =
           map (\<lambda>col. Column (col_name col) (erase (col_ty col)) None (col_id col)) cols"
    and "find_column cols k = Some col"
  shows "\<exists>col'. find_column cols' k = Some col' \<and> erase (col_ty col') = erase (col_ty col)"
proof -
  let ?g = "\<lambda>col. Column (col_name col) (erase (col_ty col)) None (col_id col)"
  have "find (\<lambda>col. col_name col = k) (map ?g cols') = Some (?g col)"
    using assms by (simp add: find_map find_column_def comp_def)
  then show ?thesis by (auto simp: find_map find_column_def comp_def)
qed

lemma find_variant_erase:
  assumes "map (\<lambda>v. VariantDef (vd_name v) (map erase (vd_args v)) (vd_id v)) vs' =
           map (\<lambda>v. VariantDef (vd_name v) (map erase (vd_args v)) (vd_id v)) vs"
    and "find_variant vs i = Some v"
  shows "\<exists>v'. find_variant vs' i = Some v' \<and> vd_name v' = vd_name v \<and> map erase (vd_args v') = map erase (vd_args v)"
proof -
  let ?g = "\<lambda>v. VariantDef (vd_name v) (map erase (vd_args v)) (vd_id v)"
  have "find (\<lambda>v. vd_id v = i) (map ?g vs') = Some (?g v)"
    using assms by (simp add: find_map find_variant_def comp_def)
  then show ?thesis by (auto simp: find_map find_variant_def comp_def)
qed

lemma all2_map_eq:
  assumes "list_all2 P ts xs" and "map f ts' = map f ts"
    and "\<And>t t' x. x \<in> set xs \<Longrightarrow> P t x \<Longrightarrow> f t' = f t \<Longrightarrow> P' t' x"
  shows "list_all2 P' ts' xs"
  using assms
proof (induction arbitrary: ts' rule: list_all2_induct)
  case (Cons t ts x xs)
  then obtain t' us where "ts' = t' # us" "f t' = f t" "map f us = map f ts" by (cases ts') auto
  with Cons show ?case by auto
qed simp

lemma has_type_erase:
  assumes "extends c c'"
  shows "has_type c t x \<Longrightarrow> erase t' = erase t \<Longrightarrow> has_type c' t' x"
proof (induction x arbitrary: t t')
  case (VEnum n as i)
  then obtain vs v where v: "t = TEnum vs" "n = vd_name v" "i = vd_id v" "i \<noteq> 0" "find_variant vs i = Some v"
    "list_all2 (has_type c) (vd_args v) as"
    by (cases t) auto
  with VEnum.prems(2) obtain vs' where vs': "t' = TEnum vs'"
    "map (\<lambda>v. VariantDef (vd_name v) (map erase (vd_args v)) (vd_id v)) vs' =
     map (\<lambda>v. VariantDef (vd_name v) (map erase (vd_args v)) (vd_id v)) vs"
    by (auto simp: erase_eq_iff)
  from find_variant_erase [OF vs'(2) v(5)] obtain v' where v': "find_variant vs' i = Some v'"
    "vd_name v' = vd_name v" "map erase (vd_args v') = map erase (vd_args v)" by blast
  have "list_all2 (has_type c') (vd_args v') as"
    by (rule all2_map_eq [OF v(6) v'(3)]) (rule VEnum.IH)
  with v v' vs'(1) find_variant_Some [OF v'(1)] show ?case by (auto intro!: exI [of _ v'])
next
  case (VRecord fs)
  then obtain cols where r: "t = TRecord cols" "bt_ok fs" "length fs = length cols"
    "\<forall>(k, w) \<in> set fs. \<exists>col. find_column cols k = Some col \<and> string_ok k \<and> has_type c (col_ty col) w"
    by (cases t) auto
  with VRecord.prems(2) obtain cols' where cols': "t' = TRecord cols'"
    "map (\<lambda>col. Column (col_name col) (erase (col_ty col)) None (col_id col)) cols' =
     map (\<lambda>col. Column (col_name col) (erase (col_ty col)) None (col_id col)) cols"
    by (auto simp: erase_eq_iff)
  have "\<exists>col. find_column cols' k = Some col \<and> string_ok k \<and> has_type c' (col_ty col) w" if kw: "(k, w) \<in> set fs" for k w
  proof -
    from r(4) kw obtain col where col: "find_column cols k = Some col" "string_ok k" "has_type c (col_ty col) w" by blast
    from find_column_erase [OF cols'(2) col(1)] obtain col' where
      "find_column cols' k = Some col'" "erase (col_ty col') = erase (col_ty col)" by blast
    with VRecord.IH [OF kw _ col(3)] col(2) show ?thesis by (auto simp: prod_set_defs)
  qed
  moreover have "length fs = length cols'" using r(3) map_eq_imp_length_eq [OF cols'(2)] by simp
  ultimately show ?case using cols'(1) r(2) by auto
next
  case (VTuple vs)
  then obtain ts where t: "t = TTuple ts" "list_all2 (has_type c) ts vs" by (cases t) auto
  with VTuple.prems(2) obtain ts' where t': "t' = TTuple ts'" "map erase ts' = map erase ts"
    by (auto simp: erase_eq_iff)
  have "list_all2 (has_type c') ts' vs" by (rule all2_map_eq [OF t(2) t'(2)]) (rule VTuple.IH)
  with t' show ?case by simp
next
  case (VList vs)
  then obtain u where u: "t = TList u" "\<forall>x \<in> set vs. has_type c u x" by (cases t) (auto simp: list_all_iff)
  with VList.prems(2) obtain u' where u': "t' = TList u'" "erase u' = erase u" by (auto simp: erase_eq_iff)
  with u VList.IH have "\<forall>x \<in> set vs. has_type c' u' x" by blast
  with u' show ?case by (simp add: list_all_iff)
next
  case (VMap es)
  from VMap.prems(1) obtain u where u: "t = TMap u" "bt_ok es" "length es \<le> MAX_MAP_ENTRIES"
    "\<forall>(k, w) \<in> set es. string_ok k \<and> length k \<le> MAX_MAP_KEY_BYTES \<and> has_type c u w"
    by (cases t) (auto simp: list_all_iff)
  with VMap.prems(2) obtain u' where u': "t' = TMap u'" "erase u' = erase u" by (auto simp: erase_eq_iff)
  have "has_type c' u' w" if "(k, w) \<in> set es" for k w
    using VMap.IH [OF that _ _ u'(2)] u(4) that by (auto simp: prod_set_defs)
  with u u' show ?case by (auto simp: list_all_iff)
next
  case (VOption ov)
  show ?case
  proof (cases ov)
    case None
    with VOption.prems show ?thesis by (cases t) (auto simp: erase_eq_iff)
  next
    case (Some w)
    with VOption.prems obtain u u' where "t = TOption u" "has_type c u w" "t' = TOption u'" "erase u' = erase u"
      by (cases t) (auto simp: erase_eq_iff)
    with VOption.IH Some show ?thesis by auto
  qed
next
  case (VNamed i w)
  then obtain d where d: "t = TRef i" "definition_of c i = Ok d" "has_type c (def_ty d) w" by (cases t) auto
  with assms obtain d' where "definition_of c' i = Ok d'" "erase (def_ty d') = erase (def_ty d)"
    by (auto simp: extends_def)
  with d VNamed.IH VNamed.prems(2) show ?case by (auto simp: erase_eq_iff)
next
  case (VInt y) then show ?case by (cases t) (simp_all add: erase_eq_iff)
next
  case (VFloat y) then show ?case by (cases t) (simp_all add: erase_eq_iff)
next
  case (VBool y) then show ?case by (cases t) (simp_all add: erase_eq_iff)
next
  case (VText y) then show ?case by (cases t) (simp_all add: erase_eq_iff)
next
  case (VUuid y) then show ?case by (cases t) (simp_all add: erase_eq_iff)
next
  case (VDate y) then show ?case by (cases t) (simp_all add: erase_eq_iff)
next
  case (VTimestamp y) then show ?case by (cases t) (simp_all add: erase_eq_iff)
next
  case (VDuration y) then show ?case by (cases t) (simp_all add: erase_eq_iff)
next
  case (VDecimal y) then show ?case by (cases t) (simp_all add: erase_eq_iff)
next
  case (VBytes y) then show ?case by (cases t) (simp_all add: erase_eq_iff)
next
  case VNull then show ?case by (cases t; simp)
qed

section \<open>Normalised defaults\<close>

fun own_defaults_ok :: "catalog \<Rightarrow> scalar_type \<Rightarrow> bool" where
  "own_defaults_ok c (TRecord cols) =
     list_all (\<lambda>col. case col_default col of None \<Rightarrow> True | Some v \<Rightarrow> has_type c (col_ty col) v) cols"
| "own_defaults_ok c _ = True"

function defaults_ok :: "catalog \<Rightarrow> scalar_type \<Rightarrow> bool" where
  "defaults_ok c ty \<longleftrightarrow> own_defaults_ok c ty \<and> list_all (defaults_ok c) (subtypes ty)"
  by auto
termination by (relation "measure (\<lambda>(c, ty). size ty)") (auto simp: size_subtype)

declare defaults_ok.simps [simp del]

lemma defaults_ok_simps [simp]:
  "defaults_ok c TInt" "defaults_ok c TFloat" "defaults_ok c TBool" "defaults_ok c TText" "defaults_ok c TUuid"
  "defaults_ok c TDate" "defaults_ok c TTimestamp" "defaults_ok c TDuration" "defaults_ok c TBytes"
  "defaults_ok c (TDecimal p s)" "defaults_ok c (TNamed n)" "defaults_ok c (TRef i)"
  "defaults_ok c (TOption t) \<longleftrightarrow> defaults_ok c t" "defaults_ok c (TList t) \<longleftrightarrow> defaults_ok c t"
  "defaults_ok c (TMap t) \<longleftrightarrow> defaults_ok c t"
  "defaults_ok c (TTuple ts) \<longleftrightarrow> list_all (defaults_ok c) ts"
  "defaults_ok c (TRecord cols) \<longleftrightarrow> own_defaults_ok c (TRecord cols) \<and> (\<forall>col \<in> set cols. defaults_ok c (col_ty col))"
  "defaults_ok c (TEnum vs) \<longleftrightarrow> (\<forall>v \<in> set vs. \<forall>t \<in> set (vd_args v). defaults_ok c t)"
  by (subst defaults_ok.simps; auto simp: list_all_iff)+

lemma defaults_ok_extends:
  assumes "extends c c'"
  shows "defaults_ok c ty \<Longrightarrow> defaults_ok c' ty"
proof (induction ty rule: type_induct)
  case (step ty)
  have "own_defaults_ok c ty \<Longrightarrow> own_defaults_ok c' ty"
    by (cases ty) (auto simp: list_all_iff split: option.splits intro: has_type_erase [OF assms])
  with step show ?case
    by (subst defaults_ok.simps, subst (asm) (2) defaults_ok.simps) (auto simp: list_all_iff)
qed

lemma type_ids_erase: "type_ids (erase ty) = type_ids ty"
proof (induction ty rule: type_induct)
  case (step ty)
  then show ?case by (cases ty) (auto simp: comp_def intro!: arg_cong [where f = concat] map_cong)
qed

lemma type_refs_erase: "type_refs (erase ty) = type_refs ty"
proof (induction ty rule: type_induct)
  case (step ty)
  then show ?case by (cases ty) auto
qed

lemma list_all2_setD2: "list_all2 P xs ys \<Longrightarrow> \<forall>y \<in> set ys. \<exists>x \<in> set xs. P x y"
  by (metis in_set_conv_nth list_all2_conv_all_nth)

text \<open>What normalising does to one type: the same type up to defaults, which now are values of their column.\<close>

definition normalized :: "catalog \<Rightarrow> scalar_type \<Rightarrow> scalar_type \<Rightarrow> bool" where
  "normalized c ty ty' \<longleftrightarrow> erase ty' = erase ty \<and> type_ok c ty' \<and> defaults_ok c ty'"

lemma normalized_all2:
  assumes "list_all2 (normalized c) ts ts'"
  shows "map erase ts' = map erase ts \<and> list_all (type_ok c) ts' \<and> list_all (defaults_ok c) ts'"
  using assms by (induction rule: list_all2_induct) (auto simp: normalized_def)

lemma normalize_columns:
  assumes "types_ok c" and "type_ok c (TRecord cols)"
    and IH: "\<And>ty ty'. normalize_defaults c ty (Suc d) = Ok ty' \<Longrightarrow> type_ok c ty \<Longrightarrow> normalized c ty ty'"
    and "list_all2 (\<lambda>column column'.
        and_then (normalize_defaults c (col_ty column) (Suc d)) (\<lambda>ty.
          and_then
            (case col_default column of
               None \<Rightarrow> Ok None
             | Some v \<Rightarrow> map_ok Some (coerce_inner c v ty (Suc d)))
            (\<lambda>default. Ok (Column (col_name column) ty default (col_id column)))) = Ok column') cols cols'"
  shows "list_all2 (\<lambda>col col'. col_name col' = col_name col \<and> col_id col' = col_id col \<and> column_ok col' \<and>
           normalized c (col_ty col) (col_ty col') \<and>
           (case col_default col' of None \<Rightarrow> True | Some v \<Rightarrow> has_type c (col_ty col') v)) cols cols'"
  using assms(4)
proof (rule list.rel_mono_strong)
  fix col col' assume col: "col \<in> set cols" and "and_then (normalize_defaults c (col_ty col) (Suc d)) (\<lambda>ty.
          and_then
            (case col_default col of
               None \<Rightarrow> Ok None
             | Some v \<Rightarrow> map_ok Some (coerce_inner c v ty (Suc d)))
            (\<lambda>default. Ok (Column (col_name col) ty default (col_id col)))) = Ok col'"
  then obtain ty default where ty: "normalize_defaults c (col_ty col) (Suc d) = Ok ty"
    and default: "(case col_default col of None \<Rightarrow> Ok None | Some v \<Rightarrow> map_ok Some (coerce_inner c v ty (Suc d))) = Ok default"
    and col': "col' = Column (col_name col) ty default (col_id col)"
    by (auto simp: and_then_Ok_iff)
  from col assms(2) have ok: "type_ok c (col_ty col)" "column_ok col" by (auto simp: list_all_iff)
  from IH [OF ty ok(1)] have n: "normalized c (col_ty col) ty" .
  have "(case default of None \<Rightarrow> True | Some w \<Rightarrow> has_type c ty w \<and> value_ok w)"
  proof (cases "col_default col")
    case (Some v)
    with default obtain w where w: "coerce_inner c v ty (Suc d) = Ok w" "default = Some w"
      by (auto simp: map_ok_Ok_iff)
    from coerce_inner_conforms [OF assms(1) w(1)] Some ok n have "has_type c ty w"
      by (auto simp: column_ok_def normalized_def conforms_def)
    moreover from this have "value_ok w" using has_type_ok [OF assms(1)] n by (auto simp: normalized_def)
    ultimately show ?thesis using w(2) by simp
  qed (use default in simp)
  with n ok(2) col' show "col_name col' = col_name col \<and> col_id col' = col_id col \<and> column_ok col' \<and>
      normalized c (col_ty col) (col_ty col') \<and>
      (case col_default col' of None \<Rightarrow> True | Some v \<Rightarrow> has_type c (col_ty col') v)"
    by (auto simp: column_ok_def split: option.splits)
qed

lemma normalize_leaf:
  assumes "d < MAX_DEPTH"
  shows "subtypes ty = [] \<Longrightarrow> normalize_defaults c ty d = Ok ty' \<Longrightarrow> (\<forall>vs. ty \<noteq> TEnum vs) \<Longrightarrow> ty' = ty"
    "normalize_defaults c (TOption t) d = Ok ty' \<longleftrightarrow> (\<exists>t'. normalize_defaults c t (Suc d) = Ok t' \<and> ty' = TOption t')"
    "normalize_defaults c (TList t) d = Ok ty' \<longleftrightarrow> (\<exists>t'. normalize_defaults c t (Suc d) = Ok t' \<and> ty' = TList t')"
    "normalize_defaults c (TMap t) d = Ok ty' \<longleftrightarrow> (\<exists>t'. normalize_defaults c t (Suc d) = Ok t' \<and> ty' = TMap t')"
proof -
  show "subtypes ty = [] \<Longrightarrow> normalize_defaults c ty d = Ok ty' \<Longrightarrow> (\<forall>vs. ty \<noteq> TEnum vs) \<Longrightarrow> ty' = ty"
    using assms by (subst (asm) normalize_defaults.simps; cases ty; auto simp: map_ok_Ok_iff)
qed (use assms in \<open>subst normalize_defaults.simps; auto simp: map_ok_Ok_iff\<close>)+

lemma normalize_defaults_correct:
  assumes "types_ok c"
  shows "normalize_defaults c ty d = Ok ty' \<Longrightarrow> type_ok c ty \<Longrightarrow> normalized c ty ty'"
proof (induction d arbitrary: ty ty' rule: depth_induct)
  case (limit d)
  then show ?case by (simp add: normalize_defaults.simps)
next
  case (step d)
  note IH = step.IH
  have items: "list_all2 (normalized c) ts ts'"
    if "list_all2 (\<lambda>t t'. normalize_defaults c t (Suc d) = Ok t') ts ts'" "list_all (type_ok c) ts" for ts ts'
    using that(1) by (rule list.rel_mono_strong) (use that(2) IH in \<open>auto simp: list_all_iff\<close>)
  show ?case
  proof (cases ty)
    case (TRecord cols)
    with step.prems step.hyps obtain cols' where ty': "ty' = TRecord cols'" and all2: "list_all2 (\<lambda>column column'.
        and_then (normalize_defaults c (col_ty column) (Suc d)) (\<lambda>ty.
          and_then
            (case col_default column of
               None \<Rightarrow> Ok None
             | Some v \<Rightarrow> map_ok Some (coerce_inner c v ty (Suc d)))
            (\<lambda>default. Ok (Column (col_name column) ty default (col_id column)))) = Ok column') cols cols'"
      by (subst (asm) normalize_defaults.simps) (auto simp: map_ok_Ok_iff traverse_Ok_iff)
    have cols: "list_all2 (\<lambda>col col'. col_name col' = col_name col \<and> col_id col' = col_id col \<and> column_ok col' \<and>
           normalized c (col_ty col) (col_ty col') \<and>
           (case col_default col' of None \<Rightarrow> True | Some v \<Rightarrow> has_type c (col_ty col') v)) cols cols'"
      using normalize_columns [OF assms _ _ all2] step.prems(2) IH TRecord by blast
    have "map (\<lambda>col. Column (col_name col) (erase (col_ty col)) None (col_id col)) cols' =
          map (\<lambda>col. Column (col_name col) (erase (col_ty col)) None (col_id col)) cols"
      "map col_name cols' = map col_name cols" "map col_id cols' = map col_id cols"
      using cols by (induction rule: list_all2_induct) (auto simp: normalized_def)
    moreover have "\<forall>col' \<in> set cols'. column_ok col' \<and> type_ok c (col_ty col') \<and> defaults_ok c (col_ty col') \<and>
        (case col_default col' of None \<Rightarrow> True | Some v \<Rightarrow> has_type c (col_ty col') v)"
      using cols by (induction rule: list_all2_induct) (auto simp: normalized_def)
    moreover have "\<forall>col' \<in> set cols'. col_id col' \<noteq> 0"
      using cols step.prems(2) TRecord by (auto simp: list_all_iff dest!: list_all2_setD2)
    ultimately show ?thesis
      using step.prems(2) TRecord ty' by (auto simp: normalized_def list_all_iff)
  next
    case (TEnum vs)
    with step.prems(1) step.hyps obtain vs' where ty': "ty' = TEnum vs'"
      and all2: "list_all2 (\<lambda>v v'. map_ok (\<lambda>args. VariantDef (vd_name v) args (vd_id v))
        (traverse (\<lambda>argument. normalize_defaults c argument (Suc d)) (vd_args v)) = Ok v') vs vs'"
      by (subst (asm) normalize_defaults.simps) (auto simp: map_ok_Ok_iff traverse_Ok_iff)
    from all2 have vs: "list_all2 (\<lambda>v v'. vd_name v' = vd_name v \<and> vd_id v' = vd_id v \<and>
        list_all2 (normalized c) (vd_args v) (vd_args v')) vs vs'"
      by (rule list.rel_mono_strong)
         (use step.prems(2) TEnum in \<open>auto simp: map_ok_Ok_iff traverse_Ok_iff list_all_iff intro!: items\<close>)
    have "map (\<lambda>v. VariantDef (vd_name v) (map erase (vd_args v)) (vd_id v)) vs' =
          map (\<lambda>v. VariantDef (vd_name v) (map erase (vd_args v)) (vd_id v)) vs"
      "map vd_name vs' = map vd_name vs" "map vd_id vs' = map vd_id vs"
      using vs by (induction rule: list_all2_induct) (auto dest!: normalized_all2)
    moreover have "\<forall>v' \<in> set vs'. \<forall>t \<in> set (vd_args v'). type_ok c t \<and> defaults_ok c t"
      using vs by (induction rule: list_all2_induct) (auto dest!: normalized_all2 simp: list_all_iff)
    moreover have "list_all (\<lambda>v. name_ok (vd_name v) \<and> vd_id v \<noteq> 0) vs'"
      using vs step.prems(2) TEnum by (auto simp: list_all_iff dest!: list_all2_setD2)
    ultimately show ?thesis using step.prems(2) TEnum ty' by (simp add: normalized_def)
  next
    case (TTuple ts)
    with step.prems(1) step.hyps obtain ts' where "ty' = TTuple ts'" "list_all2 (\<lambda>t t'. normalize_defaults c t (Suc d) = Ok t') ts ts'"
      by (subst (asm) normalize_defaults.simps) (auto simp: map_ok_Ok_iff traverse_Ok_iff)
    with normalized_all2 [OF items] step.prems(2) TTuple show ?thesis by (auto simp: normalized_def)
  next
    case (TOption t)
    with step.prems IH show ?thesis by (auto simp: normalize_leaf [OF step.hyps] normalized_def)
  next
    case (TList t)
    with step.prems IH show ?thesis by (auto simp: normalize_leaf [OF step.hyps] normalized_def)
  next
    case (TMap t)
    with step.prems IH show ?thesis by (auto simp: normalize_leaf [OF step.hyps] normalized_def)
  qed (use step.prems normalize_leaf(1) [OF step.hyps _ step.prems(1)] in \<open>auto simp: normalized_def\<close>)
qed

section \<open>The steps of a successful declaration\<close>

text \<open>The ID predicted for the definition is the one the catalog allocates next.\<close>

lemma predicted_next:
  assumes "structural_id_count ty 0 = Ok n" and "checked_add_u64 (next_id c) n = Some i"
    and "resolve_inner (set_type c name d) ty 0 = Ok (ty1, c1)"
  shows "next_id c1 = i"
proof -
  have r: "allocates (set_type c name d) c1 (type_ids ty1)" "length (type_ids ty1) = length (type_ids ty)"
    using resolve_inner_correct [OF assms(3)] by (auto simp: resolves_def)
  have "length (type_ids ty1) = unat (next_id c1) - unat (next_id c)" "unat (next_id c) \<le> unat (next_id c1)"
    using r(1) by (auto simp: allocates_def set_type_def dest: arg_cong [where f = length])
  moreover have "unat i = unat (next_id c) + unat n" using assms(2) by (simp add: checked_add_u64_Some)
  moreover have "unat n = length (type_ids ty)" by (rule structural_id_count_correct [OF assms(1)])
  ultimately have "unat (next_id c1) = unat i" using r(2) by linarith
  then show ?thesis by (simp add: word_unat_eq_iff)
qed

lemma define_body_Ok:
  assumes body: "define_body c name ty = Ok c'" and ok: "bt_ok (types c)"
  obtains i ty1 ty2 where "resolves ty ty1"
    "map unat (type_ids ty1) = [unat (next_id c) ..< unat i]" "unat (next_id c) \<le> unat i"
    "unat (next_id c') = Suc (unat i)"
    "normalize_defaults (c'\<lparr>types := bt_insert name \<lparr>def_id = i, def_name = name, def_ty = ty1\<rparr> (types c)\<rparr>) ty1 0 = Ok ty2"
    "types c' = bt_insert name \<lparr>def_id = i, def_name = name, def_ty = ty2\<rparr> (types c)"
    "validate_finite_types c' = Ok ()"
proof -
  let ?c0 = "\<lambda>i. set_type c name \<lparr>def_id = i, def_name = name, def_ty = TBool\<rparr>"
  from body obtain n i ty1 c1 allocated c2 ty2 where
    count: "structural_id_count ty 0 = Ok n" and i: "checked_add_u64 (next_id c) n = Some i"
    and resolve: "resolve_inner (?c0 i) ty 0 = Ok (ty1, c1)" and alloc: "allocate c1 = Ok (allocated, c2)"
    and norm: "normalize_defaults (set_type c2 name \<lparr>def_id = i, def_name = name, def_ty = ty1\<rparr>) ty1 0 = Ok ty2"
    and c': "c' = set_type (set_type c2 name \<lparr>def_id = i, def_name = name, def_ty = ty1\<rparr>) name
                    \<lparr>def_id = i, def_name = name, def_ty = ty2\<rparr>"
    and valid: "validate_finite_types c' = Ok ()"
    by (auto simp: define_body_def and_then_Ok_iff ok_or_Ok_iff map_ok_Ok_iff Let_def split: prod.splits)
  have r: "allocates (?c0 i) c1 (type_ids ty1)" "resolves ty ty1" using resolve_inner_correct [OF resolve] by auto
  have same: "next_id c1 = i" by (rule predicted_next [OF count i resolve])
  have ids: "map unat (type_ids ty1) = [unat (next_id c) ..< unat i]" "unat (next_id c) \<le> unat i"
    using r(1) same by (auto simp: allocates_def set_type_def)
  have c2: "types c2 = bt_insert name \<lparr>def_id = i, def_name = name, def_ty = TBool\<rparr> (types c)"
    "unat (next_id c2) = Suc (unat i)"
    using alloc r(1) same
    by (auto simp: allocate_def and_then_Ok_iff ok_or_Ok_iff checked_add_u64_Some allocates_def set_type_def)
  have c3: "set_type c2 name \<lparr>def_id = i, def_name = name, def_ty = ty1\<rparr> =
      c'\<lparr>types := bt_insert name \<lparr>def_id = i, def_name = name, def_ty = ty1\<rparr> (types c)\<rparr>"
    and types': "types c' = bt_insert name \<lparr>def_id = i, def_name = name, def_ty = ty2\<rparr> (types c)"
    using c2(1) ok by (auto simp: c' set_type_def bt.ins_ins_same)
  show thesis
    using that [OF r(2) ids _ norm [unfolded c3] types' valid] c2(2) by (simp add: c' set_type_def)
qed

section \<open>The catalog invariant\<close>

definition catalog_ids :: "catalog \<Rightarrow> u64 list" where
  "catalog_ids c = concat (map (\<lambda>d. type_ids (def_ty d) @ [def_id d]) (bt_values (types c)))"

definition catalog_ok :: "catalog \<Rightarrow> bool" where
  "catalog_ok c \<longleftrightarrow>
     bt_ok (types c) \<and> (\<forall>(name, d) \<in> set (types c). def_name d = name) \<and>
     0 < next_id c \<and> distinct (catalog_ids c) \<and> (\<forall>i \<in> set (catalog_ids c). 0 < i \<and> i < next_id c) \<and>
     types_ok c \<and> (\<forall>d \<in> set (bt_values (types c)). defaults_ok c (def_ty d)) \<and>
     acyclic (type_edges c) \<and> (\<forall>d \<in> set (bt_values (types c)). inhabited c (TRef (def_id d)))"

lemma empty_catalog_ok: "catalog_ok empty_catalog"
  by (auto simp: catalog_ok_def empty_catalog_def bt_values_def catalog_ids_def types_ok_def acyclic_def type_edges_def
      definition_of_def trancl_empty)

lemma distinct_def_ids: "distinct (catalog_ids c) \<Longrightarrow> distinct (map def_id (bt_values (types c)))"
proof -
  have "distinct (concat (map (\<lambda>d. type_ids (def_ty d) @ [def_id d]) ds)) \<Longrightarrow> distinct (map def_id ds)" for ds
    by (induction ds) auto
  then show "distinct (catalog_ids c) \<Longrightarrow> ?thesis" by (simp add: catalog_ids_def)
qed

lemma definition_of_iff:
  "distinct (map def_id (bt_values (types c))) \<Longrightarrow>
   definition_of c j = Ok d \<longleftrightarrow> d \<in> set (bt_values (types c)) \<and> def_id d = j"
  using definition_of_distinct definition_of_Ok by blast

lemma bt_insert_split:
  "k \<notin> fst ` set m \<Longrightarrow> \<exists>a b. m = a @ b \<and> (\<forall>v. bt_insert k v m = a @ (k, v) # b)"
proof (induction m)
  case (Cons e m)
  then obtain a b where ab: "m = a @ b" "\<forall>v. bt_insert k v m = a @ (k, v) # b" by auto
  show ?case
  proof (cases "cmp k (fst e)")
    case Less
    then have "e # m = [] @ (e # m) \<and> (\<forall>v. bt_insert k v (e # m) = [] @ (k, v) # e # m)" by (simp add: cmp_def)
    then show ?thesis by blast
  next
    case Greater
    with ab have "e # m = (e # a) @ b \<and> (\<forall>v. bt_insert k v (e # m) = (e # a) @ (k, v) # b)" by (auto simp: cmp_def)
    then show ?thesis by blast
  next
    case Equal
    with Cons.prems show ?thesis by (simp add: cmp_iff)
  qed
qed simp

lemma distinct_concat_members:
  "distinct (concat (map (\<lambda>x. f x @ [g x]) xs)) \<Longrightarrow> distinct (map g xs) \<and> (\<forall>x \<in> set xs. distinct (f x))"
  by (induction xs) auto

lemma distinct_concat_nested: "distinct (concat (map f xs)) \<Longrightarrow> x \<in> set xs \<Longrightarrow> distinct (f x)"
  by (induction xs) auto

lemma struct_ok_of_ids:
  "wf_type ty \<Longrightarrow> members_ok ty \<Longrightarrow> distinct (type_ids ty) \<Longrightarrow> 0 \<notin> set (type_ids ty) \<Longrightarrow> struct_ok ty"
proof (induction ty rule: type_induct)
  case (step ty)
  have "own_struct_ok ty"
  proof (cases ty)
    case (TRecord cols)
    with step.prems show ?thesis
      using distinct_concat_members [of "\<lambda>col. type_ids (col_ty col)" col_id cols] by (auto simp: list_all_iff)
  next
    case (TEnum vs)
    with step.prems show ?thesis
      using distinct_concat_members [of "\<lambda>v. concat (map type_ids (vd_args v))" vd_id vs] by (auto simp: list_all_iff)
  qed auto
  moreover have "struct_ok t" if t: "t \<in> set (subtypes ty)" for t
  proof (rule step.IH [OF t])
    show "wf_type t" using step.prems(1) t by (subst (asm) wf_type.simps) (simp add: list_all_iff)
    show "members_ok t" using step.prems(2) t by (subst (asm) members_ok.simps) (simp add: list_all_iff)
    have "distinct (type_ids t) \<and> set (type_ids t) \<subseteq> set (type_ids ty)"
    proof (cases ty)
      case (TRecord cols)
      with t step.prems(3) show ?thesis
        using distinct_concat_members [of "\<lambda>col. type_ids (col_ty col)" col_id cols] by auto
    next
      case (TEnum vs)
      with t obtain v where v: "v \<in> set vs" "t \<in> set (vd_args v)" by auto
      then have "distinct (concat (map type_ids (vd_args v)))"
        using step.prems(3) TEnum distinct_concat_members [of "\<lambda>v. concat (map type_ids (vd_args v))" vd_id vs] by auto
      from distinct_concat_nested [OF this v(2)] v TEnum show ?thesis by auto
    next
      case (TTuple ts)
      with t step.prems(3) show ?thesis using distinct_concat_nested [of type_ids ts] by auto
    qed (use t step.prems(3) in auto)
    with step.prems(4) show "distinct (type_ids t)" "0 \<notin> set (type_ids t)" by auto
  qed
  ultimately show ?case by (subst struct_ok.simps) (simp add: list_all_iff)
qed

lemma refs_ok_simps [simp]:
  "refs_ok c TInt" "refs_ok c TFloat" "refs_ok c TBool" "refs_ok c TText" "refs_ok c TUuid" "refs_ok c TDate"
  "refs_ok c TTimestamp" "refs_ok c TDuration" "refs_ok c TBytes" "\<not> refs_ok c (TNamed n)"
  "refs_ok c (TRef i) \<longleftrightarrow> is_ok (definition_of c i)"
  "refs_ok c (TDecimal p s) \<longleftrightarrow> validate_decimal_type p s = Ok ()"
  "refs_ok c (TOption t) \<longleftrightarrow> refs_ok c t" "refs_ok c (TList t) \<longleftrightarrow> refs_ok c t" "refs_ok c (TMap t) \<longleftrightarrow> refs_ok c t"
  "refs_ok c (TTuple ts) \<longleftrightarrow> (\<forall>t \<in> set ts. refs_ok c t)"
  "refs_ok c (TRecord cols) \<longleftrightarrow> (\<forall>col \<in> set cols. refs_ok c (col_ty col))"
  "refs_ok c (TEnum vs) \<longleftrightarrow> (\<forall>v \<in> set vs. \<forall>t \<in> set (vd_args v). refs_ok c t)"
  by (subst refs_ok.simps; auto simp: list_all_iff)+

lemma refs_ok_erase: "refs_ok c (erase ty) \<longleftrightarrow> refs_ok c ty"
proof (induction ty rule: type_induct)
  case (step ty)
  then show ?case by (cases ty) auto
qed

lemma refs_ok_mono:
  "(\<And>i. is_ok (definition_of c i) \<Longrightarrow> is_ok (definition_of c' i)) \<Longrightarrow> refs_ok c ty \<Longrightarrow> refs_ok c' ty"
proof (induction ty rule: type_induct)
  case (step ty)
  then show ?case by (cases ty) auto
qed

lemma normalize_defaults_erase: "normalize_defaults c ty d = Ok ty' \<Longrightarrow> erase ty' = erase ty"
proof (induction d arbitrary: ty ty' rule: depth_induct)
  case (limit d)
  then show ?case by (simp add: normalize_defaults.simps)
next
  case (step d)
  note IH = step.IH
  have items: "map erase ts' = map erase ts" if "traverse (\<lambda>t. normalize_defaults c t (Suc d)) ts = Ok ts'" for ts ts'
    using that IH by (auto simp: traverse_Ok_iff list_all2_conv_all_nth intro!: nth_equalityI)
  show ?case
  proof (cases ty)
    case (TRecord cols)
    with step.prems step.hyps obtain cols' where "ty' = TRecord cols'" and "list_all2 (\<lambda>column column'.
        and_then (normalize_defaults c (col_ty column) (Suc d)) (\<lambda>ty.
          and_then
            (case col_default column of
               None \<Rightarrow> Ok None
             | Some v \<Rightarrow> map_ok Some (coerce_inner c v ty (Suc d)))
            (\<lambda>default. Ok (Column (col_name column) ty default (col_id column)))) = Ok column') cols cols'"
      by (subst (asm) normalize_defaults.simps) (auto simp: map_ok_Ok_iff traverse_Ok_iff)
    then have "ty' = TRecord cols'" "map (\<lambda>col. Column (col_name col) (erase (col_ty col)) None (col_id col)) cols' =
          map (\<lambda>col. Column (col_name col) (erase (col_ty col)) None (col_id col)) cols"
      by - (assumption, thin_tac "ty' = _", induction rule: list_all2_induct, auto simp: and_then_Ok_iff dest!: IH)
    then show ?thesis by (simp add: TRecord)
  next
    case (TEnum vs)
    with step.prems(1) step.hyps obtain vs' where "ty' = TEnum vs'"
      and "list_all2 (\<lambda>v v'. map_ok (\<lambda>args. VariantDef (vd_name v) args (vd_id v))
        (traverse (\<lambda>argument. normalize_defaults c argument (Suc d)) (vd_args v)) = Ok v') vs vs'"
      by (subst (asm) normalize_defaults.simps) (auto simp: map_ok_Ok_iff traverse_Ok_iff)
    then have "ty' = TEnum vs'" "map (\<lambda>v. VariantDef (vd_name v) (map erase (vd_args v)) (vd_id v)) vs' =
          map (\<lambda>v. VariantDef (vd_name v) (map erase (vd_args v)) (vd_id v)) vs"
      by - (assumption, thin_tac "ty' = _", induction rule: list_all2_induct, auto simp: map_ok_Ok_iff dest!: items)
    then show ?thesis by (simp add: TEnum)
  next
    case (TTuple ts)
    with step.prems(1) step.hyps items show ?thesis
      by (subst (asm) normalize_defaults.simps) (auto simp: map_ok_Ok_iff)
  next
    case (TOption t)
    with step.prems IH show ?thesis by (auto simp: normalize_leaf [OF step.hyps])
  next
    case (TList t)
    with step.prems IH show ?thesis by (auto simp: normalize_leaf [OF step.hyps])
  next
    case (TMap t)
    with step.prems IH show ?thesis by (auto simp: normalize_leaf [OF step.hyps])
  qed (use step.prems normalize_leaf(1) [OF step.hyps _ step.prems(1)] in auto)
qed

section \<open>Declarations preserve the invariant\<close>

lemma catalog_ids_insert:
  assumes "types c = a @ b" and "types c' = a @ (name, d) # b"
  shows "set (catalog_ids c') = set (catalog_ids c) \<union> set (type_ids (def_ty d)) \<union> {def_id d}"
    "distinct (catalog_ids c') \<longleftrightarrow> distinct (catalog_ids c) \<and> distinct (type_ids (def_ty d)) \<and>
       def_id d \<notin> set (type_ids (def_ty d)) \<and> set (catalog_ids c) \<inter> (set (type_ids (def_ty d)) \<union> {def_id d}) = {}"
    "set (bt_values (types c')) = insert d (set (bt_values (types c)))"
  using assms by (auto simp: catalog_ids_def bt_values_def)

text \<open>What the fresh IDs of a declaration are.\<close>

lemma fresh_ids:
  assumes "map unat ids = [unat n ..< unat i]" and "unat n \<le> unat i" and "0 < n" and "unat n' = Suc (unat i)"
    and "\<forall>j \<in> set old. 0 < j \<and> j < (n :: u64)"
  shows "distinct ids" "i \<notin> set ids" "set old \<inter> (set ids \<union> {i}) = {}" "0 \<notin> set ids"
    "\<forall>j \<in> set old \<union> set ids \<union> {i}. 0 < j \<and> j < n'"
proof -
  have ids: "unat n \<le> unat j \<and> unat j < unat i" if "j \<in> set ids" for j
    using arg_cong [OF assms(1), of set] that by auto
  have "distinct (map unat ids)" using assms(1) by simp
  then show "distinct ids" by (simp add: distinct_map)
  show "i \<notin> set ids" "set old \<inter> (set ids \<union> {i}) = {}" "0 \<notin> set ids"
    "\<forall>j \<in> set old \<union> set ids \<union> {i}. 0 < j \<and> j < n'"
    using ids assms(2-5) by (force simp: word_less_nat_alt)+
qed

lemma define_body_invariant:
  assumes ok: "catalog_ok c" and members: "members_ok ty" and fresh: "bt_get (types c) name = None"
    and body: "define_body c name ty = Ok c'"
  shows "catalog_ok c' \<and> (\<exists>i ty'. types c' = bt_insert name \<lparr>def_id = i, def_name = name, def_ty = ty'\<rparr> (types c) \<and>
           next_id c \<le> i \<and> next_id c' = i + 1)"
proof -
  have bt: "bt_ok (types c)" using ok by (simp add: catalog_ok_def)
  from define_body_Ok [OF body bt] obtain i ty1 ty2 where r: "resolves ty ty1"
    and ids: "map unat (type_ids ty1) = [unat (next_id c) ..< unat i]" "unat (next_id c) \<le> unat i"
      "unat (next_id c') = Suc (unat i)"
    and norm: "normalize_defaults (c'\<lparr>types := bt_insert name \<lparr>def_id = i, def_name = name, def_ty = ty1\<rparr> (types c)\<rparr>) ty1 0 = Ok ty2"
    and types': "types c' = bt_insert name \<lparr>def_id = i, def_name = name, def_ty = ty2\<rparr> (types c)"
    and valid: "validate_finite_types c' = Ok ()" by blast
  define d1 where "d1 = \<lparr>def_id = i, def_name = name, def_ty = ty1\<rparr>"
  define d2 where "d2 = \<lparr>def_id = i, def_name = name, def_ty = ty2\<rparr>"
  define c3 where "c3 = c'\<lparr>types := bt_insert name d1 (types c)\<rparr>"
  from bt_insert_split [of name "types c"] fresh obtain a b where ab: "types c = a @ b"
    "\<And>d. bt_insert name d (types c) = a @ (name, d) # b"
    by (auto simp: bt_get_None_iff)
  have t3: "types c3 = a @ (name, d1) # b" and t4: "types c' = a @ (name, d2) # b"
    using ab(2) types' by (auto simp: c3_def d2_def)
  have erase: "erase ty2 = erase ty1" by (rule normalize_defaults_erase [OF norm])
  have same_ids: "type_ids ty2 = type_ids ty1" using erase type_ids_erase by metis
  have old: "0 < next_id c" "distinct (catalog_ids c)" "\<forall>j \<in> set (catalog_ids c). 0 < j \<and> j < next_id c"
    "types_ok c" "\<forall>d \<in> set (bt_values (types c)). defaults_ok c (def_ty d)"
    using ok by (auto simp: catalog_ok_def)
  note fresh_ids = fresh_ids [OF ids(1,2) old(1) ids(3) old(3)]
  have dist3: "distinct (catalog_ids c3)" and dist4: "distinct (catalog_ids c')"
    using catalog_ids_insert(2) [OF ab(1) t3] catalog_ids_insert(2) [OF ab(1) t4] old(2) fresh_ids(1-3)
    by (simp_all add: d1_def d2_def same_ids)
  note vals3 = catalog_ids_insert(3) [OF ab(1) t3] and vals4 = catalog_ids_insert(3) [OF ab(1) t4]
  note def = definition_of_iff [OF distinct_def_ids [OF old(2)]]
  note def3 = definition_of_iff [OF distinct_def_ids [OF dist3]]
  note def4 = definition_of_iff [OF distinct_def_ids [OF dist4]]
  have ext: "extends c c'" and ext3: "extends c3 c'"
    using def def3 def4 vals3 vals4 erase by (auto simp: extends_def d1_def d2_def)
  have defined: "is_ok (definition_of c j) \<Longrightarrow> is_ok (definition_of c3 j)" "is_ok (definition_of c3 j) \<longleftrightarrow> is_ok (definition_of c' j)" for j
    using def def3 def4 vals3 vals4 by (auto simp: is_ok_iff d1_def d2_def)
  have struct1: "struct_ok ty1"
    using r members fresh_ids(1,4) by (intro struct_ok_of_ids) (auto simp: resolves_def)
  have "refs_ok c' ty2" using valid vals4
    by (auto simp: validate_finite_types_def and_then_Ok_iff try_fold_unit validate_type_references_iff d2_def)
  then have "refs_ok c3 ty1" using refs_ok_mono [of c' c3] defined(2) erase refs_ok_erase by metis
  then have ok3: "types_ok c3"
    using struct1 old(4) vals3 refs_ok_mono [OF defined(1)] by (auto simp: types_ok_def type_ok_iff d1_def)
  have "type_ok c3 ty1" using ok3 vals3 by (simp add: types_ok_def d1_def)
  with normalize_defaults_correct [OF ok3] norm have norm: "type_ok c3 ty2" "defaults_ok c3 ty2"
    by (auto simp: normalized_def c3_def d1_def)
  have ok4: "types_ok c'"
    using norm(1) ok3 vals3 vals4 refs_ok_mono [OF iffD1 [OF defined(2)]] by (auto simp: types_ok_def type_ok_iff d2_def)
  have defaults: "\<forall>d \<in> set (bt_values (types c')). defaults_ok c' (def_ty d)"
    using old(5) norm(2) vals4 defaults_ok_extends [OF ext] defaults_ok_extends [OF ext3] by (auto simp: d2_def)
  have struct: "\<forall>d \<in> set (bt_values (types c')). struct_ok (def_ty d)" using ok4 by (simp add: types_ok_def type_ok_iff)
  have "bt_ok (types c')" using bt types' by simp
  moreover have "\<forall>(n, d) \<in> set (types c'). def_name d = n"
    using ok ab(1) unfolding t4 by (auto simp: catalog_ok_def d2_def)
  moreover have "0 < next_id c'" using ids(3) by (simp add: word_less_nat_alt)
  moreover have "\<forall>j \<in> set (catalog_ids c'). 0 < j \<and> j < next_id c'"
    using fresh_ids(5) catalog_ids_insert(1) [OF ab(1) t4] by (simp add: d2_def same_ids)
  ultimately have "catalog_ok c'"
    using dist4 ok4 defaults validate_finite_types_iff [OF struct distinct_def_ids [OF dist4]] valid
    by (simp add: catalog_ok_def)
  moreover have "next_id c' = i + 1"
    using arg_cong [OF ids(3), of "of_nat :: nat \<Rightarrow> u64"] by simp
  ultimately show ?thesis using types' ids(2) by (auto simp: word_le_nat_alt)
qed

text \<open>Allocating IDs leaves the definitions alone.\<close>

lemma catalog_ok_allocates:
  assumes "allocates c c' ids" and "catalog_ok c"
  shows "catalog_ok c'"
proof -
  have same: "types c' = types c" "unat (next_id c) \<le> unat (next_id c')" using assms(1) by (auto simp: allocates_def)
  have def: "definition_of c' = definition_of c" by (auto simp: definition_of_def same)
  then have "extends c c'" by (simp add: extends_def)
  from has_type_erase [OF this] defaults_ok_extends [OF this]
  have has: "inhabited c t \<Longrightarrow> inhabited c' t" "defaults_ok c t \<Longrightarrow> defaults_ok c' t" for t
    by (auto simp: inhabited_def)
  have "refs_ok c t \<Longrightarrow> refs_ok c' t" for t using refs_ok_mono [of c c'] def by simp
  with assms(2) have "types_ok c'" by (auto simp: catalog_ok_def types_ok_def type_ok_iff same)
  moreover have "type_edges c' = type_edges c" "catalog_ids c' = catalog_ids c"
    by (auto simp: type_edges_def def catalog_ids_def same)
  ultimately show ?thesis
    using assms(2) has same by (force simp: catalog_ok_def word_less_nat_alt)
qed

section \<open>Reachable catalogs\<close>

text \<open>
  The operations that change a catalog: declaring a type (also when it fails), allocating an ID
  for a table or a column, and resolving a column type.
\<close>

inductive catalog_step :: "catalog \<Rightarrow> catalog \<Rightarrow> bool" where
  step_define: "members_ok ty \<Longrightarrow> catalog_step c (snd (define_type c name ty))"
| step_allocate: "allocate c = Ok (i, c') \<Longrightarrow> catalog_step c c'"
| step_resolve: "resolve c ty d = Ok (ty', c') \<Longrightarrow> catalog_step c c'"

inductive catalog_reachable :: "catalog \<Rightarrow> bool" where
  reachable_empty: "catalog_reachable empty_catalog"
| reachable_step: "catalog_reachable c \<Longrightarrow> catalog_step c c' \<Longrightarrow> catalog_reachable c'"

lemma define_type_cases:
  "define_type c name ty = (Ok (), c') \<longleftrightarrow> bt_get (types c) name = None \<and> define_body c name ty = Ok c'"
  "define_type c name ty = (Err e, c') \<Longrightarrow> c' = c"
  by (auto simp: define_type_def split: if_splits result.splits)

lemma catalog_step_ok: "catalog_step c c' \<Longrightarrow> catalog_ok c \<Longrightarrow> catalog_ok c'"
proof (induction rule: catalog_step.induct)
  case (step_define ty c name)
  obtain r c' where r: "define_type c name ty = (r, c')" by fastforce
  show ?case
  proof (cases r)
    case (Ok u)
    with r have "bt_get (types c) name = None" "define_body c name ty = Ok c'" by (simp_all add: define_type_cases)
    from define_body_invariant [OF step_define(2,1) this] r show ?thesis by simp
  next
    case (Err e)
    with r have "c' = c" by (intro define_type_cases(2)) simp
    with r step_define show ?thesis by simp
  qed
next
  case (step_allocate c i c')
  then show ?case using allocates_one catalog_ok_allocates by blast
next
  case (step_resolve c ty d ty' c')
  then obtain ty1 where "resolve_inner c ty d = Ok (ty1, c')"
    by (auto simp: resolve_def and_then_Ok_iff split: prod.splits)
  then show ?case using resolve_inner_correct step_resolve(2) catalog_ok_allocates by blast
qed

section \<open>Properties\<close>

text \<open>
  (C7) The catalog invariant holds in every reachable catalog.  Starting from the empty catalog,
  any sequence of declarations (successful or not), ID allocations and type resolutions keeps the
  names sorted and consistent, all type, field and variant IDs positive, pairwise distinct and below
  \<open>next_id\<close>, every type well formed with defaults that are values of their column, the references
  free of mutual recursion, and every named type inhabited.
\<close>

theorem catalog_reachable_ok: "catalog_reachable c \<Longrightarrow> catalog_ok c"
  by (induction rule: catalog_reachable.induct) (auto intro: empty_catalog_ok catalog_step_ok)

definition example_tree :: scalar_type where
  "example_tree = TRecord [Column ''label'' TText (Some (VText ''leaf'')) 0,
                           Column ''children'' (TList (TNamed ''Tree'')) (Some (VList [])) 0]"

theorem catalog_reachable_ok_witness:
  "catalog_ok (snd (define_type empty_catalog ''Tree'' example_tree)) \<and>
   map fst (types (snd (define_type empty_catalog ''Tree'' example_tree))) = [''Tree'']"
proof -
  have "members_ok example_tree" by code_simp
  then have "catalog_reachable (snd (define_type empty_catalog ''Tree'' example_tree))"
    by (intro reachable_step [OF reachable_empty] step_define)
  from catalog_reachable_ok [OF this]
  have "catalog_ok (snd (define_type empty_catalog ''Tree'' example_tree))" .
  moreover have "map fst (types (snd (define_type empty_catalog ''Tree'' example_tree))) = [''Tree'']" by code_simp
  ultimately show ?thesis by blast
qed

text \<open>
  (C14) Declaring a type is atomic and changes nothing else.  In a valid catalog, a failed \<open>define\<close>
  (a duplicate name among the reasons) leaves the catalog exactly as it was; a successful one adds
  one definition under the given name whose ID is fresh, leaves every other name untouched and
  moves \<open>next_id\<close> just past the new ID.
\<close>

theorem define_type_atomic:
  assumes "catalog_ok c" and "members_ok ty" and "define_type c name ty = (r, c')"
  shows "case r of
           Err e \<Rightarrow> c' = c
         | Ok _ \<Rightarrow> bt_get (types c) name = None \<and> (\<forall>k. k \<noteq> name \<longrightarrow> bt_get (types c') k = bt_get (types c) k) \<and>
             (\<exists>i ty'. bt_get (types c') name = Some \<lparr>def_id = i, def_name = name, def_ty = ty'\<rparr> \<and>
               i \<notin> set (catalog_ids c) \<and> next_id c' = i + 1)"
proof (cases r)
  case (Ok u)
  with assms(3) have new: "bt_get (types c) name = None" "define_body c name ty = Ok c'"
    by (simp_all add: define_type_cases)
  from define_body_invariant [OF assms(1,2) new] obtain i ty' where
    "types c' = bt_insert name \<lparr>def_id = i, def_name = name, def_ty = ty'\<rparr> (types c)" "next_id c \<le> i" "next_id c' = i + 1"
    by blast
  moreover from this assms(1) have "i \<notin> set (catalog_ids c)" by (auto simp: catalog_ok_def)
  ultimately show ?thesis using Ok new(1) by (simp add: bt_get_insert)
next
  case (Err e)
  with assms(3) define_type_cases(2) show ?thesis by simp
qed

theorem define_type_atomic_witness:
  "fst (define_type empty_catalog ''Loop'' (TTuple [TNamed ''Loop''])) = Err E_SCHEMA \<and>
   snd (define_type empty_catalog ''Loop'' (TTuple [TNamed ''Loop''])) = empty_catalog"
proof -
  have "fst (define_type empty_catalog ''Loop'' (TTuple [TNamed ''Loop''])) = Err E_SCHEMA" by code_simp
  moreover have "members_ok (TTuple [TNamed ''Loop''])" by code_simp
  ultimately show ?thesis
    using define_type_atomic [OF empty_catalog_ok, of "TTuple [TNamed ''Loop'']" "''Loop''"
      "fst (define_type empty_catalog ''Loop'' (TTuple [TNamed ''Loop'']))"
      "snd (define_type empty_catalog ''Loop'' (TTuple [TNamed ''Loop'']))"] by (simp add: prod_eq_iff)
qed

text \<open>
  (C15) The assertion in \<open>define\<close> never fires: the ID reserved for the definition before its body is
  resolved (\<open>next_id\<close> plus the predicted number of field and variant IDs, checked for overflow) is
  the ID that \<open>allocate\<close> returns after the body has been resolved.
\<close>

theorem define_predicts_id:
  assumes "structural_id_count ty 0 = Ok n" and "checked_add_u64 (next_id c) n = Some i"
    and "resolve_inner (set_type c name d) ty 0 = Ok (ty1, c1)" and "allocate c1 = Ok (allocated, c2)"
  shows "allocated = i"
  using predicted_next [OF assms(1-3)] assms(4) by (auto simp: allocate_def and_then_Ok_iff)

theorem define_predicts_id_witness:
  "structural_id_count example_tree 0 = Ok 2 \<and>
   fst (case and_then (resolve_inner (set_type empty_catalog ''Tree'' \<lparr>def_id = 3, def_name = ''Tree'', def_ty = TBool\<rparr>)
           example_tree 0) (\<lambda>(ty, c). allocate c) of Ok p \<Rightarrow> p | Err _ \<Rightarrow> (0, empty_catalog)) = 3"
proof -
  let ?c0 = "set_type empty_catalog ''Tree'' \<lparr>def_id = 3, def_name = ''Tree'', def_ty = TBool\<rparr>"
  have count: "structural_id_count example_tree 0 = Ok 2" and i: "checked_add_u64 (next_id empty_catalog) 2 = Some 3"
    and ok: "is_ok (and_then (resolve_inner ?c0 example_tree 0) (\<lambda>(ty, c). allocate c))"
    by code_simp+
  then obtain ty1 c1 allocated c2 where s: "resolve_inner ?c0 example_tree 0 = Ok (ty1, c1)" "allocate c1 = Ok (allocated, c2)"
    by (auto simp: is_ok_iff and_then_Ok_iff)
  from define_predicts_id [OF count i s] s count show ?thesis by simp
qed

end
