(* ===== verification/Protocol_Version.thy ===== *)
theory Protocol_Version
  imports Define
begin

text \<open>
  Which types need version 2 of the wire protocol (\<^verbatim>\<open>src/src/model.rs\<close>,
  \<open>Catalog::requires_protocol_v2\<close>).  The search over the type remembers the references it has
  followed; it is shown that a type it clears has no value that needs version 2.
\<close>

section \<open>The search\<close>

text \<open>The nested function \<open>visit\<close>: the answer and the references seen so far.\<close>

function visit_v2 :: "catalog \<Rightarrow> scalar_type \<Rightarrow> u64 list \<Rightarrow> nat \<Rightarrow> (bool \<times> u64 list) result" where
  "visit_v2 c ty seen depth =
     (if MAX_DEPTH \<le> depth then Err E_LIMIT
      else case ty of
        TUuid \<Rightarrow> Ok (True, seen)
      | TDate \<Rightarrow> Ok (True, seen)
      | TTimestamp \<Rightarrow> Ok (True, seen)
      | TDuration \<Rightarrow> Ok (True, seen)
      | TBytes \<Rightarrow> Ok (True, seen)
      | TDecimal precision scl \<Rightarrow> and_then (validate_decimal_type precision scl) (\<lambda>_. Ok (True, seen))
      | TRef i \<Rightarrow>
          if i \<notin> set seen
          then and_then (definition_of c i) (\<lambda>d. visit_v2 c (def_ty d) (bs_insert i seen) (Suc depth))
          else Ok (False, seen)
      | TRecord cols \<Rightarrow>
          try_fold (\<lambda>(res, seen) field.
            and_then (visit_v2 c (col_ty field) seen (Suc depth)) (\<lambda>(r, seen). Ok (res \<or> r, seen))) (False, seen) cols
      | TEnum variants \<Rightarrow>
          try_fold (\<lambda>state v.
            try_fold (\<lambda>(res, seen) t.
              and_then (visit_v2 c t seen (Suc depth)) (\<lambda>(r, seen). Ok (res \<or> r, seen))) state (vd_args v))
            (False, seen) variants
      | TTuple items \<Rightarrow>
          try_fold (\<lambda>(res, seen) t.
            and_then (visit_v2 c t seen (Suc depth)) (\<lambda>(r, seen). Ok (res \<or> r, seen))) (False, seen) items
      | TOption inner \<Rightarrow> visit_v2 c inner seen (Suc depth)
      | TList inner \<Rightarrow> visit_v2 c inner seen (Suc depth)
      | TMap _ \<Rightarrow> Ok (True, seen)
      | TNamed name \<Rightarrow> Err E_SCHEMA
      | _ \<Rightarrow> Ok (False, seen))"
  by pat_completeness auto
termination by (relation "measure (\<lambda>(c, ty, seen, depth). MAX_DEPTH - depth)") auto

declare visit_v2.simps [simp del]

definition requires_protocol_v2 :: "catalog \<Rightarrow> scalar_type \<Rightarrow> bool result" where
  "requires_protocol_v2 c ty = map_ok fst (visit_v2 c ty [] 0)"

section \<open>Cleared types\<close>

text \<open>A type without version 2 scalars and maps whose references lie in a given set.\<close>

fun own_v1 :: "u64 set \<Rightarrow> scalar_type \<Rightarrow> bool" where
  "own_v1 S (TRef i) = (i \<in> S)"
| "own_v1 S TUuid = False"
| "own_v1 S TDate = False"
| "own_v1 S TTimestamp = False"
| "own_v1 S TDuration = False"
| "own_v1 S TBytes = False"
| "own_v1 S (TDecimal p s) = False"
| "own_v1 S (TMap t) = False"
| "own_v1 S (TNamed n) = False"
| "own_v1 S ty = True"

function v1_type :: "u64 set \<Rightarrow> scalar_type \<Rightarrow> bool" where
  "v1_type S ty \<longleftrightarrow> own_v1 S ty \<and> list_all (v1_type S) (subtypes ty)"
  by auto
termination by (relation "measure (\<lambda>(S, ty). size ty)") (auto simp: size_subtype)

declare v1_type.simps [simp del]

lemma v1_type_simps [simp]:
  "v1_type S TInt" "v1_type S TFloat" "v1_type S TBool" "v1_type S TText" "\<not> v1_type S TUuid" "\<not> v1_type S TDate"
  "\<not> v1_type S TTimestamp" "\<not> v1_type S TDuration" "\<not> v1_type S TBytes" "\<not> v1_type S (TDecimal p s)"
  "\<not> v1_type S (TMap t)" "\<not> v1_type S (TNamed n)" "v1_type S (TRef i) \<longleftrightarrow> i \<in> S"
  "v1_type S (TOption t) \<longleftrightarrow> v1_type S t" "v1_type S (TList t) \<longleftrightarrow> v1_type S t"
  "v1_type S (TTuple ts) \<longleftrightarrow> (\<forall>t \<in> set ts. v1_type S t)"
  "v1_type S (TRecord cols) \<longleftrightarrow> (\<forall>col \<in> set cols. v1_type S (col_ty col))"
  "v1_type S (TEnum vs) \<longleftrightarrow> (\<forall>v \<in> set vs. \<forall>t \<in> set (vd_args v). v1_type S t)"
  by (subst v1_type.simps; auto simp: list_all_iff)+

lemma v1_type_mono: "v1_type S ty \<Longrightarrow> S \<subseteq> T \<Longrightarrow> v1_type T ty"
proof (induction ty rule: type_induct)
  case (step ty)
  then show ?case by (cases ty) auto
qed

text \<open>What a step of the search that answers \<open>False\<close> establishes.\<close>

definition clears :: "catalog \<Rightarrow> u64 list \<Rightarrow> u64 list \<Rightarrow> bool" where
  "clears c seen seen' \<longleftrightarrow> set seen \<subseteq> set seen' \<and>
     (\<forall>i \<in> set seen' - set seen. \<exists>d. definition_of c i = Ok d \<and> v1_type (set seen') (def_ty d))"

lemma clears_refl: "clears c s s"
  by (simp add: clears_def)

lemma clears_trans: "clears c s t \<Longrightarrow> clears c t u \<Longrightarrow> clears c s u"
  unfolding clears_def by (blast intro: v1_type_mono)

lemma visit_list:
  assumes "try_fold (\<lambda>(res, seen) x. and_then (f seen x) (\<lambda>(r, seen). Ok (res \<or> r, seen))) (res, seen) xs = Ok (False, seen')"
    and "\<And>seen x seen'. x \<in> set xs \<Longrightarrow> f seen x = Ok (False, seen') \<Longrightarrow> clears c seen seen' \<and> P (set seen') x"
    and "\<And>S T x. P S x \<Longrightarrow> S \<subseteq> T \<Longrightarrow> P T x"
  shows "\<not> res \<and> clears c seen seen' \<and> (\<forall>x \<in> set xs. P (set seen') x)"
  using assms(1,2)
proof (induction xs arbitrary: res seen)
  case (Cons x xs)
  from Cons.prems(1) obtain r s1 where x: "f seen x = Ok (r, s1)"
    and rest: "try_fold (\<lambda>(res, seen) x. and_then (f seen x) (\<lambda>(r, seen). Ok (res \<or> r, seen))) (res \<or> r, s1) xs = Ok (False, seen')"
    by (auto simp: and_then_Ok_iff)
  have IH: "\<not> (res \<or> r) \<and> clears c s1 seen' \<and> (\<forall>x \<in> set xs. P (set seen') x)"
    using Cons.prems(2) by (intro Cons.IH [OF rest]) auto
  then have "clears c seen s1 \<and> P (set s1) x" using Cons.prems(2) [of x seen s1] x by simp
  moreover have "P (set seen') x" if "P (set s1) x"
    using assms(3) that IH unfolding clears_def by blast
  ultimately show ?case using IH clears_trans by auto
qed (simp add: clears_refl)

lemma try_fold_concat: "try_fold (\<lambda>s v. try_fold g s (h v)) s vs = try_fold g s (concat (map h vs))"
proof (induction vs arbitrary: s)
  case (Cons v vs)
  then show ?case by (cases "try_fold g s (h v)") (simp_all add: try_fold_append)
qed simp

lemma visit_v2_clears:
  "visit_v2 c ty seen d = Ok (False, seen') \<Longrightarrow> clears c seen seen' \<and> v1_type (set seen') ty"
proof (induction d arbitrary: ty seen seen' rule: depth_induct)
  case (limit d)
  then show ?case by (simp add: visit_v2.simps)
next
  case (step d)
  show ?case
  proof (cases ty)
    case (TRef i)
    show ?thesis
    proof (cases "i \<in> set seen")
      case True
      with step TRef show ?thesis by (auto simp: visit_v2.simps clears_refl)
    next
      case False
      with step TRef obtain def where def: "definition_of c i = Ok def"
        and v: "visit_v2 c (def_ty def) (bs_insert i seen) (Suc d) = Ok (False, seen')"
        by (subst (asm) (2) visit_v2.simps) (auto simp: and_then_Ok_iff)
      from step.IH [OF v] def show ?thesis by (auto simp: clears_def TRef)
    qed
  next
    case (TRecord cols)
    with step.prems step.hyps have "try_fold (\<lambda>(res, seen) field.
            and_then (visit_v2 c (col_ty field) seen (Suc d)) (\<lambda>(r, seen). Ok (res \<or> r, seen))) (False, seen) cols = Ok (False, seen')"
      by (subst (asm) visit_v2.simps) simp
    then have "\<not> False \<and> clears c seen seen' \<and> (\<forall>col \<in> set cols. v1_type (set seen') (col_ty col))"
      by (rule visit_list) (auto intro: v1_type_mono dest: step.IH)
    with TRecord show ?thesis by simp
  next
    case (TTuple ts)
    with step.prems step.hyps have "try_fold (\<lambda>(res, seen) t.
            and_then (visit_v2 c t seen (Suc d)) (\<lambda>(r, seen). Ok (res \<or> r, seen))) (False, seen) ts = Ok (False, seen')"
      by (subst (asm) visit_v2.simps) simp
    then have "\<not> False \<and> clears c seen seen' \<and> (\<forall>t \<in> set ts. v1_type (set seen') t)"
      by (rule visit_list) (auto intro: v1_type_mono dest: step.IH)
    with TTuple show ?thesis by simp
  next
    case (TEnum vs)
    with step.prems step.hyps have "try_fold (\<lambda>state v.
            try_fold (\<lambda>(res, seen) t.
              and_then (visit_v2 c t seen (Suc d)) (\<lambda>(r, seen). Ok (res \<or> r, seen))) state (vd_args v))
            (False, seen) vs = Ok (False, seen')"
      by (subst (asm) visit_v2.simps) simp
    then have "try_fold (\<lambda>(res, seen) t.
              and_then (visit_v2 c t seen (Suc d)) (\<lambda>(r, seen). Ok (res \<or> r, seen))) (False, seen) (concat (map vd_args vs)) =
        Ok (False, seen')"
      by (simp add: try_fold_concat)
    then have "\<not> False \<and> clears c seen seen' \<and> (\<forall>t \<in> set (concat (map vd_args vs)). v1_type (set seen') t)"
      by (rule visit_list) (auto intro: v1_type_mono dest: step.IH)
    with TEnum show ?thesis by simp
  qed (use step.prems step.hyps in \<open>subst (asm) visit_v2.simps, auto simp: clears_refl and_then_Ok_iff dest: step.IH\<close>)+
qed

section \<open>Property\<close>

text \<open>
  (C19) Version 1 of the protocol never carries a version 2 value: when \<open>requires_protocol_v2\<close> clears a
  type (recursive references included), no value of the type contains a UUID, a temporal value, a
  decimal, bytes or a map, so \<open>Value::requires_protocol_v2\<close> is false for each of them.
\<close>

theorem protocol_v1_safe:
  assumes "requires_protocol_v2 c ty = Ok False" and "has_type c ty x"
  shows "\<not> value_requires_v2 x"
proof -
  from assms(1) obtain S where visit: "visit_v2 c ty [] 0 = Ok (False, S)"
    by (auto simp: requires_protocol_v2_def map_ok_Ok_iff)
  from visit_v2_clears [OF this] have closed: "\<And>i. i \<in> set S \<Longrightarrow> \<exists>d. definition_of c i = Ok d \<and> v1_type (set S) (def_ty d)"
    and "v1_type (set S) ty" by (auto simp: clears_def)
  from this(2) assms(2) show ?thesis
  proof (induction x arbitrary: ty)
    case (VEnum n as i)
    then obtain vs v where v: "ty = TEnum vs" "v \<in> set vs" "list_all2 (has_type c) (vd_args v) as"
      by (cases ty) (auto dest: find_variant_Some)
    have "\<not> value_requires_v2 a" if "a \<in> set as" for a
      using list_all2_setD2 [OF v(3)] that VEnum v by fastforce
    then show ?case by (auto simp: list_ex_iff)
  next
    case (VRecord fs)
    then obtain cols where r: "ty = TRecord cols" by (cases ty) auto
    have "\<not> value_requires_v2 w" if kw: "(k, w) \<in> set fs" for k w
    proof -
      from VRecord.prems(2) kw r obtain col where "find_column cols k = Some col" "has_type c (col_ty col) w" by auto
      then show ?thesis using VRecord.IH [OF kw] VRecord.prems(1) r find_column_Some by (fastforce simp: prod_set_defs)
    qed
    then show ?case by (auto simp: list_ex_iff)
  next
    case (VTuple vs)
    then obtain ts where t: "ty = TTuple ts" "list_all2 (has_type c) ts vs" by (cases ty) auto
    have "\<not> value_requires_v2 a" if "a \<in> set vs" for a
      using list_all2_setD2 [OF t(2)] that VTuple t by fastforce
    then show ?case by (auto simp: list_ex_iff)
  next
    case (VList vs)
    then show ?case by (cases ty) (auto simp: list_ex_iff list_all_iff)
  next
    case (VOption ov)
    then show ?case by (cases ty) (auto split: option.splits)
  next
    case (VNamed i w)
    then obtain d where d: "ty = TRef i" "definition_of c i = Ok d" "has_type c (def_ty d) w" by (cases ty) auto
    with VNamed.prems(1) closed [of i] VNamed.IH [of "def_ty d"] show ?case by auto
  qed (case_tac ty; auto)+
qed


theorem protocol_v1_safe_witness:
  "requires_protocol_v2 example_catalog (TList (TRef 1)) = Ok False \<and>
   \<not> value_requires_v2 (VList [VNamed 1 (VRecord [(''x'', VInt 3), (''y'', VFloat 0)])])"
proof -
  have "requires_protocol_v2 example_catalog (TList (TRef 1)) = Ok False"
    "has_type example_catalog (TList (TRef 1)) (VList [VNamed 1 (VRecord [(''x'', VInt 3), (''y'', VFloat 0)])])"
    by code_simp+
  from this(1) protocol_v1_safe [OF this] show ?thesis by blast
qed

end
