(* ===== verification/Value_Codec.thy ===== *)
theory Value_Codec
  imports Framing Protocol_Version
begin

text \<open>
  The binary format of stored values (\<^verbatim>\<open>src/src/codec.rs\<close>).  The encoder threads the
  bytes written so far; the decoder is modelled by the suffix \<open>bytes[pos..]\<close> it has not yet read.
  Field names and IDs come from the type, so the format is self-checking but not self-describing.
\<close>

section \<open>Format\<close>

definition MAGIC :: "u8 list" where
  "MAGIC = as_bytes ''UIDV''"

definition VALUE_CODEC_VERSION :: nat where
  "VALUE_CODEC_VERSION = 1"

definition PRODUCTION_VALUE_CODEC_VERSION :: nat where
  "PRODUCTION_VALUE_CODEC_VERSION = 2"

definition MAP_VALUE_CODEC_VERSION :: nat where
  "MAP_VALUE_CODEC_VERSION = 3"

definition MAX_VALUE_BYTES :: nat where
  "MAX_VALUE_BYTES = 16 * 1024 * 1024"

definition MAX_COLLECTION_ITEMS :: nat where
  "MAX_COLLECTION_ITEMS = 1000000"

definition check_items :: "nat \<Rightarrow> unit result" where
  "check_items items = (if items > MAX_COLLECTION_ITEMS then Err E_CODEC else Ok ())"

section \<open>Encoder\<close>

definition put :: "u8 list \<Rightarrow> u8 list \<Rightarrow> u8 list result" where
  "put bs s = put_bytes E_CODEC MAX_VALUE_BYTES bs s"

definition put_u8 :: "u8 \<Rightarrow> u8 list \<Rightarrow> u8 list result" where
  "put_u8 b s = put [b] s"

definition put_u16 :: "nat \<Rightarrow> u8 list \<Rightarrow> u8 list result" where
  "put_u16 n s = put (be_bytes 2 n) s"

definition put_u64 :: "u64 \<Rightarrow> u8 list \<Rightarrow> u8 list result" where
  "put_u64 i s = put (be_bytes 8 (unat i)) s"

definition put_len :: "nat \<Rightarrow> u8 list \<Rightarrow> u8 list result" where
  "put_len n s = (if n < 2 ^ 32 then put (be_bytes 4 n) s else Err E_CODEC)"

text \<open>The scalar arms of \<open>Encoder::value\<close>.\<close>

definition encode_scalar :: "scalar_type \<Rightarrow> value \<Rightarrow> u8 list \<Rightarrow> u8 list result" where
  "encode_scalar ty v s =
     (case (ty, v) of
        (TInt, VInt i) \<Rightarrow> put (signed_bytes 8 i) s
      | (TFloat, VFloat f) \<Rightarrow>
          if is_finite f then put (be_bytes 8 (unat (if f64_is_zero f then 0 else f))) s else Err E_CODEC
      | (TBool, VBool b) \<Rightarrow> put_u8 (if b then 1 else 0) s
      | (TUuid, VUuid u) \<Rightarrow> put u s
      | (TDate, VDate n) \<Rightarrow> put (signed_bytes 4 n) s
      | (TTimestamp, VTimestamp n) \<Rightarrow> put (signed_bytes 8 n) s
      | (TDuration, VDuration n) \<Rightarrow> put (signed_bytes 8 n) s
      | (TDecimal _ _, VDecimal d) \<Rightarrow> put (signed_bytes 16 (coefficient d)) s
      | (TBytes, VBytes bs) \<Rightarrow> and_then (put_len (length bs) s) (put bs)
      | (TText, VText t) \<Rightarrow> and_then (put_len (length t) s) (put (as_bytes t))
      | _ \<Rightarrow> Err E_CODEC)"

function encode_inner :: "catalog \<Rightarrow> nat \<Rightarrow> scalar_type \<Rightarrow> value \<Rightarrow> nat \<Rightarrow> u8 list \<Rightarrow> u8 list result" where
  "encode_inner c version ty v depth s =
     (if MAX_DEPTH \<le> depth then Err E_CODEC
      else case ty of
        TRef i \<Rightarrow>
          (case v of
             VNamed actual w \<Rightarrow>
               if actual \<noteq> i then Err E_CODEC
               else and_then (put_u64 i s) (\<lambda>s.
                 and_then (definition_of c i) (\<lambda>d. encode_inner c version (def_ty d) w (Suc depth) s))
           | _ \<Rightarrow> Err E_CODEC)
      | TRecord columns \<Rightarrow>
          (case v of
             VRecord fs \<Rightarrow>
               and_then (put_len (length columns) s) (\<lambda>s.
                 try_fold (\<lambda>s column.
                   and_then (put_u64 (col_id column) s) (\<lambda>s.
                     and_then (ok_or E_CODEC (bt_get fs (col_name column))) (\<lambda>field.
                       encode_inner c version (col_ty column) field (Suc depth) s)))
                   s (sort_key col_id columns))
           | _ \<Rightarrow> Err E_CODEC)
      | TTuple items \<Rightarrow>
          (case v of
             VTuple vs \<Rightarrow>
               if length vs \<noteq> length items then Err E_CODEC
               else and_then (put_len (length items) s) (\<lambda>s.
                 try_fold (\<lambda>s (t, w). encode_inner c version t w (Suc depth) s) s (zip items vs))
           | _ \<Rightarrow> Err E_CODEC)
      | TOption t \<Rightarrow>
          (case v of
             VOption None \<Rightarrow> put_u8 0 s
           | VOption (Some w) \<Rightarrow> and_then (put_u8 1 s) (\<lambda>s. encode_inner c version t w (Suc depth) s)
           | _ \<Rightarrow> Err E_CODEC)
      | TList t \<Rightarrow>
          (case v of
             VList vs \<Rightarrow>
               and_then (check_items (length vs)) (\<lambda>_.
                 and_then (put_len (length vs) s) (\<lambda>s.
                   try_fold (\<lambda>s w. encode_inner c version t w (Suc depth) s) s vs))
           | _ \<Rightarrow> Err E_CODEC)
      | TMap t \<Rightarrow>
          if version < MAP_VALUE_CODEC_VERSION then Err E_CODEC
          else (case v of
             VMap es \<Rightarrow>
               if length es > MAX_MAP_ENTRIES then Err E_CODEC
               else and_then (put_len (length es) s) (\<lambda>s.
                 try_fold (\<lambda>s (k, w).
                   if length k > MAX_MAP_KEY_BYTES then Err E_CODEC
                   else and_then (put_len (length k) s) (\<lambda>s.
                     and_then (put (as_bytes k) s) (\<lambda>s. encode_inner c version t w (Suc depth) s))) s es)
           | _ \<Rightarrow> Err E_CODEC)
      | TEnum variants \<Rightarrow>
          (case v of
             VEnum n as i \<Rightarrow>
               and_then (ok_or E_CODEC (find_variant variants i)) (\<lambda>variant.
                 if length as \<noteq> length (vd_args variant) then Err E_CODEC
                 else and_then (put_u64 i s) (\<lambda>s.
                   and_then (put_len (length as) s) (\<lambda>s.
                     try_fold (\<lambda>s (t, w). encode_inner c version t w (Suc depth) s) s (zip (vd_args variant) as))))
           | _ \<Rightarrow> Err E_CODEC)
      | TNamed _ \<Rightarrow> Err E_CODEC
      | _ \<Rightarrow> encode_scalar ty v s)"
  by pat_completeness auto
termination by (relation "measure (\<lambda>(c, version, ty, v, depth, s). MAX_DEPTH - depth)") auto

declare encode_inner.simps [simp del]

definition encode_value_version :: "catalog \<Rightarrow> scalar_type \<Rightarrow> value \<Rightarrow> nat \<Rightarrow> u8 list result" where
  "encode_value_version c ty v version =
     and_then (requires_protocol_v2 c ty) (\<lambda>v2.
       if v2 \<and> version < PRODUCTION_VALUE_CODEC_VERSION then Err E_CODEC
       else and_then (coerce c v ty) (\<lambda>v.
         and_then (put MAGIC []) (\<lambda>s.
           and_then (put_u16 version s) (\<lambda>s. encode_inner c version ty v 0 s))))"

definition encode_value :: "catalog \<Rightarrow> scalar_type \<Rightarrow> value \<Rightarrow> u8 list result" where
  "encode_value c ty v = encode_value_version c ty v VALUE_CODEC_VERSION"

definition encode_value_v2 :: "catalog \<Rightarrow> scalar_type \<Rightarrow> value \<Rightarrow> u8 list result" where
  "encode_value_v2 c ty v = encode_value_version c ty v PRODUCTION_VALUE_CODEC_VERSION"

definition encode_value_v3 :: "catalog \<Rightarrow> scalar_type \<Rightarrow> value \<Rightarrow> u8 list result" where
  "encode_value_v3 c ty v = encode_value_version c ty v MAP_VALUE_CODEC_VERSION"

section \<open>Decoder\<close>

definition length_field :: "nat reader" where
  "length_field bs = read_nat E_CODEC 4 bs"

definition read_text :: "nat \<Rightarrow> string reader" where
  "read_text n bs =
     and_then (take_bytes E_CODEC n bs) (\<lambda>(b, bs). and_then (ok_or E_CODEC (from_utf8 b)) (\<lambda>t. Ok (t, bs)))"

text \<open>A read value passed through a checked constructor, whose errors become codec errors.\<close>

definition read_checked :: "'a reader \<Rightarrow> ('a \<Rightarrow> 'b result) \<Rightarrow> 'b reader" where
  "read_checked r f bs = and_then (r bs) (\<lambda>(x, bs). and_then (map_err (\<lambda>_. E_CODEC) (f x)) (\<lambda>y. Ok (y, bs)))"

text \<open>The scalar arms of \<open>Decoder::value\<close>.\<close>

definition decode_scalar :: "scalar_type \<Rightarrow> value reader" where
  "decode_scalar ty bs =
     (case ty of
        TInt \<Rightarrow> and_then (read_signed E_CODEC 8 bs) (\<lambda>(i, bs). Ok (VInt i, bs))
      | TFloat \<Rightarrow> and_then (read_u64 E_CODEC bs) (\<lambda>(f, bs).
          if \<not> is_finite f then Err E_CODEC else Ok (VFloat (if f64_is_zero f then 0 else f), bs))
      | TBool \<Rightarrow> and_then (take_bytes E_CODEC 1 bs) (\<lambda>(b, bs).
          if hd b = 0 then Ok (VBool False, bs) else if hd b = 1 then Ok (VBool True, bs) else Err E_CODEC)
      | TUuid \<Rightarrow> and_then (take_bytes E_CODEC 16 bs) (\<lambda>(u, bs). Ok (VUuid u, bs))
      | TDate \<Rightarrow> and_then (read_checked (read_signed E_CODEC 4) date_from_epoch_days bs) (\<lambda>(n, bs). Ok (VDate n, bs))
      | TTimestamp \<Rightarrow>
          and_then (read_checked (read_signed E_CODEC 8) timestamp_from_epoch_microseconds bs)
            (\<lambda>(n, bs). Ok (VTimestamp n, bs))
      | TDuration \<Rightarrow> and_then (read_signed E_CODEC 8 bs) (\<lambda>(n, bs). Ok (VDuration n, bs))
      | TDecimal p s \<Rightarrow>
          and_then (read_checked (read_signed E_CODEC 16) (\<lambda>c. decimal_new c p s) bs) (\<lambda>(d, bs). Ok (VDecimal d, bs))
      | TBytes \<Rightarrow> and_then (length_field bs) (\<lambda>(n, bs).
          and_then (read_checked (take_bytes E_CODEC n) bytes_new bs) (\<lambda>(b, bs). Ok (VBytes b, bs)))
      | TText \<Rightarrow> and_then (length_field bs) (\<lambda>(n, bs).
          and_then (read_text n bs) (\<lambda>(t, bs). Ok (VText t, bs)))
      | _ \<Rightarrow> Err E_CODEC)"

text \<open>One round of the loop over the fields of a record, and one over the entries of a map.\<close>

definition read_field ::
  "(scalar_type \<Rightarrow> value reader) \<Rightarrow> column list \<Rightarrow> (string, value) btree \<times> u64 list \<Rightarrow>
   ((string, value) btree \<times> u64 list) reader" where
  "read_field dec columns st bs =
     (case st of (fs, seen) \<Rightarrow>
        and_then (read_u64 E_CODEC bs) (\<lambda>(field_id, bs).
          if field_id \<in> set seen then Err E_CODEC
          else and_then (ok_or E_CODEC (find (\<lambda>column. col_id column = field_id) columns)) (\<lambda>column.
            and_then (dec (col_ty column) bs) (\<lambda>(v, bs).
              Ok ((bt_insert (col_name column) v fs, bs_insert field_id seen), bs)))))"

definition read_entry ::
  "value reader \<Rightarrow> (string, value) btree \<times> string option \<Rightarrow> ((string, value) btree \<times> string option) reader" where
  "read_entry dec st bs =
     (case st of (entries, previous) \<Rightarrow>
        and_then (length_field bs) (\<lambda>(n, bs).
          if n > MAX_MAP_KEY_BYTES then Err E_CODEC
          else and_then (read_text n bs) (\<lambda>(key, bs).
            if (case previous of None \<Rightarrow> False | Some p \<Rightarrow> p \<ge> key) then Err E_CODEC
            else and_then (dec bs) (\<lambda>(v, bs). Ok ((bt_insert key v entries, Some key), bs)))))"

lemma read_field_cong [fundef_cong]:
  "cols = cols' \<Longrightarrow> st = st' \<Longrightarrow> bs = bs' \<Longrightarrow>
   (\<And>col b. col \<in> set cols' \<Longrightarrow> dec (col_ty col) b = dec' (col_ty col) b) \<Longrightarrow>
   read_field dec cols st bs = read_field dec' cols' st' bs'"
  unfolding read_field_def
  by (cases st') (auto intro!: and_then_cong simp: ok_or_Ok_iff find_Some_iff split: if_splits)

lemma read_entry_cong [fundef_cong]:
  "st = st' \<Longrightarrow> bs = bs' \<Longrightarrow> (\<And>b. dec b = dec' b) \<Longrightarrow> read_entry dec st bs = read_entry dec' st' bs'"
  by (metis ext)

function decode_inner :: "catalog \<Rightarrow> nat \<Rightarrow> scalar_type \<Rightarrow> nat \<Rightarrow> value reader" where
  "decode_inner c version ty depth bs =
     (if MAX_DEPTH \<le> depth then Err E_CODEC
      else case ty of
        TRef i \<Rightarrow>
          and_then (read_u64 E_CODEC bs) (\<lambda>(actual, bs).
            if actual \<noteq> i then Err E_CODEC
            else and_then (definition_of c i) (\<lambda>d.
              and_then (decode_inner c version (def_ty d) (Suc depth) bs) (\<lambda>(v, bs). Ok (VNamed i v, bs))))
      | TRecord columns \<Rightarrow>
          and_then (length_field bs) (\<lambda>(count, bs).
            if count \<noteq> length columns then Err E_CODEC
            else and_then
              (try_fold (\<lambda>(st, bs) u. read_field (\<lambda>t bs. decode_inner c version t (Suc depth) bs) columns st bs)
                (([], []), bs) (replicate count ()))
              (\<lambda>((fs, seen), bs). Ok (VRecord fs, bs)))
      | TTuple ts \<Rightarrow>
          and_then (length_field bs) (\<lambda>(count, bs).
            if count \<noteq> length ts then Err E_CODEC
            else and_then (traverse_state (\<lambda>bs t. decode_inner c version t (Suc depth) bs) bs ts)
              (\<lambda>(vs, bs). Ok (VTuple vs, bs)))
      | TOption t \<Rightarrow>
          and_then (take_bytes E_CODEC 1 bs) (\<lambda>(b, bs).
            if hd b = 0 then Ok (VOption None, bs)
            else if hd b = 1 then
              and_then (decode_inner c version t (Suc depth) bs) (\<lambda>(v, bs). Ok (VOption (Some v), bs))
            else Err E_CODEC)
      | TList t \<Rightarrow>
          and_then (length_field bs) (\<lambda>(count, bs).
            and_then (check_items count) (\<lambda>_.
              if count > length bs then Err E_CODEC
              else and_then
                (traverse_state (\<lambda>bs t. decode_inner c version t (Suc depth) bs) bs (replicate count t))
                (\<lambda>(vs, bs). Ok (VList vs, bs))))
      | TMap t \<Rightarrow>
          if version < MAP_VALUE_CODEC_VERSION then Err E_CODEC
          else and_then (length_field bs) (\<lambda>(count, bs).
            if count > MAX_MAP_ENTRIES then Err E_CODEC
            else and_then
              (try_fold (\<lambda>(st, bs) u. read_entry (\<lambda>bs. decode_inner c version t (Suc depth) bs) st bs)
                (([], None), bs) (replicate count ()))
              (\<lambda>((entries, previous), bs). Ok (VMap entries, bs)))
      | TEnum variants \<Rightarrow>
          and_then (read_u64 E_CODEC bs) (\<lambda>(variant_id, bs).
            and_then (ok_or E_CODEC (find_variant variants variant_id)) (\<lambda>variant.
              and_then (length_field bs) (\<lambda>(count, bs).
                if count \<noteq> length (vd_args variant) then Err E_CODEC
                else and_then (traverse_state (\<lambda>bs t. decode_inner c version t (Suc depth) bs) bs (vd_args variant))
                  (\<lambda>(as, bs). Ok (VEnum (vd_name variant) as variant_id, bs)))))
      | TNamed _ \<Rightarrow> Err E_CODEC
      | _ \<Rightarrow> decode_scalar ty bs)"
  by pat_completeness auto
termination by (relation "measure (\<lambda>(c, version, ty, depth, bs). MAX_DEPTH - depth)") auto

declare decode_inner.simps [simp del]

definition decode_value :: "catalog \<Rightarrow> scalar_type \<Rightarrow> u8 list \<Rightarrow> value result" where
  "decode_value c ty bytes =
     (if length bytes > MAX_VALUE_BYTES then Err E_CODEC
      else and_then (take_bytes E_CODEC (length MAGIC) bytes) (\<lambda>(m, bs).
        if m \<noteq> MAGIC then Err E_CODEC
        else and_then (read_nat E_CODEC 2 bs) (\<lambda>(version, bs).
          if version \<noteq> VALUE_CODEC_VERSION \<and> version \<noteq> PRODUCTION_VALUE_CODEC_VERSION \<and>
             version \<noteq> MAP_VALUE_CODEC_VERSION then Err E_CODEC
          else and_then (requires_protocol_v2 c ty) (\<lambda>v2.
            if v2 \<and> version < PRODUCTION_VALUE_CODEC_VERSION then Err E_CODEC
            else and_then (decode_inner c version ty 0 bs) (\<lambda>(v, bs).
              if bs \<noteq> [] then Err E_CODEC else Ok v)))))"

section \<open>The format as a function\<close>

text \<open>
  The bytes of a value without limits, and the values a version of the format can hold.  The encoder is
  this function behind the size limit, and the decoder inverts it.
\<close>

definition scalar_bytes :: "value \<Rightarrow> u8 list" where
  "scalar_bytes v =
     (case v of
        VInt i \<Rightarrow> signed_bytes 8 i
      | VFloat f \<Rightarrow> be_bytes 8 (unat f)
      | VBool b \<Rightarrow> [if b then 1 else 0]
      | VUuid u \<Rightarrow> u
      | VDate n \<Rightarrow> signed_bytes 4 n
      | VTimestamp n \<Rightarrow> signed_bytes 8 n
      | VDuration n \<Rightarrow> signed_bytes 8 n
      | VDecimal d \<Rightarrow> signed_bytes 16 (coefficient d)
      | VBytes bs \<Rightarrow> be_bytes 4 (length bs) @ bs
      | VText t \<Rightarrow> be_bytes 4 (length t) @ as_bytes t
      | _ \<Rightarrow> [])"

lemma bt_get_size: "bt_get fs k = Some w \<Longrightarrow> size w < Suc (size_list (size_prod g size) fs)"
  by (auto dest!: bt_get_SomeD intro: size_snd_mem)

function value_bytes :: "catalog \<Rightarrow> scalar_type \<Rightarrow> value \<Rightarrow> u8 list" where
  "value_bytes c ty v =
     (case (ty, v) of
        (TRef i, VNamed j w) \<Rightarrow>
          be_bytes 8 (unat i) @ (case definition_of c i of Ok d \<Rightarrow> value_bytes c (def_ty d) w | Err _ \<Rightarrow> [])
      | (TRecord cols, VRecord fs) \<Rightarrow>
          be_bytes 4 (length cols) @ concat (map (\<lambda>col. be_bytes 8 (unat (col_id col)) @
            (case bt_get fs (col_name col) of Some w \<Rightarrow> value_bytes c (col_ty col) w | None \<Rightarrow> []))
            (sort_key col_id cols))
      | (TTuple ts, VTuple vs) \<Rightarrow>
          be_bytes 4 (length ts) @ concat (map (\<lambda>(w, t). value_bytes c t w) (zip vs ts))
      | (TOption t, VOption ov) \<Rightarrow> (case ov of None \<Rightarrow> [0] | Some w \<Rightarrow> 1 # value_bytes c t w)
      | (TList t, VList vs) \<Rightarrow> be_bytes 4 (length vs) @ concat (map (\<lambda>w. value_bytes c t w) vs)
      | (TMap t, VMap es) \<Rightarrow>
          be_bytes 4 (length es) @
          concat (map (\<lambda>(k, w). be_bytes 4 (length k) @ as_bytes k @ value_bytes c t w) es)
      | (TEnum vs, VEnum n as i) \<Rightarrow>
          be_bytes 8 (unat i) @ be_bytes 4 (length as) @
          (case find_variant vs i of
             Some v \<Rightarrow> concat (map (\<lambda>(w, t). value_bytes c t w) (zip as (vd_args v))) | None \<Rightarrow> [])
      | _ \<Rightarrow> scalar_bytes v)"
  by pat_completeness auto
termination
  by (relation "measure (\<lambda>(c, ty, v). size v)")
     (auto intro: size_zip_mem size_snd_mem bt_get_size size_list_mem [where f = size, THEN le_imp_less_Suc])

declare value_bytes.simps [simp del]

fun fits_version :: "nat \<Rightarrow> value \<Rightarrow> bool" where
  "fits_version n (VEnum _ as _) = list_all (fits_version n) as"
| "fits_version n (VRecord fs) = list_all (\<lambda>(k, v). fits_version n v) fs"
| "fits_version n (VTuple vs) = list_all (fits_version n) vs"
| "fits_version n (VList vs) = (length vs \<le> MAX_COLLECTION_ITEMS \<and> list_all (fits_version n) vs)"
| "fits_version n (VMap es) = (MAP_VALUE_CODEC_VERSION \<le> n \<and> list_all (\<lambda>(k, v). fits_version n v) es)"
| "fits_version n (VOption ov) = (case ov of None \<Rightarrow> True | Some v \<Rightarrow> fits_version n v)"
| "fits_version n (VNamed _ v) = fits_version n v"
| "fits_version n _ = True"

lemma value_bytes_simps:
  "value_bytes c (TRef i) (VNamed j w) =
     be_bytes 8 (unat i) @ (case definition_of c i of Ok d \<Rightarrow> value_bytes c (def_ty d) w | Err _ \<Rightarrow> [])"
  "value_bytes c (TRecord cols) (VRecord fs) =
     be_bytes 4 (length cols) @ concat (map (\<lambda>col. be_bytes 8 (unat (col_id col)) @
       (case bt_get fs (col_name col) of Some w \<Rightarrow> value_bytes c (col_ty col) w | None \<Rightarrow> [])) (sort_key col_id cols))"
  "value_bytes c (TTuple ts) (VTuple vs) =
     be_bytes 4 (length ts) @ concat (map (\<lambda>(w, t). value_bytes c t w) (zip vs ts))"
  "value_bytes c (TOption t) (VOption ov) = (case ov of None \<Rightarrow> [0] | Some w \<Rightarrow> 1 # value_bytes c t w)"
  "value_bytes c (TList t) (VList vs) = be_bytes 4 (length vs) @ concat (map (value_bytes c t) vs)"
  "value_bytes c (TMap t) (VMap es) =
     be_bytes 4 (length es) @ concat (map (\<lambda>(k, w). be_bytes 4 (length k) @ as_bytes k @ value_bytes c t w) es)"
  "value_bytes c (TEnum variants) (VEnum n as i) =
     be_bytes 8 (unat i) @ be_bytes 4 (length as) @
     (case find_variant variants i of
        Some v \<Rightarrow> concat (map (\<lambda>(w, t). value_bytes c t w) (zip as (vd_args v))) | None \<Rightarrow> [])"
  by (subst value_bytes.simps, simp cong: option.case_cong)+

lemma value_bytes_scalar:
  "value_bytes c TInt v = scalar_bytes v" "value_bytes c TFloat v = scalar_bytes v"
  "value_bytes c TBool v = scalar_bytes v" "value_bytes c TText v = scalar_bytes v"
  "value_bytes c TUuid v = scalar_bytes v" "value_bytes c TDate v = scalar_bytes v"
  "value_bytes c TTimestamp v = scalar_bytes v" "value_bytes c TDuration v = scalar_bytes v"
  "value_bytes c (TDecimal p s) v = scalar_bytes v" "value_bytes c TBytes v = scalar_bytes v"
  by (subst value_bytes.simps, simp)+

lemma value_bytes_nonempty: "has_type c ty v \<Longrightarrow> value_bytes c ty v \<noteq> []"
proof -
  have be: "be_bytes 4 n \<noteq> []" "be_bytes 8 n \<noteq> []" "signed_bytes 8 i \<noteq> []" "signed_bytes 4 i \<noteq> []"
    "signed_bytes 16 i \<noteq> []" for n i
    by (metis length_be_bytes length_signed_bytes list.size(3) zero_neq_numeral)+
  assume "has_type c ty v"
  then show ?thesis
    by (cases ty) (auto simp: value_bytes_simps value_bytes_scalar scalar_bytes_def be)
qed

lemma length_concat_ge: "(\<And>x. x \<in> set xs \<Longrightarrow> g x \<noteq> []) \<Longrightarrow> length xs \<le> length (concat (map g xs))"
proof (induction xs)
  case (Cons x xs)
  have "0 < length (g x)" using Cons.prems by simp
  moreover have "length xs \<le> length (concat (map g xs))" using Cons by simp
  ultimately show ?case by (cases "g x") auto
qed simp

section \<open>The encoder writes the format\<close>

abbreviation "encodes f P bs \<equiv> writes E_CODEC MAX_VALUE_BYTES f P bs"

lemma writes_weaken:
  "writes e limit f P bs \<Longrightarrow> (P \<longrightarrow> Q) \<and> (Q \<longrightarrow> P \<or> limit < length bs) \<Longrightarrow> writes e limit f Q bs"
  unfolding writes_def by (intro allI impI) (auto dest!: spec)

lemma encodes_put: "encodes (put bs) True bs" "encodes (put_u8 b) True [b]" "encodes (put_u64 i) True (be_bytes 8 (unat i))"
  unfolding put_def [abs_def] put_u8_def [abs_def] put_u64_def [abs_def] by (rule writes_put)+

lemma encodes_len: "encodes (put_len n) (n < 2 ^ 32) (be_bytes 4 n)"
  using writes_if [OF encodes_put(1)] unfolding put_len_def [abs_def] by simp

lemmas encodes_seq = writes_seq [of E_CODEC MAX_VALUE_BYTES]

text \<open>A length that does not fit 32 bits belongs to something too long anyway.\<close>

lemma encodes_counted:
  assumes "encodes f P bs" and "n \<le> length bs"
  shows "encodes (\<lambda>s. and_then (put_len n s) f) P (be_bytes 4 n @ bs)"
proof (rule writes_weaken [OF encodes_seq [OF encodes_len assms(1)]])
  have "MAX_VALUE_BYTES < length (be_bytes 4 n @ bs)" if "\<not> n < 2 ^ 32"
    using that assms(2) by (simp add: MAX_VALUE_BYTES_def)
  then show "(n < 2 ^ 32 \<and> P \<longrightarrow> P) \<and> (P \<longrightarrow> (n < 2 ^ 32 \<and> P) \<or> MAX_VALUE_BYTES < length (be_bytes 4 n @ bs))"
    by blast
qed

lemma encodes_scalar:
  assumes "has_type c ty v" and "ty \<in> {TInt, TFloat, TBool, TUuid, TDate, TTimestamp, TDuration, TBytes, TText} \<or> (\<exists>p s. ty = TDecimal p s)"
  shows "encodes (encode_scalar ty v) True (scalar_bytes v) \<and> fits_version n v"
proof -
  have float: "encodes (\<lambda>s. encode_scalar TFloat (VFloat f) s) True (be_bytes 8 (unat f))" if "canonical_float f" for f
    using that encodes_put(1) by (cases "f64_is_zero f") (auto simp: encode_scalar_def [abs_def] canonical_float_def)
  have "encodes (\<lambda>s. and_then (put_len (length b) s) (put b)) True (be_bytes 4 (length b) @ b)" for b
    by (rule encodes_counted [OF encodes_put(1)]) simp
  from assms this [of "as_bytes t" for t] this float encodes_put show ?thesis
    by (auto simp: encode_scalar_def [abs_def] scalar_bytes_def)
qed

lemma concat_zip_swap: "concat (map (\<lambda>(w, t). f t w) (zip xs ys)) = concat (map (\<lambda>(t, w). f t w) (zip ys xs))"
  by (induction ys arbitrary: xs) (auto simp: zip_Cons1 split: list.splits)

lemma zip_setD: "list_all2 P ts ws \<Longrightarrow> (t, w) \<in> set (zip ts ws) \<Longrightarrow> P t w \<and> t \<in> set ts"
  by (auto simp: list_all2_iff dest: set_zip_leftD)

text \<open>The sequences of the format: values zipped with their types.\<close>

lemma encodes_items:
  assumes "list_all2 (conforms c d) ts ws"
    and "\<And>t w. t \<in> set ts \<Longrightarrow> conforms c d t w \<Longrightarrow> encodes (g t w) (fits_version n w) (value_bytes c t w)"
  shows "encodes (\<lambda>s. and_then (put_len (length ts) s) (\<lambda>s. try_fold (\<lambda>s (t, w). g t w s) s (zip ts ws)))
    (list_all (fits_version n) ws) (be_bytes 4 (length ts) @ concat (map (\<lambda>(w, t). value_bytes c t w) (zip ws ts)))"
proof -
  have len: "length ts = length (zip ts ws)" using assms(1) by (auto simp: list_all2_iff)
  have ws: "list_all (fits_version n) ws \<longleftrightarrow> (\<forall>(t, w) \<in> set (zip ts ws). fits_version n w)"
  proof -
    have "set ws = snd ` set (zip ts ws)" using len assms(1) by (simp add: list_all2_lengthD flip: set_map)
    then show ?thesis by (simp add: list_all_iff split_def)
  qed
  have item: "encodes (g t w) (fits_version n w) (value_bytes c t w)" "value_bytes c t w \<noteq> []"
    if "(t, w) \<in> set (zip ts ws)" for t w
    using zip_setD [OF assms(1) that] assms(2) value_bytes_nonempty by (auto simp: conforms_def)
  have "encodes (\<lambda>s. try_fold (\<lambda>s p. case p of (t, w) \<Rightarrow> g t w s) s (zip ts ws))
     (\<forall>p \<in> set (zip ts ws). case p of (t, w) \<Rightarrow> fits_version n w)
     (concat (map (\<lambda>(t, w). value_bytes c t w) (zip ts ws)))"
    by (rule writes_fold) (use item(1) in auto)
  moreover have "length (zip ts ws) \<le> length (concat (map (\<lambda>(t, w). value_bytes c t w) (zip ts ws)))"
    by (rule length_concat_ge) (use item(2) in auto)
  ultimately show ?thesis
    unfolding concat_zip_swap [of "value_bytes c" ws ts] ws len by (rule encodes_counted)
qed

lemma encodes_record:
  assumes ok: "own_ok c (TRecord cols)" and len: "bt_ok fs" "length fs = length cols"
    and fs: "\<forall>(k, w) \<in> set fs. \<exists>col. find_column cols k = Some col \<and> string_ok k \<and> conforms c d (col_ty col) w"
    and g: "\<And>t w. t \<in> col_ty ` set cols \<Longrightarrow> conforms c d t w \<Longrightarrow> encodes (g t w) (fits_version n w) (value_bytes c t w)"
  shows "encodes (\<lambda>s. and_then (put_len (length cols) s) (\<lambda>s. try_fold (\<lambda>s col.
       and_then (put_u64 (col_id col) s) (\<lambda>s. and_then (ok_or E_CODEC (bt_get fs (col_name col))) (\<lambda>w. g (col_ty col) w s)))
       s (sort_key col_id cols)))
    (list_all (\<lambda>(k, w). fits_version n w) fs) (value_bytes c (TRecord cols) (VRecord fs))"
proof -
  have dist: "distinct (map col_name cols)" using ok by simp
  have "\<forall>(k, w) \<in> set fs. \<exists>col. find_column cols k = Some col \<and> conforms c d (col_ty col) w" using fs by fastforce
  note cols = record_columns [OF len dist this]
  obtain v where get: "\<And>col. col \<in> set cols \<Longrightarrow> bt_get fs (col_name col) = Some (v col)"
    "\<And>col. col \<in> set cols \<Longrightarrow> conforms c d (col_ty col) (v col)"
    using bchoice [OF cols(1)] by blast
  have "snd ` set fs = v ` set cols"
  proof (rule set_eqI, rule iffI)
    fix w assume "w \<in> snd ` set fs"
    then obtain k where k: "(k, w) \<in> set fs" by force
    then obtain col where "col \<in> set cols" "col_name col = k" using cols(2) by (metis fst_conv imageE imageI)
    then show "w \<in> v ` set cols" using k get(1) bt_get_Some_iff [OF len(1), of k w] by auto
  next
    fix w assume "w \<in> v ` set cols"
    then show "w \<in> snd ` set fs" using get(1) by (force dest: bt_get_SomeD)
  qed
  then have fits: "list_all (\<lambda>(k, w). fits_version n w) fs \<longleftrightarrow> (\<forall>col \<in> set (sort_key col_id cols). True \<and> fits_version n (v col))"
    by (simp add: list_all_iff split_def) (metis (no_types, lifting) image_iff)
  have bytes: "concat (map (\<lambda>col. be_bytes 8 (unat (col_id col)) @
      (case bt_get fs (col_name col) of Some w \<Rightarrow> value_bytes c (col_ty col) w | None \<Rightarrow> [])) (sort_key col_id cols)) =
    concat (map (\<lambda>col. be_bytes 8 (unat (col_id col)) @ value_bytes c (col_ty col) (v col)) (sort_key col_id cols))"
    by (intro arg_cong [where f = concat] map_cong) (simp_all add: get(1))
  have "value_bytes c (col_ty col) (v col) \<noteq> []" if "col \<in> set cols" for col
    using get(2) [OF that] value_bytes_nonempty by (auto simp: conforms_def)
  then have ge: "length (sort_key col_id cols) \<le>
      length (concat (map (\<lambda>col. be_bytes 8 (unat (col_id col)) @ value_bytes c (col_ty col) (v col)) (sort_key col_id cols)))"
    by (intro length_concat_ge) simp
  have item: "encodes (\<lambda>s. and_then (ok_or E_CODEC (bt_get fs (col_name col))) (\<lambda>w. g (col_ty col) w s))
      (fits_version n (v col)) (value_bytes c (col_ty col) (v col))" if "col \<in> set cols" for col
    using that g [OF _ get(2) [OF that]] by (simp add: get(1))
  show ?thesis
    unfolding value_bytes_simps bytes fits
    by (rule encodes_counted [OF writes_fold ge [simplified length_sort]], rule encodes_seq [OF encodes_put(3) item]) simp
qed

lemma encodes_list:
  assumes "list_all (conforms c d t) ws"
    and g: "\<And>w. conforms c d t w \<Longrightarrow> encodes (g w) (fits_version n w) (value_bytes c t w)"
  shows "encodes (\<lambda>s. and_then (check_items (length ws)) (\<lambda>_. and_then (put_len (length ws) s) (\<lambda>s. try_fold (\<lambda>s w. g w s) s ws)))
    (fits_version n (VList ws)) (value_bytes c (TList t) (VList ws))"
proof -
  have item: "encodes (\<lambda>s. g w s) (fits_version n w) (value_bytes c t w)" "value_bytes c t w \<noteq> []" if "w \<in> set ws" for w
    using assms(1) g that value_bytes_nonempty by (auto simp: list_all_iff conforms_def)
  have "encodes (\<lambda>s. and_then (put_len (length ws) s) (\<lambda>s. try_fold (\<lambda>s w. g w s) s ws))
     (\<forall>w \<in> set ws. fits_version n w) (value_bytes c (TList t) (VList ws))"
    unfolding value_bytes_simps by (intro encodes_counted writes_fold length_concat_ge) (use item in auto)
  from writes_if [of "length ws \<le> MAX_COLLECTION_ITEMS", OF this] show ?thesis
    by (cases "length ws \<le> MAX_COLLECTION_ITEMS") (simp_all add: list_all_iff check_items_def)
qed

lemma encodes_map:
  assumes "list_all (\<lambda>(k, w). string_ok k \<and> length k \<le> MAX_MAP_KEY_BYTES \<and> conforms c d t w) es"
    and g: "\<And>w. conforms c d t w \<Longrightarrow> encodes (g w) (fits_version n w) (value_bytes c t w)"
  shows "encodes (\<lambda>s. and_then (put_len (length es) s) (\<lambda>s. try_fold (\<lambda>s (k, w).
       if length k > MAX_MAP_KEY_BYTES then Err E_CODEC
       else and_then (put_len (length k) s) (\<lambda>s. and_then (put (as_bytes k) s) (\<lambda>s. g w s))) s es))
    (list_all (\<lambda>(k, w). fits_version n w) es) (value_bytes c (TMap t) (VMap es))"
proof -
  have item: "encodes (\<lambda>s. if length k > MAX_MAP_KEY_BYTES then Err E_CODEC
        else and_then (put_len (length k) s) (\<lambda>s. and_then (put (as_bytes k) s) (\<lambda>s. g w s)))
      (fits_version n w) (be_bytes 4 (length k) @ as_bytes k @ value_bytes c t w)"
    "value_bytes c t w \<noteq> []" if "(k, w) \<in> set es" for k w
  proof -
    from that assms(1) have kw: "length k \<le> MAX_MAP_KEY_BYTES" "conforms c d t w" by (auto simp: list_all_iff)
    from encodes_counted [OF encodes_seq [OF encodes_put(1) g [OF kw(2)]], of "length k" "as_bytes k"] kw(1)
    show "encodes (\<lambda>s. if length k > MAX_MAP_KEY_BYTES then Err E_CODEC
        else and_then (put_len (length k) s) (\<lambda>s. and_then (put (as_bytes k) s) (\<lambda>s. g w s)))
      (fits_version n w) (be_bytes 4 (length k) @ as_bytes k @ value_bytes c t w)" by simp
    show "value_bytes c t w \<noteq> []" using kw(2) value_bytes_nonempty by (simp add: conforms_def)
  qed
  show ?thesis
    unfolding value_bytes_simps list_all_iff
    by (intro encodes_counted writes_fold length_concat_ge) (use item in auto)
qed

lemma encode_inner_writes:
  assumes "types_ok c"
  shows "conforms c d ty v \<Longrightarrow> type_ok c ty \<Longrightarrow>
    encodes (encode_inner c n ty v d) (fits_version n v) (value_bytes c ty v)"
proof (induction d arbitrary: ty v rule: depth_induct)
  case (limit d)
  then show ?case using conforms_depth by fastforce
next
  case (step d)
  note d = step.hyps
  note IH = step.IH
  have nd: "\<not> MAX_DEPTH \<le> d" using d by simp
  show ?case
  proof (cases ty)
    case (TRef i)
    with step.prems obtain w def where w: "v = VNamed i w" "definition_of c i = Ok def" "conforms c (Suc d) (def_ty def) w"
      by auto
    from encodes_seq [OF encodes_put(3) IH [OF w(3) types_okD [OF assms w(2)]]]
    show ?thesis unfolding TRef w(1) by (subst encode_inner.simps [abs_def]) (simp add: nd w(2) value_bytes_simps)
  next
    case (TRecord cols)
    with step.prems obtain fs where fs: "v = VRecord fs" "bt_ok fs" "length fs = length cols"
      "\<forall>(k, w) \<in> set fs. \<exists>col. find_column cols k = Some col \<and> string_ok k \<and> conforms c (Suc d) (col_ty col) w"
      by auto
    have "own_ok c (TRecord cols)" using step.prems(2) TRecord by simp
    from encodes_record [OF this fs(2-4) IH] step.prems(2) TRecord
    show ?thesis unfolding TRecord fs(1) by (subst encode_inner.simps [abs_def]) (auto simp: nd)
  next
    case (TTuple ts)
    with step.prems obtain ws where ws: "v = VTuple ws" "list_all2 (conforms c (Suc d)) ts ws" by auto
    from encodes_items [OF ws(2) IH] step.prems(2) TTuple list_all2_lengthD [OF ws(2)]
    show ?thesis unfolding TTuple ws(1)
      by (subst encode_inner.simps [abs_def]) (auto simp: nd value_bytes_simps list_all_iff)
  next
    case (TEnum variants)
    with step.prems obtain as u where u: "v = VEnum (vd_name u) as (vd_id u)" "find_variant variants (vd_id u) = Some u"
      "list_all2 (conforms c (Suc d)) (vd_args u) as" by auto
    have "type_ok c t" if "t \<in> set (vd_args u)" for t
      using step.prems(2) TEnum find_variant_Some [OF u(2)] that by auto
    from encodes_seq [OF encodes_put(3) encodes_items [OF u(3) IH [OF _ this]]] list_all2_lengthD [OF u(3)] u(2)
    show ?thesis unfolding TEnum u(1) by (subst encode_inner.simps [abs_def]) (auto simp: nd value_bytes_simps)
  next
    case (TOption t)
    then consider "v = VOption None" | w where "v = VOption (Some w)" "conforms c (Suc d) t w" using step.prems by auto
    then show ?thesis
    proof cases
      case 1
      then show ?thesis unfolding TOption 1 using encodes_put(2)
        by (subst encode_inner.simps [abs_def]) (simp add: nd value_bytes_simps)
    next
      case (2 w)
      from encodes_seq [OF encodes_put(2) IH [OF 2(2)]] step.prems(2) TOption
      show ?thesis unfolding TOption 2(1)
        by (subst encode_inner.simps [abs_def]) (auto simp: nd value_bytes_simps)
    qed
  next
    case (TList t)
    with step.prems obtain ws where ws: "v = VList ws" "list_all (conforms c (Suc d) t) ws" by auto
    from encodes_list [OF ws(2) IH] step.prems(2) TList show ?thesis unfolding TList ws(1)
      by (subst encode_inner.simps [abs_def]) (simp add: nd)
  next
    case (TMap t)
    with step.prems obtain es where es: "v = VMap es" "length es \<le> MAX_MAP_ENTRIES"
      "list_all (\<lambda>(k, w). string_ok k \<and> length k \<le> MAX_MAP_KEY_BYTES \<and> conforms c (Suc d) t w) es" by auto
    from writes_if [of "MAP_VALUE_CODEC_VERSION \<le> n", OF encodes_map [OF es(3) IH]] es(2) step.prems(2) TMap
    show ?thesis unfolding TMap es(1)
      by (subst encode_inner.simps [abs_def], cases "MAP_VALUE_CODEC_VERSION \<le> n") (simp_all add: nd)
  qed (use step.prems encodes_scalar [of c ty v n] in
      \<open>(simp only:; subst encode_inner.simps [abs_def]; auto simp: nd value_bytes_scalar conforms_def)+\<close>)
qed

section \<open>The decoder inverts the format\<close>

lemma read_length [simp]: "n < 2 ^ 32 \<Longrightarrow> length_field (be_bytes 4 n @ rest) = Ok (n, rest)"
  using length_code.dec_enc [of n E_CODEC rest] by (simp add: length_field_def)

lemma read_u64_be [simp]: "read_u64 E_CODEC (be_bytes 8 (unat i) @ rest) = Ok (i, rest)"
  by (rule u64_code.dec_enc) simp

lemma read_text_as_bytes [simp]: "string_ok t \<Longrightarrow> read_text (length t) (as_bytes t @ rest) = Ok (t, rest)"
  by (simp add: read_text_def from_utf8_as_bytes)

lemma take_one [simp]: "take_bytes e (Suc 0) (b # rest) = Ok ([b], rest)"
  by (simp add: take_bytes_def)

lemma reads_traverse:
  "list_all2 (\<lambda>x y. reads (\<lambda>bs. f bs x) (g x y) y) xs ys \<Longrightarrow>
   reads (\<lambda>bs. traverse_state f bs xs) (concat (map (\<lambda>(y, x). g x y) (zip ys xs))) ys"
  by (induction rule: list_all2_induct) (simp_all add: reads_def)

lemma decode_scalar_bytes:
  assumes "has_type c ty v" and "ty \<in> {TInt, TFloat, TBool, TUuid, TDate, TTimestamp, TDuration, TBytes, TText} \<or> (\<exists>p s. ty = TDecimal p s)"
    and "length (scalar_bytes v) \<le> MAX_VALUE_BYTES"
  shows "decode_scalar ty (scalar_bytes v @ rest) = Ok (v, rest)"
proof -
  have date: "in_i32 n" if "date_ok n" for n using that by (auto simp: date_ok_iff EPOCH_DAYS_def in_i32_def)
  have zero: "read_u64 E_CODEC (be_bytes 8 0 @ rest) = Ok (0, rest)" using read_u64_be [of 0 rest] by simp
  show ?thesis
    using assms zero i64_code.dec_enc [of _ E_CODEC] i32_code.dec_enc [of _ E_CODEC] i128_code.dec_enc [of _ E_CODEC]
    by (auto simp: decode_scalar_def scalar_bytes_def read_checked_def date timestamp_ok_i64 date_from_epoch_days_iff [THEN iffD2]
      timestamp_from_epoch_iff [THEN iffD2] decimal_new_iff [THEN iffD2] decimal_ok_i128 bytes_new_def canonical_float_def
      MAX_VALUE_BYTES_def)
qed

lemma find_column_id: "distinct (map col_id cols) \<Longrightarrow> col \<in> set cols \<Longrightarrow> find (\<lambda>col'. col_id col' = col_id col) cols = Some col"
  by (induction cols) (auto simp: image_iff)

lemma reads_record:
  assumes ids: "distinct (map col_id cols)" and names: "distinct (map col_name cols)" and fs: "bt_ok fs"
    and keys: "fst ` set fs = col_name ` set cols"
    and get: "\<And>col. col \<in> set cols \<Longrightarrow> bt_get fs (col_name col) = Some (v col)"
    and dec: "\<And>col. col \<in> set cols \<Longrightarrow> reads (dec (col_ty col)) (g col) (v col)"
  shows "\<exists>seen. reads (\<lambda>bs. try_fold (\<lambda>(st, bs) u. read_field dec cols st bs) (([], []), bs) (replicate (length cols) ()))
    (concat (map (\<lambda>col. be_bytes 8 (unat (col_id col)) @ g col) (sort_key col_id cols))) (fs, seen)"
proof -
  let ?cols = "sort_key col_id cols"
  let ?ps = "map (\<lambda>col. (col_name col, v col)) ?cols"
  define F where "F cs = (bt.from_pairs (map (\<lambda>col. (col_name col, v col)) cs), fold bs_insert (map col_id cs) [])" for cs
  have seen: "set (fold bs_insert is []) = set is" for "is" :: "u64 list"
    by (induction "is" rule: rev_induct) auto
  have dist: "distinct (map col_id ?cols)" using ids by (metis distinct_map distinct_sort set_sort)
  have "reads (read_field dec cols (F pre)) (be_bytes 8 (unat (col_id col)) @ g col) (F (pre @ [col]))"
    if split: "?cols = pre @ col # post" for pre col post
  proof -
    have col: "col \<in> set cols" using split by (metis in_set_conv_decomp set_sort)
    have "col_id col \<notin> set (map col_id pre)" using dist split by auto
    with dec [OF col] find_column_id [OF ids col] show ?thesis
      by (auto simp: reads_def read_field_def F_def seen bt.from_pairs_def)
  qed
  from reads_loop [of ?cols "read_field dec cols" F, OF this]
  have "reads (\<lambda>bs. try_fold (\<lambda>(st, bs) u. read_field dec cols st bs) (F [], bs) (replicate (length cols) ()))
    (concat (map (\<lambda>col. be_bytes 8 (unat (col_id col)) @ g col) ?cols)) (F ?cols)" by simp
  moreover have "bt.from_pairs ?ps = fs"
  proof (rule bt_ext_keys_values [OF bt.ok_from_pairs fs])
    fix k
    have dist: "distinct (map fst ?ps)"
      using names by (simp add: comp_def) (metis distinct_map distinct_sort set_sort)
    have "map_of ?ps k = bt_get fs k"
    proof (cases "k \<in> fst ` set fs")
      case True
      then obtain col where "col \<in> set cols" "k = col_name col" using keys by auto
      then show ?thesis using dist get by (auto simp: map_of_eq_Some_iff)
    next
      case False
      then have "bt_get fs k = None" by (simp add: bt_get_None_iff)
      moreover have "map_of ?ps k = None" using False keys by (auto simp: map_of_eq_None_iff)
      ultimately show ?thesis by simp
    qed
    then show "bt_get (bt.from_pairs ?ps) k = bt_get fs k" by (simp add: bt.get_from_pairs [OF dist])
  qed
  ultimately show ?thesis by (auto simp: F_def bt.from_pairs_def)
qed

lemma reads_map:
  assumes "bt_ok es" and "list_all (\<lambda>(k, w). string_ok k \<and> length k \<le> MAX_MAP_KEY_BYTES \<and> reads dec (g w) w) es"
  shows "\<exists>previous. reads (\<lambda>bs. try_fold (\<lambda>(st, bs) u. read_entry dec st bs) (([], None), bs) (replicate (length es) ()))
    (concat (map (\<lambda>(k, w). be_bytes 4 (length k) @ as_bytes k @ g w) es)) (es, previous)"
proof -
  define F where "F es = (es, if es = [] then None else Some (fst (last es)))" for es :: "(string \<times> value) list"
  have "reads (read_entry dec (F pre)) (case e of (k, w) \<Rightarrow> be_bytes 4 (length k) @ as_bytes k @ g w) (F (pre @ [e]))"
    if split: "es = pre @ e # post" for pre e post
  proof -
    obtain k w where e: "e = (k, w)" by fastforce
    have kw: "string_ok k" "length k \<le> MAX_MAP_KEY_BYTES" "reads dec (g w) w" using assms(2) split e by auto
    have less: "\<forall>k' \<in> fst ` set pre. k' < k" using assms(1) split e by (auto simp: bt_ok_def sorted_wrt_append)
    then have "\<not> k \<le> fst (last pre)" if "pre \<noteq> []" using that by (auto simp: not_le)
    with kw bt_insert_last [OF less, of w] show ?thesis
      by (auto simp: reads_def read_entry_def F_def e MAX_MAP_KEY_BYTES_def)
  qed
  then have "reads (\<lambda>bs. try_fold (\<lambda>(st, bs) u. read_entry dec st bs) (F [], bs) (replicate (length es) ()))
    (concat (map (\<lambda>(k, w). be_bytes 4 (length k) @ as_bytes k @ g w) es)) (F es)"
    by (rule reads_loop)
  then show ?thesis by (auto simp: F_def)
qed

text \<open>Within the size limit, every count of the format fits its 32 bits.\<close>

lemma value_bytes_counts:
  assumes "length (value_bytes c ty v) \<le> MAX_VALUE_BYTES" "has_type c ty v"
  shows "v = VTuple ws \<Longrightarrow> length ws < 2 ^ 32" "v = VEnum m ws i \<Longrightarrow> length ws < 2 ^ 32"
    "v = VRecord fs \<Longrightarrow> length fs < 2 ^ 32"
proof -
  have items: "length ws < 2 ^ 32" if "list_all2 (has_type c) ts ws"
    "length (concat (map (\<lambda>(w, t). value_bytes c t w) (zip ws ts))) \<le> MAX_VALUE_BYTES" for ts ws
  proof -
    have "value_bytes c t w \<noteq> []" if "(w, t) \<in> set (zip ws ts)" for t w
      using that \<open>list_all2 (has_type c) ts ws\<close> value_bytes_nonempty
      by (metis in_set_zip list_all2_conv_all_nth fst_conv snd_conv)
    then have "length (zip ws ts) \<le> length (concat (map (\<lambda>(w, t). value_bytes c t w) (zip ws ts)))"
      by (intro length_concat_ge) auto
    with that show ?thesis by (simp add: MAX_VALUE_BYTES_def list_all2_lengthD)
  qed
  show "v = VTuple ws \<Longrightarrow> length ws < 2 ^ 32" "v = VEnum m ws i \<Longrightarrow> length ws < 2 ^ 32"
    using assms items [of _ ws] by (cases ty; auto simp: value_bytes_simps)+
  show "length fs < 2 ^ 32" if v: "v = VRecord fs"
  proof -
    from assms(2) v obtain cols where cols: "ty = TRecord cols" "length fs = length cols" by (cases ty) auto
    have "be_bytes 8 n \<noteq> []" for n by (metis length_be_bytes list.size(3) zero_neq_numeral)
    then have "length (sort_key col_id cols) \<le> length (concat (map (\<lambda>col. be_bytes 8 (unat (col_id col)) @
       (case bt_get fs (col_name col) of Some w \<Rightarrow> value_bytes c (col_ty col) w | None \<Rightarrow> [])) (sort_key col_id cols)))"
      by (intro length_concat_ge) simp
    with assms(1) cols v show ?thesis by (simp add: value_bytes_simps MAX_VALUE_BYTES_def)
  qed
qed

lemma length_concat_mem: "x \<in> set xs \<Longrightarrow> length (g x) \<le> length (concat (map g xs))"
  by (induction xs) auto

lemma list_all2_zipI: "length xs = length ys \<Longrightarrow> (\<And>x y. (x, y) \<in> set (zip xs ys) \<Longrightarrow> P x y) \<Longrightarrow> list_all2 P xs ys"
  by (auto simp: list_all2_iff)

lemma reads_items:
  assumes "list_all2 (conforms c d) ts ws" and "list_all (fits_version n) ws"
    and "length (concat (map (\<lambda>(w, t). value_bytes c t w) (zip ws ts))) \<le> MAX_VALUE_BYTES"
    and "\<And>t w. t \<in> set ts \<Longrightarrow> conforms c d t w \<Longrightarrow> fits_version n w \<Longrightarrow> length (value_bytes c t w) \<le> MAX_VALUE_BYTES \<Longrightarrow>
      reads (dec t) (value_bytes c t w) w"
  shows "reads (\<lambda>bs. traverse_state (\<lambda>bs t. dec t bs) bs ts) (concat (map (\<lambda>(w, t). value_bytes c t w) (zip ws ts))) ws"
proof (rule reads_traverse, rule list_all2_zipI)
  show "length ts = length ws" using assms(1) by (rule list_all2_lengthD)
  fix t w assume tw: "(t, w) \<in> set (zip ts ws)"
  then have "(w, t) \<in> set (zip ws ts)" by (auto simp: in_set_zip)
  from length_concat_mem [OF this, of "\<lambda>(w, t). value_bytes c t w"] assms(3)
  have "length (value_bytes c t w) \<le> MAX_VALUE_BYTES" by simp
  moreover have "fits_version n w" using assms(2) tw by (auto simp: list_all_iff dest: set_zip_rightD)
  ultimately show "reads (\<lambda>bs. dec t bs) (value_bytes c t w) w"
    using zip_setD [OF assms(1) tw] assms(4) by simp
qed

lemma decode_inner_reads:
  assumes "types_ok c"
  shows "conforms c d ty v \<Longrightarrow> type_ok c ty \<Longrightarrow> fits_version n v \<Longrightarrow> length (value_bytes c ty v) \<le> MAX_VALUE_BYTES \<Longrightarrow>
    reads (decode_inner c n ty d) (value_bytes c ty v) v"
proof (induction d arbitrary: ty v rule: depth_induct)
  case (limit d)
  then show ?case using conforms_depth by fastforce
next
  case (step d)
  note IH = step.IH
  have nd: "\<not> MAX_DEPTH \<le> d" using step.hyps by simp
  have "has_type c ty v" using step.prems(1) by (simp add: conforms_def)
  note counts = value_bytes_counts [OF step.prems(4) this]
  show ?case
  proof (cases ty)
    case (TRef i)
    with step.prems obtain w def where w: "v = VNamed i w" "definition_of c i = Ok def" "conforms c (Suc d) (def_ty def) w"
      by auto
    from IH [OF w(3) types_okD [OF assms w(2)]] step.prems(3,4) TRef w(1,2)
    show ?thesis by (auto simp: reads_def decode_inner.simps [of _ _ "TRef i"] nd value_bytes_simps)
  next
    case (TRecord cols)
    with step.prems obtain fs where fs: "v = VRecord fs" "bt_ok fs" "length fs = length cols"
      "\<forall>(k, w) \<in> set fs. \<exists>col. find_column cols k = Some col \<and> string_ok k \<and> conforms c (Suc d) (col_ty col) w"
      by auto
    have ok: "distinct (map col_name cols)" "distinct (map col_id cols)" using step.prems(2) TRecord by auto
    have "\<forall>(k, w) \<in> set fs. \<exists>col. find_column cols k = Some col \<and> conforms c (Suc d) (col_ty col) w" using fs(4) by fastforce
    note cols = record_columns [OF fs(2,3) ok(1) this]
    then obtain u where u: "\<And>col. col \<in> set cols \<Longrightarrow> bt_get fs (col_name col) = Some (u col)"
      "\<And>col. col \<in> set cols \<Longrightarrow> conforms c (Suc d) (col_ty col) (u col)" using bchoice [OF cols(1)] by blast
    have bytes: "value_bytes c ty v = be_bytes 4 (length cols) @
        concat (map (\<lambda>col. be_bytes 8 (unat (col_id col)) @ value_bytes c (col_ty col) (u col)) (sort_key col_id cols))"
      unfolding TRecord fs(1) value_bytes_simps by (intro arg_cong2 [where f = append] arg_cong [where f = concat] map_cong) (auto simp: u(1))
    have "reads (decode_inner c n (col_ty col) (Suc d)) (value_bytes c (col_ty col) (u col)) (u col)" if col: "col \<in> set cols" for col
    proof (rule IH [OF u(2) [OF col]])
      show "type_ok c (col_ty col)" using step.prems(2) TRecord col by simp
      show "fits_version n (u col)" using step.prems(3) fs(1) u(1) [OF col] by (auto simp: list_all_iff dest!: bt_get_SomeD)
      show "length (value_bytes c (col_ty col) (u col)) \<le> MAX_VALUE_BYTES"
        using length_concat_mem [of col "sort_key col_id cols" "\<lambda>col. be_bytes 8 (unat (col_id col)) @ value_bytes c (col_ty col) (u col)"]
          step.prems(4) col by (simp add: bytes)
    qed
    from reads_record [OF ok(2,1) fs(2) cols(2) u(1) this] counts(3) [OF fs(1)] fs(3)
    show ?thesis unfolding bytes by (auto simp: reads_def decode_inner.simps [of _ _ "TRecord cols"] nd TRecord fs(1))
  next
    case (TTuple ts)
    with step.prems obtain ws where ws: "v = VTuple ws" "list_all2 (conforms c (Suc d)) ts ws" by auto
    have "reads (\<lambda>bs. traverse_state (\<lambda>bs t. decode_inner c n t (Suc d) bs) bs ts)
        (concat (map (\<lambda>(w, t). value_bytes c t w) (zip ws ts))) ws"
      by (rule reads_items [OF ws(2) _ _ IH])
        (use step.prems(2-4) TTuple ws(1) in \<open>auto simp: value_bytes_simps list_all_iff\<close>)
    with counts(1) [OF ws(1)] list_all2_lengthD [OF ws(2)] show ?thesis
      by (simp add: reads_def decode_inner.simps [of _ _ "TTuple ts"] nd TTuple ws(1) value_bytes_simps)
  next
    case (TEnum variants)
    with step.prems obtain as u where u: "v = VEnum (vd_name u) as (vd_id u)" "find_variant variants (vd_id u) = Some u"
      "list_all2 (conforms c (Suc d)) (vd_args u) as" by auto
    have "reads (\<lambda>bs. traverse_state (\<lambda>bs t. decode_inner c n t (Suc d) bs) bs (vd_args u))
        (concat (map (\<lambda>(w, t). value_bytes c t w) (zip as (vd_args u)))) as"
      by (rule reads_items [OF u(3) _ _ IH])
        (use step.prems(2-4) TEnum u(1,2) find_variant_Some [OF u(2)] in \<open>auto simp: value_bytes_simps\<close>)
    with counts(2) [OF u(1)] list_all2_lengthD [OF u(3)] u(2) show ?thesis
      by (simp add: reads_def decode_inner.simps [of _ _ "TEnum variants"] nd TEnum u(1) value_bytes_simps)
  next
    case (TOption t)
    then consider "v = VOption None" | w where "v = VOption (Some w)" "conforms c (Suc d) t w" using step.prems by auto
    then show ?thesis
    proof cases
      case (2 w)
      from IH [OF 2(2)] step.prems(2-4) TOption 2(1) show ?thesis
        by (auto simp: reads_def decode_inner.simps [of _ _ "TOption t"] nd value_bytes_simps)
    qed (simp add: TOption reads_def decode_inner.simps [of _ _ "TOption t"] nd value_bytes_simps)
  next
    case (TList t)
    with step.prems obtain ws where ws: "v = VList ws" "list_all (conforms c (Suc d) t) ws" by auto
    have len: "length ws \<le> MAX_COLLECTION_ITEMS" using step.prems(3) ws(1) by simp
    have bytes: "concat (map (value_bytes c t) ws) = concat (map (\<lambda>(w, t). value_bytes c t w) (zip ws (replicate (length ws) t)))"
      by (simp add: zip_replicate2 comp_def)
    have "list_all2 (conforms c (Suc d)) (replicate (length ws) t) ws"
      using ws(2) by (auto simp: list_all2_conv_all_nth list_all_length)
    from reads_items [OF this _ _ IH, of n] step.prems(2-4) TList ws(1) bytes
    have "reads (\<lambda>bs. traverse_state (\<lambda>bs t. decode_inner c n t (Suc d) bs) bs (replicate (length ws) t))
        (concat (map (value_bytes c t) ws)) ws"
      by (auto simp: value_bytes_simps)
    moreover have "length ws \<le> length (concat (map (value_bytes c t) ws))"
      by (rule length_concat_ge) (use ws(2) value_bytes_nonempty in \<open>auto simp: list_all_iff conforms_def\<close>)
    ultimately show ?thesis using len
      by (simp add: reads_def decode_inner.simps [of _ _ "TList t"] nd TList ws(1) value_bytes_simps check_items_def
          MAX_COLLECTION_ITEMS_def)
  next
    case (TMap t)
    with step.prems obtain es where es: "v = VMap es" "bt_ok es" "length es \<le> MAX_MAP_ENTRIES"
      "list_all (\<lambda>(k, w). string_ok k \<and> length k \<le> MAX_MAP_KEY_BYTES \<and> conforms c (Suc d) t w) es" by auto
    have "string_ok k \<and> length k \<le> MAX_MAP_KEY_BYTES \<and> reads (decode_inner c n t (Suc d)) (value_bytes c t w) w"
      if kw: "(k, w) \<in> set es" for k w
    proof -
      have "length (value_bytes c t w) \<le> MAX_VALUE_BYTES"
        using length_concat_mem [OF kw, of "\<lambda>(k, w). be_bytes 4 (length k) @ as_bytes k @ value_bytes c t w"] step.prems(4)
        by (simp add: TMap es(1) value_bytes_simps)
      with IH [of t w] kw es(4) step.prems(2,3) es(1) TMap show ?thesis by (auto simp: list_all_iff)
    qed
    then have "list_all (\<lambda>(k, w). string_ok k \<and> length k \<le> MAX_MAP_KEY_BYTES \<and> reads (decode_inner c n t (Suc d)) (value_bytes c t w) w) es"
      by (auto simp: list_all_iff)
    from reads_map [OF es(2) this] es(3) step.prems(3) show ?thesis
      by (auto simp: reads_def decode_inner.simps [of _ _ "TMap t"] nd TMap es(1) value_bytes_simps MAX_MAP_ENTRIES_def)
  qed (use step.prems nd in \<open>auto simp: reads_def decode_inner.simps value_bytes_scalar decode_scalar_bytes\<close>)
qed

section \<open>What the decoder accepts\<close>

text \<open>
  Whatever the bytes, a decoded value is a canonical value of the type that the version of the format
  can hold, and the decoder has consumed exactly as many bytes as the format has for it.
\<close>

definition consumes :: "u8 list \<Rightarrow> nat \<Rightarrow> u8 list \<Rightarrow> bool" where
  "consumes bs n rest \<longleftrightarrow> (\<exists>b. bs = b @ rest \<and> length b = n)"

lemma consumes_refl: "consumes bs 0 bs"
  by (simp add: consumes_def)

lemma consumes_trans: "consumes a m b \<Longrightarrow> consumes b n c \<Longrightarrow> consumes a (m + n) c"
  unfolding consumes_def by (metis append.assoc length_append)

lemma length_field_Ok: "length_field bs = Ok (n, rest) \<Longrightarrow> consumes bs 4 rest \<and> n < 2 ^ 32"
  using length_code.dec_valid [of E_CODEC bs n rest]
  by (auto simp: length_field_def consumes_def read_nat_def and_then_Ok_iff take_bytes_Ok)

lemma read_u64_Ok: "read_u64 e bs = Ok (i, rest) \<Longrightarrow> consumes bs 8 rest"
  by (auto simp: read_u64_def consumes_def and_then_Ok_iff take_bytes_Ok)

lemma read_signed_Ok: "read_signed e n bs = Ok (i, rest) \<Longrightarrow> consumes bs n rest \<and> in_signed n i"
  using of_signed_bytes_range by (auto simp: read_signed_def consumes_def and_then_Ok_iff take_bytes_Ok)

lemma read_text_Ok: "read_text n bs = Ok (t, rest) \<Longrightarrow> consumes bs n rest \<and> string_ok t \<and> length t = n"
  by (auto simp: read_text_def consumes_def and_then_Ok_iff take_bytes_Ok ok_or_Ok_iff from_utf8_ok from_utf8_Some)

lemma take_bytes_consumes: "take_bytes e n bs = Ok (b, rest) \<Longrightarrow> consumes bs n rest \<and> length b = n"
  by (auto simp: consumes_def take_bytes_Ok)

lemma traverse_state_consumes:
  assumes "traverse_state f bs xs = Ok (ys, rest)"
    and "\<And>bs x y rest. x \<in> set xs \<Longrightarrow> f bs x = Ok (y, rest) \<Longrightarrow> R x y \<and> consumes bs (g y x) rest"
  shows "list_all2 R xs ys \<and> consumes bs (sum_list (map (\<lambda>(y, x). g y x) (zip ys xs))) rest"
  using assms
proof (induction xs arbitrary: bs ys)
  case (Cons x xs)
  from Cons.prems(1) obtain y ys' mid where y: "f bs x = Ok (y, mid)" "traverse_state f mid xs = Ok (ys', rest)" "ys = y # ys'"
    by (auto simp: and_then_Ok_iff)
  from Cons.IH [OF y(2)] Cons.prems(2) Cons.prems(2) [OF _ y(1)] show ?case
    by (auto simp: y(3) intro: consumes_trans)
qed (simp add: consumes_refl)

text \<open>A counted loop: the state after the rounds, and the bytes consumed by them.\<close>

lemma loop_consumes:
  assumes "try_fold (\<lambda>(st, bs) u. step st bs) (st, bs) (replicate n ()) = Ok (st', rest)"
    and "I 0 st" and "size_of st = (0 :: nat)"
    and "\<And>k st bs st' rest. I k st \<Longrightarrow> step st bs = Ok (st', rest) \<Longrightarrow>
      I (Suc k) st' \<and> (\<exists>m. consumes bs m rest \<and> size_of st' = size_of st + m)"
  shows "I n st' \<and> consumes bs (size_of st') rest"
proof -
  have "I (k + n) st' \<and> (\<exists>m. consumes bs m rest \<and> size_of st' = size_of st + m)"
    if "I k st" "try_fold (\<lambda>(st, bs) u. step st bs) (st, bs) (replicate n ()) = Ok (st', rest)" for k st bs
    using that
  proof (induction n arbitrary: k st bs)
    case 0
    then show ?case using consumes_refl by fastforce
  next
    case (Suc n)
    from Suc.prems(2) obtain st1 bs1 where s: "step st bs = Ok (st1, bs1)"
      "try_fold (\<lambda>(st, bs) u. step st bs) (st1, bs1) (replicate n ()) = Ok (st', rest)"
      by (auto simp: and_then_Ok_iff)
    from assms(4) [OF Suc.prems(1) s(1)] obtain m where m: "I (Suc k) st1" "consumes bs m bs1" "size_of st1 = size_of st + m" by auto
    from Suc.IH [OF m(1) s(2)] m show ?case by (auto intro: consumes_trans)
  qed
  from this [OF assms(2,1)] assms(3) show ?thesis by auto
qed

lemma decode_scalar_sound:
  assumes "decode_scalar ty bs = Ok (v, rest)"
  shows "has_type c ty v \<and> fits_version n v \<and> value_depth v = 1 \<and> consumes bs (length (scalar_bytes v)) rest"
  using assms
  by (cases ty)
    (auto simp: decode_scalar_def scalar_bytes_def result_simps read_checked_def date_from_epoch_days_iff
      timestamp_from_epoch_iff decimal_new_iff bytes_new_def canonical_float_def
      split: if_splits
      dest!: read_signed_Ok read_u64_Ok take_bytes_consumes length_field_Ok read_text_Ok
      simp: in_signed_widths intro: consumes_trans)

definition fields_size :: "catalog \<Rightarrow> column list \<Rightarrow> (string, value) btree \<Rightarrow> nat" where
  "fields_size c cols fs =
     sum_list (map (\<lambda>(k, w). case find_column cols k of Some col \<Rightarrow> 8 + length (value_bytes c (col_ty col) w) | None \<Rightarrow> 0) fs)"

lemma sum_list_bt_insert:
  "bt_get m k = None \<Longrightarrow> sum_list (map f (bt_insert k v m)) = f (k, v) + (sum_list (map f m) :: nat)"
  by (induction m) (auto simp: bt_get_def split: ordering.splits if_splits)

lemma length_bt_insert: "bt_get m k = None \<Longrightarrow> length (bt_insert k v m) = Suc (length m)"
  by (induction m) (auto simp: bt_get_def split: ordering.splits if_splits)

definition fields_inv :: "catalog \<Rightarrow> nat \<Rightarrow> nat \<Rightarrow> column list \<Rightarrow> nat \<Rightarrow> (string, value) btree \<times> u64 list \<Rightarrow> bool" where
  "fields_inv c n d cols k = (\<lambda>(fs, seen). bt_ok fs \<and> length fs = k \<and>
     (\<forall>(name, w) \<in> set fs. \<exists>col. find_column cols name = Some col \<and> col_id col \<in> set seen \<and> string_ok name \<and>
        conforms c d (col_ty col) w \<and> fits_version n w))"

lemma read_field_inv:
  assumes ok: "own_ok c (TRecord cols)" and inv: "fields_inv c n d cols k st"
    and read: "read_field dec cols st bs = Ok (st', rest)"
    and dec: "\<And>col bs w rest. col \<in> set cols \<Longrightarrow> dec (col_ty col) bs = Ok (w, rest) \<Longrightarrow>
      conforms c d (col_ty col) w \<and> fits_version n w \<and> consumes bs (length (value_bytes c (col_ty col) w)) rest"
  shows "fields_inv c n d cols (Suc k) st' \<and>
    (\<exists>m. consumes bs m rest \<and> fields_size c cols (fst st') = fields_size c cols (fst st) + m)"
proof -
  obtain fs seen where st: "st = (fs, seen)" by fastforce
  from read obtain col mid w where r: "read_u64 E_CODEC bs = Ok (col_id col, mid)" "col_id col \<notin> set seen" "col \<in> set cols"
    "dec (col_ty col) mid = Ok (w, rest)" "st' = (bt_insert (col_name col) w fs, bs_insert (col_id col) seen)"
    by (auto simp: read_field_def st and_then_Ok_iff ok_or_Ok_iff find_Some_iff split: if_splits)
  have names: "distinct (map col_name cols)" "string_ok (col_name col)"
    using ok r(3) by (auto simp: list_all_iff column_ok_def name_ok_def)
  note find = find_column_distinct [OF names(1) r(3)]
  have "col_name col \<notin> fst ` set fs"
    using inv r(2) find by (fastforce simp: fields_inv_def st)
  then have new: "bt_get fs (col_name col) = None" by (simp add: bt_get_None_iff)
  note w = dec [OF r(3,4)]
  have fs: "bt_ok fs" using inv by (simp add: fields_inv_def st)
  have "fields_inv c n d cols (Suc k) st'"
    using inv w find names(2) length_bt_insert [OF new] by (auto simp: fields_inv_def st r(5) set_bt_insert [OF fs]; fastforce)
  moreover have "consumes bs (8 + length (value_bytes c (col_ty col) w)) rest"
    using consumes_trans read_u64_Ok [OF r(1)] w by blast
  ultimately show ?thesis
    by (auto simp: fields_size_def r(5) st sum_list_bt_insert [OF new] find)
qed

text \<open>The fields of a complete record, counted by column.\<close>

lemma fields_size_columns:
  assumes "own_ok c (TRecord cols)" "fields_inv c n d cols (length cols) (fs, seen)"
  shows "4 + fields_size c cols fs = length (value_bytes c (TRecord cols) (VRecord fs))"
proof -
  let ?g = "\<lambda>col. 8 + length (case bt_get fs (col_name col) of Some w \<Rightarrow> value_bytes c (col_ty col) w | None \<Rightarrow> [])"
  have names: "distinct (map col_name cols)" and fs: "bt_ok fs" "length fs = length cols"
    using assms by (auto simp: fields_inv_def)
  have "\<forall>(k, w) \<in> set fs. \<exists>col. find_column cols k = Some col \<and> True" using assms(2) by (auto simp: fields_inv_def; fastforce)
  from record_columns(2) [OF fs names this] have keys: "fst ` set fs = col_name ` set cols" .
  have "fields_size c cols fs = (\<Sum>(k, w) \<leftarrow> fs. case find_column cols k of Some col \<Rightarrow> ?g col | None \<Rightarrow> 0)"
    unfolding fields_size_def
    by (intro arg_cong [where f = sum_list] map_cong)
      (auto split: option.splits dest!: find_column_Some simp: bt_get_Some_iff [OF fs(1), THEN iffD2])
  also have "\<dots> = (\<Sum>k \<leftarrow> map fst fs. case find_column cols k of Some col \<Rightarrow> ?g col | None \<Rightarrow> 0)"
    by (simp add: comp_def split_def)
  also have "\<dots> = (\<Sum>k \<in> col_name ` set cols. case find_column cols k of Some col \<Rightarrow> ?g col | None \<Rightarrow> 0)"
    using sum_list_distinct_conv_sum_set [OF bt_ok_distinct [OF fs(1)]] keys by (simp only: set_map)
  also have "\<dots> = (\<Sum>col \<in> set cols. ?g col)"
    using names by (simp add: sum.reindex distinct_map find_column_distinct [OF names])
  also have "\<dots> = (\<Sum>col \<leftarrow> sort_key col_id cols. ?g col)"
    using names by (simp add: sum_list_distinct_conv_sum_set distinct_map)
  finally show ?thesis by (simp add: value_bytes_simps length_concat comp_def)
qed

definition entries_inv :: "catalog \<Rightarrow> nat \<Rightarrow> nat \<Rightarrow> scalar_type \<Rightarrow> nat \<Rightarrow> (string, value) btree \<times> string option \<Rightarrow> bool" where
  "entries_inv c n d t k = (\<lambda>(es, previous). bt_ok es \<and> length es = k \<and>
     (case previous of None \<Rightarrow> es = [] | Some p \<Rightarrow> \<forall>k \<in> fst ` set es. k \<le> p) \<and>
     list_all (\<lambda>(k, w). string_ok k \<and> length k \<le> MAX_MAP_KEY_BYTES \<and> conforms c d t w \<and> fits_version n w) es)"

lemma read_entry_inv:
  assumes inv: "entries_inv c n d t k st" and read: "read_entry dec st bs = Ok (st', rest)"
    and dec: "\<And>bs w rest. dec bs = Ok (w, rest) \<Longrightarrow>
      conforms c d t w \<and> fits_version n w \<and> consumes bs (length (value_bytes c t w)) rest"
  shows "entries_inv c n d t (Suc k) st' \<and> (\<exists>m. consumes bs m rest \<and>
    (\<Sum>(k, w) \<leftarrow> fst st'. 4 + length k + length (value_bytes c t w)) =
    (\<Sum>(k, w) \<leftarrow> fst st. 4 + length k + length (value_bytes c t w)) + m)"
proof -
  obtain es previous where st: "st = (es, previous)" by fastforce
  from read obtain l mid key mid' w where r: "length_field bs = Ok (l, mid)" "l \<le> MAX_MAP_KEY_BYTES"
    "read_text l mid = Ok (key, mid')" "\<not> (case previous of None \<Rightarrow> False | Some p \<Rightarrow> p \<ge> key)" "dec mid' = Ok (w, rest)"
    "st' = (bt_insert key w es, Some key)"
    by (auto simp: read_entry_def st and_then_Ok_iff split: if_splits)
  have below: "\<forall>k \<in> fst ` set es. k < key"
    using inv r(4) by (fastforce simp: entries_inv_def st split: option.splits)
  note last = bt_insert_last [OF this, of w]
  have sub: "consumes bs 4 mid" "consumes mid l mid'" "string_ok key" "length key = l"
    using length_field_Ok [OF r(1)] read_text_Ok [OF r(3)] by auto
  note w = dec [OF r(5)]
  have "entries_inv c n d t (Suc k) st'"
    using inv w sub r(2) below bt_ok_insert [of es key w]
    by (auto simp: entries_inv_def st r(6) last less_imp_le)
  moreover have "consumes bs (4 + l + length (value_bytes c t w)) rest"
    using consumes_trans [OF consumes_trans [OF sub(1,2)]] w by blast
  ultimately show ?thesis using sub(4) by (auto simp: r(6) st last)
qed

lemma decode_items_sound:
  assumes "traverse_state (\<lambda>bs t. dec t bs) bs ts = Ok (ws, rest)"
    and "\<And>t bs w rest. t \<in> set ts \<Longrightarrow> dec t bs = Ok (w, rest) \<Longrightarrow>
      conforms c d t w \<and> fits_version n w \<and> consumes bs (length (value_bytes c t w)) rest"
  shows "list_all2 (conforms c d) ts ws \<and> list_all (fits_version n) ws \<and> length ws = length ts \<and>
    consumes bs (length (concat (map (\<lambda>(w, t). value_bytes c t w) (zip ws ts)))) rest"
proof -
  have "list_all2 (\<lambda>t w. conforms c d t w \<and> fits_version n w) ts ws \<and>
      consumes bs (sum_list (map (\<lambda>(w, t). length (value_bytes c t w)) (zip ws ts))) rest"
    by (rule traverse_state_consumes [OF assms(1)]) (use assms(2) in blast)
  then show ?thesis
    by (auto simp: length_concat list_all2_conv_all_nth list_all_length comp_def split_def)
qed

lemma record_loop_sound:
  assumes "try_fold (\<lambda>(st, bs) u. read_field dec cols st bs) (([], []), bs) (replicate (length cols) ()) = Ok ((fs, seen), rest)"
    and ok: "own_ok c (TRecord cols)"
    and dec: "\<And>col bs w rest. col \<in> set cols \<Longrightarrow> dec (col_ty col) bs = Ok (w, rest) \<Longrightarrow>
      conforms c d (col_ty col) w \<and> fits_version n w \<and> consumes bs (length (value_bytes c (col_ty col) w)) rest"
  shows "fields_inv c n d cols (length cols) (fs, seen)" "consumes bs (fields_size c cols fs) rest"
proof -
  have "fields_inv c n d cols (length cols) (fs, seen) \<and> consumes bs (fields_size c cols (fst (fs, seen))) rest"
    by (rule loop_consumes [OF assms(1), where I = "fields_inv c n d cols" and size_of = "\<lambda>st. fields_size c cols (fst st)"])
      (use read_field_inv [OF ok _ _ dec] in \<open>simp_all add: fields_inv_def [of _ _ _ _ 0] fields_size_def\<close>)
  then show "fields_inv c n d cols (length cols) (fs, seen)" "consumes bs (fields_size c cols fs) rest" by simp_all
qed

lemma map_loop_sound:
  assumes "try_fold (\<lambda>(st, bs) u. read_entry dec st bs) (([], None), bs) (replicate count ()) = Ok ((es, previous), rest)"
    and dec: "\<And>bs w rest. dec bs = Ok (w, rest) \<Longrightarrow>
      conforms c d t w \<and> fits_version n w \<and> consumes bs (length (value_bytes c t w)) rest"
  shows "entries_inv c n d t count (es, previous)"
    "consumes bs (length (concat (map (\<lambda>(k, w). be_bytes 4 (length k) @ as_bytes k @ value_bytes c t w) es))) rest"
proof -
  have "entries_inv c n d t count (es, previous) \<and>
      consumes bs (\<Sum>(k, w) \<leftarrow> fst (es, previous). 4 + length k + length (value_bytes c t w)) rest"
    by (rule loop_consumes [OF assms(1), where I = "entries_inv c n d t" and
          size_of = "\<lambda>st. \<Sum>(k, w) \<leftarrow> fst st. 4 + length k + length (value_bytes c t w)"])
      (use read_entry_inv [OF _ _ dec] in \<open>simp_all add: entries_inv_def [of _ _ _ _ 0]\<close>)
  then show "entries_inv c n d t count (es, previous)"
    "consumes bs (length (concat (map (\<lambda>(k, w). be_bytes 4 (length k) @ as_bytes k @ value_bytes c t w) es))) rest"
    by (simp_all add: length_concat comp_def split_def add.assoc)
qed

lemma list_all2_replicate: "list_all2 P (replicate n t) ws \<Longrightarrow> list_all (P t) ws"
  by (auto simp: list_all2_conv_all_nth list_all_length)

lemma decode_inner_sound:
  assumes "types_ok c"
  shows "decode_inner c n ty d bs = Ok (v, rest) \<Longrightarrow> type_ok c ty \<Longrightarrow>
    conforms c d ty v \<and> fits_version n v \<and> consumes bs (length (value_bytes c ty v)) rest"
proof (induction d arbitrary: ty bs v rest rule: depth_induct)
  case (limit d)
  then show ?case by (simp add: decode_inner.simps)
next
  case (step d)
  note IH = step.IH
  have nd: "\<not> MAX_DEPTH \<le> d" "d < MAX_DEPTH" using step.hyps by simp_all
  show ?case
  proof (cases ty)
    case (TRef i)
    with step.prems(1) obtain mid def w where w: "read_u64 E_CODEC bs = Ok (i, mid)" "definition_of c i = Ok def"
      "decode_inner c n (def_ty def) (Suc d) mid = Ok (w, rest)" "v = VNamed i w"
      by (auto simp: decode_inner.simps [of _ _ "TRef i"] nd and_then_Ok_iff split: if_splits)
    from IH [OF w(3) types_okD [OF assms w(2)]] consumes_trans [OF read_u64_Ok [OF w(1)]] show ?thesis
      by (auto simp: TRef w(2,4) nd value_bytes_simps)
  next
    case (TRecord cols)
    with step.prems(1) obtain mid fs seen where r: "length_field bs = Ok (length cols, mid)" "v = VRecord fs"
      "try_fold (\<lambda>(st, bs) u. read_field (\<lambda>t bs. decode_inner c n t (Suc d) bs) cols st bs) (([], []), mid)
         (replicate (length cols) ()) = Ok ((fs, seen), rest)"
      by (auto simp: decode_inner.simps [of _ _ "TRecord cols"] nd and_then_Ok_iff split: if_splits)
    have ok: "own_ok c (TRecord cols)" "\<And>col. col \<in> set cols \<Longrightarrow> type_ok c (col_ty col)" using step.prems(2) TRecord by auto
    note l = record_loop_sound [OF r(3) ok(1) IH [OF _ ok(2)]]
    have "conforms c d ty v" "fits_version n v" using l(1) by (auto simp: TRecord r(2) nd fields_inv_def list_all_iff; fastforce)+
    moreover have "consumes bs (4 + fields_size c cols fs) rest"
      using consumes_trans [OF length_field_Ok [OF r(1), THEN conjunct1] l(2)] .
    ultimately show ?thesis using fields_size_columns [OF ok(1) l(1)] by (simp add: TRecord r(2))
  next
    case (TTuple ts)
    with step.prems(1) obtain mid ws where r: "length_field bs = Ok (length ts, mid)" "v = VTuple ws"
      "traverse_state (\<lambda>bs t. decode_inner c n t (Suc d) bs) mid ts = Ok (ws, rest)"
      by (auto simp: decode_inner.simps [of _ _ "TTuple ts"] nd and_then_Ok_iff split: if_splits)
    have "type_ok c t" if "t \<in> set ts" for t using step.prems(2) TTuple that by (auto simp: list_all_iff)
    from decode_items_sound [OF r(3) IH [OF _ this]] consumes_trans [OF length_field_Ok [OF r(1), THEN conjunct1]] show ?thesis
      by (auto simp: TTuple r(2) nd value_bytes_simps)
  next
    case (TEnum vs)
    with step.prems(1) obtain mid u mid' ws where r: "read_u64 E_CODEC bs = Ok (vd_id u, mid)" "find_variant vs (vd_id u) = Some u"
      "length_field mid = Ok (length (vd_args u), mid')" "v = VEnum (vd_name u) ws (vd_id u)"
      "traverse_state (\<lambda>bs t. decode_inner c n t (Suc d) bs) mid' (vd_args u) = Ok (ws, rest)"
      by (auto simp: decode_inner.simps [of _ _ "TEnum vs"] nd and_then_Ok_iff ok_or_Ok_iff split: if_splits dest: find_variant_Some)
    note u = find_variant_Some [OF r(2)]
    have t: "type_ok c t" if "t \<in> set (vd_args u)" for t using step.prems(2) TEnum that u by auto
    have "vd_id u \<noteq> 0" using step.prems(2) TEnum u by (auto simp: list_all_iff)
    with decode_items_sound [OF r(5) IH [OF _ t]]
      consumes_trans [OF consumes_trans [OF read_u64_Ok [OF r(1)] length_field_Ok [OF r(3), THEN conjunct1]]] r(2)
    show ?thesis by (auto simp: TEnum r(4) nd value_bytes_simps)
  next
    case (TOption t)
    with step.prems(1) obtain b mid where b: "take_bytes E_CODEC 1 bs = Ok (b, mid)"
      "v = VOption None \<and> rest = mid \<or> (\<exists>w. v = VOption (Some w) \<and> decode_inner c n t (Suc d) mid = Ok (w, rest))"
      by (auto simp: decode_inner.simps [of _ _ "TOption t"] nd and_then_Ok_iff split: if_splits)
    have m: "consumes bs 1 mid" using take_bytes_consumes [OF b(1)] by simp
    from b(2) show ?thesis
    proof
      assume "\<exists>w. v = VOption (Some w) \<and> decode_inner c n t (Suc d) mid = Ok (w, rest)"
      with IH [of t mid _ rest] step.prems(2) TOption consumes_trans [OF m] show ?thesis by (auto simp: nd value_bytes_simps)
    qed (use m TOption in \<open>auto simp: nd value_bytes_simps\<close>)
  next
    case (TList t)
    with step.prems(1) obtain count mid ws where r: "length_field bs = Ok (count, mid)" "count \<le> MAX_COLLECTION_ITEMS" "v = VList ws"
      "traverse_state (\<lambda>bs t. decode_inner c n t (Suc d) bs) mid (replicate count t) = Ok (ws, rest)"
      by (auto simp: decode_inner.simps [of _ _ "TList t"] nd and_then_Ok_iff check_items_def split: if_splits)
    have t: "type_ok c t'" if "t' \<in> set (replicate count t)" for t' using step.prems(2) TList that by auto
    note l = decode_items_sound [OF r(4) IH [OF _ t]]
    have len: "length ws = count" using l by simp
    have *: "list_all (conforms c (Suc d) t) ws" "list_all (fits_version n) ws"
      using list_all2_replicate [OF l [THEN conjunct1]] l by blast+
    have "map (\<lambda>(w, t). value_bytes c t w) (zip ws (replicate count t)) = map (value_bytes c t) ws"
      by (simp add: zip_replicate2 len comp_def)
    then have "consumes mid (length (concat (map (value_bytes c t) ws))) rest" using l by simp
    with r(2) * len consumes_trans [OF length_field_Ok [OF r(1), THEN conjunct1]] show ?thesis
      by (auto simp: TList r(3) nd value_bytes_simps)
  next
    case (TMap t)
    with step.prems(1) obtain count mid es previous where r: "length_field bs = Ok (count, mid)" "count \<le> MAX_MAP_ENTRIES" "v = VMap es"
      "MAP_VALUE_CODEC_VERSION \<le> n"
      "try_fold (\<lambda>(st, bs) u. read_entry (\<lambda>bs. decode_inner c n t (Suc d) bs) st bs) (([], None), mid) (replicate count ()) =
         Ok ((es, previous), rest)"
      by (auto simp: decode_inner.simps [of _ _ "TMap t"] nd and_then_Ok_iff split: if_splits)
    have t: "type_ok c t" using step.prems(2) TMap by simp
    note l = map_loop_sound [OF r(5) IH [OF _ t]]
    have *: "list_all (\<lambda>(k, w). string_ok k \<and> length k \<le> MAX_MAP_KEY_BYTES \<and> conforms c (Suc d) t w \<and> fits_version n w) es"
      "bt_ok es" "length es = count" using l(1) by (auto simp: entries_inv_def)
    from * r(2,4) consumes_trans [OF length_field_Ok [OF r(1), THEN conjunct1] l(2)] show ?thesis
      by (auto simp: TMap r(3) nd value_bytes_simps list_all_iff)
  qed (use step.prems nd decode_scalar_sound [of ty bs v rest c n] in
      \<open>auto simp: decode_inner.simps value_bytes_scalar conforms_def\<close>)
qed

section \<open>Properties\<close>

definition codec_version :: "nat \<Rightarrow> bool" where
  "codec_version n \<longleftrightarrow>
     n = VALUE_CODEC_VERSION \<or> n = PRODUCTION_VALUE_CODEC_VERSION \<or> n = MAP_VALUE_CODEC_VERSION"

lemmas codec_versions = VALUE_CODEC_VERSION_def PRODUCTION_VALUE_CODEC_VERSION_def MAP_VALUE_CODEC_VERSION_def

abbreviation "value_header version \<equiv> MAGIC @ be_bytes 2 version"

lemma length_value_header: "length (value_header n) = 6"
  by (simp add: MAGIC_def)

lemma encode_value_version_eq:
  assumes "types_ok c" and "type_ok c ty" and "value_ok x" and y: "coerce c x ty = Ok y" and v2: "requires_protocol_v2 c ty = Ok v2"
  shows "encode_value_version c ty x n =
    (if (v2 \<longrightarrow> PRODUCTION_VALUE_CODEC_VERSION \<le> n) \<and> fits_version n y \<and> 6 + length (value_bytes c ty y) \<le> MAX_VALUE_BYTES
     then Ok (value_header n @ value_bytes c ty y) else Err E_CODEC)"
proof -
  have "conforms c 0 ty y"
    using coerce_inner_conforms [OF assms(1)] assms(2,3) y by (simp add: coerce_def)
  note inner = encode_inner_writes [OF assms(1) this assms(2), of n]
  from encodes_seq [OF encodes_put(1) [of MAGIC] encodes_seq [OF encodes_put(1) [of "be_bytes 2 n"] inner]]
  have "and_then (put MAGIC []) (\<lambda>s. and_then (put (be_bytes 2 n) s) (\<lambda>s. encode_inner c n ty y 0 s)) =
    (if fits_version n y \<and> 6 + length (value_bytes c ty y) \<le> MAX_VALUE_BYTES
     then Ok (value_header n @ value_bytes c ty y) else Err E_CODEC)"
    by (simp add: writes_def MAGIC_def)
  then show ?thesis by (auto simp: encode_value_version_def v2 y put_u16_def)
qed

lemma decode_value_version:
  "decode_value c ty bytes =
     (if length bytes > MAX_VALUE_BYTES then Err E_CODEC
      else and_then (take_bytes E_CODEC (length MAGIC) bytes) (\<lambda>(m, bs).
        if m \<noteq> MAGIC then Err E_CODEC
        else and_then (read_nat E_CODEC 2 bs) (\<lambda>(n, bs).
          if \<not> codec_version n then Err E_CODEC
          else and_then (requires_protocol_v2 c ty) (\<lambda>v2.
            if v2 \<and> n < PRODUCTION_VALUE_CODEC_VERSION then Err E_CODEC
            else and_then (decode_inner c n ty 0 bs) (\<lambda>(v, bs). if bs \<noteq> [] then Err E_CODEC else Ok v)))))"
proof -
  have "(n \<noteq> VALUE_CODEC_VERSION \<and> n \<noteq> PRODUCTION_VALUE_CODEC_VERSION \<and> n \<noteq> MAP_VALUE_CODEC_VERSION) \<longleftrightarrow> \<not> codec_version n"
    for n by (simp add: codec_version_def)
  then show ?thesis unfolding decode_value_def by (simp only:)
qed

lemma decode_value_header:
  assumes "codec_version n" and "6 + length bs \<le> MAX_VALUE_BYTES" and "requires_protocol_v2 c ty = Ok v2"
    and "v2 \<longrightarrow> PRODUCTION_VALUE_CODEC_VERSION \<le> n"
  shows "decode_value c ty (value_header n @ bs) =
    and_then (decode_inner c n ty 0 bs) (\<lambda>(v, rest). if rest \<noteq> [] then Err E_CODEC else Ok v)"
proof -
  have n: "n < 256 ^ 2" using assms(1) by (auto simp: codec_version_def codec_versions)
  have "length (value_header n @ bs) \<le> MAX_VALUE_BYTES" using assms(2) by (simp add: MAGIC_def)
  moreover have "take_bytes E_CODEC (length MAGIC) (MAGIC @ be_bytes 2 n @ bs) = Ok (MAGIC, be_bytes 2 n @ bs)" by simp
  moreover have "read_nat E_CODEC 2 (be_bytes 2 n @ bs) = Ok (n, bs)" using n by (simp add: read_nat_def of_be_be_bytes)
  ultimately show ?thesis using assms(1,3,4) by (auto simp: decode_value_version)
qed

lemma decode_value_Ok:
  assumes "decode_value c ty bs = Ok v"
  obtains n body v2 where "codec_version n" "bs = value_header n @ body" "length bs \<le> MAX_VALUE_BYTES"
    "requires_protocol_v2 c ty = Ok v2" "v2 \<longrightarrow> PRODUCTION_VALUE_CODEC_VERSION \<le> n" "decode_inner c n ty 0 body = Ok (v, [])"
proof -
  from assms obtain n body v2 rest where d: "length bs \<le> MAX_VALUE_BYTES" "bs = MAGIC @ rest"
    "read_nat E_CODEC 2 rest = Ok (n, body)" "codec_version n" "requires_protocol_v2 c ty = Ok v2"
    "v2 \<longrightarrow> PRODUCTION_VALUE_CODEC_VERSION \<le> n" "decode_inner c n ty 0 body = Ok (v, [])"
    unfolding decode_value_version by (auto simp: and_then_Ok_iff take_bytes_Ok not_less split: if_splits)
  from d(3) obtain b where "rest = b @ body" "length b = 2" "n = of_be_bytes b"
    by (auto simp: read_nat_def and_then_Ok_iff take_bytes_Ok)
  then have "rest = be_bytes 2 n @ body" using be_bytes_of_be [of b 2] by simp
  with d that show thesis by simp
qed



text \<open>
  (C6) Stored values round trip: whatever version wrote them, the bytes of an encoded value decode, under
  the same catalog and type, to the coerced value; and they respect the size limit the decoder enforces.
\<close>

theorem value_codec_roundtrip:
  assumes "types_ok c" and "type_ok c ty" and "value_ok x" and "codec_version n"
    and "encode_value_version c ty x n = Ok bs"
  shows "length bs \<le> MAX_VALUE_BYTES \<and> (\<exists>y. coerce c x ty = Ok y \<and> decode_value c ty bs = Ok y)"
proof -
  from assms(5) obtain v2 y where y: "requires_protocol_v2 c ty = Ok v2" "coerce c x ty = Ok y"
    by (auto simp: encode_value_version_def and_then_Ok_iff split: if_splits)
  from assms(5) encode_value_version_eq [OF assms(1-3) y(2,1)]
  have e: "v2 \<longrightarrow> PRODUCTION_VALUE_CODEC_VERSION \<le> n" "fits_version n y" "6 + length (value_bytes c ty y) \<le> MAX_VALUE_BYTES"
    "bs = value_header n @ value_bytes c ty y" by (auto split: if_splits)
  have "conforms c 0 ty y" using coerce_inner_conforms [OF assms(1)] assms(2,3) y(2) by (simp add: coerce_def)
  from decode_inner_reads [OF assms(1) this assms(2) e(2)] e(3)
  have "decode_inner c n ty 0 (value_bytes c ty y @ []) = Ok (y, [])" by (simp add: reads_def del: append_Nil2)
  with decode_value_header [OF assms(4) e(3) y(1) e(1)] y(2) e(3,4) show ?thesis by (simp add: MAGIC_def)
qed

theorem value_codec_roundtrip_witness:
  "\<exists>bs. encode_value_version example_catalog (TRef 4) example_shape PRODUCTION_VALUE_CODEC_VERSION = Ok bs \<and>
     decode_value example_catalog (TRef 4) bs = Ok example_shape_coerced"
proof -
  have h: "type_ok example_catalog (TRef 4)" "value_ok example_shape" "codec_version PRODUCTION_VALUE_CODEC_VERSION"
    by code_simp+
  have "is_ok (encode_value_version example_catalog (TRef 4) example_shape PRODUCTION_VALUE_CODEC_VERSION)" by code_simp
  then obtain bs where bs: "encode_value_version example_catalog (TRef 4) example_shape PRODUCTION_VALUE_CODEC_VERSION = Ok bs"
    by (auto simp: is_ok_iff)
  from value_codec_roundtrip [OF example_catalog_ok h this] bs example_shape_coerce show ?thesis by auto
qed



end
