(* ===== verification/Comparators.thy ===== *)
theory Comparators
  imports Prelude
begin

text \<open>
  The contract of a fallible three-way comparison: on a set of values it always answers,
  the answer is \<open>Equal\<close> for identical values only, swapping the operands reverses it, and it is
  transitive.  The combinators below build the comparison of a compound from the comparisons of
  its parts: through a key, by a leading tag, field by field, and element by element.
\<close>

section \<open>The contract\<close>

locale typed_comparator =
  fixes S :: "'a set" and f :: "'a \<Rightarrow> 'a \<Rightarrow> ordering result"
  assumes equal: "x \<in> S \<Longrightarrow> y \<in> S \<Longrightarrow> f x y = Ok Equal \<longleftrightarrow> x = y"
    and swap: "x \<in> S \<Longrightarrow> y \<in> S \<Longrightarrow> \<exists>r. f x y = Ok r \<and> f y x = Ok (reverse_ordering r)"
    and less_trans: "x \<in> S \<Longrightarrow> y \<in> S \<Longrightarrow> z \<in> S \<Longrightarrow> f x y = Ok Less \<Longrightarrow> f y z = Ok Less \<Longrightarrow> f x z = Ok Less"
begin

lemma answers: "x \<in> S \<Longrightarrow> y \<in> S \<Longrightarrow> f x y = Ok Less \<or> x = y \<or> f y x = Ok Less"
proof -
  assume xy: "x \<in> S" "y \<in> S"
  from swap [OF xy] obtain r where "f x y = Ok r" "f y x = Ok (reverse_ordering r)" by blast
  with equal [OF xy] show ?thesis by (cases r) auto
qed

lemma less_irrefl: "x \<in> S \<Longrightarrow> f x x \<noteq> Ok Less"
  using equal [of x x] by auto

lemma less_asym: "x \<in> S \<Longrightarrow> y \<in> S \<Longrightarrow> f x y = Ok Less \<Longrightarrow> f y x \<noteq> Ok Less"
  using less_trans less_irrefl by blast

lemma greater_iff: "x \<in> S \<Longrightarrow> y \<in> S \<Longrightarrow> f x y = Ok Greater \<longleftrightarrow> f y x = Ok Less"
  using swap by (metis result.inject(1) reverse_ordering.simps(1) reverse_ordering.simps(3))

text \<open>Sequences sorted by the comparison are determined by their elements.\<close>

lemma sorted_unique:
  assumes "sorted_wrt (\<lambda>x y. f x y = Ok Less) xs" and "sorted_wrt (\<lambda>x y. f x y = Ok Less) ys"
    and "set xs = set ys" and "set xs \<subseteq> S"
  shows "xs = ys"
  using assms
proof (induction xs arbitrary: ys)
  case (Cons x xs)
  then obtain y ys' where ys: "ys = y # ys'" by (cases ys) auto
  have S: "x \<in> S" "y \<in> S" "set xs \<subseteq> S" "set ys' \<subseteq> S" using Cons.prems ys by auto
  have x: "\<forall>z \<in> set xs. f x z = Ok Less" and y: "\<forall>z \<in> set ys'. f y z = Ok Less"
    using Cons.prems ys by auto
  have "x = y"
  proof (rule ccontr)
    assume "x \<noteq> y"
    then have "y \<in> set xs" "x \<in> set ys'" using Cons.prems(3) ys by auto
    with x y less_asym S show False by blast
  qed
  moreover have "x \<notin> set xs" "x \<notin> set ys'" using x y less_irrefl S \<open>x = y\<close> by blast+
  ultimately have "set xs = set ys'" using Cons.prems(3) ys by auto
  then have "xs = ys'" using Cons.prems ys by (intro Cons.IH) auto
  with ys \<open>x = y\<close> show ?case by simp
qed simp

end

section \<open>Building comparisons\<close>

lemma comparator_cmp: "typed_comparator UNIV (\<lambda>x y. Ok (cmp x y))"
proof
  fix x y z :: 'a
  show "\<exists>r. Ok (cmp x y) = Ok r \<and> Ok (cmp y x) = Ok (reverse_ordering r)" by (simp add: cmp_swap [of x y])
qed auto

interpretation plain: typed_comparator "UNIV :: 'a::linorder set" "\<lambda>x y. Ok (cmp x y)"
  by (rule comparator_cmp)

text \<open>Through an injective key.\<close>

lemma comparator_via:
  assumes "typed_comparator S f" and "\<And>x. x \<in> X \<Longrightarrow> k x \<in> S" and "inj_on k X"
    and "\<And>x y. x \<in> X \<Longrightarrow> y \<in> X \<Longrightarrow> f' x y = f (k x) (k y)"
  shows "typed_comparator X f'"
proof
  fix x y assume xy: "x \<in> X" "y \<in> X"
  show "f' x y = Ok Equal \<longleftrightarrow> x = y"
    using typed_comparator.equal [OF assms(1)] assms(2-4) xy by (metis inj_onD)
  show "\<exists>r. f' x y = Ok r \<and> f' y x = Ok (reverse_ordering r)"
    using typed_comparator.swap [OF assms(1)] assms(2,4) xy by simp
  fix z assume "z \<in> X" "f' x y = Ok Less" "f' y z = Ok Less"
  then show "f' x z = Ok Less"
    using typed_comparator.less_trans [OF assms(1)] assms(2,4) xy by metis
qed

lemmas comparator_key = comparator_via [OF comparator_cmp UNIV_I]

text \<open>By a tag first, and for equal tags by a comparison that may depend on the tag.\<close>

lemma comparator_tag:
  assumes "\<And>t. t \<in> T \<Longrightarrow> typed_comparator (S t) (F t)"
    and "\<And>x. x \<in> X \<Longrightarrow> tag x \<in> T \<and> x \<in> S (tag x)"
    and "\<And>x y. x \<in> X \<Longrightarrow> y \<in> X \<Longrightarrow>
           f x y = (if tag x = tag y then F (tag x) x y else Ok (cmp (tag x) (tag y :: 'b :: linorder)))"
  shows "typed_comparator X f"
proof
  fix x y assume xy: "x \<in> X" "y \<in> X"
  have same: "typed_comparator (S (tag x)) (F (tag x))" "x \<in> S (tag x)" using assms(1,2) xy(1) by auto
  note xy' = assms(3) [OF xy] assms(3) [OF xy(2,1)] assms(2) [OF xy(1)] assms(2) [OF xy(2)]
  show "f x y = Ok Equal \<longleftrightarrow> x = y"
    using typed_comparator.equal [OF same, of y] xy' by (cases "tag x = tag y") auto
  show "\<exists>r. f x y = Ok r \<and> f y x = Ok (reverse_ordering r)"
  proof (cases "tag x = tag y")
    case True
    with typed_comparator.swap [OF same, of y] xy' show ?thesis by simp
  next
    case False
    with xy' show ?thesis by (simp add: cmp_swap [of "tag x" "tag y"])
  qed
  fix z assume z: "z \<in> X" "f x y = Ok Less" "f y z = Ok Less"
  note yz = assms(3) [OF xy(2) z(1)] and xz = assms(3) [OF xy(1) z(1)] and zS = assms(2) [OF z(1)]
  have "tag x = tag y \<or> tag x < tag y" using xy'(1) z(2) by (metis cmp_iff(1) result.inject(1))
  moreover have "tag y = tag z \<or> tag y < tag z" using yz z(3) by (metis cmp_iff(1) result.inject(1))
  moreover have "F (tag x) x z = Ok Less" if "tag x = tag y" "tag y = tag z"
  proof (rule typed_comparator.less_trans [OF same])
    show "y \<in> S (tag x)" "z \<in> S (tag x)" using xy'(4) zS that by simp_all
    show "F (tag x) x y = Ok Less" "F (tag x) y z = Ok Less" using xy'(1) yz z(2,3) that by simp_all
  qed
  ultimately show "f x z = Ok Less" unfolding xz by (cases "tag x = tag z") (auto dest: less_trans)
qed

text \<open>
  The loops of the source: compare position by position and stop at the first difference.
\<close>

fun lex_fold :: "('a \<Rightarrow> ordering result) \<Rightarrow> 'a list \<Rightarrow> ordering result" where
  "lex_fold f [] = Ok Equal"
| "lex_fold f (x # xs) = and_then (f x) (\<lambda>r. if r \<noteq> Equal then Ok r else lex_fold f xs)"

lemma lex_fold_cong [fundef_cong]:
  "xs = ys \<Longrightarrow> (\<And>x. x \<in> set ys \<Longrightarrow> f x = g x) \<Longrightarrow> lex_fold f xs = lex_fold g ys"
proof (induction ys arbitrary: xs)
  case (Cons y ys)
  then have "lex_fold f ys = lex_fold g ys" by auto
  with Cons.prems show ?case by (simp cong: if_cong)
qed simp

lemma lex_fold_map: "lex_fold f (map g xs) = lex_fold (\<lambda>x. f (g x)) xs"
  by (induction xs) (simp_all cong: if_cong)

text \<open>Position by position, for lists of one length.\<close>

lemma comparator_lex:
  assumes "\<forall>i < n. typed_comparator (S i) (F i)"
  shows "typed_comparator {xs. length xs = n \<and> (\<forall>i < n. xs ! i \<in> S i)}
           (\<lambda>xs ys. lex_fold (\<lambda>i. F i (xs ! i) (ys ! i)) [0..<n])"
  using assms
proof (induction n arbitrary: S F)
  case 0
  show ?case by unfold_locales auto
next
  case (Suc n)
  let ?X = "{xs. length xs = Suc n \<and> (\<forall>i < Suc n. xs ! i \<in> S i)}"
  let ?R = "{xs. length xs = n \<and> (\<forall>i < n. xs ! i \<in> S (Suc i))}"
  let ?r = "\<lambda>xs ys. lex_fold (\<lambda>i. F (Suc i) (xs ! i) (ys ! i)) [0..<n]"
  have rest: "typed_comparator ?R ?r" using Suc.prems by (intro Suc.IH) simp
  have head: "typed_comparator (S 0) (F 0)" using Suc.prems by simp
  have unfold: "lex_fold (\<lambda>i. F i (xs ! i) (ys ! i)) [0..<Suc n] =
      and_then (F 0 (hd xs) (hd ys)) (\<lambda>r. if r \<noteq> Equal then Ok r else ?r (tl xs) (tl ys))"
    if "xs \<in> ?X" "ys \<in> ?X" for xs ys
  proof -
    from that obtain x xs' y ys' where "xs = x # xs'" "ys = y # ys'" by (auto simp: length_Suc_conv)
    then show ?thesis
      by (simp add: upt_conv_Cons map_Suc_upt [symmetric] lex_fold_map del: upt_Suc cong: if_cong)
  qed
  have mem: "hd xs \<in> S 0" "tl xs \<in> ?R" "xs = hd xs # tl xs" if "xs \<in> ?X" for xs
    using that by (auto simp: length_Suc_conv)
  show ?case
  proof
    fix xs ys assume xy: "xs \<in> ?X" "ys \<in> ?X"
    from typed_comparator.swap [OF head mem(1) [OF xy(1)] mem(1) [OF xy(2)]]
    obtain a where a: "F 0 (hd xs) (hd ys) = Ok a" "F 0 (hd ys) (hd xs) = Ok (reverse_ordering a)" by blast
    from typed_comparator.swap [OF rest mem(2) [OF xy(1)] mem(2) [OF xy(2)]]
    obtain b where b: "?r (tl xs) (tl ys) = Ok b" "?r (tl ys) (tl xs) = Ok (reverse_ordering b)" by blast
    have eq: "a = Equal \<longleftrightarrow> hd xs = hd ys" "b = Equal \<longleftrightarrow> tl xs = tl ys"
      using typed_comparator.equal [OF head mem(1) [OF xy(1)] mem(1) [OF xy(2)]] a
        typed_comparator.equal [OF rest mem(2) [OF xy(1)] mem(2) [OF xy(2)]] b by auto
    show "lex_fold (\<lambda>i. F i (xs ! i) (ys ! i)) [0..<Suc n] = Ok Equal \<longleftrightarrow> xs = ys"
      unfolding unfold [OF xy] using a b eq mem(3) [OF xy(1)] mem(3) [OF xy(2)] by auto
    show "\<exists>r. lex_fold (\<lambda>i. F i (xs ! i) (ys ! i)) [0..<Suc n] = Ok r \<and>
             lex_fold (\<lambda>i. F i (ys ! i) (xs ! i)) [0..<Suc n] = Ok (reverse_ordering r)"
      unfolding unfold [OF xy] unfold [OF xy(2,1)] using a b by auto
    fix zs assume z: "zs \<in> ?X" and less: "lex_fold (\<lambda>i. F i (xs ! i) (ys ! i)) [0..<Suc n] = Ok Less"
      "lex_fold (\<lambda>i. F i (ys ! i) (zs ! i)) [0..<Suc n] = Ok Less"
    from typed_comparator.swap [OF head mem(1) [OF xy(2)] mem(1) [OF z]]
    obtain a' where a': "F 0 (hd ys) (hd zs) = Ok a'" by blast
    have cases: "a = Less \<or> hd xs = hd ys \<and> ?r (tl xs) (tl ys) = Ok Less"
      "a' = Less \<or> hd ys = hd zs \<and> ?r (tl ys) (tl zs) = Ok Less"
      using less a a' eq typed_comparator.equal [OF head mem(1) [OF xy(2)] mem(1) [OF z]]
      unfolding unfold [OF xy] unfold [OF xy(2) z] by (auto split: if_splits)
    have "F 0 (hd xs) (hd zs) = Ok Less \<or> hd xs = hd zs \<and> ?r (tl xs) (tl zs) = Ok Less"
      using cases
    proof (elim disjE conjE)
      assume "a = Less" "a' = Less"
      with a(1) a' have "F 0 (hd xs) (hd zs) = Ok Less"
        by (intro typed_comparator.less_trans [OF head mem(1) [OF xy(1)] mem(1) [OF xy(2)] mem(1) [OF z]]) simp_all
      then show ?thesis ..
    next
      assume "hd xs = hd ys" "?r (tl xs) (tl ys) = Ok Less" "hd ys = hd zs" "?r (tl ys) (tl zs) = Ok Less"
      then show ?thesis
        using typed_comparator.less_trans [OF rest mem(2) [OF xy(1)] mem(2) [OF xy(2)] mem(2) [OF z]] by simp
    qed (use a(1) a' in simp_all)
    moreover have "F 0 (hd zs) (hd zs) = Ok Equal"
      using typed_comparator.equal [OF head mem(1) [OF z] mem(1) [OF z]] by simp
    ultimately show "lex_fold (\<lambda>i. F i (xs ! i) (zs ! i)) [0..<Suc n] = Ok Less"
      unfolding unfold [OF xy(1) z] by auto
  qed
qed

text \<open>Element by element, a proper prefix first.\<close>

definition lex_list :: "('a \<Rightarrow> 'a \<Rightarrow> ordering result) \<Rightarrow> 'a list \<Rightarrow> 'a list \<Rightarrow> ordering result" where
  "lex_list f xs ys =
     and_then (lex_fold (\<lambda>(x, y). f x y) (zip xs ys)) (\<lambda>r.
       Ok (if r = Equal then cmp (length xs) (length ys) else r))"

lemma lex_list_simps:
  "lex_list f [] [] = Ok Equal"
  "lex_list f [] (y # ys) = Ok Less"
  "lex_list f (x # xs) [] = Ok Greater"
  "lex_list f (x # xs) (y # ys) = and_then (f x y) (\<lambda>r. if r \<noteq> Equal then Ok r else lex_list f xs ys)"
proof -
  show "lex_list f (x # xs) (y # ys) = and_then (f x y) (\<lambda>r. if r \<noteq> Equal then Ok r else lex_list f xs ys)"
    by (cases "f x y") (auto simp: lex_list_def cmp_def cong: if_cong)
qed (simp_all add: lex_list_def)

lemma lex_list_less_trans:
  assumes "typed_comparator S f"
  shows "set xs \<subseteq> S \<Longrightarrow> set ys \<subseteq> S \<Longrightarrow> set zs \<subseteq> S \<Longrightarrow>
         lex_list f xs ys = Ok Less \<Longrightarrow> lex_list f ys zs = Ok Less \<Longrightarrow> lex_list f xs zs = Ok Less"
proof (induction xs arbitrary: ys zs)
  case Nil
  then show ?case by (cases zs; cases ys) (auto simp: lex_list_simps)
next
  case (Cons x xs)
  then obtain y ys' where ys: "ys = y # ys'" by (cases ys) (auto simp: lex_list_simps)
  with Cons.prems obtain z zs' where zs: "zs = z # zs'" by (cases zs) (auto simp: lex_list_simps)
  have S: "x \<in> S" "y \<in> S" "z \<in> S" using Cons.prems ys zs by auto
  have xy: "f x y = Ok Less \<or> x = y \<and> lex_list f xs ys' = Ok Less"
    using Cons.prems(4) typed_comparator.swap [OF assms S(1,2)] typed_comparator.equal [OF assms S(1,2)]
    by (auto simp: ys lex_list_simps split: if_splits)
  have yz: "f y z = Ok Less \<or> y = z \<and> lex_list f ys' zs' = Ok Less"
    using Cons.prems(5) typed_comparator.swap [OF assms S(2,3)] typed_comparator.equal [OF assms S(2,3)]
    by (auto simp: ys zs lex_list_simps split: if_splits)
  have "f x z = Ok Less \<or> x = z \<and> lex_list f xs zs' = Ok Less"
    using xy
  proof (elim disjE conjE)
    assume "f x y = Ok Less"
    then show ?thesis using yz typed_comparator.less_trans [OF assms S] by auto
  next
    assume "x = y" "lex_list f xs ys' = Ok Less"
    then show ?thesis using yz Cons.IH [of ys' zs'] Cons.prems(1-3) ys zs by auto
  qed
  moreover have "f z z = Ok Equal" using typed_comparator.equal [OF assms S(3,3)] by simp
  ultimately show ?case by (auto simp: zs lex_list_simps)
qed

lemma comparator_list:
  assumes "typed_comparator S f"
  shows "typed_comparator {xs. set xs \<subseteq> S} (lex_list f)"
proof
  fix xs ys assume "xs \<in> {xs. set xs \<subseteq> S}" "ys \<in> {xs. set xs \<subseteq> S}"
  then have "set xs \<subseteq> S" "set ys \<subseteq> S" by auto
  then have "(lex_list f xs ys = Ok Equal \<longleftrightarrow> xs = ys) \<and>
      (\<exists>r. lex_list f xs ys = Ok r \<and> lex_list f ys xs = Ok (reverse_ordering r))"
  proof (induction xs ys rule: list_induct2')
    case (4 x xs y ys)
    then have xy: "x \<in> S" "y \<in> S" by auto
    from typed_comparator.swap [OF assms xy] obtain r where r: "f x y = Ok r" "f y x = Ok (reverse_ordering r)" by blast
    have "r = Equal \<longleftrightarrow> x = y" using typed_comparator.equal [OF assms xy] r(1) by simp
    with r 4 show ?case by (auto simp: lex_list_simps)
  qed (simp_all add: lex_list_simps)
  then show "lex_list f xs ys = Ok Equal \<longleftrightarrow> xs = ys"
    "\<exists>r. lex_list f xs ys = Ok r \<and> lex_list f ys xs = Ok (reverse_ordering r)" by blast+
next
  fix xs ys zs assume "xs \<in> {xs. set xs \<subseteq> S}" "ys \<in> {xs. set xs \<subseteq> S}" "zs \<in> {xs. set xs \<subseteq> S}"
    "lex_list f xs ys = Ok Less" "lex_list f ys zs = Ok Less"
  then show "lex_list f xs zs = Ok Less" using lex_list_less_trans [OF assms, of xs ys zs] by simp
qed

end
