(* ===== verification/Typed_Order.thy ===== *)
theory Typed_Order
  imports Define Comparators
begin

text \<open>
  The order of the values of a type (\<^verbatim>\<open>src/src/model.rs\<close>, \<open>cmp_typed\<close>), which scans,
  cursors, aggregates and ordered indexes share.  On the values that conform to a type it never
  fails and is a linear order.
\<close>

section \<open>Comparison at a type\<close>

definition cmp_typed_items ::
  "(scalar_type \<Rightarrow> value \<Rightarrow> value \<Rightarrow> ordering result) \<Rightarrow> scalar_type list \<Rightarrow> value list \<Rightarrow> value list \<Rightarrow> ordering result" where
  "cmp_typed_items f tys left right =
     (if length left \<noteq> length tys \<or> length right \<noteq> length tys then Err E_TYPE
      else lex_fold (\<lambda>((ty, l), r). f ty l r) (zip (zip tys left) right))"

definition variant_for :: "variant_def list \<Rightarrow> u64 \<Rightarrow> variant_def result" where
  "variant_for vs i = ok_or E_TYPE (find (\<lambda>v. vd_id v = i \<and> vd_id v \<noteq> 0) vs)"

definition cmp_fields ::
  "(scalar_type \<Rightarrow> value \<Rightarrow> value \<Rightarrow> ordering result) \<Rightarrow> column list \<Rightarrow> (string, value) btree \<Rightarrow> (string, value) btree \<Rightarrow>
   ordering result" where
  "cmp_fields f columns left right =
     (if length left \<noteq> length columns \<or> length right \<noteq> length columns then Err E_TYPE
      else lex_fold (\<lambda>column.
        and_then (ok_or E_TYPE (bt_get left (col_name column))) (\<lambda>l.
        and_then (ok_or E_TYPE (bt_get right (col_name column))) (\<lambda>r.
          f (col_ty column) l r))) (sort_key col_id columns))"

definition cmp_entries ::
  "(value \<Rightarrow> value \<Rightarrow> ordering result) \<Rightarrow> (string, value) btree \<Rightarrow> (string, value) btree \<Rightarrow> ordering result" where
  "cmp_entries f left right =
     and_then (lex_fold (\<lambda>((lk, lv), (rk, rv)).
         let keys = cmp (as_bytes lk) (as_bytes rk)
         in if keys = Equal then f lv rv else Ok keys) (zip left right)) (\<lambda>r.
       Ok (if r = Equal then cmp (length left) (length right) else r))"

definition cmp_floats :: "f64 \<Rightarrow> f64 \<Rightarrow> ordering result" where
  "cmp_floats left right =
     (if \<not> is_finite left \<or> \<not> is_finite right then Err E_TYPE
      else if f64_eq left 0 \<and> f64_eq right 0 then Ok Equal
      else ok_or E_TYPE (f64_partial_cmp left right))"

text \<open>The scalar arms of the comparison.\<close>

definition cmp_scalars :: "scalar_type \<Rightarrow> value \<Rightarrow> value \<Rightarrow> ordering result" where
  "cmp_scalars ty left right =
     (case (ty, left, right) of
        (TInt, VInt l, VInt r) \<Rightarrow> Ok (cmp l r)
      | (TFloat, VFloat l, VFloat r) \<Rightarrow> cmp_floats l r
      | (TBool, VBool l, VBool r) \<Rightarrow> Ok (cmp l r)
      | (TText, VText l, VText r) \<Rightarrow> Ok (cmp (as_bytes l) (as_bytes r))
      | (TUuid, VUuid l, VUuid r) \<Rightarrow> Ok (cmp l r)
      | (TDate, VDate l, VDate r) \<Rightarrow> Ok (cmp l r)
      | (TTimestamp, VTimestamp l, VTimestamp r) \<Rightarrow> Ok (cmp l r)
      | (TDuration, VDuration l, VDuration r) \<Rightarrow> Ok (cmp l r)
      | (TDecimal precision scl, VDecimal l, VDecimal r) \<Rightarrow>
          if scale l = scl \<and> scale r = scl then Ok (cmp (coefficient l) (coefficient r)) else Err E_TYPE
      | (TBytes, VBytes l, VBytes r) \<Rightarrow> Ok (cmp l r)
      | (TNamed name, _, _) \<Rightarrow> Err E_SCHEMA
      | _ \<Rightarrow> Err E_TYPE)"

function cmp_typed_inner :: "catalog \<Rightarrow> scalar_type \<Rightarrow> value \<Rightarrow> value \<Rightarrow> nat \<Rightarrow> ordering result" where
  "cmp_typed_inner c ty left right depth =
     (if MAX_DEPTH \<le> depth then Err E_LIMIT
      else case ty of
        TRef i \<Rightarrow>
          (case (left, right) of
             (VNamed li l, VNamed ri r) \<Rightarrow>
               if li = i \<and> ri = i then and_then (definition_of c i) (\<lambda>d. cmp_typed_inner c (def_ty d) l r (Suc depth))
               else Err E_TYPE
           | _ \<Rightarrow> Err E_TYPE)
      | TEnum variants \<Rightarrow>
          (case (left, right) of
             (VEnum ln largs li, VEnum rn rargs ri) \<Rightarrow>
               and_then (variant_for variants li) (\<lambda>left_variant.
               and_then (variant_for variants ri) (\<lambda>right_variant.
                 if length largs \<noteq> length (vd_args left_variant) \<or> length rargs \<noteq> length (vd_args right_variant)
                 then Err E_TYPE
                 else let tag = cmp li ri in
                   if tag \<noteq> Equal then Ok tag
                   else cmp_typed_items (\<lambda>ty l r. cmp_typed_inner c ty l r (Suc depth)) (vd_args left_variant) largs rargs))
           | _ \<Rightarrow> Err E_TYPE)
      | TRecord columns \<Rightarrow>
          (case (left, right) of
             (VRecord l, VRecord r) \<Rightarrow> cmp_fields (\<lambda>ty l r. cmp_typed_inner c ty l r (Suc depth)) columns l r
           | _ \<Rightarrow> Err E_TYPE)
      | TTuple tys \<Rightarrow>
          (case (left, right) of
             (VTuple l, VTuple r) \<Rightarrow> cmp_typed_items (\<lambda>ty l r. cmp_typed_inner c ty l r (Suc depth)) tys l r
           | _ \<Rightarrow> Err E_TYPE)
      | TOption t \<Rightarrow>
          (case (left, right) of
             (VOption l, VOption r) \<Rightarrow>
               (case (l, r) of
                  (None, None) \<Rightarrow> Ok Equal
                | (None, Some _) \<Rightarrow> Ok Less
                | (Some _, None) \<Rightarrow> Ok Greater
                | (Some l, Some r) \<Rightarrow> cmp_typed_inner c t l r (Suc depth))
           | _ \<Rightarrow> Err E_TYPE)
      | TList t \<Rightarrow>
          (case (left, right) of
             (VList l, VList r) \<Rightarrow> lex_list (\<lambda>l r. cmp_typed_inner c t l r (Suc depth)) l r
           | _ \<Rightarrow> Err E_TYPE)
      | TMap t \<Rightarrow>
          (case (left, right) of
             (VMap l, VMap r) \<Rightarrow> cmp_entries (\<lambda>l r. cmp_typed_inner c t l r (Suc depth)) l r
           | _ \<Rightarrow> Err E_TYPE)
      | _ \<Rightarrow> cmp_scalars ty left right)"
  by pat_completeness auto
termination by (relation "measure (\<lambda>(c, ty, left, right, depth). MAX_DEPTH - depth)") auto

declare cmp_typed_inner.simps [simp del]

definition cmp_typed :: "catalog \<Rightarrow> scalar_type \<Rightarrow> value \<Rightarrow> value \<Rightarrow> ordering result" where
  "cmp_typed c ty left right = cmp_typed_inner c ty left right 0"

section \<open>The order is linear on the values of a type\<close>

lemma cmp_typed_scalar:
  "d < MAX_DEPTH \<Longrightarrow> subtypes ty = [] \<Longrightarrow> \<forall>i. ty \<noteq> TRef i \<Longrightarrow> \<forall>vs. ty \<noteq> TEnum vs \<Longrightarrow> \<forall>cols. ty \<noteq> TRecord cols \<Longrightarrow>
   \<forall>ts. ty \<noteq> TTuple ts \<Longrightarrow> cmp_typed_inner c ty x y d = cmp_scalars ty x y"
  by (subst cmp_typed_inner.simps) (cases ty; simp add: Let_def)

lemma cmp_typed_node:
  assumes "d < MAX_DEPTH"
  shows "definition_of c i = Ok def \<Longrightarrow>
      cmp_typed_inner c (TRef i) (VNamed i x) (VNamed i y) d = cmp_typed_inner c (def_ty def) x y (Suc d)"
    "cmp_typed_inner c (TTuple ts) (VTuple xs) (VTuple ys) d =
      cmp_typed_items (\<lambda>ty l r. cmp_typed_inner c ty l r (Suc d)) ts xs ys"
    "cmp_typed_inner c (TRecord cols) (VRecord fs) (VRecord gs) d =
      cmp_fields (\<lambda>ty l r. cmp_typed_inner c ty l r (Suc d)) cols fs gs"
    "cmp_typed_inner c (TList t) (VList xs) (VList ys) d = lex_list (\<lambda>l r. cmp_typed_inner c t l r (Suc d)) xs ys"
    "cmp_typed_inner c (TMap t) (VMap es) (VMap es') d = cmp_entries (\<lambda>l r. cmp_typed_inner c t l r (Suc d)) es es'"
    "cmp_typed_inner c (TOption t) (VOption (Some x)) (VOption (Some y)) d = cmp_typed_inner c t x y (Suc d)"
    "cmp_typed_inner c (TOption t) (VOption None) (VOption None) d = Ok Equal"
    "cmp_typed_inner c (TOption t) (VOption None) (VOption (Some y)) d = Ok Less"
    "cmp_typed_inner c (TOption t) (VOption (Some x)) (VOption None) d = Ok Greater"
  using assms by (subst cmp_typed_inner.simps; simp add: Let_def)+

lemma comparator_empty: "typed_comparator {} f"
  by unfold_locales auto

lemma comparator_singleton: "f x x = Ok Equal \<Longrightarrow> typed_comparator {x} f"
  by unfold_locales auto

fun int_key :: "value \<Rightarrow> int" where
  "int_key (VInt i) = i"
| "int_key (VDate i) = i"
| "int_key (VTimestamp i) = i"
| "int_key (VDuration i) = i"
| "int_key (VDecimal d) = coefficient d"
| "int_key (VFloat f) = f64_signed f"
| "int_key (VBool b) = (if b then 1 else 0)"
| "int_key _ = 0"

fun bytes_key :: "value \<Rightarrow> u8 list" where
  "bytes_key (VUuid u) = u"
| "bytes_key (VBytes bs) = bs"
| "bytes_key (VText s) = as_bytes s"
| "bytes_key _ = []"

lemma canonical_float_inj:
  assumes "canonical_float a" and "canonical_float b" 
  shows "f64_signed a = f64_signed b \<longleftrightarrow> a = b"
proof (cases "f64_magnitude a = 0")
  case True
  then have "a = 0" using assms(1) f64_is_zero_iff by (auto simp: canonical_float_def)
  then show ?thesis using assms(2) f64_is_zero_iff f64_signed_zero_iff
    by (auto simp: canonical_float_def f64_magnitude_def)
next
  case False
  then show ?thesis using f64_signed_inj by blast
qed

lemma cmp_floats_canonical:
  assumes "canonical_float a" "canonical_float b"
  shows "cmp_floats a b = Ok (cmp (f64_signed a) (f64_signed b))"
proof -
  have "is_finite a" "is_finite b" using assms by (auto simp: canonical_float_def)
  then show ?thesis
    by (auto simp: cmp_floats_def f64_eq_finite f64_partial_cmp_finite)
qed

lemma comparator_scalar:
  assumes "ty \<in> {TInt, TFloat, TBool, TText, TUuid, TDate, TTimestamp, TDuration, TBytes} \<or> (\<exists>p s. ty = TDecimal p s)"
  shows "typed_comparator {x. has_type c ty x} (cmp_scalars ty)"
proof (cases "ty \<in> {TText, TUuid, TBytes}")
  case True
  then show ?thesis
    by (intro comparator_key [where k = bytes_key]) (auto simp: inj_on_def cmp_scalars_def)
next
  case False
  have "inj_on int_key {x. has_type c ty x}"
    using assms False by (auto simp: inj_on_def decimal_ok_def canonical_float_inj split: if_splits)
  moreover have "cmp_scalars ty x y = Ok (cmp (int_key x) (int_key y))" if "has_type c ty x" "has_type c ty y" for x y
    using assms False that
    by (auto simp: cmp_scalars_def cmp_floats_canonical decimal_ok_def cmp_def split: if_splits)
  ultimately show ?thesis by (intro comparator_key [where k = int_key]) auto
qed

lemma lex_fold_zip:
  "length ts = n \<Longrightarrow> length xs = n \<Longrightarrow> length ys = n \<Longrightarrow>
   lex_fold (\<lambda>((t, x), y). f t x y) (zip (zip ts xs) ys) = lex_fold (\<lambda>i. f (ts ! i) (xs ! i) (ys ! i)) [0..<n]"
proof -
  assume len: "length ts = n" "length xs = n" "length ys = n"
  then have "zip (zip ts xs) ys = map (\<lambda>i. ((ts ! i, xs ! i), ys ! i)) [0..<n]"
    by (intro nth_equalityI) auto
  then show ?thesis by (simp add: lex_fold_map)
qed

lemma comparator_items:
  assumes "\<forall>t \<in> set ts. typed_comparator {x. P t x} (f t)"
  shows "typed_comparator {xs. list_all2 P ts xs} (cmp_typed_items f ts)"
proof -
  have lex: "typed_comparator {xs. length xs = length ts \<and> (\<forall>i < length ts. xs ! i \<in> {x. P (ts ! i) x})}
      (\<lambda>xs ys. lex_fold (\<lambda>i. f (ts ! i) (xs ! i) (ys ! i)) [0..<length ts])"
    using assms by (intro comparator_lex) auto
  show ?thesis
    by (rule comparator_via [OF lex, where k = "\<lambda>xs. xs"])
       (auto simp: list_all2_conv_all_nth cmp_typed_items_def lex_fold_zip)
qed

lemma comparator_fields:
  assumes ok: "type_ok c (TRecord cols)"
    and f: "\<forall>col \<in> set cols. typed_comparator {x. conforms c d (col_ty col) x} (f (col_ty col))"
  shows "typed_comparator {fs. bt_ok fs \<and> length fs = length cols \<and>
      (\<forall>(k, w) \<in> set fs. \<exists>col. find_column cols k = Some col \<and> conforms c d (col_ty col) w)} (cmp_fields f cols)"
    (is "typed_comparator ?X _")
proof -
  define cs where "cs = sort_key col_id cols"
  have cs: "set cs = set cols" "length cs = length cols" by (simp_all add: cs_def)
  have dist: "distinct (map col_name cols)" using ok by simp
  have field: "\<exists>w. bt_get fs (col_name col) = Some w \<and> conforms c d (col_ty col) w"
    if "fs \<in> ?X" "col \<in> set cols" for fs col
    using record_columns(1) [of fs cols "\<lambda>col. conforms c d (col_ty col)"] dist that by simp
  have keys: "fst ` set fs = col_name ` set cols" if "fs \<in> ?X" for fs
    using record_columns(2) [of fs cols "\<lambda>col. conforms c d (col_ty col)"] dist that by simp
  define k where "k = (\<lambda>fs :: (string \<times> value) list. map (\<lambda>col. the (bt_get fs (col_name col))) cs)"
  have lex: "typed_comparator {xs. length xs = length cs \<and> (\<forall>i < length cs. xs ! i \<in> {x. conforms c d (col_ty (cs ! i)) x})}
      (\<lambda>xs ys. lex_fold (\<lambda>i. f (col_ty (cs ! i)) (xs ! i) (ys ! i)) [0..<length cs])"
    using f cs(1) by (intro comparator_lex) (metis nth_mem)
  show ?thesis
  proof (rule comparator_via [OF lex, where k = k])
    fix fs assume fs: "fs \<in> ?X"
    have "conforms c d (col_ty (cs ! i)) (k fs ! i)" if "i < length cs" for i
      using field [OF fs, of "cs ! i"] nth_mem [OF that] that cs(1) by (auto simp: k_def)
    then show "k fs \<in> {xs. length xs = length cs \<and> (\<forall>i < length cs. xs ! i \<in> {x. conforms c d (col_ty (cs ! i)) x})}"
      by (simp add: k_def)
    fix gs assume gs: "gs \<in> ?X"
    have "lex_fold (\<lambda>column. and_then (ok_or E_TYPE (bt_get fs (col_name column))) (\<lambda>l.
        and_then (ok_or E_TYPE (bt_get gs (col_name column))) (\<lambda>r. f (col_ty column) l r))) cs =
      lex_fold (\<lambda>col. f (col_ty col) (the (bt_get fs (col_name col))) (the (bt_get gs (col_name col)))) cs"
      using field [OF fs] field [OF gs] cs(1) by (intro lex_fold_cong) fastforce+
    also have "\<dots> = lex_fold (\<lambda>i. f (col_ty (cs ! i)) (k fs ! i) (k gs ! i)) [0..<length cs]"
      by (subst (1) map_nth [symmetric], subst lex_fold_map) (auto simp: k_def intro: lex_fold_cong)
    finally show "cmp_fields f cols fs gs = lex_fold (\<lambda>i. f (col_ty (cs ! i)) (k fs ! i) (k gs ! i)) [0..<length cs]"
      using fs gs by (simp add: cmp_fields_def cs_def)
  next
    show "inj_on k ?X"
    proof (rule inj_onI)
      fix fs gs assume fs: "fs \<in> ?X" and gs: "gs \<in> ?X" and same: "k fs = k gs"
      show "fs = gs"
      proof (rule bt_ext_keys_values)
        fix n show "bt_get fs n = bt_get gs n"
        proof (cases "n \<in> col_name ` set cols")
          case True
          then obtain col where col: "col \<in> set cols" "n = col_name col" by blast
          with same cs(1) have "the (bt_get fs n) = the (bt_get gs n)" by (simp add: k_def)
          with field [OF fs col(1)] field [OF gs col(1)] col(2) show ?thesis by auto
        next
          case False
          then show ?thesis
            using keys [OF fs] keys [OF gs] by (metis bt_get_None_iff)
        qed
      qed (use fs gs in auto)
    qed
  qed
qed

lemma comparator_entries:
  assumes "typed_comparator {x. P x} f"
  shows "typed_comparator {es. \<forall>(k, w) \<in> set es. P w} (cmp_entries f)"
proof -
  let ?g = "\<lambda>a b. let keys = cmp (as_bytes (fst a)) (as_bytes (fst b)) in if keys = Equal then f (snd a) (snd b) else Ok keys"
  have pair: "typed_comparator {e. P (snd e)} ?g"
  proof (rule comparator_tag [where T = UNIV and tag = fst and S = "\<lambda>t. {e. fst e = t \<and> P (snd e)}"
        and F = "\<lambda>t a b. f (snd a) (snd b)"])
    fix t :: string
    show "typed_comparator {e. fst e = t \<and> P (snd e)} (\<lambda>a b. f (snd a) (snd b))"
      by (rule comparator_via [OF assms, where k = snd]) (auto simp: inj_on_def prod_eq_iff)
  qed (auto simp: Let_def)
  have loop: "(\<lambda>((lk, lv), (rk, rv)). let keys = cmp (as_bytes lk) (as_bytes rk) in if keys = Equal then f lv rv else Ok keys) =
      (\<lambda>(x, y). ?g x y)"
    by (simp add: fun_eq_iff)
  have "cmp_entries f = lex_list ?g"
    unfolding cmp_entries_def [abs_def] lex_list_def [abs_def] loop by (rule refl)
  then show ?thesis
    by (intro comparator_via [OF comparator_list [OF pair], where k = "\<lambda>es. es"]) auto
qed

lemma comparator_option:
  assumes "typed_comparator {x. P x} f"
    and "\<And>x y. g (VOption (Some x)) (VOption (Some y)) = f x y"
    and "g (VOption None) (VOption None) = Ok Equal" "\<And>y. g (VOption None) (VOption (Some y)) = Ok Less"
    "\<And>x. g (VOption (Some x)) (VOption None) = Ok Greater"
  shows "typed_comparator {x. x = VOption None \<or> (\<exists>w. x = VOption (Some w) \<and> P w)} g"
proof (rule comparator_tag [where T = UNIV and tag = "\<lambda>x. x \<noteq> VOption None"
      and S = "\<lambda>t. {x. if t then \<exists>w. x = VOption (Some w) \<and> P w else x = VOption None}" and F = "\<lambda>t. g"])
  fix t :: bool
  have "typed_comparator {x. \<exists>w. x = VOption (Some w) \<and> P w} g"
    by (rule comparator_via [OF assms(1), where k = "\<lambda>x. case x of VOption (Some w) \<Rightarrow> w | _ \<Rightarrow> x"])
       (auto simp: inj_on_def assms(2))
  then show "typed_comparator {x. if t then \<exists>w. x = VOption (Some w) \<and> P w else x = VOption None} g"
    using comparator_singleton [of g "VOption None"] assms(3) by (cases t) simp_all
qed (use assms in \<open>auto simp: cmp_def\<close>)

lemma variant_for_found: "find_variant vs i = Some v \<Longrightarrow> i \<noteq> 0 \<Longrightarrow> variant_for vs i = Ok v"
proof -
  assume v: "find_variant vs i = Some v" "i \<noteq> 0"
  then have "find (\<lambda>v. vd_id v = i \<and> vd_id v \<noteq> 0) vs = Some v"
    unfolding find_variant_def by (induction vs) (auto split: if_splits)
  then show ?thesis by (simp add: variant_for_def)
qed

lemma comparator_enum:
  assumes d: "d < MAX_DEPTH" and ok: "type_ok c (TEnum vs)"
    and f: "\<forall>v \<in> set vs. \<forall>t \<in> set (vd_args v).
              typed_comparator {x. conforms c (Suc d) t x} (\<lambda>x y. cmp_typed_inner c t x y (Suc d))"
  shows "typed_comparator {x. conforms c d (TEnum vs) x} (\<lambda>x y. cmp_typed_inner c (TEnum vs) x y d)"
proof (rule comparator_tag [where T = "vd_id ` set vs" and tag = "\<lambda>x. enum_id x"
      and S = "\<lambda>i. {x. \<exists>v as. x = VEnum (vd_name v) as i \<and> vd_id v = i \<and> i \<noteq> 0 \<and> find_variant vs i = Some v \<and>
                      list_all2 (conforms c (Suc d)) (vd_args v) as}"
      and F = "\<lambda>i x y. cmp_typed_items (\<lambda>ty l r. cmp_typed_inner c ty l r (Suc d))
                 (vd_args (the (find_variant vs i))) (enum_args x) (enum_args y)"])
  fix i assume "i \<in> vd_id ` set vs"
  then obtain v where v: "v \<in> set vs" "vd_id v = i" by blast
  then have found: "find_variant vs i = Some v" using ok find_variant_distinct by auto
  have items: "typed_comparator {xs. list_all2 (conforms c (Suc d)) (vd_args v) xs}
      (cmp_typed_items (\<lambda>ty l r. cmp_typed_inner c ty l r (Suc d)) (vd_args v))"
    using f v(1) by (intro comparator_items) auto
  show "typed_comparator {x. \<exists>v as. x = VEnum (vd_name v) as i \<and> vd_id v = i \<and> i \<noteq> 0 \<and> find_variant vs i = Some v \<and>
                      list_all2 (conforms c (Suc d)) (vd_args v) as}
      (\<lambda>x y. cmp_typed_items (\<lambda>ty l r. cmp_typed_inner c ty l r (Suc d))
                 (vd_args (the (find_variant vs i))) (enum_args x) (enum_args y))"
    by (rule comparator_via [OF items, where k = enum_args]) (auto simp: inj_on_def found)
next
  fix x assume "x \<in> {x. conforms c d (TEnum vs) x}"
  then show "enum_id x \<in> vd_id ` set vs \<and> x \<in> {xa. \<exists>v as. xa = VEnum (vd_name v) as (enum_id x) \<and> vd_id v = enum_id x \<and>
      enum_id x \<noteq> 0 \<and> find_variant vs (enum_id x) = Some v \<and> list_all2 (conforms c (Suc d)) (vd_args v) as}"
    by (auto dest: find_variant_Some)
  fix y assume "y \<in> {x. conforms c d (TEnum vs) x}"
  with \<open>x \<in> _\<close> obtain v as w bs where x: "x = VEnum (vd_name v) as (vd_id v)" "vd_id v \<noteq> 0"
    "find_variant vs (vd_id v) = Some v" "list_all2 (conforms c (Suc d)) (vd_args v) as"
    and y: "y = VEnum (vd_name w) bs (vd_id w)" "vd_id w \<noteq> 0"
    "find_variant vs (vd_id w) = Some w" "list_all2 (conforms c (Suc d)) (vd_args w) bs" by auto
  have "length as = length (vd_args v)" "length bs = length (vd_args w)"
    using x(4) y(4) by (auto dest: list_all2_lengthD)
  then have unfold: "cmp_typed_inner c (TEnum vs) x y d =
      (if cmp (vd_id v) (vd_id w) \<noteq> Equal then Ok (cmp (vd_id v) (vd_id w))
       else cmp_typed_items (\<lambda>ty l r. cmp_typed_inner c ty l r (Suc d)) (vd_args v) as bs)"
    using d variant_for_found [OF x(3,2)] variant_for_found [OF y(3,2)] unfolding x(1) y(1)
    by (subst cmp_typed_inner.simps) (simp add: Let_def)
  show "cmp_typed_inner c (TEnum vs) x y d =
      (if enum_id x = enum_id y
       then cmp_typed_items (\<lambda>ty l r. cmp_typed_inner c ty l r (Suc d))
              (vd_args (the (find_variant vs (enum_id x)))) (enum_args x) (enum_args y)
       else Ok (cmp (enum_id x) (enum_id y)))"
    unfolding unfold unfolding x(1) y(1) "value.sel" x(3) by simp
qed

lemma cmp_typed_comparator:
  assumes "types_ok c"
  shows "type_ok c ty \<Longrightarrow> typed_comparator {x. conforms c d ty x} (\<lambda>x y. cmp_typed_inner c ty x y d)"
proof (induction d arbitrary: ty rule: depth_induct)
  case (limit d)
  then have "{x. conforms c d ty x} = {}" using conforms_depth by fastforce
  then show ?case using comparator_empty by simp
next
  case (step d)
  note d = step.hyps and IH = step.IH
  have scalar: "typed_comparator {x. conforms c d ty x} (\<lambda>x y. cmp_typed_inner c ty x y d)"
    if "ty \<in> {TInt, TFloat, TBool, TText, TUuid, TDate, TTimestamp, TDuration, TBytes} \<or> (\<exists>p s. ty = TDecimal p s)"
    by (rule comparator_via [OF comparator_scalar [OF that, of c], where k = "\<lambda>x. x"])
       (use that d in \<open>auto simp: conforms_def cmp_typed_scalar\<close>)
  show ?case
  proof (cases ty)
    case (TRef i)
    with step.prems obtain def where def: "definition_of c i = Ok def" by (auto simp: is_ok_iff)
    show ?thesis unfolding TRef
      by (rule comparator_via [OF IH [OF types_okD [OF assms def]], where k = "\<lambda>x. case x of VNamed _ w \<Rightarrow> w | _ \<Rightarrow> x"])
         (auto simp: inj_on_def def cmp_typed_node [OF d])
  next
    case (TEnum vs)
    then show ?thesis using comparator_enum [OF d] step.prems IH by auto
  next
    case (TRecord cols)
    have fields: "typed_comparator {fs. bt_ok fs \<and> length fs = length cols \<and>
      (\<forall>(k, w) \<in> set fs. \<exists>col. find_column cols k = Some col \<and> conforms c (Suc d) (col_ty col) w)}
      (cmp_fields (\<lambda>ty l r. cmp_typed_inner c ty l r (Suc d)) cols)"
      using step.prems IH TRecord by (intro comparator_fields) auto
    have form: "\<exists>fs. x = VRecord fs \<and> bt_ok fs \<and> length fs = length cols \<and>
        (\<forall>(k, w) \<in> set fs. \<exists>col. find_column cols k = Some col \<and> conforms c (Suc d) (col_ty col) w)"
      if "conforms c d (TRecord cols) x" for x
    proof -
      from that obtain fs where "x = VRecord fs" "bt_ok fs" "length fs = length cols"
        "\<forall>(k, w) \<in> set fs. \<exists>col. find_column cols k = Some col \<and> string_ok k \<and> conforms c (Suc d) (col_ty col) w"
        by auto
      moreover from this(4) have "\<forall>(k, w) \<in> set fs. \<exists>col. find_column cols k = Some col \<and> conforms c (Suc d) (col_ty col) w"
        by fast
      ultimately show ?thesis by simp
    qed
    show ?thesis unfolding TRecord
      by (rule comparator_via [OF fields, where k = "\<lambda>x. case x of VRecord fs \<Rightarrow> fs | _ \<Rightarrow> []"])
         (auto simp: inj_on_def cmp_typed_node [OF d] simp del: conforms_node dest!: form)
  next
    case (TTuple ts)
    have items: "typed_comparator {xs. list_all2 (conforms c (Suc d)) ts xs}
      (cmp_typed_items (\<lambda>ty l r. cmp_typed_inner c ty l r (Suc d)) ts)"
      using step.prems IH TTuple by (intro comparator_items) (auto simp: list_all_iff)
    show ?thesis unfolding TTuple
      by (rule comparator_via [OF items, where k = "\<lambda>x. case x of VTuple xs \<Rightarrow> xs | _ \<Rightarrow> []"])
         (auto simp: inj_on_def cmp_typed_node [OF d])
  next
    case (TOption t)
    have "typed_comparator {x. conforms c (Suc d) t x} (\<lambda>x y. cmp_typed_inner c t x y (Suc d))"
      using IH step.prems TOption by simp
    from comparator_option [OF this, of "\<lambda>x y. cmp_typed_inner c (TOption t) x y d"] d
    show ?thesis unfolding TOption by (simp add: cmp_typed_node)
  next
    case (TList t)
    have items: "typed_comparator {xs. set xs \<subseteq> {x. conforms c (Suc d) t x}} (lex_list (\<lambda>x y. cmp_typed_inner c t x y (Suc d)))"
      using IH step.prems TList by (intro comparator_list) simp
    show ?thesis unfolding TList
      by (rule comparator_via [OF items, where k = "\<lambda>x. case x of VList xs \<Rightarrow> xs | _ \<Rightarrow> []"])
         (auto simp: inj_on_def cmp_typed_node [OF d] list_all_iff)
  next
    case (TMap t)
    have "typed_comparator {x. conforms c (Suc d) t x} (\<lambda>x y. cmp_typed_inner c t x y (Suc d))"
      using IH step.prems TMap by simp
    note entries = comparator_entries [OF this]
    show ?thesis unfolding TMap
      by (rule comparator_via [OF entries, where k = "\<lambda>x. case x of VMap es \<Rightarrow> es | _ \<Rightarrow> []"])
         (auto simp: inj_on_def cmp_typed_node [OF d] list_all_iff)
  next
    case (TNamed n)
    with step.prems show ?thesis by simp
  qed (use scalar in auto)
qed

section \<open>Equality at a type\<close>

lemma all2_cmp_eq:
  assumes "list_all2 cmp_eq as bs" and "list_all2 P ts as" and "list_all2 P ts bs"
    and "\<And>a b t. a \<in> set as \<Longrightarrow> t \<in> set ts \<Longrightarrow> P t a \<Longrightarrow> P t b \<Longrightarrow> cmp_eq a b \<Longrightarrow> a = b"
  shows "as = bs"
  using assms(1-3) by (intro nth_equalityI) (auto simp: list_all2_conv_all_nth intro!: assms(4))

lemma entries_cmp_eq:
  assumes "bt_ok as" "bt_ok bs" "equal_entries as bs"
    and "\<And>k a b. (k, a) \<in> set as \<Longrightarrow> (k, b) \<in> set bs \<Longrightarrow> cmp_eq a b \<Longrightarrow> a = b"
  shows "as = bs"
proof (rule nth_equalityI)
  from assms(1-3) have all2: "list_all2 (\<lambda>x y. fst x = fst y \<and> cmp_eq (snd x) (snd y)) as bs"
    by (simp add: equal_entries_all2)
  then show "length as = length bs" by (rule list_all2_lengthD)
  fix i assume i: "i < length as"
  with all2 have "fst (as ! i) = fst (bs ! i)" "cmp_eq (snd (as ! i)) (snd (bs ! i))" "i < length bs"
    by (auto simp: list_all2_conv_all_nth)
  with assms(4) [of "fst (as ! i)" "snd (as ! i)" "snd (bs ! i)"] i show "as ! i = bs ! i"
    by (metis nth_mem prod.collapse)
qed

lemma cmp_eq_same:
  assumes "types_ok c"
  shows "has_type c ty x \<Longrightarrow> has_type c ty y \<Longrightarrow> type_ok c ty \<Longrightarrow> cmp_eq x y \<Longrightarrow> x = y"
proof (induction x arbitrary: ty y)
  case (VEnum n as i)
  from VEnum.prems(1) obtain vs v where v: "ty = TEnum vs" "n = vd_name v" "i = vd_id v"
    "find_variant vs i = Some v" "list_all2 (has_type c) (vd_args v) as"
    by (cases ty) auto
  have "v \<in> set vs" using find_variant_Some [OF v(4)] by simp
  from VEnum.prems(2,4) v obtain bs where y: "y = VEnum n bs i" "list_all2 (has_type c) (vd_args v) bs" "list_all2 cmp_eq as bs"
    by (auto simp: equal_items_all2)
  have "as = bs"
    by (rule all2_cmp_eq [OF y(3) v(5) y(2)]) (use VEnum.IH VEnum.prems(3) v(1) \<open>v \<in> set vs\<close> in auto)
  with y show ?case by simp
next
  case (VRecord fs)
  then obtain cols where r: "ty = TRecord cols" by (cases ty) auto
  note x = VRecord.prems(1) [unfolded r has_type_simps]
  from VRecord.prems(2,4) obtain gs where y: "y = VRecord gs" "equal_entries fs gs" "bt_ok gs"
    "\<forall>(k, w) \<in> set gs. \<exists>col. find_column cols k = Some col \<and> string_ok k \<and> has_type c (col_ty col) w"
    unfolding r by auto
  have "fs = gs"
  proof (rule entries_cmp_eq [OF _ y(3,2)])
    fix k a b assume kab: "(k, a) \<in> set fs" "(k, b) \<in> set gs" "cmp_eq a b"
    from x kab(1) obtain col where col: "find_column cols k = Some col" "has_type c (col_ty col) a" by auto
    moreover from y(4) kab(2) col(1) have "has_type c (col_ty col) b" by fastforce
    moreover have "type_ok c (col_ty col)" using VRecord.prems(3) r find_column_Some [OF col(1)] by simp
    ultimately show "a = b" using VRecord.IH [OF kab(1)] kab(3) by (simp add: prod_set_defs)
  qed (use x in auto)
  with y show ?case by simp
next
  case (VTuple vs)
  then obtain ts where t: "ty = TTuple ts" "list_all2 (has_type c) ts vs" by (cases ty) auto
  with VTuple.prems obtain ws where y: "y = VTuple ws" "list_all2 (has_type c) ts ws" "list_all2 cmp_eq vs ws"
    by (auto simp: equal_items_all2)
  have "vs = ws"
    by (rule all2_cmp_eq [OF y(3) t(2) y(2)]) (use VTuple.IH VTuple.prems(3) t(1) in \<open>auto simp: list_all_iff\<close>)
  with y show ?case by simp
next
  case (VList vs)
  then obtain t where t: "ty = TList t" "\<forall>v \<in> set vs. has_type c t v" by (cases ty) (auto simp: list_all_iff)
  with VList.prems obtain ws where y: "y = VList ws" "\<forall>w \<in> set ws. has_type c t w" "list_all2 cmp_eq vs ws"
    by (auto simp: equal_items_all2 list_all_iff)
  have "vs = ws"
  proof (rule nth_equalityI)
    show "length vs = length ws" by (rule list_all2_lengthD [OF y(3)])
    then show "vs ! i = ws ! i" if "i < length vs" for i
      using that y(2,3) t VList.prems(3) by (intro VList.IH [of _ t]) (auto simp: list_all2_conv_all_nth)
  qed
  with y show ?case by simp
next
  case (VMap es)
  from VMap.prems(1) obtain t where t: "ty = TMap t" "bt_ok es"
    "\<forall>(k, w) \<in> set es. string_ok k \<and> length k \<le> MAX_MAP_KEY_BYTES \<and> has_type c t w"
    by (cases ty) (auto simp: list_all_iff)
  with VMap.prems(2,4) obtain gs where y: "y = VMap gs" "equal_entries es gs" "bt_ok gs"
    "\<forall>(k, w) \<in> set gs. string_ok k \<and> length k \<le> MAX_MAP_KEY_BYTES \<and> has_type c t w"
    by (auto simp: list_all_iff)
  have "es = gs"
  proof (rule entries_cmp_eq [OF t(2) y(3,2)])
    fix k a b assume kab: "(k, a) \<in> set es" "(k, b) \<in> set gs" "cmp_eq a b"
    then have "has_type c t a" "has_type c t b" using t(3) y(4) by auto
    then show "a = b" using VMap.IH [OF kab(1)] VMap.prems(3) t(1) kab(3) by (simp add: prod_set_defs)
  qed
  with y show ?case by simp
next
  case (VOption ov)
  then obtain t where t: "ty = TOption t" by (cases ty) auto
  show ?case
  proof (cases ov)
    case None
    with VOption.prems(4) show ?thesis by simp
  next
    case (Some v)
    with VOption.prems(1,2,4) t obtain w where "y = VOption (Some w)" "has_type c t v" "has_type c t w" "cmp_eq v w" by auto
    with VOption.IH [of v t w] VOption.prems(3) Some t show ?thesis by simp
  qed
next
  case (VNamed i w)
  from VNamed.prems(1) obtain d where d: "ty = TRef i" "definition_of c i = Ok d" "has_type c (def_ty d) w"
    by (cases ty) auto
  with VNamed.prems(2,4) obtain w' where "y = VNamed i w'" "has_type c (def_ty d) w'" "cmp_eq w w'" by auto
  with VNamed.IH [OF d(3) _ types_okD [OF assms d(2)]] show ?case by simp
next
  case (VFloat f)
  then obtain g where g: "y = VFloat g" "f64_eq f g" "canonical_float f" "canonical_float g" by (cases ty) auto
  then have "f64_signed f = f64_signed g" by (simp add: canonical_float_def f64_eq_finite)
  with g canonical_float_inj show ?case by simp
qed auto

lemma cmp_eq_typed:
  assumes "types_ok c" "type_ok c ty" "has_type c ty x" "has_type c ty y"
  shows "cmp_eq x y \<longleftrightarrow> x = y"
  using cmp_eq_same [OF assms(1,3,4,2)] has_type_ok [OF assms(1,3,2)] cmp_eq_refl by blast

section \<open>Property\<close>

interpretation typed: typed_comparator "{x. types_ok c \<and> type_ok c ty \<and> conforms c 0 ty x}" "cmp_typed c ty" for c ty
proof (cases "types_ok c \<and> type_ok c ty")
  case True
  then show "typed_comparator {x. types_ok c \<and> type_ok c ty \<and> conforms c 0 ty x} (cmp_typed c ty)"
    using cmp_typed_comparator [of c ty 0] by (simp add: cmp_typed_def [abs_def])
next
  case False
  then have "{x. types_ok c \<and> type_ok c ty \<and> conforms c 0 ty x} = {}" by blast
  then show "typed_comparator {x. types_ok c \<and> type_ok c ty \<and> conforms c 0 ty x} (cmp_typed c ty)"
    using comparator_empty by metis
qed

text \<open>
  (C9) The typed order is a linear order.  For any values of a well-formed type, \<open>cmp_typed\<close> answers
  without error, answers \<open>Equal\<close> exactly when \<open>cmp_eq\<close> holds (which on such values is identity),
  reverses its answer when the operands are swapped, and is transitive.  Sorting by it therefore has
  exactly one result.
\<close>

theorem cmp_typed_linear_order:
  assumes "types_ok c" and "type_ok c ty"
    and "conforms c 0 ty x" and "conforms c 0 ty y" and "conforms c 0 ty z"
  shows "(\<exists>r. cmp_typed c ty x y = Ok r \<and> cmp_typed c ty y x = Ok (reverse_ordering r)) \<and>
    (cmp_typed c ty x y = Ok Equal \<longleftrightarrow> cmp_eq x y) \<and> (cmp_eq x y \<longleftrightarrow> x = y) \<and>
    (cmp_typed c ty x y = Ok Less \<longrightarrow> cmp_typed c ty y z = Ok Less \<longrightarrow> cmp_typed c ty x z = Ok Less)"
proof -
  have S: "v \<in> {x. types_ok c \<and> type_ok c ty \<and> conforms c 0 ty x} \<longleftrightarrow> conforms c 0 ty v" for v
    using assms(1,2) by simp
  have "cmp_eq x y \<longleftrightarrow> x = y" using cmp_eq_typed [OF assms(1,2)] assms(3,4) by (simp add: conforms_def)
  then show ?thesis
    using typed.swap [of x c ty y] typed.equal [of x c ty y] typed.less_trans [of x c ty y z] assms(3-5)
    unfolding S by blast
qed

theorem cmp_typed_linear_order_witness:
  "cmp_typed example_catalog (TRef 1) (VNamed 1 (VRecord [(''x'', VInt 3), (''y'', VFloat 0)]))
     (VNamed 1 (VRecord [(''x'', VInt 7), (''y'', VFloat 0)])) = Ok Less \<and>
   cmp_typed example_catalog (TRef 1) (VNamed 1 (VRecord [(''x'', VInt 3), (''y'', VFloat 0)]))
     (VNamed 1 (VRecord [(''x'', VInt 9), (''y'', VFloat 0)])) = Ok Less"
proof -
  let ?p = "\<lambda>i. VNamed 1 (VRecord [(''x'', VInt i), (''y'', VFloat 0)])"
  have "type_ok example_catalog (TRef 1)" "conforms example_catalog 0 (TRef 1) (?p 3)"
    "conforms example_catalog 0 (TRef 1) (?p 7)" "conforms example_catalog 0 (TRef 1) (?p 9)"
    "cmp_typed example_catalog (TRef 1) (?p 3) (?p 7) = Ok Less"
    "cmp_typed example_catalog (TRef 1) (?p 7) (?p 9) = Ok Less"
    by code_simp+
  with cmp_typed_linear_order [OF example_catalog_ok, of "TRef 1" "?p 3" "?p 7" "?p 9"] show ?thesis by simp
qed

end
