(* ===== verification/Order_Codes.thy ===== *)
theory Order_Codes
  imports Comparators Byte_Strings
begin

text \<open>
  Byte encodings that carry an order.  The contract \<open>order_code\<close> asks that a smaller value's
  code is smaller at the first byte where the two codes differ; such codes can be concatenated and
  complemented, and their lexicographic order is the order of the values.
\<close>

section \<open>The contract\<close>

locale order_code = typed_comparator +
  fixes k :: "'a \<Rightarrow> u8 list"
  assumes code_less: "x \<in> S \<Longrightarrow> y \<in> S \<Longrightarrow> f x y = Ok Less \<Longrightarrow> diverges (k x) (k y)"
begin

lemma code_cases:
  assumes "x \<in> S" "y \<in> S"
  shows "f x y = Ok Less \<and> diverges (k x) (k y) \<or> x = y \<or> f y x = Ok Less \<and> diverges (k y) (k x)"
  using answers [OF assms] code_less assms by blast

lemma code_inj: "x \<in> S \<Longrightarrow> y \<in> S \<Longrightarrow> k x = k y \<longleftrightarrow> x = y"
  using code_cases diverges_irrefl by metis

lemma code_diverges_iff: "x \<in> S \<Longrightarrow> y \<in> S \<Longrightarrow> diverges (k x) (k y) \<longleftrightarrow> f x y = Ok Less"
  using code_cases [of x y] code_less diverges_irrefl diverges_asym by blast

lemma code_less_iff: "x \<in> S \<Longrightarrow> y \<in> S \<Longrightarrow> k x < k y \<longleftrightarrow> f x y = Ok Less"
  using code_cases [of x y] diverges_less less_asym by (metis order_less_asym order_less_irrefl code_less)

text \<open>What follows the codes does not matter once the values differ.\<close>

lemma code_append_less:
  "x \<in> S \<Longrightarrow> y \<in> S \<Longrightarrow> x \<noteq> y \<Longrightarrow> k x @ r < k y @ s \<longleftrightarrow> f x y = Ok Less"
  using code_cases [of x y] diverges_append diverges_less by (metis order_less_asym less_asym)

lemma code_prefix_free: "x \<in> S \<Longrightarrow> y \<in> S \<Longrightarrow> k x @ r = k y @ s \<Longrightarrow> x = y \<and> r = s"
  using code_cases [of x y] diverges_append [of "k x" "k y" r s] diverges_append [of "k y" "k x" s r] diverges_irrefl
  by (metis same_append_eq)

text \<open>A descending component complements its bytes.\<close>

lemma code_descending: "x \<in> S \<Longrightarrow> y \<in> S \<Longrightarrow> diverges (map NOT (k x)) (map NOT (k y)) \<longleftrightarrow> f y x = Ok Less"
  by (simp add: diverges_map_not code_diverges_iff)

end

section \<open>Building codes\<close>

lemma diverges_same_length: "length s = length t \<Longrightarrow> s < t \<Longrightarrow> diverges s t"
  using diverges_equal_length diverges_less by (metis order_less_asym order_less_irrefl)

lemma less_append_same [simp]: "p @ s < p @ t \<longleftrightarrow> s < (t :: 'a::linorder list)"
  by (induction p) auto

lemma be_bytes_less_iff: "x < 256 ^ n \<Longrightarrow> y < 256 ^ n \<Longrightarrow> be_bytes n x < be_bytes n y \<longleftrightarrow> x < y"
  using diverges_be_bytes_iff [of x n y] diverges_less diverges_same_length by (metis length_be_bytes)

text \<open>Field by field.\<close>

lemma lex_fold_diverges:
  assumes "lex_fold F ps = Ok Less"
    and "\<And>p. p \<in> set ps \<Longrightarrow> F p = Ok Equal \<Longrightarrow> g p = h p"
    and "\<And>p. p \<in> set ps \<Longrightarrow> F p = Ok Less \<Longrightarrow> diverges (g p) (h p)"
  shows "diverges (concat (map g ps)) (concat (map h ps))"
  using assms
proof (induction ps)
  case (Cons p ps)
  from Cons.prems(1) consider "F p = Ok Less" | "F p = Ok Equal" "lex_fold F ps = Ok Less"
    by (auto simp: and_then_Ok_iff split: if_splits)
  then show ?case
  proof cases
    case 1
    then show ?thesis by (simp add: Cons.prems(3) diverges_append)
  next
    case 2
    moreover from 2 have "diverges (concat (map g ps)) (concat (map h ps))" using Cons by simp
    ultimately show ?thesis using Cons.prems(2) [of p] by simp
  qed
qed simp

text \<open>Element by element: each element is preceded by a one, the end is a zero.\<close>

lemma lex_list_diverges:
  assumes "lex_list f xs ys = Ok Less"
    and "\<And>x y. x \<in> set xs \<Longrightarrow> y \<in> set ys \<Longrightarrow> f x y = Ok Equal \<Longrightarrow> g x = g y"
    and "\<And>x y. x \<in> set xs \<Longrightarrow> y \<in> set ys \<Longrightarrow> f x y = Ok Less \<Longrightarrow> diverges (g x) (g y)"
  shows "diverges (concat (map (\<lambda>x. (1 :: u8) # g x) xs) @ [0]) (concat (map (\<lambda>x. 1 # g x) ys) @ [0])"
  using assms
proof (induction xs ys rule: list_induct2')
  case (4 x xs y ys)
  note less = 4(2) and eq = 4(3) and dv = 4(4)
  from less consider "f x y = Ok Less" | "f x y = Ok Equal" "lex_list f xs ys = Ok Less"
    by (auto simp: lex_list_simps and_then_Ok_iff split: if_splits)
  then show ?case
  proof cases
    case 1
    then show ?thesis by (simp add: dv diverges_append)
  next
    case 2
    moreover from 2 have "diverges (concat (map (\<lambda>x. (1 :: u8) # g x) xs) @ [0]) (concat (map (\<lambda>x. 1 # g x) ys) @ [0])"
      using 4(1) eq dv by simp
    ultimately show ?thesis using eq [of x y] by simp
  qed
qed (simp_all add: lex_list_simps)

text \<open>Zero bytes are escaped and two zeros end a string.\<close>

definition escape :: "u8 list \<Rightarrow> u8 list" where
  "escape bs = concat (map (\<lambda>b. if b = 0 then [0, 255] else [b]) bs) @ [0, 0]"

lemma escape_less: "a < b \<Longrightarrow> diverges (escape a) (escape b)"
proof (induction a arbitrary: b)
  case Nil
  then obtain c b' where "b = c # b'" by (cases b) auto
  then show ?case by (auto simp: escape_def word_neq_0_conv)
next
  case (Cons x a)
  then obtain y b' where b: "b = y # b'" by (cases b) auto
  with Cons.prems consider "x < y" | "x = y" "a < b'" by auto
  then show ?case
  proof cases
    case 1
    then have "y \<noteq> 0" by auto
    with 1 b show ?thesis by (auto simp: escape_def word_neq_0_conv)
  next
    case 2
    with Cons.IH [of b'] b show ?thesis by (auto simp: escape_def)
  qed
qed

end
