(* ===== verification/Ordered_Key.thy ===== *)
theory Ordered_Key
  imports Typed_Order Order_Codes
begin

unbundle bit_operations_syntax

text \<open>
  Secondary index keys (\<^verbatim>\<open>src/src/ordered_key.rs\<close>): a byte encoding of typed values whose
  lexicographic order is the order of the values, with components that may be descending.
\<close>

section \<open>Encoding\<close>

definition INDEX_KEY_CODEC_VERSION :: nat where
  "INDEX_KEY_CODEC_VERSION = 3"

definition MAP_INDEX_KEY_CODEC_VERSION :: nat where
  "MAP_INDEX_KEY_CODEC_VERSION = 4"

definition MAX_COMPLETE_INDEX_KEY_BYTES :: nat where
  "MAX_COMPLETE_INDEX_KEY_BYTES = 64 * 1024"

definition INDEX_MAGIC :: "u8 list" where
  "INDEX_MAGIC = as_bytes ''UIDI''"

definition MAX_INDEX_COMPONENTS :: nat where
  "MAX_INDEX_COMPONENTS = 16"

text \<open>\<open>(value as uN) ^ (1 << (N - 1))\<close>: two's complement with the sign bit flipped.\<close>

definition flip_sign :: "int \<Rightarrow> 'a::len word" where
  "flip_sign i = word_of_int i XOR push_bit (LENGTH('a) - 1) 1"

definition ordered_float :: "f64 \<Rightarrow> u64" where
  "ordered_float f =
     (let bits = (if f64_is_zero f then 0 else f)
      in if bits AND push_bit 63 1 = 0 then bits XOR push_bit 63 1 else NOT bits)"

definition encode_escaped :: "u8 list \<Rightarrow> u8 list \<Rightarrow> u8 list" where
  "encode_escaped bytes output =
     foldl (\<lambda>output byte. if byte = 0 then output @ [0, 255] else output @ [byte]) output bytes @ [0, 0]"

text \<open>The scalar arms of \<open>encode_value\<close>.\<close>

definition encode_key_scalar :: "scalar_type \<Rightarrow> value \<Rightarrow> u8 list \<Rightarrow> u8 list result" where
  "encode_key_scalar ty v output =
     (case (ty, v) of
        (TInt, VInt i) \<Rightarrow> Ok (output @ be_bytes 8 (unat (flip_sign i :: u64)))
      | (TFloat, VFloat f) \<Rightarrow>
          if is_finite f then Ok (output @ be_bytes 8 (unat (ordered_float f))) else Err E_TYPE
      | (TBool, VBool b) \<Rightarrow> Ok (output @ [if b then 1 else 0])
      | (TText, VText t) \<Rightarrow> Ok (encode_escaped (as_bytes t) output)
      | (TUuid, VUuid u) \<Rightarrow> Ok (output @ u)
      | (TDate, VDate n) \<Rightarrow> Ok (output @ be_bytes 4 (unat (flip_sign n :: 32 word)))
      | (TTimestamp, VTimestamp n) \<Rightarrow> Ok (output @ be_bytes 8 (unat (flip_sign n :: u64)))
      | (TDuration, VDuration n) \<Rightarrow> Ok (output @ be_bytes 8 (unat (flip_sign n :: u64)))
      | (TDecimal _ scl, VDecimal d) \<Rightarrow>
          if scale d = scl then Ok (output @ be_bytes 16 (unat (flip_sign (coefficient d) :: 128 word))) else Err E_TYPE
      | (TBytes, VBytes bs) \<Rightarrow> Ok (encode_escaped bs output)
      | (TNamed _, _) \<Rightarrow> Err E_SCHEMA
      | _ \<Rightarrow> Err E_TYPE)"

function encode_key :: "catalog \<Rightarrow> scalar_type \<Rightarrow> value \<Rightarrow> u8 list \<Rightarrow> nat \<Rightarrow> nat \<Rightarrow> u8 list result" where
  "encode_key c ty v output depth version =
     (if MAX_DEPTH \<le> depth then Err E_LIMIT
      else case ty of
        TRef i \<Rightarrow>
          (case v of
             VNamed type_id w \<Rightarrow>
               if type_id = i then and_then (definition_of c i) (\<lambda>d. encode_key c (def_ty d) w output (Suc depth) version)
               else Err E_TYPE
           | _ \<Rightarrow> Err E_TYPE)
      | TEnum variants \<Rightarrow>
          (case v of
             VEnum _ as i \<Rightarrow>
               and_then (variant_for variants i) (\<lambda>variant.
                 if length as \<noteq> length (vd_args variant) then Err E_TYPE
                 else try_fold (\<lambda>output (t, w). encode_key c t w output (Suc depth) version)
                   (output @ be_bytes 8 (unat i)) (zip (vd_args variant) as))
           | _ \<Rightarrow> Err E_TYPE)
      | TRecord columns \<Rightarrow>
          (case v of
             VRecord values \<Rightarrow>
               if length values = length columns then
                 try_fold (\<lambda>output column.
                   and_then (ok_or E_TYPE (bt_get values (col_name column))) (\<lambda>w.
                     encode_key c (col_ty column) w output (Suc depth) version))
                   output (sort_key col_id columns)
               else Err E_TYPE
           | _ \<Rightarrow> Err E_TYPE)
      | TTuple ts \<Rightarrow>
          (case v of
             VTuple values \<Rightarrow>
               if length values = length ts then
                 try_fold (\<lambda>output (t, w). encode_key c t w output (Suc depth) version) output (zip ts values)
               else Err E_TYPE
           | _ \<Rightarrow> Err E_TYPE)
      | TOption t \<Rightarrow>
          (case v of
             VOption None \<Rightarrow> Ok (output @ [0])
           | VOption (Some w) \<Rightarrow> encode_key c t w (output @ [1]) (Suc depth) version
           | _ \<Rightarrow> Err E_TYPE)
      | TList t \<Rightarrow>
          (case v of
             VList values \<Rightarrow>
               and_then (try_fold (\<lambda>output w. encode_key c t w (output @ [1]) (Suc depth) version) output values)
                 (\<lambda>output. Ok (output @ [0]))
           | _ \<Rightarrow> Err E_TYPE)
      | TMap t \<Rightarrow>
          if version < MAP_INDEX_KEY_CODEC_VERSION then Err E_STORAGE_UPGRADE_REQUIRED
          else (case v of
             VMap entries \<Rightarrow>
               and_then (try_fold (\<lambda>output (k, w).
                   encode_key c t w (encode_escaped (as_bytes k) (output @ [1])) (Suc depth) version) output entries)
                 (\<lambda>output. Ok (output @ [0]))
           | _ \<Rightarrow> Err E_TYPE)
      | _ \<Rightarrow> encode_key_scalar ty v output)"
  by pat_completeness auto
termination by (relation "measure (\<lambda>(c, ty, v, output, depth, version). MAX_DEPTH - depth)") auto

declare encode_key.simps [simp del]

section \<open>Index keys\<close>

record component =
  comp_ty :: scalar_type
  comp_value :: "value"
  descending :: bool

definition encode_tuple_version :: "catalog \<Rightarrow> component list \<Rightarrow> nat \<Rightarrow> u8 list result" where
  "encode_tuple_version c components version =
     (if components = [] \<or> length components > MAX_INDEX_COMPONENTS then Err E_INDEX_SHAPE
      else try_fold (\<lambda>output component.
        let start = length output in
        and_then (encode_key c (comp_ty component) (comp_value component) output 0 version) (\<lambda>output.
          Ok (if descending component then take start output @ map NOT (drop start output) else output)))
        [] components)"

definition encode_tuple :: "catalog \<Rightarrow> component list \<Rightarrow> u8 list result" where
  "encode_tuple c components = encode_tuple_version c components MAP_INDEX_KEY_CODEC_VERSION"

definition encode_complete_version :: "catalog \<Rightarrow> u64 \<Rightarrow> component list \<Rightarrow> u64 \<Rightarrow> nat \<Rightarrow> u8 list result" where
  "encode_complete_version c index_id components row_id version =
     and_then (encode_tuple_version c components version) (\<lambda>tuple.
       if length components \<ge> 256 then Err E_INDEX_SHAPE
       else let output = INDEX_MAGIC @ be_bytes 2 version @ be_bytes 8 (unat index_id) @ [of_nat (length components)] @
              tuple @ be_bytes 8 (unat row_id)
         in if length output > MAX_COMPLETE_INDEX_KEY_BYTES then Err E_INDEX_KEY_LIMIT else Ok output)"

definition encode_complete :: "catalog \<Rightarrow> u64 \<Rightarrow> component list \<Rightarrow> u64 \<Rightarrow> u8 list result" where
  "encode_complete c index_id components row_id =
     encode_complete_version c index_id components row_id INDEX_KEY_CODEC_VERSION"

definition encode_complete_v4 :: "catalog \<Rightarrow> u64 \<Rightarrow> component list \<Rightarrow> u64 \<Rightarrow> u8 list result" where
  "encode_complete_v4 c index_id components row_id =
     encode_complete_version c index_id components row_id MAP_INDEX_KEY_CODEC_VERSION"

definition validate_complete_version :: "u8 list \<Rightarrow> nat \<Rightarrow> unit result" where
  "validate_complete_version key expected =
     (if length key < 23 \<or> length key > MAX_COMPLETE_INDEX_KEY_BYTES \<or> take 4 key \<noteq> INDEX_MAGIC then Err E_STORAGE
      else let version = of_be_bytes (take 2 (drop 4 key)) in
        if version \<noteq> expected then Err E_STORAGE
        else let count = unat (key ! 14) in
          if count = 0 \<or> count > MAX_INDEX_COMPONENTS then Err E_STORAGE else Ok ())"

definition validate_complete :: "u8 list \<Rightarrow> unit result" where
  "validate_complete key = validate_complete_version key INDEX_KEY_CODEC_VERSION"

definition validate_complete_v4 :: "u8 list \<Rightarrow> unit result" where
  "validate_complete_v4 key = validate_complete_version key MAP_INDEX_KEY_CODEC_VERSION"

section \<open>Scalars in order\<close>

lemma top_bit_iff: "bit w (LENGTH('a) - 1) \<longleftrightarrow> 2 ^ (LENGTH('a) - 1) \<le> unat (w :: 'a::len word)"
proof -
  define n where "n = LENGTH('a) - 1"
  have L: "LENGTH('a) = Suc n" using len_gt_0 [where 'a = 'a] by (simp add: n_def)
  have less: "unat w < 2 * 2 ^ n" using unsigned_less [of w] by (simp add: L)
  have "bit w n \<longleftrightarrow> odd (unat w div 2 ^ n)" by (simp add: bit_unsigned_iff L flip: bit_iff_odd)
  also have "\<dots> \<longleftrightarrow> 2 ^ n \<le> unat w"
  proof (cases "2 ^ n \<le> unat w")
    case True
    then have "unat w div 2 ^ n = 1" using less by (simp add: div_nat_eqI)
    then show ?thesis using True by simp
  qed simp
  finally show ?thesis by (simp add: n_def)
qed

lemma unat_xor_sign:
  fixes w :: "'a::len word"
  shows "unat (w XOR push_bit (LENGTH('a) - 1) 1) =
    (if unat w < 2 ^ (LENGTH('a) - 1) then unat w + 2 ^ (LENGTH('a) - 1) else unat w - 2 ^ (LENGTH('a) - 1))"
proof -
  define n where "n = LENGTH('a) - 1"
  have L: "LENGTH('a) = Suc n" using len_gt_0 [where 'a = 'a] by (simp add: n_def)
  have b: "bit w n \<longleftrightarrow> 2 ^ n \<le> unat w" using top_bit_iff [of w] by (simp add: n_def)
  have p: "unat (2 ^ n :: 'a word) = 2 ^ n"
  proof -
    have "unat (of_nat (2 ^ n) :: 'a word) = 2 ^ n" by (simp add: unat_of_nat L del: of_nat_power)
    then show ?thesis by simp
  qed
  have f: "w XOR push_bit n 1 = flip_bit n w" by (simp add: flip_bit_eq_xor)
  show ?thesis
  proof (cases "bit w n")
    case True
    then have "flip_bit n w = w - 2 ^ n" by (simp add: flip_bit_eq_if unset_bit_eq)
    moreover have "unat (w - 2 ^ n) = unat w - 2 ^ n"
      using b True by (subst unat_sub) (auto simp: word_le_nat_alt p)
    ultimately show ?thesis using b True f by (simp add: n_def)
  next
    case False
    then have "flip_bit n w = w + 2 ^ n" by (simp add: flip_bit_eq_if set_bit_eq)
    moreover have "unat (w + 2 ^ n) = unat w + 2 ^ n"
      using b False by (simp add: unat_word_ariths L p)
    ultimately show ?thesis using b False f by (simp add: n_def)
  qed
qed

lemma unat_flip_sign:
  assumes "- (2 ^ (LENGTH('a) - 1)) \<le> i" "i < 2 ^ (LENGTH('a) - 1)"
  shows "unat (flip_sign i :: 'a::len word) = nat (i + 2 ^ (LENGTH('a) - 1))"
proof -
  define m :: int where "m = 2 ^ (LENGTH('a) - 1)"
  have m2: "2 ^ LENGTH('a) = 2 * m" using len_gt_0 [where 'a='a] by (simp add: m_def flip: power_Suc)
  have m0: "0 < m" by (simp add: m_def)
  define U where "U = unat (word_of_int i :: 'a word)"
  define M :: nat where "M = 2 ^ (LENGTH('a) - 1)"
  have u: "int U = i mod (2 * m)"
    using m0 by (simp add: U_def unsigned_of_int take_bit_eq_mod m2)
  have M: "int M = m" by (simp add: m_def M_def)
  have r: "- m \<le> i" "i < m" using assms by (simp_all add: m_def)
  have flip: "unat (flip_sign i :: 'a word) = (if U < M then U + M else U - M)"
    unfolding flip_sign_def unat_xor_sign by (simp only: U_def M_def)
  have "int (if U < M then U + M else U - M) = i + m"
  proof (cases "0 \<le> i")
    case True
    then have "i mod (2 * m) = i" using r by simp
    with u M r show ?thesis by auto
  next
    case False
    then have "i mod (2 * m) = i + 2 * m" using r mod_pos_pos_trivial [of "i + 2 * m" "2 * m"] by simp
    with u M r False show ?thesis by auto
  qed
  then show ?thesis unfolding flip m_def by linarith
qed

lemma ordered_float_mono:
  assumes "canonical_float a" "canonical_float b" "f64_signed a < f64_signed b"
  shows "unat (ordered_float a) < unat (ordered_float b)"
proof -
  have key: "unat (ordered_float f) = (if f64_negative f then 2 ^ 63 - 1 - f64_magnitude f else 2 ^ 63 + f64_magnitude f)"
    if f: "canonical_float f" for f
  proof -
    have bits: "(if f64_is_zero f then 0 else f) = f" using f by (simp add: canonical_float_def)
    have "f AND push_bit 63 1 = 0 \<longleftrightarrow> \<not> f64_negative f"
      using bit_iff_and_push_bit_not_eq_0 [of f 63] top_bit_iff [of f] by (auto simp: f64_negative_def)
    then have ord: "ordered_float f = (if f64_negative f then NOT f else f XOR push_bit 63 1)"
      unfolding ordered_float_def Let_def bits by (cases "f64_negative f") (simp_all only: if_True if_False simp_thms)
    have mag: "f64_magnitude f < 2 ^ 63" by (simp add: f64_magnitude_def)
    show ?thesis
    proof (cases "f64_negative f")
      case True
      then have "ordered_float f = NOT f" unfolding ord by simp
      with True show ?thesis using unat_f64 [of f] by (simp only: unat_not_word) simp
    next
      case False
      then have "ordered_float f = f XOR push_bit (LENGTH(64) - 1) 1" unfolding ord by simp
      with False mag show ?thesis using unat_f64 [of f] by (simp only: unat_xor_sign) simp
    qed
  qed
  have nz: "f64_magnitude f \<noteq> 0" if "canonical_float f" "f64_negative f" for f
    using that f64_is_zero_iff [of f] by (auto simp: canonical_float_def f64_negative_def)
  have mag: "f64_magnitude f < 2 ^ 63" for f by (simp add: f64_magnitude_def)
  show ?thesis
    unfolding key [OF assms(1)] key [OF assms(2)] using assms(3) nz [OF assms(1)] nz [OF assms(2)] mag [of a] mag [of b]
    by (auto simp: f64_signed_def split: if_splits)
qed

lemma encode_escaped_eq: "encode_escaped bs out = out @ escape bs"
proof -
  have "foldl (\<lambda>out b. if b = 0 then out @ [0, 255] else out @ [b]) out bs =
      out @ concat (map (\<lambda>b :: u8. if b = 0 then [0, 255] else [b]) bs)"
    by (induction bs arbitrary: out) auto
  then show ?thesis by (simp add: encode_escaped_def escape_def)
qed

section \<open>Keys as a function\<close>

definition scalar_key :: "value \<Rightarrow> u8 list" where
  "scalar_key v =
     (case v of
        VInt i \<Rightarrow> be_bytes 8 (unat (flip_sign i :: u64))
      | VFloat f \<Rightarrow> be_bytes 8 (unat (ordered_float f))
      | VBool b \<Rightarrow> [if b then 1 else 0]
      | VText t \<Rightarrow> escape (as_bytes t)
      | VUuid u \<Rightarrow> u
      | VDate n \<Rightarrow> be_bytes 4 (unat (flip_sign n :: 32 word))
      | VTimestamp n \<Rightarrow> be_bytes 8 (unat (flip_sign n :: u64))
      | VDuration n \<Rightarrow> be_bytes 8 (unat (flip_sign n :: u64))
      | VDecimal d \<Rightarrow> be_bytes 16 (unat (flip_sign (coefficient d) :: 128 word))
      | VBytes bs \<Rightarrow> escape bs
      | _ \<Rightarrow> [])"

lemma bt_get_size_less: "bt_get fs k = Some w \<Longrightarrow> size w < Suc (size_list (size_prod g size) fs)"
  by (auto dest!: bt_get_SomeD intro: size_snd_mem)

function key_bytes :: "catalog \<Rightarrow> scalar_type \<Rightarrow> value \<Rightarrow> u8 list" where
  "key_bytes c ty v =
     (case (ty, v) of
        (TRef i, VNamed j w) \<Rightarrow> (case definition_of c i of Ok d \<Rightarrow> key_bytes c (def_ty d) w | Err _ \<Rightarrow> [])
      | (TRecord cols, VRecord fs) \<Rightarrow>
          concat (map (\<lambda>col. case bt_get fs (col_name col) of Some w \<Rightarrow> key_bytes c (col_ty col) w | None \<Rightarrow> [])
            (sort_key col_id cols))
      | (TTuple ts, VTuple vs) \<Rightarrow> concat (map (\<lambda>(w, t). key_bytes c t w) (zip vs ts))
      | (TOption t, VOption ov) \<Rightarrow> (case ov of None \<Rightarrow> [0] | Some w \<Rightarrow> 1 # key_bytes c t w)
      | (TList t, VList vs) \<Rightarrow> concat (map (\<lambda>w. 1 # key_bytes c t w) vs) @ [0]
      | (TMap t, VMap es) \<Rightarrow> concat (map (\<lambda>(k, w). 1 # escape (as_bytes k) @ key_bytes c t w) es) @ [0]
      | (TEnum vs, VEnum n as i) \<Rightarrow>
          be_bytes 8 (unat i) @
          (case find_variant vs i of
             Some v \<Rightarrow> concat (map (\<lambda>(w, t). key_bytes c t w) (zip as (vd_args v))) | None \<Rightarrow> [])
      | _ \<Rightarrow> scalar_key v)"
  by pat_completeness auto
termination
  by (relation "measure (\<lambda>(c, ty, v). size v)")
     (auto intro: size_zip_mem size_snd_mem bt_get_size_less size_list_mem [where f = size, THEN le_imp_less_Suc])

declare key_bytes.simps [simp del]

lemma key_bytes_simps:
  "key_bytes c (TRef i) (VNamed j w) = (case definition_of c i of Ok d \<Rightarrow> key_bytes c (def_ty d) w | Err _ \<Rightarrow> [])"
  "key_bytes c (TRecord cols) (VRecord fs) =
     concat (map (\<lambda>col. case bt_get fs (col_name col) of Some w \<Rightarrow> key_bytes c (col_ty col) w | None \<Rightarrow> [])
       (sort_key col_id cols))"
  "key_bytes c (TTuple ts) (VTuple vs) = concat (map (\<lambda>(w, t). key_bytes c t w) (zip vs ts))"
  "key_bytes c (TOption t) (VOption ov) = (case ov of None \<Rightarrow> [0] | Some w \<Rightarrow> 1 # key_bytes c t w)"
  "key_bytes c (TList t) (VList vs) = concat (map (\<lambda>w. 1 # key_bytes c t w) vs) @ [0]"
  "key_bytes c (TMap t) (VMap es) = concat (map (\<lambda>(k, w). 1 # escape (as_bytes k) @ key_bytes c t w) es) @ [0]"
  "key_bytes c (TEnum variants) (VEnum n as i) =
     be_bytes 8 (unat i) @
     (case find_variant variants i of
        Some v \<Rightarrow> concat (map (\<lambda>(w, t). key_bytes c t w) (zip as (vd_args v))) | None \<Rightarrow> [])"
  by (subst key_bytes.simps, simp cong: option.case_cong)+

lemma key_bytes_scalar:
  "key_bytes c TInt v = scalar_key v" "key_bytes c TFloat v = scalar_key v"
  "key_bytes c TBool v = scalar_key v" "key_bytes c TText v = scalar_key v"
  "key_bytes c TUuid v = scalar_key v" "key_bytes c TDate v = scalar_key v"
  "key_bytes c TTimestamp v = scalar_key v" "key_bytes c TDuration v = scalar_key v"
  "key_bytes c (TDecimal p s) v = scalar_key v" "key_bytes c TBytes v = scalar_key v"
  by (subst key_bytes.simps, simp)+

fun has_map :: "value \<Rightarrow> bool" where
  "has_map (VEnum _ as _) = list_ex has_map as"
| "has_map (VRecord fs) = list_ex (\<lambda>(k, v). has_map v) fs"
| "has_map (VTuple vs) = list_ex has_map vs"
| "has_map (VList vs) = list_ex has_map vs"
| "has_map (VMap es) = True"
| "has_map (VOption ov) = (case ov of None \<Rightarrow> False | Some v \<Rightarrow> has_map v)"
| "has_map (VNamed _ v) = has_map v"
| "has_map _ = False"

section \<open>The encoder appends the key\<close>

text \<open>An encoder that appends fixed bytes, or fails for the version.\<close>

definition appends :: "(u8 list \<Rightarrow> u8 list result) \<Rightarrow> bool \<Rightarrow> u8 list \<Rightarrow> bool" where
  "appends f P bs \<longleftrightarrow> (\<forall>s. f s = (if P then Ok (s @ bs) else Err E_STORAGE_UPGRADE_REQUIRED))"

lemma appends_start: "appends f P bs \<Longrightarrow> f [] = (if P then Ok bs else Err E_STORAGE_UPGRADE_REQUIRED)"
  by (simp add: appends_def)

lemma appends_fold:
  "(\<And>x. x \<in> set xs \<Longrightarrow> appends (\<lambda>s. f s x) (P x) (g x)) \<Longrightarrow>
   appends (\<lambda>s. try_fold f s xs) (\<forall>x \<in> set xs. P x) (concat (map g xs))"
  by (induction xs) (auto simp: appends_def)

lemma appends_items:
  assumes "list_all2 (conforms c d) ts ws"
    and "\<And>t w. t \<in> set ts \<Longrightarrow> conforms c d t w \<Longrightarrow> appends (g t w) (P w) (key_bytes c t w)"
  shows "appends (\<lambda>s. try_fold (\<lambda>s (t, w). g t w s) s (zip ts ws)) (list_all P ws)
    (concat (map (\<lambda>(w, t). key_bytes c t w) (zip ws ts)))"
proof -
  have "appends (\<lambda>s. try_fold (\<lambda>s p. case p of (t, w) \<Rightarrow> g t w s) s (zip ts ws))
      (\<forall>p \<in> set (zip ts ws). case p of (t, w) \<Rightarrow> P w) (concat (map (\<lambda>p. case p of (t, w) \<Rightarrow> key_bytes c t w) (zip ts ws)))"
  proof (rule appends_fold, clarify)
    fix t w assume "(t, w) \<in> set (zip ts ws)"
    then have "conforms c d t w" "t \<in> set ts" using assms(1) by (auto simp: list_all2_iff dest: set_zip_leftD)
    then show "appends (\<lambda>s. g t w s) (P w) (key_bytes c t w)" using assms(2) by simp
  qed
  moreover have "(\<forall>p \<in> set (zip ts ws). case p of (t, w) \<Rightarrow> P w) \<longleftrightarrow> list_all P ws"
  proof -
    have "set ws = snd ` set (zip ts ws)" using list_all2_lengthD [OF assms(1)] by (simp flip: set_map)
    then show ?thesis by (simp add: list_all_iff split_def)
  qed
  moreover have "map (\<lambda>(w, t). key_bytes c t w) (zip ws ts) = map (\<lambda>(t, w). key_bytes c t w) (zip ts ws)"
    using list_all2_lengthD [OF assms(1)] by (intro nth_equalityI) auto
  ultimately show ?thesis by simp
qed

text \<open>The fields of a record as a function of its columns.\<close>

lemma record_values:
  assumes "own_ok c (TRecord cols)" "conforms c d (TRecord cols) x"
  obtains fs v where "x = VRecord fs" "bt_ok fs" "length fs = length cols" "snd ` set fs = v ` set cols"
    "\<And>col. col \<in> set cols \<Longrightarrow> bt_get fs (col_name col) = Some (v col)"
    "\<And>col. col \<in> set cols \<Longrightarrow> conforms c (Suc d) (col_ty col) (v col)"
proof -
  from assms(2) obtain fs where fs: "x = VRecord fs" "bt_ok fs" "length fs = length cols"
    "\<forall>(k, w) \<in> set fs. \<exists>col. find_column cols k = Some col \<and> string_ok k \<and> conforms c (Suc d) (col_ty col) w" by auto
  have dist: "distinct (map col_name cols)" using assms(1) by simp
  have "\<forall>(k, w) \<in> set fs. \<exists>col. find_column cols k = Some col \<and> conforms c (Suc d) (col_ty col) w" using fs(4) by fastforce
  note cols = record_columns [OF fs(2,3) dist this]
  obtain v where v: "\<And>col. col \<in> set cols \<Longrightarrow> bt_get fs (col_name col) = Some (v col)"
    "\<And>col. col \<in> set cols \<Longrightarrow> conforms c (Suc d) (col_ty col) (v col)" using bchoice [OF cols(1)] by blast
  have "snd ` set fs = v ` set cols"
  proof (rule set_eqI, rule iffI)
    fix w assume "w \<in> snd ` set fs"
    then obtain k where k: "(k, w) \<in> set fs" by force
    then obtain col where "col \<in> set cols" "col_name col = k" using cols(2) by (metis fst_conv imageE imageI)
    then show "w \<in> v ` set cols" using k v(1) bt_get_Some_iff [OF fs(2), of k w] by auto
  next
    fix w assume "w \<in> v ` set cols"
    then show "w \<in> snd ` set fs" using v(1) by (force dest: bt_get_SomeD)
  qed
  with fs v that show thesis by blast
qed

lemma encode_key_appends:
  assumes "types_ok c"
  shows "conforms c d ty v \<Longrightarrow> type_ok c ty \<Longrightarrow>
    appends (\<lambda>s. encode_key c ty v s d n) (has_map v \<longrightarrow> MAP_INDEX_KEY_CODEC_VERSION \<le> n) (key_bytes c ty v)"
proof (induction d arbitrary: ty v rule: depth_induct)
  case (limit d)
  then show ?case using conforms_depth by fastforce
next
  case (step d)
  note IH = step.IH
  have nd: "\<not> MAX_DEPTH \<le> d" using step.hyps by simp
  let ?P = "\<lambda>w. has_map w \<longrightarrow> MAP_INDEX_KEY_CODEC_VERSION \<le> n"
  show ?case
  proof (cases ty)
    case (TRef i)
    with step.prems obtain w def where w: "v = VNamed i w" "definition_of c i = Ok def" "conforms c (Suc d) (def_ty def) w"
      by auto
    from IH [OF w(3) types_okD [OF assms w(2)]] show ?thesis
      by (auto simp: appends_def TRef w(1,2) encode_key.simps [of _ "TRef i"] nd key_bytes_simps)
  next
    case (TRecord cols)
    have "own_ok c (TRecord cols)" "conforms c d (TRecord cols) v" using step.prems TRecord by simp_all
    then obtain fs u where u: "v = VRecord fs" "bt_ok fs" "length fs = length cols" "snd ` set fs = u ` set cols"
      "\<And>col. col \<in> set cols \<Longrightarrow> bt_get fs (col_name col) = Some (u col)"
      "\<And>col. col \<in> set cols \<Longrightarrow> conforms c (Suc d) (col_ty col) (u col)" by (rule record_values) (rule that)
    have "appends (\<lambda>s. try_fold (\<lambda>s col. and_then (ok_or E_TYPE (bt_get fs (col_name col))) (\<lambda>w. encode_key c (col_ty col) w s (Suc d) n))
        s (sort_key col_id cols)) (\<forall>col \<in> set (sort_key col_id cols). ?P (u col))
        (concat (map (\<lambda>col. case bt_get fs (col_name col) of Some w \<Rightarrow> key_bytes c (col_ty col) w | None \<Rightarrow> []) (sort_key col_id cols)))"
      by (rule appends_fold) (use IH u(5,6) step.prems(2) TRecord in simp)
    moreover have "(\<forall>col \<in> set (sort_key col_id cols). ?P (u col)) \<longleftrightarrow> ?P v"
    proof -
      have "has_map v \<longleftrightarrow> (\<exists>w \<in> snd ` set fs. has_map w)" by (simp add: u(1) list_ex_iff split_def)
      then show ?thesis unfolding u(4) by auto
    qed
    ultimately show ?thesis
      by (simp add: TRecord u(1,3) encode_key.simps [of _ "TRecord cols"] nd key_bytes_simps)
  next
    case (TTuple ts)
    with step.prems obtain ws where ws: "v = VTuple ws" "list_all2 (conforms c (Suc d)) ts ws" by auto
    have "type_ok c t" if "t \<in> set ts" for t using step.prems(2) TTuple that by (auto simp: list_all_iff)
    then have "appends (\<lambda>s. try_fold (\<lambda>s (t, w). encode_key c t w s (Suc d) n) s (zip ts ws)) (list_all ?P ws)
        (concat (map (\<lambda>(w, t). key_bytes c t w) (zip ws ts)))"
      by (intro appends_items [OF ws(2)]) (use IH in simp)
    with list_all2_lengthD [OF ws(2)] show ?thesis
      by (auto simp: TTuple ws(1) encode_key.simps [of _ "TTuple ts"] nd key_bytes_simps list_all_iff list_ex_iff appends_def)
  next
    case (TEnum vs)
    with step.prems obtain as u where u: "v = VEnum (vd_name u) as (vd_id u)" "vd_id u \<noteq> 0" "find_variant vs (vd_id u) = Some u"
      "list_all2 (conforms c (Suc d)) (vd_args u) as" by auto
    have "type_ok c t" if "t \<in> set (vd_args u)" for t
      using step.prems(2) TEnum find_variant_Some [OF u(3)] that by auto
    then have "appends (\<lambda>s. try_fold (\<lambda>s (t, w). encode_key c t w s (Suc d) n) s (zip (vd_args u) as)) (list_all ?P as)
        (concat (map (\<lambda>(w, t). key_bytes c t w) (zip as (vd_args u))))"
      by (intro appends_items [OF u(4)]) (use IH in simp)
    with list_all2_lengthD [OF u(4)] variant_for_found [OF u(3,2)] u(3) show ?thesis
      by (auto simp: TEnum u(1) encode_key.simps [of _ "TEnum vs"] nd key_bytes_simps list_all_iff list_ex_iff appends_def)
  next
    case (TOption t)
    then consider "v = VOption None" | w where "v = VOption (Some w)" "conforms c (Suc d) t w" using step.prems by auto
    then show ?thesis
    proof cases
      case (2 w)
      with IH [OF 2(2)] step.prems(2) TOption show ?thesis
        by (auto simp: appends_def encode_key.simps [of _ "TOption t"] nd key_bytes_simps)
    qed (simp add: TOption appends_def encode_key.simps [of _ "TOption t"] nd key_bytes_simps)
  next
    case (TList t)
    with step.prems obtain ws where ws: "v = VList ws" "list_all (conforms c (Suc d) t) ws" by auto
    have "appends (\<lambda>s. try_fold (\<lambda>s w. encode_key c t w (s @ [1]) (Suc d) n) s ws) (\<forall>w \<in> set ws. ?P w)
        (concat (map (\<lambda>w. 1 # key_bytes c t w) ws))"
      by (rule appends_fold) (use IH ws(2) step.prems(2) TList in \<open>auto simp: appends_def list_all_iff\<close>)
    then show ?thesis
      by (auto simp: TList ws(1) encode_key.simps [of _ "TList t"] nd key_bytes_simps appends_def list_ex_iff)
  next
    case (TMap t)
    with step.prems obtain es where es: "v = VMap es" "list_all (\<lambda>(k, w). conforms c (Suc d) t w) es"
      by (auto simp: list_all_iff split_def)
    have "appends (\<lambda>s. try_fold (\<lambda>s e. case e of (k, w) \<Rightarrow> encode_key c t w (encode_escaped (as_bytes k) (s @ [1])) (Suc d) n) s es)
        (\<forall>e \<in> set es. ?P (snd e)) (concat (map (\<lambda>e. case e of (k, w) \<Rightarrow> 1 # escape (as_bytes k) @ key_bytes c t w) es))"
      by (rule appends_fold)
        (use IH es(2) step.prems(2) TMap in \<open>auto simp: appends_def list_all_iff encode_escaped_eq\<close>)
    then show ?thesis
      by (auto simp: TMap es(1) encode_key.simps [of _ "TMap t"] nd key_bytes_simps appends_def)
  qed (use step.prems nd in \<open>auto simp: appends_def encode_key.simps key_bytes_scalar encode_key_scalar_def scalar_key_def
      encode_escaped_eq canonical_float_def decimal_ok_def\<close>)
qed

section \<open>Keys keep the order\<close>

lemma flip_sign_order:
  assumes "i < j" "- (2 ^ (LENGTH('a) - 1)) \<le> i" "j < 2 ^ (LENGTH('a) - 1)" "256 ^ m = (2 :: nat) ^ LENGTH('a)"
  shows "diverges (be_bytes m (unat (flip_sign i :: 'a::len word))) (be_bytes m (unat (flip_sign j :: 'a word)))"
proof (rule diverges_be_bytes)
  show "unat (flip_sign i :: 'a word) < unat (flip_sign j :: 'a word)"
    using assms(1-3) unat_flip_sign [of i, where 'a = 'a] unat_flip_sign [of j, where 'a = 'a] by simp
  show "unat (flip_sign j :: 'a word) < 256 ^ m"
    unfolding assms(4) by (rule unsigned_less)
qed

lemma flip_sign_orders:
  "i < j \<Longrightarrow> in_i64 i \<Longrightarrow> in_i64 j \<Longrightarrow> diverges (be_bytes 8 (unat (flip_sign i :: u64))) (be_bytes 8 (unat (flip_sign j :: u64)))"
  "i < j \<Longrightarrow> in_i32 i \<Longrightarrow> in_i32 j \<Longrightarrow> diverges (be_bytes 4 (unat (flip_sign i :: 32 word))) (be_bytes 4 (unat (flip_sign j :: 32 word)))"
  "i < j \<Longrightarrow> in_i128 i \<Longrightarrow> in_i128 j \<Longrightarrow> diverges (be_bytes 16 (unat (flip_sign i :: 128 word))) (be_bytes 16 (unat (flip_sign j :: 128 word)))"
  by (rule flip_sign_order; simp add: in_i64_def in_i32_def in_i128_def)+

lemma scalar_key_order:
  assumes "has_type c ty x" "has_type c ty y" "cmp_scalars ty x y = Ok Less"
    and "ty \<in> {TInt, TFloat, TBool, TText, TUuid, TDate, TTimestamp, TDuration, TBytes} \<or> (\<exists>p s. ty = TDecimal p s)"
  shows "diverges (scalar_key x) (scalar_key y)"
proof -
  have date: "in_i32 n" if "date_ok n" for n using that by (auto simp: date_ok_iff EPOCH_DAYS_def in_i32_def)
  have float: "diverges (be_bytes 8 (unat (ordered_float a))) (be_bytes 8 (unat (ordered_float b)))"
    if "canonical_float a" "canonical_float b" "f64_signed a < f64_signed b" for a b
    using ordered_float_mono [OF that] unsigned_less [of "ordered_float b"] by (intro diverges_be_bytes) simp_all
  show ?thesis
  proof (cases "ty = TUuid")
    case True
    with assms show ?thesis by (auto simp: cmp_scalars_def scalar_key_def intro: diverges_same_length)
  next
    case False
    with assms show ?thesis
      by (auto simp: cmp_scalars_def scalar_key_def cmp_floats_canonical date timestamp_ok_i64 decimal_ok_i128
          intro!: flip_sign_orders float escape_less split: if_splits)
  qed
qed

lemma cmp_entries_lex:
  "cmp_entries f = lex_list (\<lambda>a b. let keys = cmp (as_bytes (fst a)) (as_bytes (fst b)) in
     if keys = Equal then f (snd a) (snd b) else Ok keys)"
proof -
  have "(\<lambda>((lk, lv), (rk, rv)). let keys = cmp (as_bytes lk) (as_bytes rk) in if keys = Equal then f lv rv else Ok keys) =
      (\<lambda>(x, y). let keys = cmp (as_bytes (fst x)) (as_bytes (fst y)) in if keys = Equal then f (snd x) (snd y) else Ok keys)"
    by (simp add: fun_eq_iff)
  then show ?thesis unfolding cmp_entries_def [abs_def] lex_list_def [abs_def] by (rule arg_cong)
qed

lemma items_order:
  assumes "list_all2 (conforms c d) ts xs" "list_all2 (conforms c d) ts ys" "cmp_typed_items g ts xs ys = Ok Less"
    and eq: "\<And>t x y. t \<in> set ts \<Longrightarrow> conforms c d t x \<Longrightarrow> conforms c d t y \<Longrightarrow> g t x y = Ok Equal \<Longrightarrow> x = y"
    and less: "\<And>t x y. t \<in> set ts \<Longrightarrow> conforms c d t x \<Longrightarrow> conforms c d t y \<Longrightarrow> g t x y = Ok Less \<Longrightarrow>
      diverges (key_bytes c t x) (key_bytes c t y)"
  shows "diverges (concat (map (\<lambda>(w, t). key_bytes c t w) (zip xs ts))) (concat (map (\<lambda>(w, t). key_bytes c t w) (zip ys ts)))"
proof -
  let ?n = "length ts"
  have len: "length xs = ?n" "length ys = ?n" using assms(1,2) by (auto dest: list_all2_lengthD)
  have maps: "map (\<lambda>(w, t). key_bytes c t w) (zip zs ts) = map (\<lambda>i. key_bytes c (ts ! i) (zs ! i)) [0..<?n]"
    if "length zs = ?n" for zs
    using that by (intro nth_equalityI) auto
  have "lex_fold (\<lambda>i. g (ts ! i) (xs ! i) (ys ! i)) [0..<?n] = Ok Less"
    using assms(3) len by (simp add: cmp_typed_items_def lex_fold_zip)
  then have "diverges (concat (map (\<lambda>i. key_bytes c (ts ! i) (xs ! i)) [0..<?n])) (concat (map (\<lambda>i. key_bytes c (ts ! i) (ys ! i)) [0..<?n]))"
  proof (rule lex_fold_diverges)
    fix i assume "i \<in> set [0..<?n]"
    then have i: "ts ! i \<in> set ts" "conforms c d (ts ! i) (xs ! i)" "conforms c d (ts ! i) (ys ! i)"
      using assms(1,2) by (auto simp: list_all2_conv_all_nth)
    from eq [OF this] show "g (ts ! i) (xs ! i) (ys ! i) = Ok Equal \<Longrightarrow> key_bytes c (ts ! i) (xs ! i) = key_bytes c (ts ! i) (ys ! i)"
      by simp
    from less [OF i] show "g (ts ! i) (xs ! i) (ys ! i) = Ok Less \<Longrightarrow> diverges (key_bytes c (ts ! i) (xs ! i)) (key_bytes c (ts ! i) (ys ! i))" .
  qed
  then show ?thesis by (simp only: maps len)
qed

lemma record_order:
  assumes "own_ok c (TRecord cols)" "conforms c d (TRecord cols) x" "conforms c d (TRecord cols) y"
    and cmp: "x = VRecord fs" "y = VRecord gs" "cmp_fields g cols fs gs = Ok Less"
    and eq: "\<And>col x y. col \<in> set cols \<Longrightarrow> conforms c (Suc d) (col_ty col) x \<Longrightarrow> conforms c (Suc d) (col_ty col) y \<Longrightarrow>
      g (col_ty col) x y = Ok Equal \<Longrightarrow> x = y"
    and less: "\<And>col x y. col \<in> set cols \<Longrightarrow> conforms c (Suc d) (col_ty col) x \<Longrightarrow> conforms c (Suc d) (col_ty col) y \<Longrightarrow>
      g (col_ty col) x y = Ok Less \<Longrightarrow> diverges (key_bytes c (col_ty col) x) (key_bytes c (col_ty col) y)"
  shows "diverges (key_bytes c (TRecord cols) x) (key_bytes c (TRecord cols) y)"
proof -
  from assms(1,2) [unfolded cmp(1)] obtain u where u: "\<And>col. col \<in> set cols \<Longrightarrow> bt_get fs (col_name col) = Some (u col)"
    "\<And>col. col \<in> set cols \<Longrightarrow> conforms c (Suc d) (col_ty col) (u col)"
    by (rule record_values) (rule that, simp_all)
  from assms(1,3) [unfolded cmp(2)] obtain v where v: "\<And>col. col \<in> set cols \<Longrightarrow> bt_get gs (col_name col) = Some (v col)"
    "\<And>col. col \<in> set cols \<Longrightarrow> conforms c (Suc d) (col_ty col) (v col)"
    by (rule record_values) (rule that, simp_all)
  have "diverges (concat (map (\<lambda>col. case bt_get fs (col_name col) of Some w \<Rightarrow> key_bytes c (col_ty col) w | None \<Rightarrow> []) (sort_key col_id cols)))
      (concat (map (\<lambda>col. case bt_get gs (col_name col) of Some w \<Rightarrow> key_bytes c (col_ty col) w | None \<Rightarrow> []) (sort_key col_id cols)))"
  proof (rule lex_fold_diverges)
    show "lex_fold (\<lambda>column. and_then (ok_or E_TYPE (bt_get fs (col_name column))) (\<lambda>l.
        and_then (ok_or E_TYPE (bt_get gs (col_name column))) (\<lambda>r. g (col_ty column) l r))) (sort_key col_id cols) = Ok Less"
      using cmp(3) by (simp add: cmp_fields_def split: if_splits)
  next
    fix col assume "col \<in> set (sort_key col_id cols)"
    then have col: "col \<in> set cols" by simp
    assume "and_then (ok_or E_TYPE (bt_get fs (col_name col))) (\<lambda>l.
        and_then (ok_or E_TYPE (bt_get gs (col_name col))) (\<lambda>r. g (col_ty col) l r)) = Ok Equal"
    then have "u col = v col" using eq [OF col u(2) [OF col] v(2) [OF col]] by (simp add: u(1) v(1) col)
    then show "(case bt_get fs (col_name col) of Some w \<Rightarrow> key_bytes c (col_ty col) w | None \<Rightarrow> []) =
        (case bt_get gs (col_name col) of Some w \<Rightarrow> key_bytes c (col_ty col) w | None \<Rightarrow> [])" by (simp add: u(1) v(1) col)
  next
    fix col assume "col \<in> set (sort_key col_id cols)"
    then have col: "col \<in> set cols" by simp
    assume "and_then (ok_or E_TYPE (bt_get fs (col_name col))) (\<lambda>l.
        and_then (ok_or E_TYPE (bt_get gs (col_name col))) (\<lambda>r. g (col_ty col) l r)) = Ok Less"
    then show "diverges (case bt_get fs (col_name col) of Some w \<Rightarrow> key_bytes c (col_ty col) w | None \<Rightarrow> [])
        (case bt_get gs (col_name col) of Some w \<Rightarrow> key_bytes c (col_ty col) w | None \<Rightarrow> [])"
      using less [OF col u(2) [OF col] v(2) [OF col]] by (simp add: u(1) v(1) col)
  qed
  then show ?thesis by (simp add: cmp(1,2) key_bytes_simps)
qed

lemma key_bytes_order:
  assumes "types_ok c"
  shows "type_ok c ty \<Longrightarrow> conforms c d ty x \<Longrightarrow> conforms c d ty y \<Longrightarrow> cmp_typed_inner c ty x y d = Ok Less \<Longrightarrow>
    diverges (key_bytes c ty x) (key_bytes c ty y)"
proof (induction d arbitrary: ty x y rule: depth_induct)
  case (limit d)
  then show ?case using conforms_depth by fastforce
next
  case (step d)
  note IH = step.IH and d = step.hyps
  have eq: "x = y" if "type_ok c t" "conforms c (Suc d) t x" "conforms c (Suc d) t y" "cmp_typed_inner c t x y (Suc d) = Ok Equal" for t x y
    using typed_comparator.equal [OF cmp_typed_comparator [OF assms that(1)], of x "Suc d" y] that by simp
  show ?case
  proof (cases ty)
    case (TRef i)
    with step.prems obtain def w w' where w: "definition_of c i = Ok def" "x = VNamed i w" "y = VNamed i w'"
      "conforms c (Suc d) (def_ty def) w" "conforms c (Suc d) (def_ty def) w'" by auto
    from IH [OF types_okD [OF assms w(1)] w(4,5)] step.prems(4) show ?thesis
      by (simp add: TRef w(1-3) cmp_typed_node [OF d] key_bytes_simps)
  next
    case (TRecord cols)
    then obtain fs gs where r: "x = VRecord fs" "y = VRecord gs" using step.prems by auto
    have ok: "own_ok c (TRecord cols)" "\<And>col. col \<in> set cols \<Longrightarrow> type_ok c (col_ty col)" using step.prems(1) TRecord by auto
    show ?thesis unfolding TRecord
    proof (rule record_order [OF ok(1) step.prems(2,3) [unfolded TRecord] r])
      show "cmp_fields (\<lambda>ty l r. cmp_typed_inner c ty l r (Suc d)) cols fs gs = Ok Less"
        using step.prems(4) by (simp add: TRecord r cmp_typed_node [OF d])
    qed (rule eq, rule ok(2), assumption+, rule IH, rule ok(2), assumption+)
  next
    case (TTuple ts)
    with step.prems obtain xs ys where t: "x = VTuple xs" "y = VTuple ys" "list_all2 (conforms c (Suc d)) ts xs"
      "list_all2 (conforms c (Suc d)) ts ys" by auto
    have ok: "type_ok c t" if "t \<in> set ts" for t using step.prems(1) TTuple that by (auto simp: list_all_iff)
    have "cmp_typed_items (\<lambda>ty l r. cmp_typed_inner c ty l r (Suc d)) ts xs ys = Ok Less"
      using step.prems(4) by (simp add: TTuple t cmp_typed_node [OF d])
    then have "diverges (concat (map (\<lambda>(w, t). key_bytes c t w) (zip xs ts))) (concat (map (\<lambda>(w, t). key_bytes c t w) (zip ys ts)))"
      by (rule items_order [OF t(3,4)]) (rule eq, rule ok, assumption+, rule IH, rule ok, assumption+)
    then show ?thesis by (simp add: TTuple t(1,2) key_bytes_simps)
  next
    case (TEnum vs)
    with step.prems obtain as v bs w where x: "x = VEnum (vd_name v) as (vd_id v)" "vd_id v \<noteq> 0" "find_variant vs (vd_id v) = Some v"
      "list_all2 (conforms c (Suc d)) (vd_args v) as"
      and y: "y = VEnum (vd_name w) bs (vd_id w)" "vd_id w \<noteq> 0" "find_variant vs (vd_id w) = Some w"
      "list_all2 (conforms c (Suc d)) (vd_args w) bs" by auto
    have len: "length as = length (vd_args v)" "length bs = length (vd_args w)" using x(4) y(4) by (auto dest: list_all2_lengthD)
    have unfold: "cmp_typed_inner c ty x y d =
      (if cmp (vd_id v) (vd_id w) \<noteq> Equal then Ok (cmp (vd_id v) (vd_id w))
       else cmp_typed_items (\<lambda>ty l r. cmp_typed_inner c ty l r (Suc d)) (vd_args v) as bs)"
      using d variant_for_found [OF x(3,2)] variant_for_found [OF y(3,2)] len unfolding TEnum x(1) y(1)
      by (subst cmp_typed_inner.simps) (simp add: Let_def)
    have cmp: "(if cmp (vd_id v) (vd_id w) \<noteq> Equal then Ok (cmp (vd_id v) (vd_id w))
       else cmp_typed_items (\<lambda>ty l r. cmp_typed_inner c ty l r (Suc d)) (vd_args v) as bs) = Ok Less"
      by (rule trans [OF unfold [symmetric] step.prems(4)])
    show ?thesis
    proof (cases "vd_id v = vd_id w")
      case True
      then have "v = w" using x(3) y(3) by (metis option.inject)
      have ok: "type_ok c t" if "t \<in> set (vd_args v)" for t
        using step.prems(1) TEnum find_variant_Some [OF x(3)] that by auto
      have "cmp_typed_items (\<lambda>ty l r. cmp_typed_inner c ty l r (Suc d)) (vd_args v) as bs = Ok Less" using cmp True by simp
      then have "diverges (concat (map (\<lambda>(w, t). key_bytes c t w) (zip as (vd_args v)))) (concat (map (\<lambda>(w, t). key_bytes c t w) (zip bs (vd_args v))))"
        by (rule items_order [OF x(4) y(4) [folded \<open>v = w\<close>]]) (rule eq, rule ok, assumption+, rule IH, rule ok, assumption+)
      then show ?thesis
        using x(3) by (simp add: TEnum x(1) y(1) \<open>v = w\<close> key_bytes_simps)
    next
      case False
      then have "vd_id v < vd_id w" using cmp by simp
      then have "diverges (be_bytes 8 (unat (vd_id v))) (be_bytes 8 (unat (vd_id w)))"
        using unsigned_less [of "vd_id w"] by (intro diverges_be_bytes) (simp_all add: word_less_nat_alt)
      then show ?thesis by (simp add: TEnum x(1) y(1) key_bytes_simps diverges_append)
    qed
  next
    case (TOption t)
    then show ?thesis using step.prems IH [of t] d
      by (auto simp: cmp_typed_node key_bytes_simps)
  next
    case (TList t)
    with step.prems obtain xs ys where t: "x = VList xs" "y = VList ys" "list_all (conforms c (Suc d) t) xs"
      "list_all (conforms c (Suc d) t) ys" "type_ok c t" by auto
    have "lex_list (\<lambda>x y. cmp_typed_inner c t x y (Suc d)) xs ys = Ok Less"
      using step.prems(4) by (simp add: TList t cmp_typed_node [OF d])
    then show ?thesis unfolding TList t(1,2) key_bytes_simps
      by (rule lex_list_diverges) (use t(3-5) eq [of t] IH [of t] in \<open>auto simp: list_all_iff\<close>)
  next
    case (TMap t)
    with step.prems obtain es es' where t: "x = VMap es" "y = VMap es'" "\<And>e. e \<in> set es \<Longrightarrow> conforms c (Suc d) t (snd e)"
      "\<And>e. e \<in> set es' \<Longrightarrow> conforms c (Suc d) t (snd e)" "type_ok c t" by (auto simp: list_all_iff split_def)
    have code: "(\<lambda>(k, w). (1 :: u8) # escape (as_bytes k) @ key_bytes c t w) = (\<lambda>e. 1 # escape (as_bytes (fst e)) @ key_bytes c t (snd e))"
      by (simp add: fun_eq_iff)
    have "cmp_entries (\<lambda>x y. cmp_typed_inner c t x y (Suc d)) es es' = Ok Less"
      using step.prems(4) by (simp add: TMap t cmp_typed_node [OF d])
    then show ?thesis unfolding TMap t(1,2) key_bytes_simps code cmp_entries_lex
    proof (rule lex_list_diverges)
      fix a b assume "a \<in> set es" "b \<in> set es'"
      then have c: "conforms c (Suc d) t (snd a)" "conforms c (Suc d) t (snd b)" using t(3,4) by auto
      show "escape (as_bytes (fst a)) @ key_bytes c t (snd a) = escape (as_bytes (fst b)) @ key_bytes c t (snd b)"
        if "(let keys = cmp (as_bytes (fst a)) (as_bytes (fst b)) in
           if keys = Equal then cmp_typed_inner c t (snd a) (snd b) (Suc d) else Ok keys) = Ok Equal"
        using that eq [OF t(5) c] by (auto simp: Let_def split: if_splits)
      show "diverges (escape (as_bytes (fst a)) @ key_bytes c t (snd a)) (escape (as_bytes (fst b)) @ key_bytes c t (snd b))"
        if "(let keys = cmp (as_bytes (fst a)) (as_bytes (fst b)) in
           if keys = Equal then cmp_typed_inner c t (snd a) (snd b) (Suc d) else Ok keys) = Ok Less"
      proof (cases "fst a = fst b")
        case True
        then show ?thesis using that IH [OF t(5) c] by (simp add: Let_def)
      next
        case False
        then have "fst a < fst b" using that by (simp add: Let_def)
        then show ?thesis by (intro diverges_append escape_less) simp
      qed
    qed
  qed (use step.prems d in \<open>auto simp: key_bytes_scalar cmp_typed_scalar intro!: scalar_key_order\<close>)
qed

interpretation index_key: order_code "{x. types_ok c \<and> type_ok c ty \<and> conforms c 0 ty x}" "cmp_typed c ty" "key_bytes c ty" for c ty
proof unfold_locales
  fix x y assume "x \<in> {x. types_ok c \<and> type_ok c ty \<and> conforms c 0 ty x}" "y \<in> {x. types_ok c \<and> type_ok c ty \<and> conforms c 0 ty x}"
    "cmp_typed c ty x y = Ok Less"
  then show "diverges (key_bytes c ty x) (key_bytes c ty y)" using key_bytes_order [of c ty 0 x y] by (simp add: cmp_typed_def)
qed

section \<open>Tuples of components\<close>

definition component_ok :: "catalog \<Rightarrow> component \<Rightarrow> bool" where
  "component_ok c part \<longleftrightarrow> type_ok c (comp_ty part) \<and> conforms c 0 (comp_ty part) (comp_value part)"

definition same_shape :: "component list \<Rightarrow> component list \<Rightarrow> bool" where
  "same_shape as bs \<longleftrightarrow> list_all2 (\<lambda>a b. comp_ty a = comp_ty b \<and> descending a = descending b) as bs"

text \<open>The order of an index: component by component, reversed where the component is descending.\<close>

definition cmp_component :: "catalog \<Rightarrow> component \<Rightarrow> component \<Rightarrow> ordering result" where
  "cmp_component c a b =
     (if descending a then cmp_typed c (comp_ty a) (comp_value b) (comp_value a)
      else cmp_typed c (comp_ty a) (comp_value a) (comp_value b))"

definition cmp_tuple :: "catalog \<Rightarrow> component list \<Rightarrow> component list \<Rightarrow> ordering result" where
  "cmp_tuple c as bs = lex_fold (\<lambda>(a, b). cmp_component c a b) (zip as bs)"

definition component_bytes :: "catalog \<Rightarrow> component \<Rightarrow> u8 list" where
  "component_bytes c part =
     (let key = key_bytes c (comp_ty part) (comp_value part) in if descending part then map NOT key else key)"

definition tuple_fits :: "nat \<Rightarrow> component list \<Rightarrow> bool" where
  "tuple_fits n cs \<longleftrightarrow> MAP_INDEX_KEY_CODEC_VERSION \<le> n \<or> list_all (\<lambda>part. \<not> has_map (comp_value part)) cs"

lemma encode_tuple_version_eq:
  assumes "types_ok c" "list_all (component_ok c) cs"
  shows "encode_tuple_version c cs n =
    (if cs = [] \<or> length cs > MAX_INDEX_COMPONENTS then Err E_INDEX_SHAPE
     else if tuple_fits n cs then Ok (concat (map (component_bytes c) cs)) else Err E_STORAGE_UPGRADE_REQUIRED)"
proof -
  let ?f = "\<lambda>output component. let start = length output in
        and_then (encode_key c (comp_ty component) (comp_value component) output 0 n) (\<lambda>output.
          Ok (if descending component then take start output @ map NOT (drop start output) else output))"
  let ?P = "\<lambda>part. has_map (comp_value part) \<longrightarrow> MAP_INDEX_KEY_CODEC_VERSION \<le> n"
  have "appends (\<lambda>s. try_fold ?f s cs) (\<forall>part \<in> set cs. ?P part) (concat (map (component_bytes c) cs))"
  proof (rule appends_fold)
    fix part assume "part \<in> set cs"
    then have "appends (\<lambda>s. encode_key c (comp_ty part) (comp_value part) s 0 n) (?P part) (key_bytes c (comp_ty part) (comp_value part))"
      using assms encode_key_appends [OF assms(1)] by (auto simp: list_all_iff component_ok_def)
    then show "appends (\<lambda>s. ?f s part) (?P part) (component_bytes c part)"
      by (auto simp: appends_def component_bytes_def Let_def)
  qed
  then have "try_fold ?f [] cs = (if \<forall>part \<in> set cs. ?P part then Ok (concat (map (component_bytes c) cs)) else Err E_STORAGE_UPGRADE_REQUIRED)"
    by (rule appends_start)
  moreover have "(\<forall>part \<in> set cs. ?P part) \<longleftrightarrow> tuple_fits n cs" by (auto simp: tuple_fits_def list_all_iff)
  ultimately show ?thesis by (simp add: encode_tuple_version_def)
qed

lemma component_order:
  assumes "types_ok c" "component_ok c a" "component_ok c b" "comp_ty a = comp_ty b" "descending a = descending b"
  shows "cmp_component c a b = Ok Less \<longleftrightarrow> diverges (component_bytes c a) (component_bytes c b)"
    "cmp_component c a b = Ok Equal \<longleftrightarrow> comp_value a = comp_value b"
    "\<exists>r. cmp_component c a b = Ok r \<and> cmp_component c b a = Ok (reverse_ordering r)"
proof -
  have S: "comp_value a \<in> {x. types_ok c \<and> type_ok c (comp_ty b) \<and> conforms c 0 (comp_ty b) x}"
    "comp_value b \<in> {x. types_ok c \<and> type_ok c (comp_ty b) \<and> conforms c 0 (comp_ty b) x}"
    using assms by (auto simp: component_ok_def)
  show "cmp_component c a b = Ok Less \<longleftrightarrow> diverges (component_bytes c a) (component_bytes c b)"
    using index_key.code_diverges_iff [OF S] index_key.code_descending [OF S] assms(4,5)
    by (simp add: cmp_component_def component_bytes_def Let_def)
  show "cmp_component c a b = Ok Equal \<longleftrightarrow> comp_value a = comp_value b"
    using typed.equal [OF S] typed.equal [OF S(2,1)] assms(4) by (auto simp: cmp_component_def)
  show "\<exists>r. cmp_component c a b = Ok r \<and> cmp_component c b a = Ok (reverse_ordering r)"
    using typed.swap [OF S] typed.swap [OF S(2,1)] assms(4,5) by (simp add: cmp_component_def)
qed

text \<open>The bytes of two tuples of one shape are compared by the tuples' order, whatever follows them.\<close>

lemma tuple_order:
  assumes "types_ok c" "list_all (component_ok c) as" "list_all (component_ok c) bs" "same_shape as bs"
  shows "\<exists>r. cmp_tuple c as bs = Ok r \<and> cmp_tuple c bs as = Ok (reverse_ordering r) \<and>
    (r = Less \<longrightarrow> diverges (concat (map (component_bytes c) as)) (concat (map (component_bytes c) bs))) \<and>
    (r = Equal \<longleftrightarrow> as = bs) \<and>
    (r = Greater \<longrightarrow> diverges (concat (map (component_bytes c) bs)) (concat (map (component_bytes c) as)))"
  using assms(4,2,3) unfolding same_shape_def
proof (induction rule: list_all2_induct)
  case (Cons a as b bs)
  then obtain r where r: "cmp_tuple c as bs = Ok r" "cmp_tuple c bs as = Ok (reverse_ordering r)"
    "r = Less \<longrightarrow> diverges (concat (map (component_bytes c) as)) (concat (map (component_bytes c) bs))" "r = Equal \<longleftrightarrow> as = bs"
    "r = Greater \<longrightarrow> diverges (concat (map (component_bytes c) bs)) (concat (map (component_bytes c) as))" by auto
  have ab: "component_ok c a" "component_ok c b" using Cons.prems by auto
  note ord = component_order [OF assms(1) ab] and ord' = component_order(1) [OF assms(1) ab(2,1)]
  obtain q where q: "cmp_component c a b = Ok q" "cmp_component c b a = Ok (reverse_ordering q)" using ord(3) Cons.hyps(1) by auto
  have eq: "q = Equal \<longleftrightarrow> a = b"
    using ord(2) q(1) Cons.hyps(1) by (auto intro: component.equality)
  have "q = Less \<longrightarrow> diverges (component_bytes c a) (component_bytes c b)" "q = Greater \<longrightarrow> diverges (component_bytes c b) (component_bytes c a)"
    using ord(1) ord' q Cons.hyps(1) by auto
  with r q eq show ?case
    by (cases q) (auto simp: cmp_tuple_def diverges_append)
qed (simp add: cmp_tuple_def)

lemma encode_complete_eq:
  assumes "types_ok c" "list_all (component_ok c) cs" "cs \<noteq> []" "length cs \<le> MAX_INDEX_COMPONENTS" "tuple_fits n cs"
  shows "encode_complete_version c i cs r n =
    (let key = (INDEX_MAGIC @ be_bytes 2 n @ be_bytes 8 (unat i) @ [of_nat (length cs)]) @
         concat (map (component_bytes c) cs) @ be_bytes 8 (unat r)
     in if length key > MAX_COMPLETE_INDEX_KEY_BYTES then Err E_INDEX_KEY_LIMIT else Ok key)"
  using assms encode_tuple_version_eq [OF assms(1,2), of n]
  by (simp add: encode_complete_version_def MAX_INDEX_COMPONENTS_def)

lemma validate_complete_key:
  assumes "n < 2 ^ 16" "0 < m" "m \<le> MAX_INDEX_COMPONENTS"
    and key: "key = (INDEX_MAGIC @ be_bytes 2 n @ be_bytes 8 i @ [of_nat m]) @ body @ be_bytes 8 r"
    and "length key \<le> MAX_COMPLETE_INDEX_KEY_BYTES"
  shows "validate_complete_version key n = Ok ()"
proof -
  have mag: "length INDEX_MAGIC = 4" by (simp add: INDEX_MAGIC_def)
  have "take 4 key = INDEX_MAGIC" by (simp add: key mag)
  moreover have "take 2 (drop 4 key) = be_bytes 2 n" by (simp add: key mag)
  moreover have "key ! 14 = of_nat m" by (simp add: key mag nth_append)
  moreover have "23 \<le> length key" by (simp add: key mag)
  moreover have "unat (of_nat m :: u8) = m" using assms(3) by (simp add: MAX_INDEX_COMPONENTS_def)
  moreover have "of_be_bytes (be_bytes 2 n) = n" using assms(1) by (simp add: of_be_be_bytes)
  ultimately show ?thesis using assms(2,3,5) by (simp add: validate_complete_version_def Let_def)
qed

section \<open>Properties\<close>

text \<open>
  (C2) Index keys refine the typed order: for tuples of one shape whose values conform to their types,
  \<open>encode_tuple\<close> succeeds, and comparing the bytes lexicographically gives the answer of
  comparing the values component by component with \<open>cmp_typed\<close>, reversed for descending
  components; equal bytes mean equal tuples.
\<close>

theorem index_key_order:
  assumes "types_ok c" and "list_all (component_ok c) as" and "list_all (component_ok c) bs" and "same_shape as bs"
    and "as \<noteq> []" and "length as \<le> MAX_INDEX_COMPONENTS"
  shows "\<exists>ka kb. encode_tuple c as = Ok ka \<and> encode_tuple c bs = Ok kb \<and> cmp_tuple c as bs = Ok (cmp ka kb) \<and> (ka = kb \<longleftrightarrow> as = bs)"
proof -
  have len: "length as = length bs" using assms(4) by (auto simp: same_shape_def dest: list_all2_lengthD)
  let ?k = "\<lambda>cs. concat (map (component_bytes c) cs)"
  have enc: "encode_tuple c as = Ok (?k as)" "encode_tuple c bs = Ok (?k bs)"
    using assms(5,6) len encode_tuple_version_eq [OF assms(1,2)] encode_tuple_version_eq [OF assms(1,3)]
    by (auto simp: encode_tuple_def tuple_fits_def)
  from tuple_order [OF assms(1-4)] obtain r where r: "cmp_tuple c as bs = Ok r" "r = Less \<longrightarrow> diverges (?k as) (?k bs)"
    "r = Equal \<longleftrightarrow> as = bs" "r = Greater \<longrightarrow> diverges (?k bs) (?k as)" by auto
  have "r = cmp (?k as) (?k bs)" using r(2-4) diverges_less by (cases r) (auto simp: cmp_def dest: diverges_less)
  with r enc show ?thesis by (cases r) (auto dest: diverges_neq)
qed

definition example_keys :: "value \<Rightarrow> value \<Rightarrow> component list" where
  "example_keys v w = [\<lparr>comp_ty = TText, comp_value = v, descending = True\<rparr>, \<lparr>comp_ty = TRef 1, comp_value = w, descending = False\<rparr>]"

lemma example_keys_ok:
  "list_all (component_ok example_catalog) (example_keys (VText ''ab'') (VNamed 1 (VRecord [(''x'', VInt 3), (''y'', VFloat 0)])))"
  "list_all (component_ok example_catalog) (example_keys (VText ''a'') (VNamed 1 (VRecord [(''x'', VInt (- 3)), (''y'', VFloat 0)])))"
  by code_simp+

lemma example_keys_shape: "same_shape (example_keys v w) (example_keys v' w')"
  by (simp add: same_shape_def example_keys_def)

text \<open>The longer text comes first under a descending component.\<close>

theorem index_key_order_witness:
  "\<exists>ka kb. encode_tuple example_catalog (example_keys (VText ''ab'') (VNamed 1 (VRecord [(''x'', VInt 3), (''y'', VFloat 0)]))) = Ok ka \<and>
     encode_tuple example_catalog (example_keys (VText ''a'') (VNamed 1 (VRecord [(''x'', VInt (- 3)), (''y'', VFloat 0)]))) = Ok kb \<and> ka < kb"
proof -
  let ?as = "example_keys (VText ''ab'') (VNamed 1 (VRecord [(''x'', VInt 3), (''y'', VFloat 0)]))"
  let ?bs = "example_keys (VText ''a'') (VNamed 1 (VRecord [(''x'', VInt (- 3)), (''y'', VFloat 0)]))"
  have n: "?as \<noteq> []" "length ?as \<le> MAX_INDEX_COMPONENTS" by (simp_all add: example_keys_def MAX_INDEX_COMPONENTS_def)
  have "cmp_tuple example_catalog ?as ?bs = Ok Less" by code_simp
  with index_key_order [OF example_catalog_ok example_keys_ok example_keys_shape n] show ?thesis
    by (metis cmp_iff(1) result.inject(1))
qed

text \<open>
  (C13) Entries of one index are ordered by their tuples and then by row ID, whichever codec version
  wrote them; every entry written within the 64 KiB limit passes the validation of stored keys.
\<close>

theorem index_entry_order:
  assumes "types_ok c" and "list_all (component_ok c) as" and "list_all (component_ok c) bs" and "same_shape as bs"
    and "n < 2 ^ 16" and "encode_complete_version c i as ra n = Ok ka" and "encode_complete_version c i bs rb n = Ok kb"
  shows "(ka < kb \<longleftrightarrow> cmp_tuple c as bs = Ok Less \<or> (as = bs \<and> ra < rb)) \<and> (ka = kb \<longleftrightarrow> as = bs \<and> ra = rb) \<and>
    validate_complete_version ka n = Ok () \<and> length ka \<le> MAX_COMPLETE_INDEX_KEY_BYTES"
proof -
  let ?k = "\<lambda>cs. concat (map (component_bytes c) cs)"
  have len: "length as = length bs" using assms(4) by (auto simp: same_shape_def dest: list_all2_lengthD)
  have shape: "as \<noteq> []" "length as \<le> MAX_INDEX_COMPONENTS" "tuple_fits n as" "bs \<noteq> []" "length bs \<le> MAX_INDEX_COMPONENTS" "tuple_fits n bs"
    using assms(6,7) encode_tuple_version_eq [OF assms(1,2), of n] encode_tuple_version_eq [OF assms(1,3), of n]
    by (auto simp: encode_complete_version_def and_then_Ok_iff split: if_splits)
  define h where "h = INDEX_MAGIC @ be_bytes 2 n @ be_bytes 8 (unat i) @ [of_nat (length as)]"
  have ka: "ka = h @ ?k as @ be_bytes 8 (unat ra)" "length ka \<le> MAX_COMPLETE_INDEX_KEY_BYTES"
    and kb: "kb = h @ ?k bs @ be_bytes 8 (unat rb)"
    using assms(6,7) encode_complete_eq [OF assms(1,2) shape(1-3)] encode_complete_eq [OF assms(1,3) shape(4-6)] len
    by (auto simp: Let_def h_def split: if_splits)
  from tuple_order [OF assms(1-4)] obtain r where r: "cmp_tuple c as bs = Ok r" "r = Less \<longrightarrow> diverges (?k as) (?k bs)"
    "r = Equal \<longleftrightarrow> as = bs" "r = Greater \<longrightarrow> diverges (?k bs) (?k as)" by auto
  have row: "unat ra < 256 ^ 8" "unat rb < 256 ^ 8" using unsigned_less [of ra] unsigned_less [of rb] by simp_all
  have rows: "be_bytes 8 (unat ra) < be_bytes 8 (unat rb) \<longleftrightarrow> ra < rb" "be_bytes 8 (unat ra) = be_bytes 8 (unat rb) \<longleftrightarrow> ra = rb"
    using be_bytes_less_iff [OF row] be_bytes_inj [OF row] word_unat_eq_iff [of ra rb] by (simp_all add: word_less_nat_alt)
  have "validate_complete_version ka n = Ok ()"
    using assms(5) shape(1,2) ka by (intro validate_complete_key [of n "length as"]) (auto simp: h_def)
  moreover have "ka < kb \<longleftrightarrow> ?k as @ be_bytes 8 (unat ra) < ?k bs @ be_bytes 8 (unat rb)" "ka = kb \<longleftrightarrow> ?k as @ be_bytes 8 (unat ra) = ?k bs @ be_bytes 8 (unat rb)"
    by (simp_all add: ka(1) kb less_append_same)
  moreover have "\<not> as = bs" "diverges (?k as @ be_bytes 8 (unat ra)) (?k bs @ be_bytes 8 (unat rb))" if "r = Less"
    using r that by (auto intro: diverges_append)
  moreover have "\<not> as = bs" "diverges (?k bs @ be_bytes 8 (unat rb)) (?k as @ be_bytes 8 (unat ra))" if "r = Greater"
    using r that by (auto intro: diverges_append)
  ultimately show ?thesis
    using r ka(2) rows by (cases r) (auto simp: less_append_same dest: diverges_less diverges_neq)
qed

theorem index_entry_order_witness:
  "\<exists>k. encode_complete_version example_catalog 9 (example_keys (VText ''ab'') (VNamed 1 (VRecord [(''x'', VInt 3), (''y'', VFloat 0)]))) 1 3 = Ok k \<and>
     validate_complete_version k 3 = Ok ()"
proof -
  let ?as = "example_keys (VText ''ab'') (VNamed 1 (VRecord [(''x'', VInt 3), (''y'', VFloat 0)]))"
  have n: "(3 :: nat) < 2 ^ 16" by simp
  have def: "definition_of example_catalog 1 = Ok \<lparr>def_id = 1, def_name = ''Point'',
      def_ty = TRecord [Column ''x'' TInt None 2, Column ''y'' TFloat (Some (VFloat 0)) 3]\<rparr>" by code_simp
  have "length (concat (map (component_bytes example_catalog) ?as)) = 20"
    by (simp add: example_keys_def component_bytes_def key_bytes_simps key_bytes_scalar scalar_key_def escape_def as_bytes_def
        def bt_get_def Let_def byte_of_def)
  moreover have "?as \<noteq> []" "length ?as \<le> MAX_INDEX_COMPONENTS" "tuple_fits 3 ?as"
    by (simp_all add: example_keys_def MAX_INDEX_COMPONENTS_def tuple_fits_def)
  ultimately obtain k where k: "encode_complete_version example_catalog 9 ?as 1 3 = Ok k"
    using encode_complete_eq [OF example_catalog_ok example_keys_ok(1), of 3 9 1]
    by (simp add: MAX_COMPLETE_INDEX_KEY_BYTES_def INDEX_MAGIC_def)
  from index_entry_order [OF example_catalog_ok example_keys_ok(1) example_keys_ok(1) example_keys_shape n k k] k show ?thesis by blast
qed

end
