(* ===== verification/Query.thy ===== *)
theory Query
  imports Catalog
begin

text \<open>
  The abstract syntax of queries (\<^verbatim>\<open>src/src/query.rs\<close>): scalar and boolean expressions, match patterns,
  the stages of a pipeline and pagination.  Recursive structures of the source are datatypes with its field
  names as selectors, the others records.
\<close>

section \<open>Expressions\<close>

record span =
  sp_line :: nat
  sp_column :: nat

datatype cmp_op = Eq | Ne | Gt | Gte | Lt | Lte

datatype arithmetic_op = Add | Subtract | Multiply | Divide

datatype scalar_expression =
    Reference string
  | Parameter string "scalar_type option"
  | Literal "value"
  | Ascribed scalar_expression scalar_type
  | Call string "scalar_expression list" span
  | Length scalar_expression
  | Negate scalar_expression "scalar_type option"
  | Arithmetic scalar_expression arithmetic_op scalar_expression "scalar_type option"

datatype bool_expression =
    BValue scalar_expression
  | BCompare scalar_expression cmp_op scalar_expression "scalar_type option"
  | BContains scalar_expression scalar_expression
  | BMembership scalar_expression scalar_expression bool
  | BAny scalar_expression string bool_expression
  | BAll scalar_expression string bool_expression
  | BIsSome scalar_expression
  | BIsNone scalar_expression
  | BNot bool_expression
  | BAnd bool_expression bool_expression
  | BOr bool_expression bool_expression

section \<open>Matching\<close>

datatype match_tag = TagVariant u64 | TagNone | TagSome

datatype match_pattern =
    PWildcard
  | PBinding string
  | PConstructor string match_payload "match_tag option"
  | PRecord "match_field list" bool
  | PTuple "match_pattern list"
and match_payload =
    PayloadUnit
  | PayloadRecord "match_field list" bool
  | PayloadPositional "match_pattern list"
and match_field = MatchField (mf_field: string) (mf_pattern: match_pattern)

record match_arm =
  arm_pattern :: match_pattern
  arm_condition :: bool_expression

record match_predicate =
  mp_column :: string
  mp_arms :: "match_arm list"

datatype match_value =
    MBinding string
  | MLiteral "value"
  | MExpression bool_expression
  | MConstructor string match_value_payload
  | MRecord "match_value_field list"
  | MTuple "match_value list"
  | MList "match_value list"
and match_value_payload =
    MPayloadUnit
  | MPayloadRecord "match_value_field list"
  | MPayloadPositional "match_value list"
and match_value_field = MatchValueField (mvf_name: string) (mvf_value: match_value)

record match_value_arm =
  varm_pattern :: match_pattern
  varm_result :: match_value

record derive_match =
  dm_name :: string
  dm_source :: string
  dm_arms :: "match_value_arm list"
  dm_output_type :: "scalar_type option"

section \<open>Stages\<close>

record local_parameter =
  lp_name :: string
  lp_annotation :: "scalar_type option"

record local_binding =
  lb_name :: string
  lb_span :: span
  lb_annotation :: "scalar_type option"
  lb_parameters :: "local_parameter list"
  lb_expression :: bool_expression

record derive_expression =
  de_name :: string
  de_expression :: bool_expression
  de_output_type :: "scalar_type option"

record sort_key =
  sk_column :: string
  sk_descending :: bool
  sk_ty :: "scalar_type option"

datatype aggregate_function =
    AggCount
  | AggCountDistinct
  | AggAverage
  | AggDecimalAverage u8 u8 decimal_rounding
  | AggSum
  | AggMin
  | AggMax

record aggregate_assignment =
  aa_name :: string
  aa_function :: aggregate_function
  aa_input :: "scalar_expression option"
  aa_output_type :: "scalar_type option"

record aggregate =
  agg_group_by :: "string list"
  agg_assignments :: "aggregate_assignment list"

datatype window_function = RowNumber | Rank | DenseRank

record window_assignment =
  wa_name :: string
  wa_function :: window_function

record window =
  win_partition_by :: "string list"
  win_order_by :: "sort_key list"
  win_assignments :: "window_assignment list"

record lookup_stage =
  lk_name :: string
  lk_table :: string
  lk_target_key :: string
  lk_source_key :: string
  lk_limit :: nat
  lk_output_type :: "scalar_type option"
  lk_index :: "string option"

datatype page_direction = Forward | Backward

record page_spec =
  ps_limit :: nat
  ps_direction :: page_direction
  ps_cursor :: "string option"

datatype set_operator = SetUnion | SetIntersect | SetExcept

record exists_correlation =
  ec_target :: string
  ec_outer :: string

datatype pipeline = Pipeline (pl_from: string) (pl_stages: "stage list")
and stage =
    SLet local_binding
  | SFilter bool_expression
  | SFilterExists exists_filter
  | SFilterMatch match_predicate
  | SDerive derive_expression
  | SDeriveMatch derive_match
  | SLookup lookup_stage
  | SAggregate aggregate
  | SWindow window
  | SSetOperation set_operation
  | SSelect "string list"
  | SSort "sort_key list"
  | STake nat nat
  | SPage page_spec
and exists_filter =
    ExistsFilter (ef_pipeline: pipeline) (ef_negated: bool) (ef_correlations: "exists_correlation list")
      (ef_index: "string option") (ef_index_target: "string option") (ef_index_shape: "string option")
and set_operation =
    SetOperation (so_operator: set_operator) (so_pipeline: pipeline) (so_columns: "column list")

end
