(* ===== verification/Index_Bounds.thy ===== *)
theory Index_Bounds
  imports Ordered_Key Query
begin

text \<open>
  Ranges of encoded index keys (\<^verbatim>\<open>src/src/db.rs\<close>, \<^verbatim>\<open>src/src/row_source.rs\<close>): the
  byte bounds of a prefix and of a typed range, their intersection with a page boundary, and the merging
  of comparison constraints into one range.
\<close>

section \<open>Bounds\<close>

datatype 'a bound = Included 'a | Excluded 'a | Unbounded

type_synonym index_bounds = "u8 list bound \<times> u8 list bound"

text \<open>The keys \<open>BTreeMap::range\<close> visits.\<close>

fun above_start :: "'a::linorder bound \<Rightarrow> 'a \<Rightarrow> bool" where
  "above_start (Included b) k \<longleftrightarrow> b \<le> k"
| "above_start (Excluded b) k \<longleftrightarrow> b < k"
| "above_start Unbounded k \<longleftrightarrow> True"

fun below_end :: "'a::linorder bound \<Rightarrow> 'a \<Rightarrow> bool" where
  "below_end (Included b) k \<longleftrightarrow> k \<le> b"
| "below_end (Excluded b) k \<longleftrightarrow> k < b"
| "below_end Unbounded k \<longleftrightarrow> True"

definition in_bounds :: "'a::linorder bound \<times> 'a bound \<Rightarrow> 'a \<Rightarrow> bool" where
  "in_bounds bs k \<longleftrightarrow> above_start (fst bs) k \<and> below_end (snd bs) k"

definition prefix_successor :: "u8 list \<Rightarrow> u8 list option" where
  "prefix_successor prefix =
     (case dropWhile (\<lambda>b. b = 255) (rev prefix) of
        [] \<Rightarrow> None
      | b # bs \<Rightarrow> Some (rev ((b + 1) # bs)))"

definition prefix_bounds :: "u8 list \<Rightarrow> index_bounds" where
  "prefix_bounds prefix =
     (if prefix = [] then (Unbounded, Unbounded)
      else (Included prefix, case prefix_successor prefix of None \<Rightarrow> Unbounded | Some k \<Rightarrow> Excluded k))"

fun bound_key :: "'a bound \<Rightarrow> 'a option" where
  "bound_key (Included k) = Some k"
| "bound_key (Excluded k) = Some k"
| "bound_key Unbounded = None"

fun is_excluded :: "'a bound \<Rightarrow> bool" where
  "is_excluded (Excluded _) = True"
| "is_excluded _ = False"

definition stricter_lower :: "u8 list bound \<Rightarrow> u8 list bound \<Rightarrow> u8 list bound" where
  "stricter_lower current candidate =
     (case (bound_key current, bound_key candidate) of
        (None, _) \<Rightarrow> candidate
      | (_, None) \<Rightarrow> current
      | (Some left, Some right) \<Rightarrow>
          (case cmp left right of
             Less \<Rightarrow> candidate
           | Greater \<Rightarrow> current
           | Equal \<Rightarrow> if is_excluded current then current else candidate))"

definition stricter_upper :: "u8 list bound \<Rightarrow> u8 list bound \<Rightarrow> u8 list bound" where
  "stricter_upper current candidate =
     (case (bound_key current, bound_key candidate) of
        (None, _) \<Rightarrow> candidate
      | (_, None) \<Rightarrow> current
      | (Some left, Some right) \<Rightarrow>
          (case cmp left right of
             Less \<Rightarrow> current
           | Greater \<Rightarrow> candidate
           | Equal \<Rightarrow> if is_excluded current then current else candidate))"

definition bounds_have_values :: "u8 list bound \<Rightarrow> u8 list bound \<Rightarrow> bool" where
  "bounds_have_values start end_b =
     (case (bound_key start, bound_key end_b) of
        (Some start_key, Some end_key) \<Rightarrow>
          (case cmp start_key end_key of
             Less \<Rightarrow> True
           | Greater \<Rightarrow> False
           | Equal \<Rightarrow> \<not> is_excluded start \<and> \<not> is_excluded end_b)
      | _ \<Rightarrow> True)"

definition page_seek_bounds :: "u8 list bound \<Rightarrow> u8 list bound \<Rightarrow> u8 list \<Rightarrow> bool \<Rightarrow> index_bounds option" where
  "page_seek_bounds start end_b boundary seek_greater =
     Option.bind
       (if seek_greater then map_option (\<lambda>k. (stricter_lower start (Included k), end_b)) (prefix_successor boundary)
        else Some (start, stricter_upper end_b (Excluded boundary)))
       (\<lambda>(start, end_b). if bounds_have_values start end_b then Some (start, end_b) else None)"

section \<open>Typed ranges\<close>

record index_constraint =
  ic_column :: string
  ic_op :: cmp_op
  ic_value :: "value"

record range_limit =
  rl_value :: "value"
  rl_inclusive :: bool

definition constraint_matches :: "catalog \<Rightarrow> scalar_type \<Rightarrow> value \<Rightarrow> cmp_op \<Rightarrow> value \<Rightarrow> bool result" where
  "constraint_matches c ty field op bnd =
     and_then (cmp_typed c ty field bnd) (\<lambda>order.
       Ok (case op of
             Eq \<Rightarrow> order = Equal
           | Ne \<Rightarrow> order \<noteq> Equal
           | Gt \<Rightarrow> order = Greater
           | Gte \<Rightarrow> order \<noteq> Less
           | Lt \<Rightarrow> order = Less
           | Lte \<Rightarrow> order \<noteq> Greater))"

text \<open>One round of the loop of \<open>merge_range_bounds\<close>, for the slot the operator selects.\<close>

definition merge_limit ::
  "catalog \<Rightarrow> scalar_type \<Rightarrow> range_limit option \<Rightarrow> value \<Rightarrow> bool \<Rightarrow> bool \<Rightarrow> range_limit option result" where
  "merge_limit c ty slot v inclusive prefer_greater =
     and_then (case slot of
         None \<Rightarrow> Ok True
       | Some current \<Rightarrow>
           and_then (cmp_typed c ty v (rl_value current)) (\<lambda>order.
             Ok ((prefer_greater \<and> order = Greater) \<or> (\<not> prefer_greater \<and> order = Less) \<or>
                 (order = Equal \<and> \<not> inclusive \<and> rl_inclusive current))))
       (\<lambda>replace. Ok (if replace then Some \<lparr>rl_value = v, rl_inclusive = inclusive\<rparr> else slot))"

definition merge_range_bounds ::
  "catalog \<Rightarrow> scalar_type \<Rightarrow> index_constraint list \<Rightarrow> (range_limit option \<times> range_limit option) result" where
  "merge_range_bounds c ty constraints =
     try_fold (\<lambda>(lower, upper) con.
       case ic_op con of
         Gt \<Rightarrow> map_ok (\<lambda>lower. (lower, upper)) (merge_limit c ty lower (ic_value con) False True)
       | Gte \<Rightarrow> map_ok (\<lambda>lower. (lower, upper)) (merge_limit c ty lower (ic_value con) True True)
       | Lt \<Rightarrow> map_ok (\<lambda>upper. (lower, upper)) (merge_limit c ty upper (ic_value con) False False)
       | Lte \<Rightarrow> map_ok (\<lambda>upper. (lower, upper)) (merge_limit c ty upper (ic_value con) True False)
       | _ \<Rightarrow> Ok (lower, upper)) (None, None) constraints"

definition range_is_empty :: "catalog \<Rightarrow> scalar_type \<Rightarrow> range_limit option \<Rightarrow> range_limit option \<Rightarrow> bool result" where
  "range_is_empty c ty lower upper =
     (case (lower, upper) of
        (Some l, Some u) \<Rightarrow>
          and_then (cmp_typed c ty (rl_value l) (rl_value u)) (\<lambda>order.
            Ok (order = Greater \<or> (order = Equal \<and> (\<not> rl_inclusive l \<or> \<not> rl_inclusive u))))
      | _ \<Rightarrow> Ok False)"

definition encoded_component :: "catalog \<Rightarrow> scalar_type \<Rightarrow> value \<Rightarrow> bool \<Rightarrow> u8 list \<Rightarrow> u8 list result" where
  "encoded_component c ty v descend equality_prefix =
     and_then (encode_tuple c [\<lparr>comp_ty = ty, comp_value = v, descending = descend\<rparr>]) (\<lambda>encoded.
       Ok (equality_prefix @ encoded))"

definition logical_lower :: "u8 list \<Rightarrow> bool \<Rightarrow> u8 list bound option" where
  "logical_lower key inclusive = (if inclusive then Some (Included key) else map_option Included (prefix_successor key))"

definition logical_upper :: "u8 list \<Rightarrow> bool \<Rightarrow> u8 list bound option" where
  "logical_upper key inclusive =
     (if inclusive then Some (case prefix_successor key of None \<Rightarrow> Unbounded | Some k \<Rightarrow> Excluded k)
      else Some (Excluded key))"

fun zip_options :: "'a option \<Rightarrow> 'b option \<Rightarrow> ('a \<times> 'b) option" where
  "zip_options (Some a) (Some b) = Some (a, b)"
| "zip_options _ _ = None"

definition index_range_bounds ::
  "catalog \<Rightarrow> u8 list \<Rightarrow> bool \<Rightarrow> scalar_type \<Rightarrow> range_limit option \<Rightarrow> range_limit option \<Rightarrow> index_bounds option result" where
  "index_range_bounds c equality_prefix descend ty lower upper =
     (let equality_bounds = prefix_bounds equality_prefix;
          key = (\<lambda>limit. case limit of
                   None \<Rightarrow> Ok None
                 | Some l \<Rightarrow> map_ok Some (encoded_component c ty (rl_value l) descend equality_prefix))
      in and_then (key lower) (\<lambda>lower_key.
         and_then (key upper) (\<lambda>upper_key.
           let (s, s_key, e, e_key) =
                 (if descend then (upper, upper_key, lower, lower_key) else (lower, lower_key, upper, upper_key));
               start = (case (s, s_key) of (Some l, Some k) \<Rightarrow> logical_lower k (rl_inclusive l) | _ \<Rightarrow> Some (fst equality_bounds));
               end_b = (case (e, e_key) of (Some l, Some k) \<Rightarrow> logical_upper k (rl_inclusive l) | _ \<Rightarrow> Some (snd equality_bounds))
           in Ok (zip_options start end_b))))"

section \<open>Prefixes and their successors\<close>

definition has_prefix :: "'a list \<Rightarrow> 'a list \<Rightarrow> bool" where
  "has_prefix p k \<longleftrightarrow> (\<exists>r. k = p @ r)"

text \<open>Beyond a prefix: larger, and not an extension of it.\<close>

definition beyond :: "'a::linorder list \<Rightarrow> 'a list \<Rightarrow> bool" where
  "beyond p k \<longleftrightarrow> p \<le> k \<and> \<not> has_prefix p k"

lemma has_prefix_simps [simp]:
  "has_prefix [] k" "has_prefix (b # p) [] = False" "has_prefix (b # p) (x # k) \<longleftrightarrow> b = x \<and> has_prefix p k"
  "has_prefix p (p @ r)"
  by (auto simp: has_prefix_def)

lemma beyond_simps [simp]:
  "\<not> beyond [] k" "\<not> beyond p []" "beyond (b # p) (x # k) \<longleftrightarrow> b < x \<or> b = x \<and> beyond p k"
  by (auto simp: beyond_def)

lemma prefix_append [simp]: "has_prefix (p @ s) (p @ t) \<longleftrightarrow> has_prefix s t" "beyond (p @ s) (p @ t) \<longleftrightarrow> beyond s t"
  by (induction p) auto

lemma le_iff_prefix_or_beyond: "p \<le> k \<longleftrightarrow> has_prefix p k \<or> beyond p k"
  by (induction p k rule: list_induct2') auto

lemma beyond_not_prefix: "beyond p k \<Longrightarrow> \<not> has_prefix p k"
  by (simp add: beyond_def)

lemma diverges_beyond: "diverges p q \<Longrightarrow> beyond (p @ r) (q @ s)"
  by (induction p q rule: diverges.induct) auto

lemma diverges_not_prefix: "diverges q p \<Longrightarrow> \<not> has_prefix (p @ r) (q @ s) \<and> \<not> beyond (p @ r) (q @ s)"
  by (induction q p rule: diverges.induct) auto

lemma prefix_successor_Cons:
  "prefix_successor [] = None"
  "prefix_successor (b # p) =
     (case prefix_successor p of Some s \<Rightarrow> Some (b # s) | None \<Rightarrow> if b = 255 then None else Some [b + 1])"
proof -
  show "prefix_successor (b # p) =
     (case prefix_successor p of Some s \<Rightarrow> Some (b # s) | None \<Rightarrow> if b = 255 then None else Some [b + 1])"
  proof (cases "\<forall>x \<in> set p. x = 255")
    case True
    then have none: "dropWhile (\<lambda>b. b = 255) (rev p) = []" by simp
    have snoc: "dropWhile (\<lambda>b. b = 255) (rev (b # p)) = dropWhile (\<lambda>b. b = 255) [b]"
      using True by (simp add: dropWhile_append)
    show ?thesis unfolding prefix_successor_def snoc none by simp
  next
    case False
    then obtain x xs where "dropWhile (\<lambda>b. b = 255) (rev p) = x # xs" by (cases "dropWhile (\<lambda>b. b = 255) (rev p)") auto
    with False show ?thesis by (auto simp: prefix_successor_def dropWhile_append)
  qed
qed (simp add: prefix_successor_def)

lemma max_byte: "b \<le> (255 :: u8)"
  using unat_u8_less [of b] by (simp add: word_le_nat_alt)

lemma succ_byte: "b \<noteq> (255 :: u8) \<Longrightarrow> b + 1 \<le> x \<longleftrightarrow> b < x"
  using max_byte [of b] unat_u8_less [of x]
  by (simp add: word_le_nat_alt word_less_nat_alt unat_word_ariths word_unat_eq_iff) linarith

text \<open>The successor of a prefix is the least string beyond it.\<close>

lemma prefix_successor_beyond:
  "case prefix_successor p of None \<Rightarrow> \<not> beyond p k | Some s \<Rightarrow> s \<le> k \<longleftrightarrow> beyond p k"
proof (induction p arbitrary: k)
  case (Cons b p)
  show ?case
  proof (cases k)
    case (Cons x k')
    note IH = Cons.IH [of k']
    show ?thesis
    proof (cases "prefix_successor p")
      case None
      have "[b + 1] \<le> k \<longleftrightarrow> b + 1 \<le> x" unfolding Cons by (cases k') (auto simp: le_less)
      then show ?thesis using None IH Cons max_byte [of x] succ_byte [of b x]
        by (auto simp: prefix_successor_Cons not_less)
    next
      case (Some s)
      then show ?thesis using IH Cons by (auto simp: prefix_successor_Cons)
    qed
  qed (auto simp: prefix_successor_Cons split: option.splits)
qed (simp add: prefix_successor_Cons)

lemma logical_lower_iff:
  "(case logical_lower p inc of None \<Rightarrow> False | Some b \<Rightarrow> above_start b k) \<longleftrightarrow> beyond p k \<or> inc \<and> has_prefix p k"
  using prefix_successor_beyond [of p k]
  by (auto simp: logical_lower_def le_iff_prefix_or_beyond [of p k] split: option.splits)

lemma logical_upper_iff:
  "\<exists>b. logical_upper p inc = Some b \<and> (below_end b k \<longleftrightarrow> \<not> beyond p k \<and> (inc \<or> \<not> has_prefix p k))"
  using prefix_successor_beyond [of p k] le_iff_prefix_or_beyond [of p k] beyond_not_prefix [of p k]
  by (auto simp: logical_upper_def split: option.splits simp flip: not_le)

lemma prefix_bounds_iff:
  "above_start (fst (prefix_bounds p)) k \<longleftrightarrow> has_prefix p k \<or> beyond p k"
  "below_end (snd (prefix_bounds p)) k \<longleftrightarrow> \<not> beyond p k"
  using prefix_successor_beyond [of p k] le_iff_prefix_or_beyond [of p k]
  by (auto simp: prefix_bounds_def split: option.splits simp flip: not_le)

lemma in_prefix_bounds: "in_bounds (prefix_bounds p) k \<longleftrightarrow> has_prefix p k"
  using beyond_not_prefix by (auto simp: in_bounds_def prefix_bounds_iff)

section \<open>Intersections\<close>

lemma above_stricter: "above_start (stricter_lower a b) k \<longleftrightarrow> above_start a k \<and> above_start b k"
  by (cases a; cases b) (auto simp: stricter_lower_def split: ordering.splits)

lemma below_stricter: "below_end (stricter_upper a b) k \<longleftrightarrow> below_end a k \<and> below_end b k"
  by (cases a; cases b) (auto simp: stricter_upper_def split: ordering.splits)

lemma bounds_without_values: "\<not> bounds_have_values s e \<Longrightarrow> \<not> in_bounds (s, e) k"
  by (cases s; cases e) (auto simp: bounds_have_values_def in_bounds_def split: ordering.splits)

lemma page_seek_iff:
  "(case page_seek_bounds s e boundary g of None \<Rightarrow> False | Some b \<Rightarrow> in_bounds b k) \<longleftrightarrow>
   in_bounds (s, e) k \<and> (if g then beyond boundary k else k < boundary)"
proof (cases g)
  case True
  show ?thesis
  proof (cases "prefix_successor boundary")
    case None
    then show ?thesis using True prefix_successor_beyond [of boundary k] by (simp add: page_seek_bounds_def)
  next
    case (Some n)
    then show ?thesis
      using True prefix_successor_beyond [of boundary k] bounds_without_values [of "stricter_lower s (Included n)" e k]
      by (auto simp: page_seek_bounds_def in_bounds_def above_stricter)
  qed
next
  case False
  then show ?thesis
    using bounds_without_values [of s "stricter_upper e (Excluded boundary)" k]
    by (auto simp: page_seek_bounds_def in_bounds_def below_stricter)
qed

section \<open>A range of one component\<close>

text \<open>The values a pair of limits admits.\<close>

definition admits_lower :: "catalog \<Rightarrow> scalar_type \<Rightarrow> range_limit option \<Rightarrow> value \<Rightarrow> bool" where
  "admits_lower c ty lower v \<longleftrightarrow>
     (case lower of None \<Rightarrow> True
      | Some l \<Rightarrow> cmp_typed c ty (rl_value l) v = Ok Less \<or> rl_inclusive l \<and> cmp_typed c ty (rl_value l) v = Ok Equal)"

definition admits_upper :: "catalog \<Rightarrow> scalar_type \<Rightarrow> range_limit option \<Rightarrow> value \<Rightarrow> bool" where
  "admits_upper c ty upper v \<longleftrightarrow>
     (case upper of None \<Rightarrow> True
      | Some u \<Rightarrow> cmp_typed c ty v (rl_value u) = Ok Less \<or> rl_inclusive u \<and> cmp_typed c ty v (rl_value u) = Ok Equal)"

definition limit_ok :: "catalog \<Rightarrow> scalar_type \<Rightarrow> range_limit option \<Rightarrow> bool" where
  "limit_ok c ty limit \<longleftrightarrow> (case limit of None \<Rightarrow> True | Some l \<Rightarrow> conforms c 0 ty (rl_value l))"

abbreviation "tuple_bytes c cs \<equiv> concat (map (component_bytes c) cs)"

text \<open>
  The position of an index key relative to the key of an equality prefix and one more component: decided by
  the prefix unless it is equal, and then by the component.
\<close>

lemma key_position:
  fixes rest :: "u8 list"
  assumes "types_ok c" "list_all (component_ok c) es" "list_all (component_ok c) fs" "same_shape es fs"
    and "component_ok c a" "component_ok c b" "comp_ty a = comp_ty b" "descending a = descending b"
  defines "p \<equiv> tuple_bytes c es @ component_bytes c b" and "k \<equiv> tuple_bytes c fs @ component_bytes c a @ rest"
  shows "has_prefix p k \<longleftrightarrow> es = fs \<and> cmp_component c b a = Ok Equal"
    "beyond p k \<longleftrightarrow> cmp_tuple c es fs = Ok Less \<or> es = fs \<and> cmp_component c b a = Ok Less"
proof -
  from tuple_order [OF assms(1-4)] obtain r where r: "cmp_tuple c es fs = Ok r" "r = Less \<longrightarrow> diverges (tuple_bytes c es) (tuple_bytes c fs)"
    "r = Equal \<longleftrightarrow> es = fs" "r = Greater \<longrightarrow> diverges (tuple_bytes c fs) (tuple_bytes c es)" by auto
  note ba = component_order [OF assms(1,6,5) assms(7,8) [symmetric]]
  note ab = component_order [OF assms(1,5,6) assms(7,8)]
  from ba(3) obtain q where q: "cmp_component c b a = Ok q" "cmp_component c a b = Ok (reverse_ordering q)" by blast
  have eqs: "(has_prefix p k \<longleftrightarrow> es = fs \<and> q = Equal) \<and> (beyond p k \<longleftrightarrow> r = Less \<or> es = fs \<and> q = Less)"
  proof (cases r)
    case Less
    then have "beyond p k" unfolding p_def k_def using r(2) diverges_beyond by blast
    then show ?thesis using Less r(3) beyond_not_prefix by auto
  next
    case Greater
    then show ?thesis unfolding p_def k_def using r(3,4) diverges_not_prefix by auto
  next
    case Equal
    then have same: "es = fs" using r(3) by simp
    have pos: "has_prefix p k \<longleftrightarrow> has_prefix (component_bytes c b) (component_bytes c a @ rest)"
      "beyond p k \<longleftrightarrow> beyond (component_bytes c b) (component_bytes c a @ rest)"
      unfolding p_def k_def same by simp_all
    show ?thesis
    proof (cases q)
      case Less
      then have "beyond (component_bytes c b @ []) (component_bytes c a @ rest)" using ba(1) q(1) by (intro diverges_beyond) simp
      then show ?thesis using pos Less same beyond_not_prefix by auto
    next
      case Greater
      then have "diverges (component_bytes c a) (component_bytes c b)" using ab(1) q(2) by simp
      then show ?thesis using pos Greater same \<open>r = Equal\<close> diverges_not_prefix [of "component_bytes c a" "component_bytes c b" "[]" rest] by auto
    next
      case Equal
      then have "comp_value b = comp_value a" using ba(2) q(1) by simp
      then have "component_bytes c b = component_bytes c a" using assms(7,8) by (simp add: component_bytes_def)
      then show ?thesis using pos Equal same \<open>r = Equal\<close> beyond_not_prefix [of "component_bytes c b" "component_bytes c a @ rest"] by auto
    qed
  qed
  then show "has_prefix p k \<longleftrightarrow> es = fs \<and> cmp_component c b a = Ok Equal"
    "beyond p k \<longleftrightarrow> cmp_tuple c es fs = Ok Less \<or> es = fs \<and> cmp_component c b a = Ok Less"
    using q(1) r(1) by auto
qed

lemma prefix_position:
  assumes "types_ok c" "list_all (component_ok c) es" "list_all (component_ok c) fs" "same_shape es fs"
  shows "has_prefix (tuple_bytes c es) (tuple_bytes c fs @ rest) \<longleftrightarrow> es = fs"
    "beyond (tuple_bytes c es) (tuple_bytes c fs @ rest) \<longleftrightarrow> cmp_tuple c es fs = Ok Less"
proof -
  from tuple_order [OF assms] obtain r where r: "cmp_tuple c es fs = Ok r" "r = Less \<longrightarrow> diverges (tuple_bytes c es) (tuple_bytes c fs)"
    "r = Equal \<longleftrightarrow> es = fs" "r = Greater \<longrightarrow> diverges (tuple_bytes c fs) (tuple_bytes c es)" by auto
  then show "has_prefix (tuple_bytes c es) (tuple_bytes c fs @ rest) \<longleftrightarrow> es = fs"
    "beyond (tuple_bytes c es) (tuple_bytes c fs @ rest) \<longleftrightarrow> cmp_tuple c es fs = Ok Less"
    using diverges_beyond [of "tuple_bytes c es" "tuple_bytes c fs" "[]" rest] beyond_not_prefix
      diverges_not_prefix [of "tuple_bytes c fs" "tuple_bytes c es" "[]" rest]
      beyond_not_prefix [of "tuple_bytes c es" "tuple_bytes c fs @ rest"]
    by (cases r; auto)+
qed

lemma encoded_component_eq:
  assumes "types_ok c" "type_ok c ty" "conforms c 0 ty v"
  shows "encoded_component c ty v d p = Ok (p @ component_bytes c \<lparr>comp_ty = ty, comp_value = v, descending = d\<rparr>)"
proof -
  have "list_all (component_ok c) [\<lparr>comp_ty = ty, comp_value = v, descending = d\<rparr>]"
    using assms by (simp add: component_ok_def)
  from encode_tuple_version_eq [OF assms(1) this, of MAP_INDEX_KEY_CODEC_VERSION] show ?thesis
    by (simp add: encoded_component_def encode_tuple_def MAX_INDEX_COMPONENTS_def tuple_fits_def)
qed

text \<open>What the start and the end of a range mean for a key, in the order of the component.\<close>

definition limit_part :: "scalar_type \<Rightarrow> bool \<Rightarrow> range_limit \<Rightarrow> component" where
  "limit_part ty d l = \<lparr>comp_ty = ty, comp_value = rl_value l, descending = d\<rparr>"

definition start_admits :: "catalog \<Rightarrow> scalar_type \<Rightarrow> bool \<Rightarrow> range_limit option \<Rightarrow> component \<Rightarrow> bool" where
  "start_admits c ty d limit a \<longleftrightarrow> (case limit of None \<Rightarrow> True
     | Some l \<Rightarrow> cmp_component c (limit_part ty d l) a = Ok Less \<or> rl_inclusive l \<and> cmp_component c (limit_part ty d l) a = Ok Equal)"

definition end_admits :: "catalog \<Rightarrow> scalar_type \<Rightarrow> bool \<Rightarrow> range_limit option \<Rightarrow> component \<Rightarrow> bool" where
  "end_admits c ty d limit a \<longleftrightarrow> (case limit of None \<Rightarrow> True
     | Some l \<Rightarrow> cmp_component c (limit_part ty d l) a \<noteq> Ok Less \<and> (rl_inclusive l \<or> cmp_component c (limit_part ty d l) a \<noteq> Ok Equal))"

lemma start_end_positions:
  fixes rest :: "u8 list"
  assumes "types_ok c" "list_all (component_ok c) es" "list_all (component_ok c) fs" "same_shape es fs"
    and "component_ok c a" "type_ok c (comp_ty a)" "limit_ok c (comp_ty a) limit"
  defines "k \<equiv> tuple_bytes c fs @ component_bytes c a @ rest"
    and "key \<equiv> \<lambda>l. tuple_bytes c es @ component_bytes c (limit_part (comp_ty a) (descending a) l)"
  shows "(case (case limit of None \<Rightarrow> Some (fst (prefix_bounds (tuple_bytes c es))) | Some l \<Rightarrow> logical_lower (key l) (rl_inclusive l)) of
       None \<Rightarrow> False | Some b \<Rightarrow> above_start b k) \<longleftrightarrow>
     cmp_tuple c es fs = Ok Less \<or> es = fs \<and> start_admits c (comp_ty a) (descending a) limit a"
    "\<exists>b. (case limit of None \<Rightarrow> Some (snd (prefix_bounds (tuple_bytes c es))) | Some l \<Rightarrow> logical_upper (key l) (rl_inclusive l)) = Some b \<and>
       (below_end b k \<longleftrightarrow> cmp_tuple c es fs \<noteq> Ok Less \<and> (es = fs \<longrightarrow> end_admits c (comp_ty a) (descending a) limit a))"
proof -
  note pre = prefix_position [OF assms(1-4), of "component_bytes c a @ rest", folded k_def]
  have pos: "has_prefix (key l) k \<longleftrightarrow> es = fs \<and> cmp_component c (limit_part (comp_ty a) (descending a) l) a = Ok Equal"
    "beyond (key l) k \<longleftrightarrow> cmp_tuple c es fs = Ok Less \<or> es = fs \<and> cmp_component c (limit_part (comp_ty a) (descending a) l) a = Ok Less"
    if "limit = Some l" for l
  proof -
    have "component_ok c (limit_part (comp_ty a) (descending a) l)"
      using assms(6,7) that by (simp add: component_ok_def limit_ok_def limit_part_def)
    from key_position [OF assms(1-5) this, of rest, folded k_def]
    show "has_prefix (key l) k \<longleftrightarrow> es = fs \<and> cmp_component c (limit_part (comp_ty a) (descending a) l) a = Ok Equal"
      "beyond (key l) k \<longleftrightarrow> cmp_tuple c es fs = Ok Less \<or> es = fs \<and> cmp_component c (limit_part (comp_ty a) (descending a) l) a = Ok Less"
      by (simp_all add: key_def limit_part_def)
  qed
  have same: "es = fs \<Longrightarrow> cmp_tuple c es fs \<noteq> Ok Less" using tuple_order [OF assms(1-4)] by auto
  show "(case (case limit of None \<Rightarrow> Some (fst (prefix_bounds (tuple_bytes c es))) | Some l \<Rightarrow> logical_lower (key l) (rl_inclusive l)) of
       None \<Rightarrow> False | Some b \<Rightarrow> above_start b k) \<longleftrightarrow>
     cmp_tuple c es fs = Ok Less \<or> es = fs \<and> start_admits c (comp_ty a) (descending a) limit a"
  proof (cases limit)
    case None
    then show ?thesis by (auto simp: prefix_bounds_iff pre start_admits_def)
  next
    case (Some l)
    then show ?thesis using logical_lower_iff [where p = "key l" and inc = "rl_inclusive l" and k = k] pos [OF Some] by (auto simp: start_admits_def)
  qed
  show "\<exists>b. (case limit of None \<Rightarrow> Some (snd (prefix_bounds (tuple_bytes c es))) | Some l \<Rightarrow> logical_upper (key l) (rl_inclusive l)) = Some b \<and>
       (below_end b k \<longleftrightarrow> cmp_tuple c es fs \<noteq> Ok Less \<and> (es = fs \<longrightarrow> end_admits c (comp_ty a) (descending a) limit a))"
  proof (cases limit)
    case None
    then show ?thesis by (simp add: prefix_bounds_iff pre end_admits_def)
  next
    case (Some l)
    then show ?thesis using logical_upper_iff [where p = "key l" and inc = "rl_inclusive l" and k = k] pos [OF Some] same by (auto simp: end_admits_def)
  qed
qed

lemma admits_iff:
  fixes d :: bool
  assumes "types_ok c" "type_ok c ty" "conforms c 0 ty v" "limit_ok c ty limit"
  defines "a \<equiv> \<lparr>comp_ty = ty, comp_value = v, descending = d\<rparr>"
  shows "start_admits c ty d limit a \<longleftrightarrow> (if d then admits_upper c ty limit v else admits_lower c ty limit v)"
    "end_admits c ty d limit a \<longleftrightarrow> (if d then admits_lower c ty limit v else admits_upper c ty limit v)"
proof -
  show "start_admits c ty d limit a \<longleftrightarrow> (if d then admits_upper c ty limit v else admits_lower c ty limit v)"
    by (auto simp: start_admits_def admits_upper_def admits_lower_def limit_part_def cmp_component_def a_def split: option.splits)
  show "end_admits c ty d limit a \<longleftrightarrow> (if d then admits_lower c ty limit v else admits_upper c ty limit v)"
  proof (cases limit)
    case (Some l)
    have S: "rl_value l \<in> {x. types_ok c \<and> type_ok c ty \<and> conforms c 0 ty x}" "v \<in> {x. types_ok c \<and> type_ok c ty \<and> conforms c 0 ty x}"
      using assms(1-4) Some by (auto simp: limit_ok_def)
    from typed.swap [OF S] obtain r where "cmp_typed c ty (rl_value l) v = Ok r" "cmp_typed c ty v (rl_value l) = Ok (reverse_ordering r)" by blast
    then show ?thesis
      by (cases r) (auto simp: Some end_admits_def admits_upper_def admits_lower_def limit_part_def cmp_component_def a_def)
  qed (simp add: end_admits_def admits_upper_def admits_lower_def)
qed

lemma index_range_bounds_exact:
  assumes "types_ok c" "list_all (component_ok c) es" "list_all (component_ok c) fs" "same_shape es fs"
    and "type_ok c ty" "conforms c 0 ty v" "limit_ok c ty lower" "limit_ok c ty upper"
  shows "\<exists>ob. index_range_bounds c (tuple_bytes c es) d ty lower upper = Ok ob \<and>
    ((case ob of None \<Rightarrow> False
      | Some b \<Rightarrow> in_bounds b (tuple_bytes c fs @ component_bytes c \<lparr>comp_ty = ty, comp_value = v, descending = d\<rparr> @ rest)) \<longleftrightarrow>
     es = fs \<and> admits_lower c ty lower v \<and> admits_upper c ty upper v)"
proof -
  define a where "a = \<lparr>comp_ty = ty, comp_value = v, descending = d\<rparr>"
  have sel: "comp_ty a = ty" "descending a = d" by (simp_all add: a_def)
  have a: "component_ok c a" "type_ok c (comp_ty a)" using assms(5,6) by (auto simp: a_def component_ok_def)
  define key where "key l = tuple_bytes c es @ component_bytes c (limit_part ty d l)" for l
  define s where "s = (if d then upper else lower)"
  define e where "e = (if d then lower else upper)"
  define start where "start = (case s of None \<Rightarrow> Some (fst (prefix_bounds (tuple_bytes c es))) | Some l \<Rightarrow> logical_lower (key l) (rl_inclusive l))"
  define stop where "stop = (case e of None \<Rightarrow> Some (snd (prefix_bounds (tuple_bytes c es))) | Some l \<Rightarrow> logical_upper (key l) (rl_inclusive l))"
  have se: "limit_ok c (comp_ty a) s" "limit_ok c (comp_ty a) e" using assms(7,8) by (simp_all add: s_def e_def a_def)
  have key_eq: "encoded_component c ty (rl_value l) d (tuple_bytes c es) = Ok (key l)" if "limit_ok c ty (Some l)" for l
    using encoded_component_eq [OF assms(1,5), of "rl_value l" d] that by (simp add: limit_ok_def key_def limit_part_def)
  have res: "index_range_bounds c (tuple_bytes c es) d ty lower upper = Ok (zip_options start stop)"
    using assms(7,8) key_eq
    by (cases lower; cases upper; cases d) (auto simp: index_range_bounds_def Let_def start_def stop_def s_def e_def)
  let ?k = "tuple_bytes c fs @ component_bytes c a @ rest"
  note p1 = start_end_positions(1) [OF assms(1-4) a se(1), of rest]
  note p2 = start_end_positions(2) [OF assms(1-4) a se(2), of rest]
  have start_iff: "(case start of None \<Rightarrow> False | Some b \<Rightarrow> above_start b ?k) \<longleftrightarrow> cmp_tuple c es fs = Ok Less \<or> es = fs \<and> start_admits c ty d s a"
    unfolding start_def key_def by (rule p1 [unfolded sel])
  obtain b where b: "stop = Some b" "below_end b ?k \<longleftrightarrow> cmp_tuple c es fs \<noteq> Ok Less \<and> (es = fs \<longrightarrow> end_admits c ty d e a)"
    using p2 [unfolded sel, folded key_def, folded stop_def] by blast
  have same: "es = fs \<Longrightarrow> cmp_tuple c es fs \<noteq> Ok Less" using tuple_order [OF assms(1-4)] by auto
  have "(case zip_options start stop of None \<Rightarrow> False | Some b \<Rightarrow> in_bounds b ?k) \<longleftrightarrow>
      es = fs \<and> start_admits c ty d s a \<and> end_admits c ty d e a"
    using start_iff b same by (cases start) (auto simp: in_bounds_def)
  moreover have "start_admits c ty d s a \<and> end_admits c ty d e a \<longleftrightarrow> admits_lower c ty lower v \<and> admits_upper c ty upper v"
    using admits_iff [OF assms(1,5,6,7), of d] admits_iff [OF assms(1,5,6,8), of d] by (auto simp: a_def s_def e_def)
  ultimately show ?thesis unfolding a_def [symmetric] using res by blast
qed

section \<open>Merging constraints\<close>

abbreviation "typed_values c ty \<equiv> {x. types_ok c \<and> type_ok c ty \<and> conforms c 0 ty x}"

lemma merge_limit_lower:
  assumes S: "v \<in> typed_values c ty" "w \<in> typed_values c ty" and slot: "limit_ok c ty slot"
  shows "\<exists>s. merge_limit c ty slot v inc True = Ok s \<and> limit_ok c ty s \<and>
    (admits_lower c ty s w \<longleftrightarrow> admits_lower c ty slot w \<and> admits_lower c ty (Some \<lparr>rl_value = v, rl_inclusive = inc\<rparr>) w)"
proof (cases slot)
  case (Some l)
  then have l: "rl_value l \<in> typed_values c ty" using slot S(1) by (simp add: limit_ok_def)
  from typed.swap [OF S(1) l] obtain r where r: "cmp_typed c ty v (rl_value l) = Ok r" "cmp_typed c ty (rl_value l) v = Ok (reverse_ordering r)" by blast
  have eq: "r = Equal \<longleftrightarrow> v = rl_value l" using typed.equal [OF S(1) l] r(1) by simp
  note tr = typed.less_trans [OF S(1) l S(2)] typed.less_trans [OF l S]
  show ?thesis
  proof (cases r)
    case Less
    then show ?thesis using r tr(1) typed.equal [OF l S(2)] Some slot
      by (auto simp: merge_limit_def admits_lower_def)
  next
    case Greater
    then show ?thesis using r tr(2) typed.equal [OF S] S(1) Some
      by (auto simp: merge_limit_def admits_lower_def limit_ok_def)
  next
    case Equal
    then show ?thesis using r eq S(1) Some slot
      by (auto simp: merge_limit_def admits_lower_def limit_ok_def)
  qed
qed (use S in \<open>simp add: merge_limit_def limit_ok_def admits_lower_def\<close>)

lemma merge_limit_upper:
  assumes S: "v \<in> typed_values c ty" "w \<in> typed_values c ty" and slot: "limit_ok c ty slot"
  shows "\<exists>s. merge_limit c ty slot v inc False = Ok s \<and> limit_ok c ty s \<and>
    (admits_upper c ty s w \<longleftrightarrow> admits_upper c ty slot w \<and> admits_upper c ty (Some \<lparr>rl_value = v, rl_inclusive = inc\<rparr>) w)"
proof (cases slot)
  case (Some l)
  then have l: "rl_value l \<in> typed_values c ty" using slot S(1) by (simp add: limit_ok_def)
  from typed.swap [OF S(1) l] obtain r where r: "cmp_typed c ty v (rl_value l) = Ok r" "cmp_typed c ty (rl_value l) v = Ok (reverse_ordering r)" by blast
  have eq: "r = Equal \<longleftrightarrow> v = rl_value l" using typed.equal [OF S(1) l] r(1) by simp
  note tr = typed.less_trans [OF S(2,1) l] typed.less_trans [OF S(2) l S(1)]
  show ?thesis
  proof (cases r)
    case Less
    then show ?thesis using r tr(1) typed.equal [OF S(2,1)] S(1) Some
      by (auto simp: merge_limit_def admits_upper_def limit_ok_def)
  next
    case Greater
    then show ?thesis using r tr(2) typed.equal [OF S(2) l] Some slot
      by (auto simp: merge_limit_def admits_upper_def)
  next
    case Equal
    then show ?thesis using r eq S(1) Some slot
      by (auto simp: merge_limit_def admits_upper_def limit_ok_def)
  qed
qed (use S in \<open>simp add: merge_limit_def limit_ok_def admits_upper_def\<close>)

lemma constraint_matches_iff:
  assumes "v \<in> typed_values c ty" "w \<in> typed_values c ty"
  shows "\<exists>b. constraint_matches c ty w op v = Ok b"
    "constraint_matches c ty w Eq v = Ok True \<longleftrightarrow> w = v"
    "constraint_matches c ty w Gt v = Ok True \<longleftrightarrow> admits_lower c ty (Some \<lparr>rl_value = v, rl_inclusive = False\<rparr>) w"
    "constraint_matches c ty w Gte v = Ok True \<longleftrightarrow> admits_lower c ty (Some \<lparr>rl_value = v, rl_inclusive = True\<rparr>) w"
    "constraint_matches c ty w Lt v = Ok True \<longleftrightarrow> admits_upper c ty (Some \<lparr>rl_value = v, rl_inclusive = False\<rparr>) w"
    "constraint_matches c ty w Lte v = Ok True \<longleftrightarrow> admits_upper c ty (Some \<lparr>rl_value = v, rl_inclusive = True\<rparr>) w"
proof -
  from typed.swap [OF assms(2,1)] obtain r where r: "cmp_typed c ty w v = Ok r" "cmp_typed c ty v w = Ok (reverse_ordering r)" by blast
  have "r = Equal \<longleftrightarrow> w = v" using typed.equal [OF assms(2,1)] r(1) by simp
  with r show "\<exists>b. constraint_matches c ty w op v = Ok b"
    "constraint_matches c ty w Eq v = Ok True \<longleftrightarrow> w = v"
    "constraint_matches c ty w Gt v = Ok True \<longleftrightarrow> admits_lower c ty (Some \<lparr>rl_value = v, rl_inclusive = False\<rparr>) w"
    "constraint_matches c ty w Gte v = Ok True \<longleftrightarrow> admits_lower c ty (Some \<lparr>rl_value = v, rl_inclusive = True\<rparr>) w"
    "constraint_matches c ty w Lt v = Ok True \<longleftrightarrow> admits_upper c ty (Some \<lparr>rl_value = v, rl_inclusive = False\<rparr>) w"
    "constraint_matches c ty w Lte v = Ok True \<longleftrightarrow> admits_upper c ty (Some \<lparr>rl_value = v, rl_inclusive = True\<rparr>) w"
    by (cases r; simp add: constraint_matches_def admits_lower_def admits_upper_def split: cmp_op.splits; blast)+
qed

fun range_op :: "cmp_op \<Rightarrow> bool" where
  "range_op Eq = False"
| "range_op Ne = False"
| "range_op _ = True"

lemma merge_range_bounds_exact:
  assumes "w \<in> typed_values c ty" "\<And>con. con \<in> set cons \<Longrightarrow> ic_value con \<in> typed_values c ty"
  shows "\<exists>l u. merge_range_bounds c ty cons = Ok (l, u) \<and> limit_ok c ty l \<and> limit_ok c ty u \<and>
    (admits_lower c ty l w \<and> admits_upper c ty u w \<longleftrightarrow>
     (\<forall>con \<in> set cons. range_op (ic_op con) \<longrightarrow> constraint_matches c ty w (ic_op con) (ic_value con) = Ok True))"
proof -
  let ?f = "\<lambda>(lower, upper) con.
       case ic_op con of
         Gt \<Rightarrow> map_ok (\<lambda>lower. (lower, upper)) (merge_limit c ty lower (ic_value con) False True)
       | Gte \<Rightarrow> map_ok (\<lambda>lower. (lower, upper)) (merge_limit c ty lower (ic_value con) True True)
       | Lt \<Rightarrow> map_ok (\<lambda>upper. (lower, upper)) (merge_limit c ty upper (ic_value con) False False)
       | Lte \<Rightarrow> map_ok (\<lambda>upper. (lower, upper)) (merge_limit c ty upper (ic_value con) True False)
       | _ \<Rightarrow> Ok (lower, upper)"
  have step: "\<exists>l' u'. ?f (l, u) con = Ok (l', u') \<and> limit_ok c ty l' \<and> limit_ok c ty u' \<and>
      (admits_lower c ty l' w \<and> admits_upper c ty u' w \<longleftrightarrow> (admits_lower c ty l w \<and> admits_upper c ty u w) \<and>
       (range_op (ic_op con) \<longrightarrow> constraint_matches c ty w (ic_op con) (ic_value con) = Ok True))"
    if con: "ic_value con \<in> typed_values c ty" and ok: "limit_ok c ty l" "limit_ok c ty u" for l u con
  proof -
    note m = constraint_matches_iff [OF con assms(1)]
    note low = merge_limit_lower [OF con assms(1) ok(1)] and upp = merge_limit_upper [OF con assms(1) ok(2)]
    show ?thesis
    proof (cases "ic_op con")
      case Gt
      from low [of False] show ?thesis using m(3) ok Gt by auto
    next
      case Gte
      from low [of True] show ?thesis using m(4) ok Gte by auto
    next
      case Lt
      from upp [of False] show ?thesis using m(5) ok Lt by auto
    next
      case Lte
      from upp [of True] show ?thesis using m(6) ok Lte by auto
    qed (use ok in simp_all)
  qed
  have "\<exists>l' u'. try_fold ?f (l, u) cons = Ok (l', u') \<and> limit_ok c ty l' \<and> limit_ok c ty u' \<and>
      (admits_lower c ty l' w \<and> admits_upper c ty u' w \<longleftrightarrow> (admits_lower c ty l w \<and> admits_upper c ty u w) \<and>
       (\<forall>con \<in> set cons. range_op (ic_op con) \<longrightarrow> constraint_matches c ty w (ic_op con) (ic_value con) = Ok True))"
    if "limit_ok c ty l" "limit_ok c ty u" for l u
    using that assms(2)
  proof (induction cons arbitrary: l u)
    case (Cons con cons)
    from step [OF Cons.prems(3) [OF list.set_intros(1)] Cons.prems(1,2)] obtain l1 u1 where
      s: "?f (l, u) con = Ok (l1, u1)" "limit_ok c ty l1" "limit_ok c ty u1"
      "admits_lower c ty l1 w \<and> admits_upper c ty u1 w \<longleftrightarrow> (admits_lower c ty l w \<and> admits_upper c ty u w) \<and>
       (range_op (ic_op con) \<longrightarrow> constraint_matches c ty w (ic_op con) (ic_value con) = Ok True)" by blast
    from Cons.IH [OF s(2,3) Cons.prems(3) [OF list.set_intros(2)]] s(1,4) show ?case by auto
  qed simp
  from this [of None None] show ?thesis
    by (simp add: merge_range_bounds_def limit_ok_def admits_lower_def admits_upper_def)
qed

lemma range_is_empty_sound:
  assumes "w \<in> typed_values c ty" "limit_ok c ty l" "limit_ok c ty u"
  shows "\<exists>b. range_is_empty c ty l u = Ok b \<and> (b \<longrightarrow> \<not> (admits_lower c ty l w \<and> admits_upper c ty u w))"
proof (cases l)
  case l: (Some x)
  show ?thesis
  proof (cases u)
    case u: (Some y)
    have S: "rl_value x \<in> typed_values c ty" "rl_value y \<in> typed_values c ty" using assms l u by (simp_all add: limit_ok_def)
    from typed.swap [OF S] obtain r where r: "cmp_typed c ty (rl_value x) (rl_value y) = Ok r"
      "cmp_typed c ty (rl_value y) (rl_value x) = Ok (reverse_ordering r)" by blast
    have eq: "r = Equal \<longleftrightarrow> rl_value x = rl_value y" using typed.equal [OF S] r(1) by simp
    have False if "admits_lower c ty l w" "admits_upper c ty u w" "r = Greater \<or> r = Equal \<and> (\<not> rl_inclusive x \<or> \<not> rl_inclusive y)"
    proof -
      have xw: "cmp_typed c ty (rl_value x) w = Ok Less \<or> rl_inclusive x \<and> rl_value x = w"
        and wy: "cmp_typed c ty w (rl_value y) = Ok Less \<or> rl_inclusive y \<and> w = rl_value y"
        using that(1,2) typed.equal [OF S(1) assms(1)] typed.equal [OF assms(1) S(2)]
        by (auto simp: l u admits_lower_def admits_upper_def)
      then have "cmp_typed c ty (rl_value x) (rl_value y) = Ok Less \<or> rl_inclusive x \<and> rl_inclusive y \<and> rl_value x = rl_value y"
        using typed.less_trans [OF S(1) assms(1) S(2)] by auto
      then show False using that(3) r(1) eq by auto
    qed
    then show ?thesis using r by (auto simp: range_is_empty_def l u)
  qed (auto simp: range_is_empty_def l intro: exI [of _ False])
qed (auto simp: range_is_empty_def intro: exI [of _ False])

end
