(* ===== verification/Index_Scan.thy ===== *)
theory Index_Scan
  imports Index_Bounds
begin

text \<open>
  Index scans of the two row sources: the resident one over postings (\<^verbatim>\<open>src/src/db.rs\<close>) and the durable
  one over the ordered key table of the storage engine (\<^verbatim>\<open>src/src/redb_storage.rs\<close>), both behind the
  cursor interface of \<^verbatim>\<open>src/src/row_source.rs\<close>.  The key table is a parameter: a function that lists the
  keys within bounds.  A request's deadline and cancellation are a parameter too: the outcome of its
  \<open>n\<close>-th checkpoint.
\<close>

section \<open>Hits and batches\<close>

definition SOURCE_BATCH_MAX_ROWS :: nat where
  "SOURCE_BATCH_MAX_ROWS = 1024"

definition SOURCE_BATCH_MAX_BYTES :: nat where
  "SOURCE_BATCH_MAX_BYTES = 16 * 1024 * 1024"

record index_hit =
  hit_boundary :: "u8 list"
  hit_row_id :: u64

type_synonym checkpoints = "nat \<Rightarrow> unit result"

definition saturating_add :: "nat \<Rightarrow> nat \<Rightarrow> nat" where
  "saturating_add a b = min (a + b) (2 ^ 64 - 1)"

text \<open>The loop \<open>while let Some(hits) = cursor.next_batch(control)?\<close> of the readers.\<close>

partial_function (option) drain ::
  "('c \<Rightarrow> ('c \<times> index_hit list option) result option) \<Rightarrow> 'c \<Rightarrow> index_hit list result option" where
  "drain next_batch cursor =
     Option.bind (next_batch cursor) (\<lambda>res.
       case res of
         Err e \<Rightarrow> Some (Err e)
       | Ok (cursor', batch) \<Rightarrow>
           (case batch of
              None \<Rightarrow> Some (Ok [])
            | Some hits \<Rightarrow> Option.bind (drain next_batch cursor') (\<lambda>rest. Some (map_ok ((@) hits) rest))))"

section \<open>The resident source\<close>

type_synonym posting = "(u8 list, u64 list) btree"

definition posting_hits :: "u8 list \<times> u64 list \<Rightarrow> index_hit list" where
  "posting_hits entry = map (\<lambda>r. \<lparr>hit_boundary = fst entry, hit_row_id = r\<rparr>) (snd entry)"

record memory_index_cursor =
  mem_hits :: "index_hit list"
  mem_position :: nat

text \<open>The \<open>'entries\<close> loops: hits are pushed one by one and counted against the limit after each push.\<close>

fun collect_hits :: "nat option \<Rightarrow> index_hit list \<Rightarrow> index_hit list \<Rightarrow> index_hit list" where
  "collect_hits limit hits [] = hits"
| "collect_hits limit hits (h # hs) =
     (if limit = Some (length (hits @ [h])) then hits @ [h] else collect_hits limit (hits @ [h]) hs)"

definition scan_index :: "posting \<Rightarrow> index_bounds \<Rightarrow> bool \<Rightarrow> nat option \<Rightarrow> memory_index_cursor" where
  "scan_index p bounds rev_scan read_limit =
     (let entries = filter (\<lambda>e. in_bounds bounds (fst e)) p
      in \<lparr>mem_hits = collect_hits read_limit [] (concat (map posting_hits (if rev_scan then rev entries else entries))),
          mem_position = 0\<rparr>)"

definition hit_bytes :: "index_hit \<Rightarrow> nat" where
  "hit_bytes hit = saturating_add (length (hit_boundary hit)) 8"

fun memory_batch :: "checkpoints \<Rightarrow> index_hit list \<Rightarrow> index_hit list \<Rightarrow> nat \<Rightarrow> index_hit list result" where
  "memory_batch control [] hits encoded_bytes = Ok hits"
| "memory_batch control (h # hs) hits encoded_bytes =
     (if length hits < SOURCE_BATCH_MAX_ROWS
      then and_then (control (Suc (length hits))) (\<lambda>_.
        if hits \<noteq> [] \<and> saturating_add encoded_bytes (hit_bytes h) > SOURCE_BATCH_MAX_BYTES then Ok hits
        else memory_batch control hs (hits @ [h]) (saturating_add encoded_bytes (hit_bytes h)))
      else Ok hits)"

definition memory_next_batch ::
  "checkpoints \<Rightarrow> memory_index_cursor \<Rightarrow> (memory_index_cursor \<times> index_hit list option) result" where
  "memory_next_batch control cur =
     and_then (control 0) (\<lambda>_.
       if mem_position cur = length (mem_hits cur) then Ok (cur, None)
       else and_then (memory_batch control (drop (mem_position cur) (mem_hits cur)) [] 0) (\<lambda>hits.
         Ok (cur\<lparr>mem_position := mem_position cur + length hits\<rparr>, Some hits)))"

section \<open>Durable keys\<close>

definition INDEX_KEY_VERSION :: nat where
  "INDEX_KEY_VERSION = 1"

definition GENERATION_KEY_CODEC_VERSION :: nat where
  "GENERATION_KEY_CODEC_VERSION = 1"

definition GENERATION_KEY_MAGIC :: "u8 list" where
  "GENERATION_KEY_MAGIC = as_bytes ''UIDG''"

datatype generation_ref = Legacy0 | Generated u64

definition encode_generation_key :: "u64 \<Rightarrow> u8 list \<Rightarrow> u8 list result" where
  "encode_generation_key generation inner =
     (if generation = 0 then Err E_STORAGE
      else Ok (GENERATION_KEY_MAGIC @ be_bytes 2 GENERATION_KEY_CODEC_VERSION @ be_bytes 8 (unat generation) @ inner))"

definition decode_generation_key :: "u8 list \<Rightarrow> u64 \<Rightarrow> u8 list result" where
  "decode_generation_key key expected_generation =
     (if length key < 14 \<or> take 4 key \<noteq> GENERATION_KEY_MAGIC then Err E_STORAGE
      else if of_be_bytes (take 2 (drop 4 key)) \<noteq> GENERATION_KEY_CODEC_VERSION then Err E_STORAGE
      else let generation = of_nat (of_be_bytes (take 8 (drop 6 key)))
        in if generation = 0 \<or> generation \<noteq> expected_generation then Err E_STORAGE else Ok (drop 14 key))"

text \<open>
  A read source: the active generation, the version of its index keys, and the key table, by the listing
  of the keys within bounds in ascending order.
\<close>

record read_source =
  rs_generation :: generation_ref
  rs_index_version :: nat
  rs_range :: "index_bounds \<Rightarrow> u8 list list result"

definition physical_key :: "read_source \<Rightarrow> u8 list \<Rightarrow> u8 list result" where
  "physical_key src logical =
     (case rs_generation src of Legacy0 \<Rightarrow> Ok logical | Generated generation \<Rightarrow> encode_generation_key generation logical)"

definition logical_key :: "read_source \<Rightarrow> u8 list \<Rightarrow> u8 list result" where
  "logical_key src physical =
     (case rs_generation src of Legacy0 \<Rightarrow> Ok physical | Generated generation \<Rightarrow> decode_generation_key physical generation)"

fun physical_bound :: "read_source \<Rightarrow> u8 list bound \<Rightarrow> u8 list bound result" where
  "physical_bound src (Included key) = map_ok Included (physical_key src key)"
| "physical_bound src (Excluded key) = map_ok Excluded (physical_key src key)"
| "physical_bound src Unbounded = Ok Unbounded"

definition validate_index_key :: "u8 list \<Rightarrow> nat \<Rightarrow> unit result" where
  "validate_index_key key expected_version =
     (if length key < 23 \<or> take 4 key \<noteq> INDEX_MAGIC then Err E_STORAGE
      else let version = of_be_bytes (take 2 (drop 4 key)) in
        if version \<noteq> expected_version then Err E_STORAGE
        else if version = INDEX_KEY_CODEC_VERSION then validate_complete key
        else if version = MAP_INDEX_KEY_CODEC_VERSION then validate_complete_v4 key
        else if version = INDEX_KEY_VERSION then
          (if length key < 26 then Err E_STORAGE
           else let value_len = of_be_bytes (take 4 (drop 14 key)) in
             if length key \<noteq> saturating_add 26 value_len then Err E_STORAGE
             else if utf8_valid (take value_len (drop 18 key)) then Ok () else Err E_STORAGE)
        else Ok ())"

definition durable_index_prefix_version :: "u64 \<Rightarrow> u8 \<Rightarrow> nat \<Rightarrow> u8 list" where
  "durable_index_prefix_version index_id component_count version =
     INDEX_MAGIC @ be_bytes 2 version @ be_bytes 8 (unat index_id) @ [component_count]"

fun durable_index_bound :: "u8 list \<Rightarrow> u8 list bound \<Rightarrow> bool \<Rightarrow> u8 list bound" where
  "durable_index_bound pre (Included tuple) lower =
     Included (pre @ tuple @ be_bytes 8 (if lower then 0 else 2 ^ 64 - 1))"
| "durable_index_bound pre (Excluded tuple) lower =
     Excluded (pre @ tuple @ be_bytes 8 (if lower then 2 ^ 64 - 1 else 0))"
| "durable_index_bound pre Unbounded lower = Unbounded"

definition prefix_successor_bytes :: "u8 list \<Rightarrow> u8 list option" where
  "prefix_successor_bytes prefix =
     (case dropWhile (\<lambda>b. b = 255) (rev prefix) of
        [] \<Rightarrow> None
      | b # bs \<Rightarrow> Some (rev ((if b = 255 then 255 else b + 1) # bs)))"

definition durable_index_bounds :: "u64 \<Rightarrow> u8 \<Rightarrow> index_bounds \<Rightarrow> nat \<Rightarrow> index_bounds" where
  "durable_index_bounds index_id component_count bounds version =
     (let pre = durable_index_prefix_version index_id component_count version
      in (case fst bounds of Unbounded \<Rightarrow> Included pre | b \<Rightarrow> durable_index_bound pre b True,
          case snd bounds of
            Unbounded \<Rightarrow> (case prefix_successor_bytes pre of Some k \<Rightarrow> Excluded k | None \<Rightarrow> Unbounded)
          | b \<Rightarrow> durable_index_bound pre b False))"

definition decode_durable_index_hit :: "u8 list \<Rightarrow> u64 \<Rightarrow> u8 \<Rightarrow> nat \<Rightarrow> index_hit result" where
  "decode_durable_index_hit key index_id component_count version =
     and_then (validate_index_key key version) (\<lambda>_.
       if length key < 23 \<or> of_nat (of_be_bytes (take 8 (drop 6 key))) \<noteq> index_id \<or> key ! 14 \<noteq> component_count
       then Err E_STORAGE
       else let row_start = length key - 8
         in Ok \<lparr>hit_boundary = take (row_start - 15) (drop 15 key), hit_row_id = of_nat (of_be_bytes (drop row_start key))\<rparr>)"

section \<open>The durable cursor\<close>

record reverse_index_group =
  rg_before :: "u8 list"
  rg_lower :: "u8 list bound"
  rg_upper :: "u8 list bound"

record redb_index_cursor =
  cur_index_id :: u64
  cur_component_count :: u8
  cur_lower :: "u8 list bound"
  cur_upper :: "u8 list bound"
  cur_reverse :: bool
  cur_reverse_group :: "reverse_index_group option"
  cur_remaining :: "nat option"
  cur_done :: bool

definition redb_scan_index ::
  "read_source \<Rightarrow> u64 \<Rightarrow> u8 \<Rightarrow> index_bounds \<Rightarrow> bool \<Rightarrow> nat option \<Rightarrow> redb_index_cursor result" where
  "redb_scan_index src index_id component_count bounds rev_scan read_limit =
     (let (lower, upper) = durable_index_bounds index_id component_count bounds (rs_index_version src)
      in and_then (physical_bound src lower) (\<lambda>lower.
         and_then (physical_bound src upper) (\<lambda>upper.
           Ok \<lparr>cur_index_id = index_id, cur_component_count = component_count, cur_lower = lower, cur_upper = upper,
               cur_reverse = rev_scan, cur_reverse_group = None, cur_remaining = read_limit,
               cur_done = (read_limit = Some 0)\<rparr>)))"

definition decode_hit :: "read_source \<Rightarrow> redb_index_cursor \<Rightarrow> u8 list \<Rightarrow> index_hit result" where
  "decode_hit src cur pk =
     and_then (logical_key src pk) (\<lambda>key.
       decode_durable_index_hit key (cur_index_id cur) (cur_component_count cur) (rs_index_version src))"

text \<open>Past a delivered key: \<open>remaining\<close> is decremented with saturation.\<close>

definition advance :: "u8 list \<Rightarrow> redb_index_cursor \<Rightarrow> redb_index_cursor" where
  "advance pk cur = cur\<lparr>cur_lower := Excluded pk, cur_remaining := map_option (\<lambda>n. n - 1) (cur_remaining cur)\<rparr>"

text \<open>
  The loop of \<open>next_forward_batch_from\<close> over the listed keys; the last result tells whether the end of
  the range was reached.
\<close>

fun forward_loop ::
  "read_source \<Rightarrow> checkpoints \<Rightarrow> u8 list list \<Rightarrow> redb_index_cursor \<Rightarrow> index_hit list \<Rightarrow> nat \<Rightarrow>
     (redb_index_cursor \<times> index_hit list \<times> bool) result" where
  "forward_loop src control [] cur hits encoded_bytes = Ok (cur, hits, True)"
| "forward_loop src control (pk # pks) cur hits encoded_bytes =
     and_then (control (Suc (length hits))) (\<lambda>_.
       if hits \<noteq> [] \<and> (length hits = SOURCE_BATCH_MAX_ROWS \<or> saturating_add encoded_bytes (length pk) > SOURCE_BATCH_MAX_BYTES)
       then Ok (cur, hits, False)
       else and_then (decode_hit src cur pk) (\<lambda>hit.
         let cur = advance pk cur; hits = hits @ [hit]
         in if cur_remaining cur = Some 0 then Ok (cur\<lparr>cur_done := True\<rparr>, hits, True)
            else if length hits = SOURCE_BATCH_MAX_ROWS then Ok (cur, hits, False)
            else forward_loop src control pks cur hits (saturating_add encoded_bytes (length pk))))"

definition next_forward_batch_from ::
  "read_source \<Rightarrow> checkpoints \<Rightarrow> redb_index_cursor \<Rightarrow> (redb_index_cursor \<times> index_hit list option) result" where
  "next_forward_batch_from src control cur =
     and_then (rs_range src (cur_lower cur, cur_upper cur)) (\<lambda>pks.
     and_then (forward_loop src control pks cur [] 0) (\<lambda>(cur, hits, reached_end).
       let cur = cur\<lparr>cur_done := cur_done cur \<or> reached_end\<rparr>
       in if hits = [] then Ok (cur\<lparr>cur_done := True\<rparr>, None) else Ok (cur, Some hits)))"

definition last_key :: "read_source \<Rightarrow> index_bounds \<Rightarrow> u8 list option result" where
  "last_key src bounds = map_ok (\<lambda>pks. if pks = [] then None else Some (last pks)) (rs_range src bounds)"

definition first_key :: "read_source \<Rightarrow> index_bounds \<Rightarrow> u8 list option result" where
  "first_key src bounds = map_ok (\<lambda>pks. if pks = [] then None else Some (hd pks)) (rs_range src bounds)"

text \<open>The group of equal tuples that ends a range, if the range is not empty.\<close>

definition open_group :: "read_source \<Rightarrow> redb_index_cursor \<Rightarrow> reverse_index_group option result" where
  "open_group src cur =
     and_then (last_key src (cur_lower cur, cur_upper cur)) (\<lambda>found.
       case found of
         None \<Rightarrow> Ok None
       | Some pk \<Rightarrow>
           and_then (decode_hit src cur pk) (\<lambda>hit.
             let before = durable_index_prefix_version (cur_index_id cur) (cur_component_count cur) (rs_index_version src) @ hit_boundary hit
             in and_then (physical_key src before) (\<lambda>pbefore.
                and_then (physical_bound src (Included (before @ be_bytes 8 0))) (\<lambda>lower.
                and_then (physical_bound src (Included (before @ be_bytes 8 (2 ^ 64 - 1)))) (\<lambda>upper.
                  Ok (Some \<lparr>rg_before = pbefore, rg_lower = lower, rg_upper = upper\<rparr>))))))"

text \<open>
  The loop of \<open>next_reverse_batch\<close>, \<open>n\<close> rounds in.  A round without a group opens one or ends the
  loop; a round with a group delivers its next key or, past its last key, moves below the group.
\<close>

partial_function (option) reverse_loop ::
  "read_source \<Rightarrow> checkpoints \<Rightarrow> nat \<Rightarrow> redb_index_cursor \<Rightarrow> index_hit list \<Rightarrow> nat \<Rightarrow>
     (redb_index_cursor \<times> index_hit list) result option" where
  "reverse_loop src control n cur hits encoded_bytes =
     (if \<not> (length hits < SOURCE_BATCH_MAX_ROWS \<and> cur_remaining cur \<noteq> Some 0) then Some (Ok (cur, hits))
      else case control (Suc n) of Err e \<Rightarrow> Some (Err e) | Ok _ \<Rightarrow>
        (case (case cur_reverse_group cur of Some g \<Rightarrow> Ok (Some g) | None \<Rightarrow> open_group src cur) of
           Err e \<Rightarrow> Some (Err e)
         | Ok opened \<Rightarrow>
             (case opened of
                None \<Rightarrow> Some (Ok (cur\<lparr>cur_done := True\<rparr>, hits))
              | Some g \<Rightarrow>
                  (case first_key src (rg_lower g, rg_upper g) of
                     Err e \<Rightarrow> Some (Err e)
                   | Ok found \<Rightarrow>
                       (case found of
                          None \<Rightarrow>
                            reverse_loop src control (Suc n)
                              (cur\<lparr>cur_upper := Excluded (rg_before g), cur_reverse_group := None\<rparr>) hits encoded_bytes
                        | Some pk \<Rightarrow>
                            (if hits \<noteq> [] \<and> saturating_add encoded_bytes (length pk) > SOURCE_BATCH_MAX_BYTES
                             then Some (Ok (cur\<lparr>cur_reverse_group := Some g\<rparr>, hits))
                             else (case decode_hit src cur pk of
                                Err e \<Rightarrow> Some (Err e)
                              | Ok hit \<Rightarrow>
                                  reverse_loop src control (Suc n)
                                    (cur\<lparr>cur_reverse_group := Some (g\<lparr>rg_lower := Excluded pk\<rparr>),
                                         cur_remaining := map_option (\<lambda>n. n - 1) (cur_remaining cur)\<rparr>)
                                    (hits @ [hit]) (saturating_add encoded_bytes (length pk)))))))))"

definition next_reverse_batch ::
  "read_source \<Rightarrow> checkpoints \<Rightarrow> redb_index_cursor \<Rightarrow> (redb_index_cursor \<times> index_hit list option) result option" where
  "next_reverse_batch src control cur =
     map_option (map_ok (\<lambda>(cur, hits). if hits = [] then (cur\<lparr>cur_done := True\<rparr>, None) else (cur, Some hits)))
       (reverse_loop src control 0 cur [] 0)"

definition redb_next_batch ::
  "read_source \<Rightarrow> checkpoints \<Rightarrow> redb_index_cursor \<Rightarrow> (redb_index_cursor \<times> index_hit list option) result option" where
  "redb_next_batch src control cur =
     (case control 0 of Err e \<Rightarrow> Some (Err e)
      | Ok _ \<Rightarrow>
        if cur_done cur \<or> cur_remaining cur = Some 0 then Some (Ok (cur, None))
        else if cur_reverse cur then next_reverse_batch src control cur
        else Some (next_forward_batch_from src control cur))"

section \<open>The cursor contract\<close>

definition uninterrupted :: checkpoints where
  "uninterrupted = (\<lambda>_. Ok ())"

lemma uninterrupted_simps [simp]: "and_then (uninterrupted n) f = f ()" "case_result g h (uninterrupted n) = g ()"
  by (simp_all add: uninterrupted_def)

text \<open>
  A cursor that delivers \<open>hs\<close> hands out a non-empty batch that starts \<open>hs\<close> and then delivers the rest,
  or reports the end when nothing is left.
\<close>

locale hit_cursor =
  fixes next_batch :: "'c \<Rightarrow> ('c \<times> index_hit list option) result option"
    and delivers :: "'c \<Rightarrow> index_hit list \<Rightarrow> bool"
  assumes step: "delivers cur hs \<Longrightarrow> \<exists>cur' batch. next_batch cur = Some (Ok (cur', batch)) \<and>
    (case batch of None \<Rightarrow> hs = [] | Some hits \<Rightarrow> hits \<noteq> [] \<and> (\<exists>rest. hs = hits @ rest \<and> delivers cur' rest))"
begin

lemma drains: "delivers cur hs \<Longrightarrow> drain next_batch cur = Some (Ok hs)"
proof (induction "length hs" arbitrary: cur hs rule: less_induct)
  case less
  from step [OF less.prems] obtain cur' batch where n: "next_batch cur = Some (Ok (cur', batch))"
    "case batch of None \<Rightarrow> hs = [] | Some hits \<Rightarrow> hits \<noteq> [] \<and> (\<exists>rest. hs = hits @ rest \<and> delivers cur' rest)" by blast
  show ?case
  proof (cases batch)
    case None
    with n show ?thesis by (simp add: drain.simps)
  next
    case (Some hits)
    with n(2) obtain rest where r: "hits \<noteq> []" "hs = hits @ rest" "delivers cur' rest" by auto
    then have "drain next_batch cur' = Some (Ok rest)" using less.hyps [of rest cur'] by simp
    then show ?thesis using n(1) Some r(2) by (simp add: drain.simps [of next_batch cur])
  qed
qed

end

section \<open>Resident scans\<close>

definition limited :: "nat option \<Rightarrow> 'a list \<Rightarrow> 'a list" where
  "limited limit xs = (case limit of None \<Rightarrow> xs | Some n \<Rightarrow> take n xs)"

lemma limited_simps [simp]:
  "limited limit [] = []" "limited (Some 0) xs = []"
  by (auto simp: limited_def split: option.splits)

lemma limited_append:
  "limit \<noteq> Some 0 \<Longrightarrow> limited limit (x # xs) = x # limited (map_option (\<lambda>n. n - 1) limit) xs"
  by (auto simp: limited_def take_Cons' split: option.splits)

lemma collect_hits_eq:
  "(case limit of None \<Rightarrow> True | Some n \<Rightarrow> length hits < n) \<Longrightarrow>
   collect_hits limit hits hs = hits @ limited (map_option (\<lambda>n. n - length hits) limit) hs"
proof (induction hs arbitrary: hits)
  case (Cons h hs)
  show ?case
  proof (cases limit)
    case (Some n)
    then consider "n = Suc (length hits)" | "Suc (length hits) < n" using Cons.prems by fastforce
    then show ?thesis
    proof cases
      case 2
      then have "n - length hits = Suc (n - Suc (length hits))" by simp
      with 2 Some Cons.IH [of "hits @ [h]"] show ?thesis by (simp add: limited_def)
    qed (simp add: Some limited_def)
  qed (use Cons.IH [of "hits @ [h]"] in \<open>simp add: limited_def\<close>)
qed (simp add: limited_def split: option.splits)

lemma scan_index_hits:
  "limit \<noteq> Some 0 \<Longrightarrow> mem_hits (scan_index p b r limit) =
     limited limit (concat (map posting_hits (let es = filter (\<lambda>e. in_bounds b (fst e)) p in if r then rev es else es)))"
  using collect_hits_eq [where hits = "[]" and limit = limit]
  by (auto simp: scan_index_def Let_def limited_def split: option.splits)

lemma memory_batch_takes:
  "\<exists>taken rest. memory_batch uninterrupted hs hits bytes = Ok (hits @ taken) \<and> hs = taken @ rest \<and>
     (hits = [] \<longrightarrow> hs \<noteq> [] \<longrightarrow> taken \<noteq> [])"
proof (induction hs arbitrary: hits bytes)
  case (Cons h hs)
  show ?case
  proof (cases "length hits < SOURCE_BATCH_MAX_ROWS \<and> \<not> (hits \<noteq> [] \<and> saturating_add bytes (hit_bytes h) > SOURCE_BATCH_MAX_BYTES)")
    case True
    from Cons.IH [of "hits @ [h]" "saturating_add bytes (hit_bytes h)"] obtain taken rest where
      "memory_batch uninterrupted hs (hits @ [h]) (saturating_add bytes (hit_bytes h)) = Ok ((hits @ [h]) @ taken)" "hs = taken @ rest" by blast
    with True show ?thesis by (intro exI [of _ "h # taken"] exI [of _ rest]) (auto simp: not_less)
  next
    case False
    then have "memory_batch uninterrupted (h # hs) hits bytes = Ok hits" "hits \<noteq> []" by (auto simp: SOURCE_BATCH_MAX_ROWS_def)
    then show ?thesis by (intro exI [of _ "[]"] exI [of _ "h # hs"]) (simp only: append_Nil append_Nil2 simp_thms)
  qed
qed simp

interpretation memory_scan: hit_cursor "\<lambda>cur. Some (memory_next_batch uninterrupted cur)"
  "\<lambda>cur hs. mem_position cur \<le> length (mem_hits cur) \<and> hs = drop (mem_position cur) (mem_hits cur)"
proof
  fix cur :: memory_index_cursor and hs
  assume *: "mem_position cur \<le> length (mem_hits cur) \<and> hs = drop (mem_position cur) (mem_hits cur)"
  from memory_batch_takes [of hs "[]" 0] obtain taken rest where t: "memory_batch uninterrupted hs [] 0 = Ok taken" "hs = taken @ rest"
    "hs \<noteq> [] \<longrightarrow> taken \<noteq> []" by auto
  have rest: "rest = drop (mem_position cur + length taken) (mem_hits cur)" "mem_position cur + length taken \<le> length (mem_hits cur)"
  proof -
    have "drop (length taken) hs = rest" using t(2) by simp
    then show "rest = drop (mem_position cur + length taken) (mem_hits cur)" using * by (simp add: add.commute)
    have "length taken \<le> length hs" using t(2) by simp
    then show "mem_position cur + length taken \<le> length (mem_hits cur)" using * by auto
  qed
  show "\<exists>cur' batch. Some (memory_next_batch uninterrupted cur) = Some (Ok (cur', batch)) \<and>
    (case batch of None \<Rightarrow> hs = [] | Some hits \<Rightarrow> hits \<noteq> [] \<and> (\<exists>rest. hs = hits @ rest \<and>
      (mem_position cur' \<le> length (mem_hits cur') \<and> rest = drop (mem_position cur') (mem_hits cur'))))"
  proof (cases "mem_position cur = length (mem_hits cur)")
    case True
    with * show ?thesis by (simp add: memory_next_batch_def)
  next
    case False
    then have "hs \<noteq> []" using * by simp
    with False t * rest show ?thesis by (simp add: memory_next_batch_def)
  qed
qed

lemma memory_drains:
  "limit \<noteq> Some 0 \<Longrightarrow> drain (\<lambda>cur. Some (memory_next_batch uninterrupted cur)) (scan_index p b r limit) =
     Some (Ok (limited limit (concat (map posting_hits (let es = filter (\<lambda>e. in_bounds b (fst e)) p in if r then rev es else es)))))"
  by (rule memory_scan.drains) (simp add: scan_index_hits, simp add: scan_index_def Let_def)

section \<open>Durable keys and their ranges\<close>

definition generation_prefix :: "generation_ref \<Rightarrow> u8 list" where
  "generation_prefix g =
     (case g of Legacy0 \<Rightarrow> []
      | Generated generation \<Rightarrow> GENERATION_KEY_MAGIC @ be_bytes 2 GENERATION_KEY_CODEC_VERSION @ be_bytes 8 (unat generation))"

definition generation_ok :: "generation_ref \<Rightarrow> bool" where
  "generation_ok g \<longleftrightarrow> g \<noteq> Generated 0"

lemma physical_key_eq: "generation_ok (rs_generation src) \<Longrightarrow> physical_key src k = Ok (generation_prefix (rs_generation src) @ k)"
  by (auto simp: physical_key_def generation_prefix_def generation_ok_def encode_generation_key_def split: generation_ref.splits)

lemma logical_key_eq: "generation_ok (rs_generation src) \<Longrightarrow> logical_key src (generation_prefix (rs_generation src) @ k) = Ok k"
proof (cases "rs_generation src")
  case (Generated g)
  assume "generation_ok (rs_generation src)"
  moreover have "length GENERATION_KEY_MAGIC = 4" by (simp add: GENERATION_KEY_MAGIC_def)
  moreover have "of_be_bytes (be_bytes 8 (unat g)) = unat g" using unsigned_less [of g, where 'a = nat] by (simp add: of_be_be_bytes)
  ultimately show ?thesis
    using Generated by (simp add: logical_key_def generation_prefix_def decode_generation_key_def generation_ok_def
        of_be_be_bytes GENERATION_KEY_CODEC_VERSION_def)
qed (simp add: logical_key_def generation_prefix_def)

text \<open>The keys of an index start with one prefix, then the tuple and the row ID.\<close>

definition table_prefix :: "read_source \<Rightarrow> u64 \<Rightarrow> u8 \<Rightarrow> u8 list" where
  "table_prefix src i m = generation_prefix (rs_generation src) @ durable_index_prefix_version i m (rs_index_version src)"

definition entry_key :: "u8 list \<Rightarrow> u8 list \<Rightarrow> u64 \<Rightarrow> u8 list" where
  "entry_key T k r = T @ k @ be_bytes 8 (unat r)"

definition posting_keys :: "u8 list \<Rightarrow> posting \<Rightarrow> u8 list list" where
  "posting_keys T p = concat (map (\<lambda>e. map (entry_key T (fst e)) (snd e)) p)"

lemma row_range: "unat (r :: u64) < 256 ^ 8" "unat r \<le> 2 ^ 64 - 1"
  using unsigned_less [of r, where 'a = nat] by simp_all

lemma row_less_iff: "be_bytes 8 (unat r) < be_bytes 8 (unat s) \<longleftrightarrow> (r :: u64) < s"
  using be_bytes_less_iff [OF row_range(1) row_range(1)] by (simp add: word_less_nat_alt)

lemma lowest_row: "be_bytes 8 0 \<le> be_bytes 8 (unat (r :: u64)) @ s"
proof -
  have "be_bytes 8 0 \<le> be_bytes 8 (unat r)"
    using be_bytes_less_iff [OF row_range(1) [of r], of 0] by (simp add: not_less [symmetric])
  also have "\<dots> \<le> be_bytes 8 (unat r) @ s" by (simp add: le_iff_prefix_or_beyond)
  finally show ?thesis .
qed

lemma highest_row: "be_bytes 8 (unat (r :: u64)) \<le> be_bytes 8 (2 ^ 64 - 1)"
  using be_bytes_less_iff [of "2 ^ 64 - 1" 8 "unat r"] row_range [of r] by (simp add: not_less [symmetric])

lemma le_append_same [simp]: "p @ a \<le> p @ b \<longleftrightarrow> a \<le> (b :: 'a::linorder list)"
  by (induction p) auto

lemma between_prefix: "p @ a \<le> x \<Longrightarrow> x \<le> p @ b \<Longrightarrow> has_prefix p (x :: 'a::linorder list)"
proof (induction p arbitrary: x)
  case (Cons q p)
  then obtain y ys where "x = y # ys" by (cases x) auto
  with Cons show ?case by (auto simp: le_less)
qed simp

lemma zeros_least: "length x \<ge> n \<Longrightarrow> be_bytes n 0 \<le> x"
proof (induction n arbitrary: x)
  case (Suc n)
  then obtain y ys where x: "x = y # ys" by (cases x) auto
  have z: "be_bytes (Suc n) 0 = 0 # be_bytes n 0" by (induction n) simp_all
  show ?case using Suc x z by (cases "y = 0") (auto simp: word_neq_0_conv)
qed simp

definition proper_prefix :: "'a list \<Rightarrow> 'a list \<Rightarrow> bool" where
  "proper_prefix a b \<longleftrightarrow> has_prefix a b \<and> a \<noteq> b"

lemma prefix_cases:
  obtains "a = b" | "diverges a b" | "diverges b a" | "proper_prefix a b" | "proper_prefix b (a :: 'a::linorder list)"
proof -
  have "a = b \<or> diverges a b \<or> diverges b a \<or> proper_prefix a b \<or> proper_prefix b a"
    by (induction a b rule: list_induct2') (auto simp: proper_prefix_def neq_iff)
  then show thesis using that by blast
qed

lemma diverges_compare:
  assumes "diverges a (b :: 'a::linorder list)"
  shows "a @ x < b @ y" "a @ x \<le> b @ y" "\<not> b @ y < a @ x" "\<not> b @ y \<le> a @ x" "a < b" "a \<le> b" "\<not> b < a" "\<not> b \<le> a"
  using diverges_less [OF diverges_append [OF assms, of x y]] diverges_less [OF assms] by auto

lemma prefix_compare [simp]: "p \<le> p @ (x :: 'a::linorder list)" "\<not> p @ x < p"
  by (simp_all add: le_iff_prefix_or_beyond flip: not_le)

text \<open>
  Bounds on tuples carry over to keys when no tuple of the index is a proper prefix of a bound, nor an
  extension of a bound that cuts between a tuple and its row IDs.
\<close>

fun start_tight :: "u8 list bound \<Rightarrow> u8 list \<Rightarrow> bool" where
  "start_tight (Included t) k \<longleftrightarrow> \<not> proper_prefix k t"
| "start_tight (Excluded t) k \<longleftrightarrow> \<not> proper_prefix k t \<and> \<not> proper_prefix t k"
| "start_tight Unbounded k \<longleftrightarrow> True"

fun end_tight :: "u8 list bound \<Rightarrow> u8 list \<Rightarrow> bool" where
  "end_tight (Included t) k \<longleftrightarrow> \<not> proper_prefix k t \<and> \<not> proper_prefix t k"
| "end_tight (Excluded t) k \<longleftrightarrow> \<not> proper_prefix k t"
| "end_tight Unbounded k \<longleftrightarrow> True"

definition shift_start :: "u8 list \<Rightarrow> u8 list bound \<Rightarrow> u8 list bound" where
  "shift_start T s = (case s of Unbounded \<Rightarrow> Included T | b \<Rightarrow> durable_index_bound T b True)"

definition shift_end :: "u8 list \<Rightarrow> u8 list bound \<Rightarrow> u8 list bound" where
  "shift_end T e = (case e of Unbounded \<Rightarrow> (case prefix_successor T of Some k \<Rightarrow> Excluded k | None \<Rightarrow> Unbounded)
     | b \<Rightarrow> durable_index_bound T b False)"

lemma shift_start_iff: "start_tight s k \<Longrightarrow> above_start (shift_start T s) (entry_key T k r) \<longleftrightarrow> above_start s k"
proof (cases s)
  case (Included t)
  moreover assume "start_tight s k"
  moreover have "be_bytes 8 0 \<le> x @ be_bytes 8 (unat r)" "be_bytes 8 0 \<le> be_bytes 8 (unat r)" for x by (simp_all add: zeros_least)
  ultimately show ?thesis
    by (cases rule: prefix_cases [of t k])
      (auto simp: shift_start_def entry_key_def proper_prefix_def has_prefix_def diverges_compare)
next
  case (Excluded t)
  moreover assume "start_tight s k"
  moreover have "\<not> be_bytes 8 (2 ^ 64 - 1) < be_bytes 8 (unat r)" using highest_row [of r] by simp
  ultimately show ?thesis
    by (cases rule: prefix_cases [of t k])
      (auto simp: shift_start_def entry_key_def less_append_same diverges_compare)
qed (simp add: shift_start_def entry_key_def le_iff_prefix_or_beyond)

lemma shift_end_iff: "end_tight e k \<Longrightarrow> below_end (shift_end T e) (entry_key T k r) \<longleftrightarrow> below_end e k"
proof (cases e)
  case (Included t)
  moreover assume "end_tight e k"
  moreover note highest_row [of r]
  ultimately show ?thesis
    by (cases rule: prefix_cases [of t k])
      (auto simp: shift_end_def entry_key_def diverges_compare)
next
  case (Excluded t)
  moreover assume "end_tight e k"
  moreover have "\<not> x @ be_bytes 8 (unat r) < be_bytes 8 0" "\<not> be_bytes 8 (unat r) < be_bytes 8 0" for x
    by (simp_all add: not_less zeros_least)
  ultimately show ?thesis
    by (cases rule: prefix_cases [of t k])
      (auto simp: shift_end_def entry_key_def less_append_same proper_prefix_def has_prefix_def diverges_compare)
next
  case Unbounded
  have "\<not> beyond T (entry_key T k r)" by (simp add: entry_key_def beyond_def)
  then show ?thesis using Unbounded prefix_successor_beyond [of T "entry_key T k r"]
    by (auto simp: shift_end_def not_le [symmetric] split: option.splits)
qed

lemma shifted_prefix: "in_bounds (shift_start T s, shift_end T e) x \<Longrightarrow> has_prefix T x"
proof -
  assume *: "in_bounds (shift_start T s, shift_end T e) x"
  have "\<exists>a. T @ a \<le> x" using * by (cases s) (auto simp: in_bounds_def shift_start_def intro: exI [of _ "[]"] less_imp_le)
  then obtain a where a: "T @ a \<le> x" by blast
  show ?thesis
  proof (cases e)
    case Unbounded
    have "T \<le> T @ a" by (simp add: le_iff_prefix_or_beyond)
    with a have "T \<le> x" by (rule order_trans [rotated])
    moreover have "\<not> beyond T x" using * Unbounded prefix_successor_beyond [of T x]
      by (auto simp: in_bounds_def shift_end_def not_le [symmetric] split: option.splits)
    ultimately show ?thesis by (simp add: le_iff_prefix_or_beyond)
  qed (use * a in \<open>auto simp: in_bounds_def shift_end_def intro: between_prefix less_imp_le\<close>)
qed

definition posting_ok :: "posting \<Rightarrow> bool" where
  "posting_ok p \<longleftrightarrow> sorted_wrt (\<lambda>e f. diverges (fst e) (fst f)) p \<and> (\<forall>e \<in> set p. snd e \<noteq> [] \<and> sorted_wrt (<) (snd e))"

text \<open>
  The key table \<open>ks\<close> of a source stores the posting \<open>p\<close> of an index: it lists keys in ascending order,
  and those with the index's prefix are the keys of \<open>p\<close>.
\<close>

definition stores :: "read_source \<Rightarrow> u8 list list \<Rightarrow> u64 \<Rightarrow> u8 \<Rightarrow> posting \<Rightarrow> bool" where
  "stores src ks i m p \<longleftrightarrow>
     generation_ok (rs_generation src) \<and> rs_index_version src \<in> {INDEX_KEY_CODEC_VERSION, MAP_INDEX_KEY_CODEC_VERSION} \<and>
     0 < unat m \<and> unat m \<le> MAX_INDEX_COMPONENTS \<and>
     sorted_wrt (<) ks \<and> rs_range src = (\<lambda>b. Ok (filter (in_bounds b) ks)) \<and>
     filter (has_prefix (table_prefix src i m)) ks = posting_keys (table_prefix src i m) p \<and> posting_ok p \<and>
     (\<forall>e \<in> set p. length (fst e) + 23 \<le> MAX_COMPLETE_INDEX_KEY_BYTES)"

lemma posting_keys_filter:
  "(\<And>e r. e \<in> set p \<Longrightarrow> r \<in> set (snd e) \<Longrightarrow> P (entry_key T (fst e) r) \<longleftrightarrow> Q e) \<Longrightarrow>
   filter P (posting_keys T p) = posting_keys T (filter Q p)"
proof (induction p)
  case (Cons e p)
  have "filter P (map (entry_key T (fst e)) (snd e)) = (if Q e then map (entry_key T (fst e)) (snd e) else [])"
    using Cons.prems [of e] by (auto simp: filter_map intro: filter_True)
  then show ?case using Cons by (simp add: posting_keys_def)
qed (simp add: posting_keys_def)

lemma stored_range:
  assumes "stores src ks i m p" and "\<forall>e \<in> set p. start_tight s (fst e) \<and> end_tight e' (fst e)"
  defines "T \<equiv> table_prefix src i m"
  shows "filter (in_bounds (shift_start T s, shift_end T e')) ks = posting_keys T (filter (\<lambda>e. in_bounds (s, e') (fst e)) p)"
proof -
  have "filter (in_bounds (shift_start T s, shift_end T e')) ks =
      filter (in_bounds (shift_start T s, shift_end T e')) (filter (has_prefix T) ks)"
    by (auto simp: filter_filter intro!: filter_cong dest: shifted_prefix)
  also have "filter (has_prefix T) ks = posting_keys T p" using assms(1) by (simp add: stores_def T_def)
  also have "filter (in_bounds (shift_start T s, shift_end T e')) (posting_keys T p) =
      posting_keys T (filter (\<lambda>e. in_bounds (s, e') (fst e)) p)"
    using assms(2) by (intro posting_keys_filter) (simp add: in_bounds_def shift_start_iff shift_end_iff)
  finally show ?thesis .
qed

lemma decode_entry:
  assumes "stores src ks i m p" "e \<in> set p" "cur_index_id cur = i" "cur_component_count cur = m"
  shows "decode_hit src cur (entry_key (table_prefix src i m) (fst e) r) = Ok \<lparr>hit_boundary = fst e, hit_row_id = r\<rparr>"
proof -
  define n where "n = rs_index_version src"
  have n: "n \<in> {INDEX_KEY_CODEC_VERSION, MAP_INDEX_KEY_CODEC_VERSION}" "n < 2 ^ 16"
    using assms(1) by (auto simp: stores_def n_def INDEX_KEY_CODEC_VERSION_def MAP_INDEX_KEY_CODEC_VERSION_def)
  define key where "key = (INDEX_MAGIC @ be_bytes 2 n @ be_bytes 8 (unat i) @ [of_nat (unat m)]) @ fst e @ be_bytes 8 (unat r)"
  have mag: "length INDEX_MAGIC = 4" by (simp add: INDEX_MAGIC_def)
  have len: "length key = length (fst e) + 23" by (simp add: key_def mag)
  have complete: "validate_complete_version key n = Ok ()"
    by (rule validate_complete_key [OF n(2) _ _ key_def]) (use assms(1,2) len in \<open>auto simp: stores_def\<close>)
  have head: "take 4 key = INDEX_MAGIC" "of_be_bytes (take 2 (drop 4 key)) = n" "\<not> length key < 23"
    using n(2) by (simp_all add: key_def mag of_be_be_bytes)
  have valid: "validate_index_key key n = Ok ()"
  proof (cases "n = INDEX_KEY_CODEC_VERSION")
    case False
    then have "n = MAP_INDEX_KEY_CODEC_VERSION" using n(1) by blast
    with False head complete show ?thesis by (simp add: validate_index_key_def validate_complete_v4_def)
  qed (use head complete in \<open>simp add: validate_index_key_def validate_complete_def\<close>)
  have parts: "of_be_bytes (take 8 (drop 6 key)) = unat i" "key ! 14 = m" "take (length key - 8 - 15) (drop 15 key) = fst e"
    "of_be_bytes (drop (length key - 8) key) = unat r"
    using row_range(1) [of i] row_range(1) [of r] by (simp_all add: key_def mag of_be_be_bytes nth_append)
  have "entry_key (table_prefix src i m) (fst e) r = generation_prefix (rs_generation src) @ key"
    by (simp add: entry_key_def table_prefix_def durable_index_prefix_version_def key_def n_def)
  then show ?thesis
    using assms(1,3,4) valid parts len by (simp add: decode_hit_def logical_key_eq stores_def decode_durable_index_hit_def n_def Let_def)
qed

lemma prefix_successor_bytes_eq: "prefix_successor_bytes p = prefix_successor p"
proof (cases "dropWhile (\<lambda>b. b = 255) (rev p)")
  case (Cons b bs)
  then have "b \<noteq> 255" using hd_dropWhile [of "\<lambda>b. b = 255" "rev p"] by auto
  with Cons show ?thesis by (simp add: prefix_successor_bytes_def prefix_successor_def)
next
  case Nil
  show ?thesis unfolding prefix_successor_bytes_def prefix_successor_def Nil by simp
qed

lemma prefix_successor_append: "prefix_successor p = Some s \<Longrightarrow> prefix_successor (g @ p) = Some (g @ s)"
  by (induction g) (simp_all add: prefix_successor_Cons)

lemma physical_bound_eq:
  "generation_ok (rs_generation src) \<Longrightarrow> physical_bound src b =
     Ok (case b of Included k \<Rightarrow> Included (generation_prefix (rs_generation src) @ k)
         | Excluded k \<Rightarrow> Excluded (generation_prefix (rs_generation src) @ k) | Unbounded \<Rightarrow> Unbounded)"
  by (cases b) (simp_all add: physical_key_eq)

lemma redb_scan_index_eq:
  fixes i :: u64 and m :: u8
  assumes "generation_ok (rs_generation src)"
  defines "T \<equiv> table_prefix src i m"
  shows "redb_scan_index src i m b r limit =
    Ok \<lparr>cur_index_id = i, cur_component_count = m, cur_lower = shift_start T (fst b), cur_upper = shift_end T (snd b),
        cur_reverse = r, cur_reverse_group = None, cur_remaining = limit, cur_done = (limit = Some 0)\<rparr>"
proof -
  define P where "P = durable_index_prefix_version i m (rs_index_version src)"
  have T: "T = generation_prefix (rs_generation src) @ P" by (simp add: T_def P_def table_prefix_def)
  have succ: "prefix_successor_bytes P = prefix_successor P" by (rule prefix_successor_bytes_eq)
  obtain s where s: "prefix_successor P = Some s"
  proof -
    obtain P' where "P = 85 # P'" by (simp add: P_def durable_index_prefix_version_def INDEX_MAGIC_def as_bytes_def byte_of_def)
    then show thesis using that by (cases "prefix_successor P'") (simp_all add: prefix_successor_Cons)
  qed
  have "physical_bound src (fst (durable_index_bounds i m b (rs_index_version src))) = Ok (shift_start T (fst b))"
    by (cases "fst b") (simp_all add: physical_key_eq [OF assms(1)] durable_index_bounds_def Let_def shift_start_def T flip: P_def)
  moreover have "physical_bound src (snd (durable_index_bounds i m b (rs_index_version src))) = Ok (shift_end T (snd b))"
    using s prefix_successor_append [OF s]
    by (cases "snd b") (simp_all add: physical_key_eq [OF assms(1)] durable_index_bounds_def Let_def shift_end_def T succ flip: P_def)
  ultimately show ?thesis by (auto simp: redb_scan_index_def split: prod.splits)
qed

section \<open>Forward scans\<close>

lemma range_after:
  assumes "sorted_wrt (<) ks" "filter (in_bounds (s, e)) ks = as @ b # cs"
  shows "filter (in_bounds (Excluded b, e)) ks = cs"
proof -
  have "b \<in> set (filter (in_bounds (s, e)) ks)" by (simp add: assms(2))
  then have b: "in_bounds (s, e) b" by simp
  have "above_start s x" if "b < x" for x using b that by (cases s) (auto simp: in_bounds_def)
  then have "filter (in_bounds (Excluded b, e)) ks = filter ((<) b) (filter (in_bounds (s, e)) ks)"
    by (auto simp: filter_filter in_bounds_def intro!: filter_cong)
  also have "\<dots> = cs"
  proof -
    have "sorted_wrt (<) (as @ b # cs)" using assms sorted_wrt_filter by metis
    then have "\<forall>a \<in> set as. \<not> b < a" "\<forall>c \<in> set cs. b < c" by (auto simp: sorted_wrt_append)
    then show ?thesis by (simp add: assms(2))
  qed
  finally show ?thesis .
qed

text \<open>Every listed key decodes to the hit at its position.\<close>

definition decodes :: "read_source \<Rightarrow> redb_index_cursor \<Rightarrow> u8 list list \<Rightarrow> index_hit list \<Rightarrow> bool" where
  "decodes src cur = list_all2 (\<lambda>pk h. decode_hit src cur pk = Ok h)"

lemma decode_hit_cong:
  "cur_index_id cur' = cur_index_id cur \<Longrightarrow> cur_component_count cur' = cur_component_count cur \<Longrightarrow>
   decode_hit src cur' = decode_hit src cur"
  by (simp add: decode_hit_def [abs_def])

lemma advance_simps [simp]:
  "cur_index_id (advance pk cur) = cur_index_id cur" "cur_component_count (advance pk cur) = cur_component_count cur"
  "cur_lower (advance pk cur) = Excluded pk" "cur_upper (advance pk cur) = cur_upper cur"
  "cur_reverse (advance pk cur) = cur_reverse cur" "cur_done (advance pk cur) = cur_done cur"
  by (simp_all add: advance_def)

text \<open>
  What a batch leaves: of the hits \<open>hs\<close> at the keys \<open>pks\<close> it takes the first ones; unless the scan is
  finished the cursor stands before the remaining keys.
\<close>

definition leaves :: "read_source \<Rightarrow> redb_index_cursor \<Rightarrow> u8 list list \<Rightarrow> index_hit list \<Rightarrow> redb_index_cursor \<Rightarrow> index_hit list \<Rightarrow> bool \<Rightarrow> bool" where
  "leaves src cur pks hs cur' taken fin \<longleftrightarrow>
     (\<exists>rest pks'. limited (cur_remaining cur) hs = taken @ limited (cur_remaining cur') rest \<and> decodes src cur' pks' rest \<and>
       cur_upper cur' = cur_upper cur \<and> cur_reverse cur' = cur_reverse cur \<and>
       (if fin then limited (cur_remaining cur') rest = []
        else cur_done cur' = cur_done cur \<and>
          (cur_lower cur' = cur_lower cur \<and> pks' = pks \<or> (\<exists>front pk. pks = front @ pk # pks' \<and> cur_lower cur' = Excluded pk))))"

lemma leaves_none: "decodes src cur pks hs \<Longrightarrow> leaves src cur pks hs cur [] False"
  unfolding leaves_def by (rule exI [of _ hs], rule exI [of _ pks]) simp

lemma leaves_all: "decodes src cur [] hs \<Longrightarrow> leaves src cur [] hs cur [] True"
  unfolding leaves_def by (rule exI [of _ hs], rule exI [of _ "[]"]) (simp add: decodes_def)

lemma leaves_step:
  assumes "leaves src (advance pk cur) pks hs cur' taken fin" "cur_remaining cur \<noteq> Some 0"
  shows "leaves src cur (pk # pks) (h # hs) cur' (h # taken) fin"
proof -
  from assms(1) obtain rest pks' where r: "limited (cur_remaining (advance pk cur)) hs = taken @ limited (cur_remaining cur') rest"
    "decodes src cur' pks' rest" "cur_upper cur' = cur_upper cur" "cur_reverse cur' = cur_reverse cur"
    and f: "if fin then limited (cur_remaining cur') rest = []
        else cur_done cur' = cur_done cur \<and>
          (cur_lower cur' = Excluded pk \<and> pks' = pks \<or> (\<exists>front q. pks = front @ q # pks' \<and> cur_lower cur' = Excluded q))"
    unfolding leaves_def advance_simps by blast
  have "if fin then limited (cur_remaining cur') rest = []
        else cur_done cur' = cur_done cur \<and> (\<exists>front q. pk # pks = front @ q # pks' \<and> cur_lower cur' = Excluded q)"
    using f by (cases fin) (auto simp: Cons_eq_append_conv)
  moreover have "limited (cur_remaining cur) (h # hs) = (h # taken) @ limited (cur_remaining cur') rest"
    using r(1) assms(2) by (simp add: limited_append advance_def)
  ultimately show ?thesis
    using r(2-4) unfolding leaves_def by (intro exI [of _ rest] exI [of _ pks']) (simp split: if_splits)
qed

lemma forward_loop_leaves:
  assumes "decodes src cur pks hs" "length hits < SOURCE_BATCH_MAX_ROWS" "cur_remaining cur \<noteq> Some 0"
  shows "\<exists>cur' taken fin. forward_loop src uninterrupted pks cur hits bytes = Ok (cur', hits @ taken, fin) \<and>
     leaves src cur pks hs cur' taken fin \<and> (hits = [] \<longrightarrow> pks \<noteq> [] \<longrightarrow> taken \<noteq> [])"
  using assms
proof (induction pks arbitrary: cur hs hits bytes)
  case Nil
  then have "leaves src cur [] hs cur [] True" by (simp add: leaves_all)
  then show ?case by (intro exI [of _ cur] exI [of _ "[]"] exI [of _ True]) simp
next
  case (Cons pk pks)
  from Cons.prems(1) obtain h hs' where hs: "hs = h # hs'" "decode_hit src cur pk = Ok h" "decodes src cur pks hs'"
    by (auto simp: decodes_def list_all2_Cons1)
  show ?case
  proof (cases "hits \<noteq> [] \<and> (length hits = SOURCE_BATCH_MAX_ROWS \<or> saturating_add bytes (length pk) > SOURCE_BATCH_MAX_BYTES)")
    case True
    then have "forward_loop src uninterrupted (pk # pks) cur hits bytes = Ok (cur, hits @ [], False)" "hits \<noteq> []" by simp_all
    then show ?thesis using leaves_none [OF Cons.prems(1)] by blast
  next
    case False
    let ?cur = "advance pk cur"
    have step: "forward_loop src uninterrupted (pk # pks) cur hits bytes =
        (if cur_remaining ?cur = Some 0 then Ok (?cur\<lparr>cur_done := True\<rparr>, hits @ [h], True)
         else if length (hits @ [h]) = SOURCE_BATCH_MAX_ROWS then Ok (?cur, hits @ [h], False)
         else forward_loop src uninterrupted pks ?cur (hits @ [h]) (saturating_add bytes (length pk)))"
      using False hs(2) by (simp only: forward_loop.simps uninterrupted_simps if_False Let_def and_then.simps)
    have dec: "decodes src ?cur pks hs'" "decodes src (?cur\<lparr>cur_done := True\<rparr>) pks hs'"
      using hs(3) by (simp_all add: decodes_def decode_hit_def)
    consider (limit) "cur_remaining ?cur = Some 0" | (full) "cur_remaining ?cur \<noteq> Some 0" "length (hits @ [h]) = SOURCE_BATCH_MAX_ROWS"
      | (more) "cur_remaining ?cur \<noteq> Some 0" "length (hits @ [h]) < SOURCE_BATCH_MAX_ROWS" using Cons.prems(2) by fastforce
    then show ?thesis
    proof cases
      case limit
      have "leaves src ?cur pks hs' (?cur\<lparr>cur_done := True\<rparr>) [] True"
        using limit dec(2) unfolding leaves_def by (intro exI [of _ hs'] exI [of _ pks]) simp
      from leaves_step [OF this Cons.prems(3)] limit step show ?thesis unfolding hs(1) by auto
    next
      case full
      from leaves_step [OF leaves_none [OF dec(1)] Cons.prems(3)] full step show ?thesis unfolding hs(1) by auto
    next
      case more
      from Cons.IH [OF dec(1) more(2,1)] obtain cur' taken fin where
        r: "forward_loop src uninterrupted pks ?cur (hits @ [h]) (saturating_add bytes (length pk)) = Ok (cur', (hits @ [h]) @ taken, fin)"
        "leaves src ?cur pks hs' cur' taken fin" by blast
      from leaves_step [OF r(2) Cons.prems(3)] r(1) more step show ?thesis unfolding hs(1) by auto
    qed
  qed
qed

definition forward_delivers :: "read_source \<Rightarrow> u8 list list \<Rightarrow> redb_index_cursor \<Rightarrow> index_hit list \<Rightarrow> bool" where
  "forward_delivers src ks cur hs \<longleftrightarrow>
     \<not> cur_reverse cur \<and> sorted_wrt (<) ks \<and> rs_range src = (\<lambda>b. Ok (filter (in_bounds b) ks)) \<and>
     (if cur_done cur \<or> cur_remaining cur = Some 0 then hs = []
      else \<exists>all. decodes src cur (filter (in_bounds (cur_lower cur, cur_upper cur)) ks) all \<and> hs = limited (cur_remaining cur) all)"

lemma forward_step:
  assumes "forward_delivers src ks cur hs"
  shows "\<exists>cur' batch. redb_next_batch src uninterrupted cur = Some (Ok (cur', batch)) \<and>
    (case batch of None \<Rightarrow> hs = [] | Some hits \<Rightarrow> hits \<noteq> [] \<and> (\<exists>rest. hs = hits @ rest \<and> forward_delivers src ks cur' rest))"
proof (cases "cur_done cur \<or> cur_remaining cur = Some 0")
  case True
  with assms show ?thesis by (simp add: redb_next_batch_def forward_delivers_def)
next
  case False
  define pks where "pks = filter (in_bounds (cur_lower cur, cur_upper cur)) ks"
  from assms False obtain all where all: "decodes src cur pks all" "hs = limited (cur_remaining cur) all"
    by (auto simp: forward_delivers_def pks_def)
  have src: "\<not> cur_reverse cur" "sorted_wrt (<) ks" "rs_range src = (\<lambda>b. Ok (filter (in_bounds b) ks))"
    using assms by (simp_all add: forward_delivers_def)
  from forward_loop_leaves [OF all(1), of "[]" 0] False obtain cur' taken fin where
    loop: "forward_loop src uninterrupted pks cur [] 0 = Ok (cur', taken, fin)"
    and leaves: "leaves src cur pks all cur' taken fin" and taken: "pks \<noteq> [] \<longrightarrow> taken \<noteq> []"
    by (auto simp: SOURCE_BATCH_MAX_ROWS_def)
  let ?cur = "cur'\<lparr>cur_done := cur_done cur' \<or> fin\<rparr>"
  have nb: "redb_next_batch src uninterrupted cur =
      Some (Ok (if taken = [] then (?cur\<lparr>cur_done := True\<rparr>, None) else (?cur, Some taken)))"
    using False src loop by (simp add: redb_next_batch_def next_forward_batch_from_def Let_def pks_def)
  from leaves obtain rest pks' where r: "hs = taken @ limited (cur_remaining cur') rest" "decodes src cur' pks' rest"
    "cur_upper cur' = cur_upper cur" "cur_reverse cur' = cur_reverse cur"
    and f: "if fin then limited (cur_remaining cur') rest = []
        else cur_done cur' = cur_done cur \<and>
          (cur_lower cur' = cur_lower cur \<and> pks' = pks \<or> (\<exists>front q. pks = front @ q # pks' \<and> cur_lower cur' = Excluded q))"
    unfolding leaves_def all(2) by blast
  show ?thesis
  proof (cases "taken = []")
    case True
    then have "all = []" using taken all(1) by (simp add: decodes_def)
    with True nb all(2) show ?thesis by simp
  next
    case taken: False
    have "forward_delivers src ks ?cur (limited (cur_remaining cur') rest)"
    proof (cases fin)
      case True
      with f src r(4) show ?thesis by (simp add: forward_delivers_def)
    next
      case fin: False
      then have "filter (in_bounds (cur_lower cur', cur_upper cur')) ks = pks'"
        using f r(3) range_after [OF src(2), of "cur_lower cur" "cur_upper cur"] by (auto simp: pks_def)
      then show ?thesis using fin f False src r(2,4) by (auto simp: forward_delivers_def decodes_def decode_hit_def)
    qed
    with nb taken r(1) show ?thesis by auto
  qed
qed

section \<open>Reverse scans\<close>

definition part_of :: "posting \<Rightarrow> posting \<Rightarrow> bool" where
  "part_of q p \<longleftrightarrow> set q \<subseteq> set p \<and> sorted_wrt (\<lambda>e f. diverges (fst e) (fst f)) q"

text \<open>An open group: the rows still to deliver of one entry, and the entries below it.\<close>

definition group_at ::
  "u8 list list \<Rightarrow> u8 list \<Rightarrow> posting \<Rightarrow> redb_index_cursor \<Rightarrow> reverse_index_group \<Rightarrow> index_hit list \<Rightarrow> bool" where
  "group_at ks T p cur g hs \<longleftrightarrow>
     (\<exists>e rows q. e \<in> set p \<and> part_of q p \<and> rg_before g = T @ fst e \<and>
       filter (in_bounds (rg_lower g, rg_upper g)) ks = map (entry_key T (fst e)) rows \<and>
       filter (in_bounds (cur_lower cur, Excluded (T @ fst e))) ks = posting_keys T q \<and>
       hs = posting_hits (fst e, rows) @ concat (map posting_hits (rev q)))"

definition group_state ::
  "u8 list list \<Rightarrow> u8 list \<Rightarrow> posting \<Rightarrow> redb_index_cursor \<Rightarrow> index_hit list \<Rightarrow> bool" where
  "group_state ks T p cur hs \<longleftrightarrow>
     (case cur_reverse_group cur of
        Some g \<Rightarrow> group_at ks T p cur g hs
      | None \<Rightarrow> \<exists>q. part_of q p \<and> filter (in_bounds (cur_lower cur, cur_upper cur)) ks = posting_keys T q \<and>
          hs = concat (map posting_hits (rev q)))"

lemma entry_key_compare:
  "diverges k k' \<Longrightarrow> entry_key T k r < T @ k'" "T @ k \<le> entry_key T k r"
  using diverges_compare(1) [of k k' "be_bytes 8 (unat r)" "[]"] by (simp_all add: entry_key_def less_append_same)

lemma diverges_no_prefix: "diverges a b \<Longrightarrow> \<not> has_prefix a b \<and> \<not> has_prefix b a"
  using diverges_not_prefix [of a b "[]" "[]"] diverges_beyond [of a b "[]" "[]"] beyond_not_prefix [of a b] by auto

lemma group_range:
  assumes "stores src ks i m p" "e \<in> set p"
  defines "T \<equiv> table_prefix src i m"
  shows "filter (in_bounds (Included (T @ fst e @ be_bytes 8 0), Included (T @ fst e @ be_bytes 8 (2 ^ 64 - 1)))) ks =
    map (entry_key T (fst e)) (snd e)"
proof -
  let ?b = "(Included (fst e), Included (fst e))"
  have b: "(Included (T @ fst e @ be_bytes 8 0), Included (T @ fst e @ be_bytes 8 (2 ^ 64 - 1))) =
      (shift_start T (fst ?b), shift_end T (snd ?b))"
    by (simp add: shift_start_def shift_end_def)
  obtain xs ys where p: "p = xs @ e # ys" using assms(2) by (meson split_list)
  have dv: "\<forall>f \<in> set xs. diverges (fst f) (fst e)" "\<forall>f \<in> set ys. diverges (fst e) (fst f)"
    using assms(1) by (auto simp: stores_def posting_ok_def p sorted_wrt_append)
  have tight: "\<forall>f \<in> set p. start_tight (fst ?b) (fst f) \<and> end_tight (snd ?b) (fst f)"
    using dv diverges_no_prefix by (fastforce simp: p proper_prefix_def)
  have "\<not> in_bounds ?b (fst f)" if "f \<in> set xs \<union> set ys" for f
    using dv that diverges_neq by (fastforce simp: in_bounds_def)
  then have "filter (\<lambda>f. in_bounds ?b (fst f)) p = [e]"
    by (auto simp: p filter_empty_conv) (simp_all add: in_bounds_def)
  then show ?thesis unfolding b using stored_range [OF assms(1) tight] by (simp add: T_def posting_keys_def)
qed

lemma below_group:
  assumes "filter (in_bounds (s, u)) ks = posting_keys T (q @ [e])" "part_of (q @ [e]) p" "snd e \<noteq> []"
  shows "filter (in_bounds (s, Excluded (T @ fst e))) ks = posting_keys T q"
proof -
  have "entry_key T (fst e) (last (snd e)) \<in> set (filter (in_bounds (s, u)) ks)"
    using assms(3) unfolding assms(1) by (simp add: posting_keys_def)
  then have "below_end u (entry_key T (fst e) (last (snd e)))" by (simp add: in_bounds_def)
  moreover have "T @ fst e \<le> entry_key T (fst e) (last (snd e))" by (rule entry_key_compare)
  ultimately have "below_end u x" if "x < T @ fst e" for x using that by (cases u) auto
  then have "filter (in_bounds (s, Excluded (T @ fst e))) ks = filter (\<lambda>x. x < T @ fst e) (filter (in_bounds (s, u)) ks)"
    by (auto simp: filter_filter in_bounds_def intro!: filter_cong)
  also have "\<dots> = posting_keys T (filter (\<lambda>f. fst f \<noteq> fst e) (q @ [e]))"
    unfolding assms(1) using assms(2) entry_key_compare
    by (intro posting_keys_filter) (auto simp: part_of_def sorted_wrt_append not_less [symmetric] dest: diverges_neq)
  also have "filter (\<lambda>f. fst f \<noteq> fst e) (q @ [e]) = q"
    using assms(2) by (auto simp: part_of_def sorted_wrt_append filter_id_conv dest: diverges_neq)
  finally show ?thesis .
qed

lemma open_group_eq:
  assumes "stores src ks i m p" "cur_index_id cur = i" "cur_component_count cur = m"
    and range: "filter (in_bounds (cur_lower cur, cur_upper cur)) ks = posting_keys (table_prefix src i m) q" and q: "part_of q p"
  shows "q = [] \<Longrightarrow> open_group src cur = Ok None"
    "q \<noteq> [] \<Longrightarrow> \<exists>g. open_group src cur = Ok (Some g) \<and> first_key src (rg_lower g, rg_upper g) \<noteq> Ok None \<and>
       group_at ks (table_prefix src i m) p cur g (concat (map posting_hits (rev q)))"
proof -
  let ?T = "table_prefix src i m"
  have src: "rs_range src = (\<lambda>b. Ok (filter (in_bounds b) ks))" "generation_ok (rs_generation src)" using assms(1) by (simp_all add: stores_def)
  show "open_group src cur = Ok None" if "q = []"
    using that range src by (simp add: open_group_def last_key_def posting_keys_def)
  assume "q \<noteq> []"
  then obtain q' e where qe: "q = q' @ [e]" by (metis rev_exhaust)
  have e: "e \<in> set p" "snd e \<noteq> []" using q qe assms(1) by (auto simp: part_of_def stores_def posting_ok_def)
  let ?g = "\<lparr>rg_before = ?T @ fst e, rg_lower = Included (?T @ fst e @ be_bytes 8 0), rg_upper = Included (?T @ fst e @ be_bytes 8 (2 ^ 64 - 1))\<rparr>"
  have "last (posting_keys ?T q) = entry_key ?T (fst e) (last (snd e))" "posting_keys ?T q \<noteq> []"
    using e(2) by (simp_all add: qe posting_keys_def last_map)
  then have "last_key src (cur_lower cur, cur_upper cur) = Ok (Some (entry_key ?T (fst e) (last (snd e))))"
    using range src(1) by (simp add: last_key_def)
  then have opens: "open_group src cur = Ok (Some ?g)"
    using decode_entry [OF assms(1) e(1) assms(2,3)] assms(2,3)
    by (simp add: open_group_def physical_key_eq [OF src(2)] table_prefix_def Let_def)
  have "part_of q' p" using q by (auto simp: qe part_of_def sorted_wrt_append)
  moreover have "filter (in_bounds (cur_lower cur, Excluded (?T @ fst e))) ks = posting_keys ?T q'"
    using below_group range q e(2) unfolding qe by blast
  ultimately have "group_at ks ?T p cur ?g (concat (map posting_hits (rev q)))"
    unfolding group_at_def using group_range [OF assms(1) e(1)] e(1)
    by (intro exI [of _ e] exI [of _ "snd e"] exI [of _ q']) (simp add: qe)
  moreover have "first_key src (rg_lower ?g, rg_upper ?g) \<noteq> Ok None"
    using group_range [OF assms(1) e(1)] e(2) src(1) by (simp add: first_key_def)
  ultimately show "\<exists>g. open_group src cur = Ok (Some g) \<and> first_key src (rg_lower g, rg_upper g) \<noteq> Ok None \<and>
      group_at ks ?T p cur g (concat (map posting_hits (rev q)))" using opens by blast
qed

text \<open>Where the loop stands after the step that opens a group if there is none.\<close>

lemma current_group:
  assumes "stores src ks i m p" "cur_index_id cur = i" "cur_component_count cur = m" "group_state ks (table_prefix src i m) p cur hs"
  defines "opened \<equiv> (case cur_reverse_group cur of Some g \<Rightarrow> Ok (Some g) | None \<Rightarrow> open_group src cur)"
  shows "(opened = Ok None \<and> hs = []) \<or> (\<exists>g. opened = Ok (Some g) \<and> group_at ks (table_prefix src i m) p cur g hs \<and>
    (cur_reverse_group cur = None \<longrightarrow> first_key src (rg_lower g, rg_upper g) \<noteq> Ok None))"
proof (cases "cur_reverse_group cur")
  case None
  with assms(4) obtain q where q: "part_of q p"
    "filter (in_bounds (cur_lower cur, cur_upper cur)) ks = posting_keys (table_prefix src i m) q" "hs = concat (map posting_hits (rev q))"
    by (auto simp: group_state_def)
  from open_group_eq [OF assms(1-3) q(2,1)] None q(3) show ?thesis by (cases "q = []") (auto simp: opened_def)
qed (use assms(4) in \<open>simp add: group_state_def opened_def\<close>)

lemma group_at_next:
  assumes "stores src ks i m p" "cur_index_id cur = i" "cur_component_count cur = m" "group_at ks (table_prefix src i m) p cur g hs"
  obtains (exhausted) "first_key src (rg_lower g, rg_upper g) = Ok None"
    "group_state ks (table_prefix src i m) p (cur\<lparr>cur_upper := Excluded (rg_before g), cur_reverse_group := None\<rparr>) hs"
  | (hit) pk h rest where "first_key src (rg_lower g, rg_upper g) = Ok (Some pk)" "decode_hit src cur pk = Ok h" "hs = h # rest"
    "\<And>r. group_state ks (table_prefix src i m) p (cur\<lparr>cur_reverse_group := Some (g\<lparr>rg_lower := Excluded pk\<rparr>), cur_remaining := r\<rparr>) rest"
proof -
  let ?T = "table_prefix src i m"
  have src: "rs_range src = (\<lambda>b. Ok (filter (in_bounds b) ks))" "sorted_wrt (<) ks" using assms(1) by (simp_all add: stores_def)
  from assms(4) obtain e rows q where g: "e \<in> set p" "part_of q p" "rg_before g = ?T @ fst e"
    "filter (in_bounds (rg_lower g, rg_upper g)) ks = map (entry_key ?T (fst e)) rows"
    "filter (in_bounds (cur_lower cur, Excluded (?T @ fst e))) ks = posting_keys ?T q"
    "hs = posting_hits (fst e, rows) @ concat (map posting_hits (rev q))"
    unfolding group_at_def by blast
  show thesis
  proof (cases rows)
    case Nil
    have "group_state ks ?T p (cur\<lparr>cur_upper := Excluded (rg_before g), cur_reverse_group := None\<rparr>) hs"
      using g(2,3,5,6) Nil by (auto simp: group_state_def posting_hits_def)
    with exhausted show thesis using g(4) Nil src(1) by (simp add: first_key_def)
  next
    case (Cons r rs)
    let ?pk = "entry_key ?T (fst e) r" and ?rest = "posting_hits (fst e, rs) @ concat (map posting_hits (rev q))"
    have "filter (in_bounds (Excluded ?pk, rg_upper g)) ks = map (entry_key ?T (fst e)) rs"
      using range_after [OF src(2), of "rg_lower g" "rg_upper g" "[]"] g(4) Cons by simp
    then have "group_state ks ?T p (cur\<lparr>cur_reverse_group := Some (g\<lparr>rg_lower := Excluded ?pk\<rparr>), cur_remaining := n\<rparr>) ?rest" for n
      using g(1-3,5) by (auto simp: group_state_def group_at_def simp del: split_paired_Ex
          intro!: exI [of _ e] exI [of _ rs] exI [of _ q])
    moreover have "first_key src (rg_lower g, rg_upper g) = Ok (Some ?pk)" using g(4) Cons src(1) by (simp add: first_key_def)
    moreover have "hs = \<lparr>hit_boundary = fst e, hit_row_id = r\<rparr> # ?rest" using g(6) Cons by (simp add: posting_hits_def)
    ultimately show thesis using hit decode_entry [OF assms(1) g(1) assms(2,3)] by blast
  qed
qed

text \<open>What a reverse batch leaves, by analogy with \<open>leaves\<close>.\<close>

definition reverse_leaves ::
  "u8 list list \<Rightarrow> u8 list \<Rightarrow> posting \<Rightarrow> redb_index_cursor \<Rightarrow> index_hit list \<Rightarrow> redb_index_cursor \<Rightarrow> index_hit list \<Rightarrow> bool" where
  "reverse_leaves ks T p cur hs cur' taken \<longleftrightarrow>
     cur_index_id cur' = cur_index_id cur \<and> cur_component_count cur' = cur_component_count cur \<and> cur_reverse cur' = cur_reverse cur \<and>
     (\<exists>rest. limited (cur_remaining cur) hs = taken @ limited (cur_remaining cur') rest \<and>
       (if cur_done cur' then rest = [] else group_state ks T p cur' rest))"

lemma reverse_leaves_none:
  "cur_index_id cur' = cur_index_id cur \<Longrightarrow> cur_component_count cur' = cur_component_count cur \<Longrightarrow> cur_reverse cur' = cur_reverse cur \<Longrightarrow>
   cur_remaining cur' = cur_remaining cur \<Longrightarrow> (if cur_done cur' then hs = [] else group_state ks T p cur' hs) \<Longrightarrow>
   reverse_leaves ks T p cur hs cur' []"
  unfolding reverse_leaves_def by (intro conjI exI [of _ hs]) simp_all

lemma group_at_cong: "cur_lower cur' = cur_lower cur \<Longrightarrow> group_at ks T p cur' g hs = group_at ks T p cur g hs"
  by (simp add: group_at_def)

definition current_group_of :: "read_source \<Rightarrow> redb_index_cursor \<Rightarrow> reverse_index_group option result" where
  "current_group_of src cur = (case cur_reverse_group cur of Some g \<Rightarrow> Ok (Some g) | None \<Rightarrow> open_group src cur)"

lemma reverse_loop_stop:
  "\<not> (length hits < SOURCE_BATCH_MAX_ROWS \<and> cur_remaining cur \<noteq> Some 0) \<Longrightarrow>
   reverse_loop src uninterrupted n cur hits bytes = Some (Ok (cur, hits))"
  by (subst reverse_loop.simps) (simp only: if_True not_False_eq_True)

lemma reverse_loop_round:
  assumes "length hits < SOURCE_BATCH_MAX_ROWS \<and> cur_remaining cur \<noteq> Some 0"
  shows "current_group_of src cur = Ok None \<Longrightarrow>
      reverse_loop src uninterrupted n cur hits bytes = Some (Ok (cur\<lparr>cur_done := True\<rparr>, hits))"
    "current_group_of src cur = Ok (Some g) \<Longrightarrow> first_key src (rg_lower g, rg_upper g) = Ok None \<Longrightarrow>
      reverse_loop src uninterrupted n cur hits bytes =
        reverse_loop src uninterrupted (Suc n) (cur\<lparr>cur_upper := Excluded (rg_before g), cur_reverse_group := None\<rparr>) hits bytes"
    "current_group_of src cur = Ok (Some g) \<Longrightarrow> first_key src (rg_lower g, rg_upper g) = Ok (Some pk) \<Longrightarrow>
      hits \<noteq> [] \<and> saturating_add bytes (length pk) > SOURCE_BATCH_MAX_BYTES \<Longrightarrow>
      reverse_loop src uninterrupted n cur hits bytes = Some (Ok (cur\<lparr>cur_reverse_group := Some g\<rparr>, hits))"
    "current_group_of src cur = Ok (Some g) \<Longrightarrow> first_key src (rg_lower g, rg_upper g) = Ok (Some pk) \<Longrightarrow>
      \<not> (hits \<noteq> [] \<and> saturating_add bytes (length pk) > SOURCE_BATCH_MAX_BYTES) \<Longrightarrow> decode_hit src cur pk = Ok h \<Longrightarrow>
      reverse_loop src uninterrupted n cur hits bytes =
        reverse_loop src uninterrupted (Suc n)
          (cur\<lparr>cur_reverse_group := Some (g\<lparr>rg_lower := Excluded pk\<rparr>), cur_remaining := map_option (\<lambda>n. n - 1) (cur_remaining cur)\<rparr>)
          (hits @ [h]) (saturating_add bytes (length pk))"
  using assms unfolding current_group_of_def
  by (subst reverse_loop.simps,
      simp only: if_True if_False simp_thms uninterrupted_simps result.case option.case)+

lemma reverse_loop_leaves:
  assumes "stores src ks i m p" "cur_index_id cur = i" "cur_component_count cur = m" "\<not> cur_done cur"
    and "group_state ks (table_prefix src i m) p cur hs"
  shows "\<exists>cur' taken. reverse_loop src uninterrupted n cur hits bytes = Some (Ok (cur', hits @ taken)) \<and>
     reverse_leaves ks (table_prefix src i m) p cur hs cur' taken \<and>
     (hits = [] \<longrightarrow> taken = [] \<longrightarrow> limited (cur_remaining cur) hs = [])"
  using assms(2-)
proof (induction "2 * length hs + (if cur_reverse_group cur = None then 0 else 1)" arbitrary: cur hs n hits bytes rule: less_induct)
  case less
  let ?T = "table_prefix src i m"
  have stop: "?case" if "reverse_loop src uninterrupted n cur hits bytes = Some (Ok (cur', hits))"
    "cur_remaining cur' = cur_remaining cur" "cur_index_id cur' = i" "cur_component_count cur' = m" "cur_reverse cur' = cur_reverse cur"
    "if cur_done cur' then hs = [] else group_state ks ?T p cur' hs" "hits = [] \<Longrightarrow> limited (cur_remaining cur) hs = []" for cur'
  proof (intro exI conjI)
    show "reverse_loop src uninterrupted n cur hits bytes = Some (Ok (cur', hits @ []))" using that(1) by (simp only: append_Nil2)
    show "reverse_leaves ks ?T p cur hs cur' []" 
      by (rule reverse_leaves_none [OF _ _ that(5,2,6)]) (simp_all only: that(3,4) less.prems(1,2))
  qed (use that(7) in blast)
  show ?case
  proof (cases "length hits < SOURCE_BATCH_MAX_ROWS \<and> cur_remaining cur \<noteq> Some 0")
    case False
    show ?thesis
    proof (rule stop)
      show "reverse_loop src uninterrupted n cur hits bytes = Some (Ok (cur, hits))" using False by (rule reverse_loop_stop)
      show "limited (cur_remaining cur) hs = []" if "hits = []" using that False by (auto simp: SOURCE_BATCH_MAX_ROWS_def)
    qed (simp_all only: less.prems if_False refl simp_thms)
  next
    case True
    consider (none) "current_group_of src cur = Ok None" "hs = []"
      | (some) g where "current_group_of src cur = Ok (Some g)" "group_at ks ?T p cur g hs"
          "cur_reverse_group cur = None \<longrightarrow> first_key src (rg_lower g, rg_upper g) \<noteq> Ok None"
      using current_group [OF assms(1) less.prems(1,2,4), folded current_group_of_def]
      by (elim disjE exE conjE) (rule that)+
    then show ?thesis
    proof cases
      case none
      have "reverse_loop src uninterrupted n cur hits bytes = Some (Ok (cur\<lparr>cur_done := True\<rparr>, hits))"
        by (rule reverse_loop_round(1) [OF True none(1)])
      then show ?thesis by (rule stop) (simp_all add: less.prems(1-3) none(2))
    next
      case some
      show ?thesis
      proof (cases rule: group_at_next [OF assms(1) less.prems(1,2) some(2), case_names exhausted hit])
        case exhausted
        let ?cur = "cur\<lparr>cur_upper := Excluded (rg_before g), cur_reverse_group := None\<rparr>"
        have "cur_reverse_group cur \<noteq> None" using some(3) exhausted(1) by simp
        then have "\<exists>cur' taken. reverse_loop src uninterrupted (Suc n) ?cur hits bytes = Some (Ok (cur', hits @ taken)) \<and>
          reverse_leaves ks ?T p ?cur hs cur' taken \<and> (hits = [] \<longrightarrow> taken = [] \<longrightarrow> limited (cur_remaining ?cur) hs = [])"
          using exhausted(2) by (intro less.hyps) (simp_all add: less.prems(1-3))
        moreover have "reverse_loop src uninterrupted n cur hits bytes = reverse_loop src uninterrupted (Suc n) ?cur hits bytes"
          by (rule reverse_loop_round(2) [OF True some(1) exhausted(1)])
        ultimately show ?thesis by (simp add: reverse_leaves_def)
      next
        case (hit pk h rest)
        show ?thesis
        proof (cases "hits \<noteq> [] \<and> saturating_add bytes (length pk) > SOURCE_BATCH_MAX_BYTES")
          case big: True
          have "reverse_loop src uninterrupted n cur hits bytes = Some (Ok (cur\<lparr>cur_reverse_group := Some g\<rparr>, hits))"
            by (rule reverse_loop_round(3) [OF True some(1) hit(1) big])
          then show ?thesis using some(2) big
            by - (rule stop, assumption, simp_all add: less.prems(1-3) group_state_def group_at_def)
        next
          case small: False
          let ?cur = "cur\<lparr>cur_reverse_group := Some (g\<lparr>rg_lower := Excluded pk\<rparr>), cur_remaining := map_option (\<lambda>n. n - 1) (cur_remaining cur)\<rparr>"
          have loop: "reverse_loop src uninterrupted n cur hits bytes =
              reverse_loop src uninterrupted (Suc n) ?cur (hits @ [h]) (saturating_add bytes (length pk))"
            by (rule reverse_loop_round(4) [OF True some(1) hit(1) small hit(2)])
          have "\<exists>cur' taken. reverse_loop src uninterrupted (Suc n) ?cur (hits @ [h]) (saturating_add bytes (length pk)) =
              Some (Ok (cur', (hits @ [h]) @ taken)) \<and> reverse_leaves ks ?T p ?cur rest cur' taken \<and>
              (hits @ [h] = [] \<longrightarrow> taken = [] \<longrightarrow> limited (cur_remaining ?cur) rest = [])"
            using hit(4) by (intro less.hyps) (simp_all add: less.prems(1-3) hit(3))
          then obtain cur' taken where "reverse_loop src uninterrupted (Suc n) ?cur (hits @ [h]) (saturating_add bytes (length pk)) =
              Some (Ok (cur', (hits @ [h]) @ taken))" "reverse_leaves ks ?T p ?cur rest cur' taken" by blast
          moreover from this(2) have "reverse_leaves ks ?T p cur hs cur' (h # taken)"
            using True by (simp add: reverse_leaves_def hit(3) limited_append)
          ultimately show ?thesis using loop by (intro exI [of _ cur'] exI [of _ "h # taken"]) simp
        qed
      qed
    qed
  qed
qed

definition reverse_delivers :: "read_source \<Rightarrow> u8 list list \<Rightarrow> posting \<Rightarrow> redb_index_cursor \<Rightarrow> index_hit list \<Rightarrow> bool" where
  "reverse_delivers src ks p cur hs \<longleftrightarrow>
     cur_reverse cur \<and> stores src ks (cur_index_id cur) (cur_component_count cur) p \<and>
     (if cur_done cur \<or> cur_remaining cur = Some 0 then hs = []
      else \<exists>all. group_state ks (table_prefix src (cur_index_id cur) (cur_component_count cur)) p cur all \<and>
        hs = limited (cur_remaining cur) all)"

lemma reverse_step:
  assumes "reverse_delivers src ks p cur hs"
  shows "\<exists>cur' batch. redb_next_batch src uninterrupted cur = Some (Ok (cur', batch)) \<and>
    (case batch of None \<Rightarrow> hs = [] | Some hits \<Rightarrow> hits \<noteq> [] \<and> (\<exists>rest. hs = hits @ rest \<and> reverse_delivers src ks p cur' rest))"
proof (cases "cur_done cur \<or> cur_remaining cur = Some 0")
  case True
  with assms show ?thesis by (simp add: redb_next_batch_def reverse_delivers_def)
next
  case False
  let ?T = "table_prefix src (cur_index_id cur) (cur_component_count cur)"
  from assms False obtain all where all: "group_state ks ?T p cur all" "hs = limited (cur_remaining cur) all"
    and st: "stores src ks (cur_index_id cur) (cur_component_count cur) p" and rv: "cur_reverse cur"
    by (auto simp: reverse_delivers_def)
  from reverse_loop_leaves [OF st refl refl _ all(1), of 0 "[]" 0] False obtain cur' taken where
    loop: "reverse_loop src uninterrupted 0 cur [] 0 = Some (Ok (cur', taken))"
    and leaves: "reverse_leaves ks ?T p cur all cur' taken" and empty: "taken = [] \<longrightarrow> hs = []"
    unfolding all(2) by auto
  have nb: "redb_next_batch src uninterrupted cur =
      Some (Ok (if taken = [] then (cur'\<lparr>cur_done := True\<rparr>, None) else (cur', Some taken)))"
    using False rv loop by (simp add: redb_next_batch_def next_reverse_batch_def)
  from leaves obtain rest where r: "hs = taken @ limited (cur_remaining cur') rest"
    "if cur_done cur' then rest = [] else group_state ks ?T p cur' rest"
    "cur_index_id cur' = cur_index_id cur" "cur_component_count cur' = cur_component_count cur" "cur_reverse cur' = cur_reverse cur"
    unfolding reverse_leaves_def all(2) by blast
  have "reverse_delivers src ks p cur' (limited (cur_remaining cur') rest)"
    using r(2-5) st rv by (auto simp: reverse_delivers_def split: if_splits)
  with nb r(1) empty show ?thesis by (cases "taken = []") auto
qed

interpretation durable_scan: hit_cursor "redb_next_batch src uninterrupted"
  "\<lambda>cur hs. forward_delivers src ks cur hs \<or> reverse_delivers src ks p cur hs" for src ks p
proof
  fix cur hs
  assume "forward_delivers src ks cur hs \<or> reverse_delivers src ks p cur hs"
  then show "\<exists>cur' batch. redb_next_batch src uninterrupted cur = Some (Ok (cur', batch)) \<and>
    (case batch of None \<Rightarrow> hs = [] | Some hits \<Rightarrow> hits \<noteq> [] \<and>
       (\<exists>rest. hs = hits @ rest \<and> (forward_delivers src ks cur' rest \<or> reverse_delivers src ks p cur' rest)))"
    using forward_step [of src ks cur hs] reverse_step [of src ks p cur hs] by (fastforce split: option.splits)
qed

lemma part_of_filter: "posting_ok p \<Longrightarrow> part_of (filter P p) p"
  by (auto simp: part_of_def posting_ok_def intro: sorted_wrt_filter)

lemma durable_drains:
  assumes "stores src ks i m p" and "\<forall>e \<in> set p. start_tight (fst b) (fst e) \<and> end_tight (snd b) (fst e)" and "limit \<noteq> Some 0"
    and cur: "redb_scan_index src i m b r limit = Ok cur"
  shows "drain (redb_next_batch src uninterrupted) cur =
    Some (Ok (limited limit (concat (map posting_hits (let es = filter (\<lambda>e. in_bounds b (fst e)) p in if r then rev es else es)))))"
proof -
  define T where "T = table_prefix src i m"
  define es where "es = filter (\<lambda>e. in_bounds b (fst e)) p"
  have gen: "generation_ok (rs_generation src)" "posting_ok p" using assms(1) by (simp_all add: stores_def)
  have c: "cur = \<lparr>cur_index_id = i, cur_component_count = m, cur_lower = shift_start T (fst b), cur_upper = shift_end T (snd b),
        cur_reverse = r, cur_reverse_group = None, cur_remaining = limit, cur_done = False\<rparr>"
    using redb_scan_index_eq [OF gen(1), of i m b r limit] cur assms(3) by (simp add: T_def)
  have range: "filter (in_bounds (cur_lower cur, cur_upper cur)) ks = posting_keys T es"
    using stored_range [OF assms(1,2)] by (simp add: c T_def es_def)
  have sub: "set es \<subseteq> set p" by (auto simp: es_def)
  have dec: "decodes src cur (posting_keys T qs) (concat (map posting_hits qs))" if "set qs \<subseteq> set p" for qs
    using that decode_entry [OF assms(1), of _ cur]
    by (induction qs) (auto simp: decodes_def posting_keys_def posting_hits_def c T_def list_all2_map1 list_all2_map2
        intro!: list_all2_appendI list.rel_refl_strong)
  have "(forward_delivers src ks cur hs \<or> reverse_delivers src ks p cur hs)"
    if "hs = limited limit (concat (map posting_hits (if r then rev es else es)))" for hs
  proof (cases r)
    case True
    have "group_state ks T p cur (concat (map posting_hits (rev es)))"
      using range part_of_filter [OF gen(2)] by (auto simp: group_state_def c es_def)
    then show ?thesis using that True assms(1,3) by (auto simp: reverse_delivers_def c T_def)
  next
    case False
    then show ?thesis using that assms(1,3) dec [OF sub] range by (auto simp: forward_delivers_def c stores_def)
  qed
  from durable_scan.drains [OF this [OF refl]] show ?thesis by (simp add: es_def Let_def)
qed

section \<open>Properties\<close>


definition example_posting :: posting where
  "example_posting = [([1], [3, 5]), ([2], [4])]"

definition example_prefix :: "u8 list" where
  "example_prefix = table_prefix \<lparr>rs_generation = Generated 7, rs_index_version = 4, rs_range = (\<lambda>b. Ok [])\<rparr> 9 1"

definition example_source :: read_source where
  "example_source = \<lparr>rs_generation = Generated 7, rs_index_version = 4,
     rs_range = (\<lambda>b. Ok (filter (in_bounds b) (posting_keys example_prefix example_posting)))\<rparr>"

lemma example_source_prefix: "table_prefix example_source 9 1 = example_prefix"
  by (simp add: example_source_def example_prefix_def table_prefix_def)

lemma example_stores: "stores example_source (posting_keys example_prefix example_posting) 9 1 example_posting"
proof -
  have keys: "posting_keys example_prefix example_posting =
      [entry_key example_prefix [1] 3, entry_key example_prefix [1] 5, entry_key example_prefix [2] 4]"
    by (simp add: posting_keys_def example_posting_def)
  have "sorted_wrt (<) (posting_keys example_prefix example_posting)"
    using row_less_iff [of 3 5] by (simp add: keys entry_key_def less_append_same)
  moreover have "filter (has_prefix example_prefix) (posting_keys example_prefix example_posting) = posting_keys example_prefix example_posting"
    by (simp add: keys entry_key_def)
  moreover have "posting_ok example_posting" by (simp add: posting_ok_def example_posting_def)
  ultimately show ?thesis
    by (simp add: stores_def example_source_prefix)
      (simp add: example_source_def example_posting_def generation_ok_def MAP_INDEX_KEY_CODEC_VERSION_def
        MAX_INDEX_COMPONENTS_def MAX_COMPLETE_INDEX_KEY_BYTES_def)
qed


end
