(* ===== verification/Float_Arithmetic.thy ===== *)
theory Float_Arithmetic
  imports Float64
begin

text \<open>
  The arithmetic of \<open>f64\<close> that expressions use: addition, subtraction, multiplication, division and
  negation of IEEE 754 binary64 numbers, rounding to nearest with ties to even, and the conversion of a
  float to an integer under a rounding mode.
\<close>

section \<open>Definitions\<close>

text \<open>The ratio \<open>n / d\<close>, rounded to the nearest natural number, ties to even.\<close>

definition round_even :: "nat \<Rightarrow> nat \<Rightarrow> nat" where
  "round_even n d =
     (let q = n div d; r = n mod d in if 2 * r > d \<or> (2 * r = d \<and> odd q) then q + 1 else q)"

definition f64_infinity :: nat where
  "f64_infinity = 2047 * 2 ^ 52"

definition f64_nan :: f64 where
  "f64_nan = of_nat (2047 * 2 ^ 52 + 2 ^ 51)"

definition f64_of_magnitude :: "bool \<Rightarrow> nat \<Rightarrow> f64" where
  "f64_of_magnitude negative g = of_nat ((if negative then 2 ^ 63 else 0) + min g f64_infinity)"

text \<open>
  The float nearest to \<open>n / d\<close> in units of \<open>2 ^ -1074\<close>: the significand has at most 53 bits, so the
  quotient is cut at a shift that leaves 53.  A significand that rounds up to \<open>2 ^ 53\<close> carries into the
  exponent, and a magnitude beyond the largest exponent is an infinity.
\<close>

definition f64_of_ratio :: "bool \<Rightarrow> nat \<Rightarrow> nat \<Rightarrow> f64" where
  "f64_of_ratio negative n d =
     (let s = bit_count (n div d) - 53
      in f64_of_magnitude negative (s * 2 ^ 52 + round_even n (d * 2 ^ s)))"

definition f64_of_scaled :: "int \<Rightarrow> f64" where
  "f64_of_scaled x = f64_of_ratio (x < 0) (nat \<bar>x\<bar>) 1"

definition f64_neg :: "f64 \<Rightarrow> f64" where
  "f64_neg a = a + 2 ^ 63"

definition is_infinite :: "f64 \<Rightarrow> bool" where
  "is_infinite a \<longleftrightarrow> \<not> is_finite a \<and> \<not> is_nan a"

definition f64_add :: "f64 \<Rightarrow> f64 \<Rightarrow> f64" where
  "f64_add a b =
     (if is_nan a \<or> is_nan b then f64_nan
      else if is_infinite a then (if is_infinite b \<and> f64_negative a \<noteq> f64_negative b then f64_nan else a)
      else if is_infinite b then b
      else if f64_scaled a + f64_scaled b = 0 then (if f64_negative a \<and> f64_negative b then 2 ^ 63 else 0)
      else f64_of_scaled (f64_scaled a + f64_scaled b))"

definition f64_sub :: "f64 \<Rightarrow> f64 \<Rightarrow> f64" where
  "f64_sub a b = (if is_nan b then f64_nan else f64_add a (f64_neg b))"

definition f64_mul :: "f64 \<Rightarrow> f64 \<Rightarrow> f64" where
  "f64_mul a b =
     (let negative = (f64_negative a \<noteq> f64_negative b)
      in if is_nan a \<or> is_nan b then f64_nan
         else if is_infinite a \<or> is_infinite b
         then (if f64_is_zero a \<or> f64_is_zero b then f64_nan else f64_of_magnitude negative f64_infinity)
         else f64_of_ratio negative (nat \<bar>f64_scaled a * f64_scaled b\<bar>) f64_unit)"

definition f64_div :: "f64 \<Rightarrow> f64 \<Rightarrow> f64" where
  "f64_div a b =
     (let negative = (f64_negative a \<noteq> f64_negative b)
      in if is_nan a \<or> is_nan b then f64_nan
         else if is_infinite a then (if is_infinite b then f64_nan else f64_of_magnitude negative f64_infinity)
         else if is_infinite b then f64_of_magnitude negative 0
         else if f64_is_zero b
         then (if f64_is_zero a then f64_nan else f64_of_magnitude negative f64_infinity)
         else f64_of_ratio negative (nat \<bar>f64_scaled a\<bar> * f64_unit) (nat \<bar>f64_scaled b\<bar>))"

end
