(* ===== verification/Expression.thy ===== *)
theory Expression
  imports Coerce Query Float_Arithmetic Typed_Order Value_Codec
begin

text \<open>
  Evaluation of bound expressions (\<^verbatim>\<open>src/src/expression.rs\<close>): scalar and boolean expressions over a
  resolver of names, the arithmetic of every numeric type, the builtin functions, and the budget of
  collection predicates.  The case mappings of Unicode and the shortest decimal form of a float are
  arguments (\<open>text_functions\<close>); an exhausted allocator is not modelled.
\<close>

section \<open>The evaluation budget\<close>

definition MAX_COLLECTION_PREDICATE_EVALUATIONS :: nat where
  "MAX_COLLECTION_PREDICATE_EVALUATIONS = 100000"

type_synonym budget = nat

definition consume_collection_predicate :: "budget \<Rightarrow> budget result" where
  "consume_collection_predicate remaining = (if remaining = 0 then Err E_LIMIT else Ok (remaining - 1))"

section \<open>Text\<close>

record text_functions =
  to_lowercase :: "string \<Rightarrow> string"
  to_uppercase :: "string \<Rightarrow> string"
  float_debug :: "f64 \<Rightarrow> string"

text \<open>\<open>slice::windows\<close> with \<open>any\<close>, and \<open>str::contains\<close>: the empty needle is contained in everything.\<close>

definition contains_slice :: "'a list \<Rightarrow> 'a list \<Rightarrow> bool" where
  "contains_slice haystack needle \<longleftrightarrow>
     needle = [] \<or> list_ex (\<lambda>i. take (length needle) (drop i haystack) = needle) [0..<length haystack]"

definition starts_with :: "string \<Rightarrow> string \<Rightarrow> bool" where
  "starts_with source needle \<longleftrightarrow> take (length needle) source = needle"

definition ends_with :: "string \<Rightarrow> string \<Rightarrow> bool" where
  "ends_with source needle \<longleftrightarrow> length needle \<le> length source \<and> drop (length source - length needle) source = needle"

text \<open>The byte positions at which characters of a UTF-8 string start.\<close>

definition char_starts :: "string \<Rightarrow> nat list" where
  "char_starts s = filter (\<lambda>i. \<not> cont (byte_of (s ! i))) [0..<length s]"

definition char_count :: "string \<Rightarrow> nat" where
  "char_count s = length (char_starts s)"

text \<open>The UTF-8 encodings of the characters with the \<open>White_Space\<close> property.\<close>

definition white_space :: "u8 list list" where
  "white_space = map (\<lambda>b. [b]) [0x09, 0x0A, 0x0B, 0x0C, 0x0D, 0x20] @ [[0xC2, 0x85], [0xC2, 0xA0], [0xE1, 0x9A, 0x80]]
     @ map (\<lambda>b. [0xE2, 0x80, b]) [0x80, 0x81, 0x82, 0x83, 0x84, 0x85, 0x86, 0x87, 0x88, 0x89, 0x8A, 0xA8, 0xA9, 0xAF]
     @ [[0xE2, 0x81, 0x9F], [0xE3, 0x80, 0x80]]"

fun strip_front :: "nat \<Rightarrow> u8 list list \<Rightarrow> u8 list \<Rightarrow> u8 list" where
  "strip_front 0 ws bs = bs"
| "strip_front (Suc n) ws bs =
     (case find (\<lambda>w. take (length w) bs = w) ws of
        None \<Rightarrow> bs
      | Some w \<Rightarrow> strip_front n ws (drop (length w) bs))"

definition trim :: "string \<Rightarrow> string" where
  "trim s =
     (let bs = as_bytes s; front = strip_front (length bs) white_space bs
      in of_bytes (rev (strip_front (length front) (map rev white_space) (rev front))))"

definition substring_text :: "string \<Rightarrow> int \<Rightarrow> int \<Rightarrow> string result" where
  "substring_text source start end_pos =
     (if start < 0 \<or> end_pos < 0 \<or> start > end_pos then Err E_TEXT_RANGE
      else let positions = char_starts source @ [length source]
        in if nat end_pos < length positions
           then let from = positions ! nat start; selected = take (positions ! nat end_pos - from) (drop from source)
             in if length selected > MAX_VALUE_BYTES then Err E_LIMIT else Ok selected
           else Err E_TEXT_RANGE)"

definition concat_text :: "string \<Rightarrow> string \<Rightarrow> string result" where
  "concat_text source needle =
     (if length source + length needle \<le> MAX_VALUE_BYTES then Ok (source @ needle) else Err E_LIMIT)"

definition scalar_to_text :: "text_functions \<Rightarrow> value \<Rightarrow> string result" where
  "scalar_to_text tf v =
     (case unwrapped v of
        VText text \<Rightarrow> if length text \<le> MAX_VALUE_BYTES then Ok text else Err E_LIMIT
      | VBytes bytes \<Rightarrow> if length bytes * 2 \<le> MAX_VALUE_BYTES then Ok (bytes_display bytes) else Err E_LIMIT
      | VInt n \<Rightarrow> Ok (show_int n)
      | VBool b \<Rightarrow> Ok (if b then ''true'' else ''false'')
      | VFloat f \<Rightarrow> if is_finite f then Ok (float_debug tf (if f64_is_zero f then 0 else f)) else Err E_ARITH
      | VUuid u \<Rightarrow> Ok (uuid_display u)
      | VDate d \<Rightarrow> Ok (date_display d)
      | VTimestamp t \<Rightarrow> Ok (timestamp_display t)
      | VDuration d \<Rightarrow> Ok (duration_display d)
      | VDecimal d \<Rightarrow> Ok (decimal_display d)
      | _ \<Rightarrow> Err E_TYPE)"

section \<open>Arithmetic\<close>

definition checked_i64 :: "int \<Rightarrow> int option" where
  "checked_i64 x = (if in_i64 x then Some x else None)"

definition finite_float :: "f64 \<Rightarrow> value result" where
  "finite_float f = (if is_finite f then Ok (VFloat (if f64_is_zero f then 0 else f)) else Err E_ARITH)"

definition evaluate_arithmetic :: "value \<Rightarrow> arithmetic_op \<Rightarrow> value \<Rightarrow> value result" where
  "evaluate_arithmetic left op right =
     (case (unwrapped left, unwrapped right) of
        (VInt l, VInt r) \<Rightarrow>
          map_ok VInt (case op of
              Add \<Rightarrow> ok_or E_ARITH (checked_i64 (l + r))
            | Subtract \<Rightarrow> ok_or E_ARITH (checked_i64 (l - r))
            | Multiply \<Rightarrow> ok_or E_ARITH (checked_i64 (l * r))
            | Divide \<Rightarrow> if r = 0 then Err E_ARITH else ok_or E_ARITH (checked_i64 (rust_div l r)))
      | (VFloat l, VFloat r) \<Rightarrow>
          if op = Divide \<and> f64_is_zero r then Err E_ARITH
          else finite_float (case op of Add \<Rightarrow> f64_add l r | Subtract \<Rightarrow> f64_sub l r | Multiply \<Rightarrow> f64_mul l r | Divide \<Rightarrow> f64_div l r)
      | (VDecimal l, VDecimal r) \<Rightarrow>
          (case op of
             Add \<Rightarrow> map_ok VDecimal (decimal_checked_add l r)
           | Subtract \<Rightarrow> map_ok VDecimal (decimal_checked_sub l r)
           | _ \<Rightarrow> Err E_TYPE)
      | (VDuration l, VDuration r) \<Rightarrow>
          map_ok VDuration (ok_or E_ARITH
            (case op of Add \<Rightarrow> checked_i64 (l + r) | Subtract \<Rightarrow> checked_i64 (l - r) | _ \<Rightarrow> None))
      | (VTimestamp l, VDuration r) \<Rightarrow>
          and_then (ok_or E_ARITH
            (case op of Add \<Rightarrow> checked_i64 (l + r) | Subtract \<Rightarrow> checked_i64 (l - r) | _ \<Rightarrow> None)) (\<lambda>t.
            map_ok VTimestamp (timestamp_from_epoch_microseconds t))
      | (VTimestamp l, VTimestamp r) \<Rightarrow>
          if op = Subtract then map_ok VDuration (ok_or E_ARITH (checked_i64 (l - r))) else Err E_TYPE
      | _ \<Rightarrow> Err E_TYPE)"

definition evaluate_negate :: "value \<Rightarrow> value result" where
  "evaluate_negate v =
     (case unwrapped v of
        VInt n \<Rightarrow> map_ok VInt (ok_or E_ARITH (checked_i64 (- n)))
      | VFloat f \<Rightarrow> finite_float (f64_neg f)
      | VDuration d \<Rightarrow> map_ok VDuration (ok_or E_ARITH (checked_i64 (- d)))
      | VDecimal d \<Rightarrow> map_ok VDecimal (decimal_checked_neg d)
      | _ \<Rightarrow> Err E_TYPE)"

definition coerce_arithmetic_result :: "catalog \<Rightarrow> scalar_type option \<Rightarrow> value \<Rightarrow> value result" where
  "coerce_arithmetic_result c ty v =
     (case ty of
        None \<Rightarrow> Err E_TYPE
      | Some t \<Rightarrow>
          map_err (\<lambda>e. case t of TDecimal _ _ \<Rightarrow> if e = E_DECIMAL_RANGE then E_ARITH else e | _ \<Rightarrow> e) (coerce c v t))"

definition float_rounding :: "scalar_expression \<Rightarrow> decimal_rounding result" where
  "float_rounding e = (case e of Literal (VText t) \<Rightarrow> map_err (\<lambda>_. E_CAST_MODE) (rounding_from_str t) | _ \<Rightarrow> Err E_CAST_MODE)"

text \<open>
  The rounding functions of \<open>f64\<close> return integral floats without error, so they are integers here;
  \<open>u\<close> is the value 1 in the units of \<open>f64_scaled\<close>.
\<close>

definition float_to_integer :: "f64 \<Rightarrow> decimal_rounding \<Rightarrow> int result" where
  "float_to_integer f rounding =
     (if \<not> is_finite f then Err E_CAST_RANGE
      else let x = f64_scaled f; u = int f64_unit in
        and_then (case rounding of
            Exact \<Rightarrow> if x mod u \<noteq> 0 then Err E_CAST_PRECISION else Ok (x div u)
          | TowardZero \<Rightarrow> Ok (if x < 0 then - (- x div u) else x div u)
          | AwayFromZero \<Rightarrow> Ok (if x < 0 then x div u else - (- x div u))
          | Floor \<Rightarrow> Ok (x div u)
          | Ceil \<Rightarrow> Ok (- (- x div u))
          | HalfUp \<Rightarrow> Ok (if x < 0 then - ((- 2 * x + u) div (2 * u)) else (2 * x + u) div (2 * u))
          | HalfEven \<Rightarrow>
              Ok (let q = x div u; r = x mod u in if 2 * r > u \<or> (2 * r = u \<and> odd q) then q + 1 else q))
        (\<lambda>rounded. if - (2 ^ 63) \<le> rounded \<and> rounded < 2 ^ 63 then Ok rounded else Err E_CAST_RANGE))"

text \<open>\<open>int_to_float\<close>: the cast must be exact.\<close>

definition int_to_float :: "int \<Rightarrow> value result" where
  "int_to_float n = (let converted = i64_to_f64 n in if f64_to_i128 converted \<noteq> n then Err E_CAST_PRECISION else Ok (VFloat converted))"

definition decimal_target :: "scalar_expression \<Rightarrow> scalar_expression \<Rightarrow> (nat \<times> nat) result" where
  "decimal_target precision scl =
     (let literal = (\<lambda>e. case e of
            Literal (VInt n) \<Rightarrow> if 0 \<le> n \<and> n < 256 then Ok (nat n) else Err E_DECIMAL_TYPE
          | _ \<Rightarrow> Err E_DECIMAL_TYPE)
      in and_then (literal precision) (\<lambda>p. and_then (literal scl) (\<lambda>s.
           and_then (validate_decimal_type p s) (\<lambda>_. Ok (p, s)))))"

definition decimal_rounding_of :: "scalar_expression \<Rightarrow> decimal_rounding result" where
  "decimal_rounding_of e = (case e of Literal (VText t) \<Rightarrow> rounding_from_str t | _ \<Rightarrow> Err E_DECIMAL_ROUNDING)"

section \<open>Builtin functions\<close>

definition is_map_scalar_function :: "string \<Rightarrow> bool" where
  "is_map_scalar_function name \<longleftrightarrow> name \<in> {''contains_key'', ''get'', ''keys'', ''values'', ''entries''}"

definition is_text_predicate :: "string \<Rightarrow> bool" where
  "is_text_predicate name \<longleftrightarrow> name \<in> {''starts_with'', ''ends_with'', ''contains_text''}"

definition is_temporal_projection :: "string \<Rightarrow> bool" where
  "is_temporal_projection name \<longleftrightarrow> name \<in> {''date_of'', ''timestamp_trunc''}"

definition is_builtin_scalar_function :: "string \<Rightarrow> bool" where
  "is_builtin_scalar_function name \<longleftrightarrow>
     is_map_scalar_function name \<or> is_text_predicate name \<or> is_temporal_projection name \<or>
     name \<in> {''lower'', ''upper'', ''trim'', ''concat'', ''substring'', ''int_to_float'', ''float_to_int'',
       ''int_to_decimal'', ''to_text'', ''uuid_parse'', ''bytes_parse_hex'', ''date_parse'', ''timestamp_parse'',
       ''duration_parse'', ''decimal_parse'', ''decimal_rescale'', ''decimal_round'', ''decimal_mul'', ''decimal_div''}"

definition is_decimal_function :: "string \<Rightarrow> bool" where
  "is_decimal_function name \<longleftrightarrow>
     name \<in> {''int_to_decimal'', ''decimal_parse'', ''decimal_rescale'', ''decimal_round'', ''decimal_mul'', ''decimal_div''}"

definition temporal_function_arguments ::
  "string \<Rightarrow> scalar_expression list \<Rightarrow> (int \<times> timestamp_unit option) result" where
  "temporal_function_arguments name arguments =
     (let arity = (if name = ''date_of'' then 2 else 3)
      in if length arguments \<noteq> arity then Err E_TYPE
         else and_then (if name = ''timestamp_trunc''
             then (case arguments ! 1 of
                     Literal (VText u) \<Rightarrow> map_ok Some (ok_or E_TEMPORAL_UNIT (timestamp_unit_parse u))
                   | _ \<Rightarrow> Err E_TEMPORAL_UNIT)
             else Ok None) (\<lambda>unit_arg.
           case arguments ! (arity - 1) of
             Literal (VText offset) \<Rightarrow>
               and_then (map_err (\<lambda>_. E_TEMPORAL_OFFSET) (fixed_offset_seconds offset)) (\<lambda>offset. Ok (offset, unit_arg))
           | _ \<Rightarrow> Err E_TEMPORAL_OFFSET))"

text \<open>
  An evaluation takes the budget and returns a value, if there is one, and the remaining budget.  The
  arguments of a call are evaluated on demand; an index out of range panics.
\<close>

type_synonym evaluation = "budget \<Rightarrow> (value option \<times> budget) result"

definition call_argument :: "evaluation list \<Rightarrow> nat \<Rightarrow> evaluation" where
  "call_argument evs i = (if i < length evs then evs ! i else (\<lambda>_. Err PANIC))"

definition literal_argument :: "scalar_expression list \<Rightarrow> nat \<Rightarrow> scalar_expression result" where
  "literal_argument arguments i = (if i < length arguments then Ok (arguments ! i) else Err PANIC)"

text \<open>\<open>let Some(value) = evaluate_scalar(...)? else { return Ok(default) }\<close>\<close>

definition on_value :: "'a \<Rightarrow> (value option \<times> budget) result \<Rightarrow> (value \<Rightarrow> budget \<Rightarrow> ('a \<times> budget) result) \<Rightarrow> ('a \<times> budget) result" where
  "on_value absent r f = and_then r (\<lambda>(v, b). case v of None \<Rightarrow> Ok (absent, b) | Some x \<Rightarrow> f x b)"

abbreviation returns :: "value result \<Rightarrow> budget \<Rightarrow> (value option \<times> budget) result" where
  "returns r b \<equiv> and_then r (\<lambda>v. Ok (Some v, b))"

text \<open>One unit of the budget per entry listed.\<close>

definition list_entries :: "('a \<Rightarrow> value) \<Rightarrow> 'a list \<Rightarrow> budget \<Rightarrow> (value option \<times> budget) result" where
  "list_entries f xs b =
     and_then (try_fold (\<lambda>b _. consume_collection_predicate b) b xs) (\<lambda>b. Ok (Some (VList (map f xs)), b))"

definition map_function :: "string \<Rightarrow> evaluation list \<Rightarrow> evaluation" where
  "map_function name evs b =
     on_value None (call_argument evs 0 b) (\<lambda>m b.
       case unwrapped m of
         VMap entries \<Rightarrow>
           (let finish = (\<lambda>key b.
                  if name = ''contains_key'' then
                    (case key of None \<Rightarrow> Err PANIC | Some k \<Rightarrow> Ok (Some (VBool (bt_get entries k \<noteq> None)), b))
                  else if name = ''get'' then
                    (case key of None \<Rightarrow> Err PANIC | Some k \<Rightarrow> Ok (Some (VOption (bt_get entries k)), b))
                  else if name = ''keys'' then list_entries (\<lambda>(k, v). VText k) entries b
                  else if name = ''values'' then list_entries (\<lambda>(k, v). v) entries b
                  else if name = ''entries'' then list_entries (\<lambda>(k, v). VTuple [VText k, v]) entries b
                  else Err PANIC)
            in if length evs = 2
               then on_value None (call_argument evs 1 b) (\<lambda>k b.
                 case unwrapped k of VText key \<Rightarrow> finish (Some key) b | _ \<Rightarrow> Err E_TYPE)
               else finish None b)
       | _ \<Rightarrow> Err E_TYPE)"

definition decimal_function :: "string \<Rightarrow> scalar_expression list \<Rightarrow> evaluation list \<Rightarrow> evaluation" where
  "decimal_function name arguments evs b =
     (let binary = (name = ''decimal_mul'' \<or> name = ''decimal_div'');
          precision_index = (if binary then 2 else 1);
          scale_index = (if binary then 3 else 2)
      in and_then (literal_argument arguments precision_index) (\<lambda>p.
         and_then (literal_argument arguments scale_index) (\<lambda>s.
         and_then (decimal_target p s) (\<lambda>(precision, scl).
         on_value None (call_argument evs 0 b) (\<lambda>argument b.
           let left = unwrapped argument;
               finish = (\<lambda>right b.
                 and_then (if name \<in> {''decimal_round'', ''decimal_mul'', ''decimal_div''}
                           then map_ok Some (and_then (literal_argument arguments (scale_index + 1)) decimal_rounding_of)
                           else Ok None) (\<lambda>rounding.
                 let rounded = (\<lambda>f. case rounding of Some mode \<Rightarrow> f mode | None \<Rightarrow> Err PANIC) in
                 returns (map_ok VDecimal
                   (if name = ''int_to_decimal'' then
                      (case left of VInt n \<Rightarrow> and_then (decimal_new n 38 0) (\<lambda>d. decimal_rescale d precision scl) | _ \<Rightarrow> Err E_TYPE)
                    else if name = ''decimal_parse'' then
                      (case left of VText source \<Rightarrow> decimal_parse source precision scl | _ \<Rightarrow> Err E_TYPE)
                    else if name = ''decimal_rescale'' then
                      (case left of VDecimal d \<Rightarrow> decimal_rescale d precision scl | _ \<Rightarrow> Err E_TYPE)
                    else if name = ''decimal_round'' then
                      (case left of VDecimal d \<Rightarrow> rounded (rescale_with_rounding d precision scl) | _ \<Rightarrow> Err E_TYPE)
                    else if name = ''decimal_mul'' then
                      (case (left, right) of
                         (VDecimal d, Some (VDecimal r)) \<Rightarrow> rounded (checked_mul_to d r precision scl)
                       | _ \<Rightarrow> Err E_TYPE)
                    else if name = ''decimal_div'' then
                      (case (left, right) of
                         (VDecimal d, Some (VDecimal r)) \<Rightarrow> rounded (checked_div_to d r precision scl)
                       | _ \<Rightarrow> Err E_TYPE)
                    else Err E_TYPE)) b))
           in if binary then on_value None (call_argument evs 1 b) (\<lambda>right b. finish (Some (unwrapped right)) b)
              else finish None b)))))"

definition text_result :: "string \<Rightarrow> value result" where
  "text_result s = (if length s > MAX_VALUE_BYTES then Err E_LIMIT else Ok (VText s))"

definition text_function :: "text_functions \<Rightarrow> string \<Rightarrow> string \<Rightarrow> evaluation list \<Rightarrow> evaluation" where
  "text_function tf name source evs b =
     (if name = ''substring'' then
        on_value None (call_argument evs 1 b) (\<lambda>start b.
          case unwrapped start of
            VInt s \<Rightarrow>
              on_value None (call_argument evs 2 b) (\<lambda>end_pos b.
                case unwrapped end_pos of
                  VInt e \<Rightarrow> returns (map_ok VText (substring_text source s e)) b
                | _ \<Rightarrow> Err E_TYPE)
          | _ \<Rightarrow> Err E_TYPE)
      else if is_text_predicate name \<or> name = ''concat'' then
        on_value None (call_argument evs 1 b) (\<lambda>needle b.
          case unwrapped needle of
            VText n \<Rightarrow>
              if name = ''concat'' then returns (map_ok VText (concat_text source n)) b
              else returns (Ok (VBool
                (if name = ''starts_with'' then starts_with source n
                 else if name = ''ends_with'' then ends_with source n
                 else contains_slice source n))) b
          | _ \<Rightarrow> Err E_TYPE)
      else returns
        (if name = ''lower'' then text_result (to_lowercase tf source)
         else if name = ''upper'' then text_result (to_uppercase tf source)
         else if name = ''trim'' then text_result (trim source)
         else if name = ''uuid_parse'' then map_ok VUuid (uuid_from_str source)
         else if name = ''bytes_parse_hex'' then map_ok VBytes (bytes_from_str source)
         else if name = ''date_parse'' then map_ok VDate (date_from_str source)
         else if name = ''timestamp_parse'' then map_ok VTimestamp (timestamp_from_str source)
         else if name = ''duration_parse'' then map_ok VDuration (duration_from_str source)
         else Err PANIC) b)"

definition builtin_function ::
  "text_functions \<Rightarrow> string \<Rightarrow> scalar_expression list \<Rightarrow> evaluation list \<Rightarrow> evaluation" where
  "builtin_function tf name arguments evs b =
     (if is_decimal_function name then decimal_function name arguments evs b
      else if evs = [] then Err E_TYPE
      else on_value None (call_argument evs 0 b) (\<lambda>argument b.
        if name = ''to_text'' then returns (map_ok VText (scalar_to_text tf argument)) b
        else if is_temporal_projection name then
          (case unwrapped argument of
             VTimestamp t \<Rightarrow>
               and_then (temporal_function_arguments name arguments) (\<lambda>(offset, unit_arg).
                 returns (case unit_arg of
                     Some u \<Rightarrow> map_ok VTimestamp (truncate_at_offset t u offset)
                   | None \<Rightarrow> map_ok VDate (date_at_offset t offset)) b)
           | _ \<Rightarrow> Err E_TYPE)
        else if name = ''float_to_int'' then
          (case unwrapped argument of
             VFloat f \<Rightarrow>
               and_then (literal_argument arguments 1) (\<lambda>mode.
                 returns (map_ok VInt (and_then (float_rounding mode) (float_to_integer f))) b)
           | _ \<Rightarrow> Err E_TYPE)
        else if name = ''int_to_float'' then
          (case unwrapped argument of VInt n \<Rightarrow> returns (int_to_float n) b | _ \<Rightarrow> Err E_TYPE)
        else (case unwrapped argument of VText source \<Rightarrow> text_function tf name source evs b | _ \<Rightarrow> Err E_TYPE)))"

section \<open>Evaluation\<close>

definition length_of :: "value \<Rightarrow> nat option" where
  "length_of v =
     (case unwrapped v of
        VList vs \<Rightarrow> Some (length vs)
      | VMap entries \<Rightarrow> Some (length entries)
      | VText t \<Rightarrow> Some (char_count t)
      | VBytes bs \<Rightarrow> Some (length bs)
      | _ \<Rightarrow> None)"

fun evaluate_scalar :: "catalog \<Rightarrow> text_functions \<Rightarrow> (string \<Rightarrow> value option) \<Rightarrow> scalar_expression \<Rightarrow> evaluation" where
  "evaluate_scalar c tf values (Reference path) b = Ok (values path, b)"
| "evaluate_scalar c tf values (Parameter name ty) b = Err E_PARAM_MISSING"
| "evaluate_scalar c tf values (Literal v) b = Ok (Some v, b)"
| "evaluate_scalar c tf values (Ascribed e ty) b =
     on_value None (evaluate_scalar c tf values e b) (\<lambda>v b. returns (coerce c v ty) b)"
| "evaluate_scalar c tf values (Call name arguments sp) b =
     (let evs = map (\<lambda>e b. evaluate_scalar c tf values e b) arguments
      in if is_map_scalar_function name then map_function name evs b
         else if is_builtin_scalar_function name then builtin_function tf name arguments evs b
         else Err E_QUERY)"
| "evaluate_scalar c tf values (Length e) b =
     on_value None (evaluate_scalar c tf values e b) (\<lambda>v b.
       case length_of v of
         None \<Rightarrow> Ok (None, b)
       | Some n \<Rightarrow> returns (map_ok VInt (ok_or E_LIMIT (checked_i64 (int n)))) b)"
| "evaluate_scalar c tf values (Negate e ty) b =
     on_value None (evaluate_scalar c tf values e b) (\<lambda>v b.
       returns (and_then (evaluate_negate v) (coerce_arithmetic_result c ty)) b)"
| "evaluate_scalar c tf values (Arithmetic l op r ty) b =
     on_value None (evaluate_scalar c tf values l b) (\<lambda>left b.
     on_value None (evaluate_scalar c tf values r b) (\<lambda>right b.
       returns (and_then (evaluate_arithmetic left op right) (coerce_arithmetic_result c ty)) b))"

definition compare_values :: "catalog \<Rightarrow> value \<Rightarrow> cmp_op \<Rightarrow> value \<Rightarrow> scalar_type option \<Rightarrow> bool result" where
  "compare_values c left op right operand_type =
     (if op = Eq \<or> op = Ne then Ok (if op = Eq then cmp_eq left right else \<not> cmp_eq left right)
      else case operand_type of
        None \<Rightarrow> Err E_TYPE
      | Some ty \<Rightarrow>
          and_then (cmp_typed c ty left right) (\<lambda>order.
            Ok (case op of
                  Gt \<Rightarrow> order = Greater
                | Lt \<Rightarrow> order = Less
                | Gte \<Rightarrow> order \<noteq> Less
                | Lte \<Rightarrow> order \<noteq> Greater
                | _ \<Rightarrow> False)))"

text \<open>The resolver inside a collection predicate: the binding shadows the outer names.\<close>

definition scoped :: "string \<Rightarrow> value \<Rightarrow> (string \<Rightarrow> value option) \<Rightarrow> string \<Rightarrow> value option" where
  "scoped binding item outer path =
     (if path = binding then Some item
      else if starts_with path (binding @ ''.'') then value_field item (drop (length binding + 1) path)
      else outer path)"

fun membership_loop :: "value \<Rightarrow> value list \<Rightarrow> budget \<Rightarrow> (bool \<times> budget) result" where
  "membership_loop item [] b = Ok (False, b)"
| "membership_loop item (v # vs) b =
     and_then (consume_collection_predicate b) (\<lambda>b. if cmp_eq v item then Ok (True, b) else membership_loop item vs b)"

fun quantifier_loop ::
  "bool \<Rightarrow> (value \<Rightarrow> budget \<Rightarrow> (bool \<times> budget) result) \<Rightarrow> value list \<Rightarrow> budget \<Rightarrow> (bool \<times> budget) result" where
  "quantifier_loop all_q test [] b = Ok (all_q, b)"
| "quantifier_loop all_q test (v # vs) b =
     and_then (consume_collection_predicate b) (\<lambda>b.
     and_then (test v b) (\<lambda>(matched, b).
       if matched \<noteq> all_q then Ok (\<not> all_q, b) else quantifier_loop all_q test vs b))"

definition quantify ::
  "bool \<Rightarrow> (value option \<times> budget) result \<Rightarrow> (value \<Rightarrow> budget \<Rightarrow> (bool \<times> budget) result) \<Rightarrow> (bool \<times> budget) result" where
  "quantify all_q collection test =
     on_value False collection (\<lambda>v b.
       case unwrapped v of VList items \<Rightarrow> quantifier_loop all_q test items b | _ \<Rightarrow> Err E_TYPE)"

definition option_test :: "bool \<Rightarrow> (value option \<times> budget) result \<Rightarrow> (bool \<times> budget) result" where
  "option_test some r =
     on_value False r (\<lambda>v b.
       case unwrapped v of VOption x \<Rightarrow> Ok (if some then x \<noteq> None else x = None, b) | _ \<Rightarrow> Err E_TYPE)"

definition contains_item :: "value \<Rightarrow> value \<Rightarrow> bool" where
  "contains_item collection item =
     (case unwrapped collection of
        VList vs \<Rightarrow> list_ex (\<lambda>v. cmp_eq v item) vs
      | VBytes haystack \<Rightarrow> (case unwrapped item of VBytes needle \<Rightarrow> contains_slice haystack needle | _ \<Rightarrow> False)
      | _ \<Rightarrow> False)"

fun evaluate_resolved ::
  "catalog \<Rightarrow> text_functions \<Rightarrow> (string \<Rightarrow> value option) \<Rightarrow> bool_expression \<Rightarrow> budget \<Rightarrow> (bool \<times> budget) result" where
  "evaluate_resolved c tf values (BValue e) b =
     on_value False (evaluate_scalar c tf values e b) (\<lambda>v b. Ok (unwrapped v = VBool True, b))"
| "evaluate_resolved c tf values (BCompare l op r operand_type) b =
     on_value False (evaluate_scalar c tf values l b) (\<lambda>left b.
     on_value False (evaluate_scalar c tf values r b) (\<lambda>right b.
       and_then (compare_values c left op right operand_type) (\<lambda>res. Ok (res, b))))"
| "evaluate_resolved c tf values (BContains collection item) b =
     on_value False (evaluate_scalar c tf values collection b) (\<lambda>col b.
     on_value False (evaluate_scalar c tf values item b) (\<lambda>it b. Ok (contains_item col it, b)))"
| "evaluate_resolved c tf values (BMembership item collection negated) b =
     on_value False (evaluate_scalar c tf values item b) (\<lambda>it b.
     on_value False (evaluate_scalar c tf values collection b) (\<lambda>col b.
       case unwrapped col of
         VList items \<Rightarrow> and_then (membership_loop it items b) (\<lambda>(matched, b). Ok (if negated then \<not> matched else matched, b))
       | _ \<Rightarrow> Err E_TYPE))"
| "evaluate_resolved c tf values (BAny collection binding predicate) b =
     quantify False (evaluate_scalar c tf values collection b)
       (\<lambda>item b. evaluate_resolved c tf (scoped binding item values) predicate b)"
| "evaluate_resolved c tf values (BAll collection binding predicate) b =
     quantify True (evaluate_scalar c tf values collection b)
       (\<lambda>item b. evaluate_resolved c tf (scoped binding item values) predicate b)"
| "evaluate_resolved c tf values (BIsSome e) b = option_test True (evaluate_scalar c tf values e b)"
| "evaluate_resolved c tf values (BIsNone e) b = option_test False (evaluate_scalar c tf values e b)"
| "evaluate_resolved c tf values (BNot e) b =
     and_then (evaluate_resolved c tf values e b) (\<lambda>(r, b). Ok (\<not> r, b))"
| "evaluate_resolved c tf values (BAnd l r) b =
     and_then (evaluate_resolved c tf values l b) (\<lambda>(res, b). if \<not> res then Ok (False, b) else evaluate_resolved c tf values r b)"
| "evaluate_resolved c tf values (BOr l r) b =
     and_then (evaluate_resolved c tf values l b) (\<lambda>(res, b). if res then Ok (True, b) else evaluate_resolved c tf values r b)"

definition evaluate_scalar_value ::
  "catalog \<Rightarrow> text_functions \<Rightarrow> scalar_expression \<Rightarrow> (string \<Rightarrow> value option) \<Rightarrow> budget \<Rightarrow> (value \<times> budget) result" where
  "evaluate_scalar_value c tf e values b =
     and_then (evaluate_scalar c tf values e b) (\<lambda>(v, b). and_then (ok_or E_QUERY v) (\<lambda>v. Ok (v, b)))"

definition evaluate_value :: "catalog \<Rightarrow> text_functions \<Rightarrow> scalar_expression \<Rightarrow> (string \<Rightarrow> value option) \<Rightarrow> value result" where
  "evaluate_value c tf e values = map_ok fst (evaluate_scalar_value c tf e values MAX_COLLECTION_PREDICATE_EVALUATIONS)"

definition evaluate_derive ::
  "catalog \<Rightarrow> text_functions \<Rightarrow> bool_expression \<Rightarrow> (string \<Rightarrow> value option) \<Rightarrow> budget \<Rightarrow> (value \<times> budget) result" where
  "evaluate_derive c tf e values b =
     (case e of
        BValue v \<Rightarrow> evaluate_scalar_value c tf v values b
      | _ \<Rightarrow> map_ok (\<lambda>(r, b). (VBool r, b)) (evaluate_resolved c tf values e b))"

section \<open>Comparisons an index can serve\<close>

fun unwrapped_expression :: "scalar_expression \<Rightarrow> scalar_expression" where
  "unwrapped_expression (Ascribed e ty) = unwrapped_expression e"
| "unwrapped_expression e = e"

fun flip_comparison :: "cmp_op \<Rightarrow> cmp_op option" where
  "flip_comparison Eq = Some Eq"
| "flip_comparison Gt = Some Lt"
| "flip_comparison Gte = Some Lte"
| "flip_comparison Lt = Some Gt"
| "flip_comparison Lte = Some Gte"
| "flip_comparison Ne = None"

definition simple_index_comparison :: "bool_expression \<Rightarrow> (string \<times> cmp_op \<times> value) option" where
  "simple_index_comparison e =
     (case e of
        BCompare left op right _ \<Rightarrow>
          (case (unwrapped_expression left, unwrapped_expression right) of
             (Reference path, Literal v) \<Rightarrow> if op \<in> {Eq, Gt, Gte, Lt, Lte} then Some (path, op, v) else None
           | (Literal v, Reference path) \<Rightarrow> map_option (\<lambda>op. (path, op, v)) (flip_comparison op)
           | _ \<Rightarrow> None)
      | _ \<Rightarrow> None)"

end
