(* ===== verification/Binder.thy ===== *)
theory Binder
  imports Expression
begin

text \<open>
  Type checking of expressions (\<^verbatim>\<open>src/src/expression.rs\<close>): inference without a context, and binding
  against an expected type, which coerces literals and records the types that evaluation uses.  A
  function on \<open>&mut ScalarExpression\<close> returns the updated expression with its type.  Inference cannot
  fail on literals, so \<open>infer_literal\<close> returns an option.
\<close>

section \<open>Types of expressions\<close>

lemma size_zip_type: "(a, b) \<in> set (zip ts us) \<Longrightarrow> size a < Suc (size_list size ts)"
  using size_list_mem [of a ts size] by (auto dest: set_zip_leftD)

lemma size_zip_column: "(a, b) \<in> set (zip cols us) \<Longrightarrow> size (col_ty a) < Suc (size_list size cols)"
  using size_column [of a cols] by (auto dest: set_zip_leftD)

lemma size_zip_variant:
  "(a, b) \<in> set (zip vs us) \<Longrightarrow> (x, y) \<in> set (zip (vd_args a) us') \<Longrightarrow> size x < Suc (size_list size vs)"
  using size_variant [of a vs x] by (auto dest: set_zip_leftD)

function same_type :: "scalar_type \<Rightarrow> scalar_type \<Rightarrow> bool" where
  "same_type left right =
     (case (left, right) of
        (TInt, TInt) \<Rightarrow> True
      | (TFloat, TFloat) \<Rightarrow> True
      | (TBool, TBool) \<Rightarrow> True
      | (TText, TText) \<Rightarrow> True
      | (TUuid, TUuid) \<Rightarrow> True
      | (TDate, TDate) \<Rightarrow> True
      | (TTimestamp, TTimestamp) \<Rightarrow> True
      | (TDuration, TDuration) \<Rightarrow> True
      | (TBytes, TBytes) \<Rightarrow> True
      | (TDecimal a b, TDecimal c d) \<Rightarrow> a = c \<and> b = d
      | (TRef l, TRef r) \<Rightarrow> l = r
      | (TOption l, TOption r) \<Rightarrow> same_type l r
      | (TList l, TList r) \<Rightarrow> same_type l r
      | (TMap l, TMap r) \<Rightarrow> same_type l r
      | (TTuple l, TTuple r) \<Rightarrow> length l = length r \<and> list_all (\<lambda>(a, b). same_type a b) (zip l r)
      | (TRecord l, TRecord r) \<Rightarrow>
          length l = length r \<and> list_all (\<lambda>(a, b). col_name a = col_name b \<and> same_type (col_ty a) (col_ty b)) (zip l r)
      | (TEnum l, TEnum r) \<Rightarrow>
          length l = length r \<and>
          list_all (\<lambda>(a, b). vd_id a = vd_id b \<and> length (vd_args a) = length (vd_args b) \<and>
            list_all (\<lambda>(x, y). same_type x y) (zip (vd_args a) (vd_args b))) (zip l r)
      | _ \<Rightarrow> False)"
  by pat_completeness auto
termination
  by (relation "measure (\<lambda>(l, r). size l)") (auto dest: size_zip_type size_zip_column size_zip_variant)

declare same_type.simps [simp del]

fun infer_literal :: "value \<Rightarrow> scalar_type option" where
  "infer_literal (VInt _) = Some TInt"
| "infer_literal (VFloat _) = Some TFloat"
| "infer_literal (VBool _) = Some TBool"
| "infer_literal (VText _) = Some TText"
| "infer_literal (VUuid _) = Some TUuid"
| "infer_literal (VDate _) = Some TDate"
| "infer_literal (VTimestamp _) = Some TTimestamp"
| "infer_literal (VDuration _) = Some TDuration"
| "infer_literal (VBytes _) = Some TBytes"
| "infer_literal (VDecimal d) = Some (TDecimal (decimal_precision d) (scale d))"
| "infer_literal (VNamed i _) = Some (TRef i)"
| "infer_literal (VTuple vs) = map_option TTuple (those (map infer_literal vs))"
| "infer_literal (VList vs) =
     (case map infer_literal vs of
        [] \<Rightarrow> None
      | None # _ \<Rightarrow> None
      | Some first # rest \<Rightarrow>
          if list_all (\<lambda>ty. case ty of Some ty \<Rightarrow> same_type first ty | None \<Rightarrow> False) rest
          then Some (TList first) else None)"
| "infer_literal _ = None"

definition reference_type :: "catalog \<Rightarrow> column list \<Rightarrow> string \<Rightarrow> string \<Rightarrow> scalar_type result" where
  "reference_type c scope path kind =
     map_err (\<lambda>e. if kind = ''match binding'' \<and> e = E_FIELD then E_MATCH else e) (field_type c scope path)"

fun is_constant :: "scalar_expression \<Rightarrow> bool" where
  "is_constant (Literal _) = True"
| "is_constant (Parameter _ _) = True"
| "is_constant (Reference _) = False"
| "is_constant (Call name arguments _) = (is_builtin_scalar_function name \<and> list_all is_constant arguments)"
| "is_constant (Ascribed e _) = is_constant e"
| "is_constant (Length e) = is_constant e"
| "is_constant (Negate e _) = is_constant e"
| "is_constant (Arithmetic l _ r _) = (is_constant l \<and> is_constant r)"

definition require_numeric :: "catalog \<Rightarrow> scalar_type \<Rightarrow> unit result" where
  "require_numeric c ty =
     and_then (underlying c ty) (\<lambda>u. case u of TInt \<Rightarrow> Ok () | TFloat \<Rightarrow> Ok () | TDecimal _ _ \<Rightarrow> Ok () | _ \<Rightarrow> Err E_TYPE)"

definition require_negatable :: "catalog \<Rightarrow> scalar_type \<Rightarrow> unit result" where
  "require_negatable c ty =
     and_then (underlying c ty) (\<lambda>u.
       case u of TInt \<Rightarrow> Ok () | TFloat \<Rightarrow> Ok () | TDuration \<Rightarrow> Ok () | TDecimal _ _ \<Rightarrow> Ok () | _ \<Rightarrow> Err E_TYPE)"

definition require_bool :: "catalog \<Rightarrow> scalar_type \<Rightarrow> unit result" where
  "require_bool c ty = and_then (underlying c ty) (\<lambda>u. check (u = TBool) E_TYPE)"

definition require_timestamp_input :: "catalog \<Rightarrow> scalar_type \<Rightarrow> unit result" where
  "require_timestamp_input c ty = and_then (underlying c ty) (\<lambda>u. check (u = TTimestamp) E_TYPE)"

definition require_text_convertible :: "catalog \<Rightarrow> scalar_type \<Rightarrow> unit result" where
  "require_text_convertible c ty =
     and_then (underlying c ty) (\<lambda>u.
       case u of
         TInt \<Rightarrow> Ok () | TFloat \<Rightarrow> Ok () | TBool \<Rightarrow> Ok () | TText \<Rightarrow> Ok () | TUuid \<Rightarrow> Ok () | TDate \<Rightarrow> Ok ()
       | TTimestamp \<Rightarrow> Ok () | TDuration \<Rightarrow> Ok () | TDecimal _ _ \<Rightarrow> Ok () | TBytes \<Rightarrow> Ok ()
       | _ \<Rightarrow> Err E_TYPE)"

definition require_fresh_scalar_result :: "catalog \<Rightarrow> scalar_type \<Rightarrow> scalar_type option \<Rightarrow> unit result" where
  "require_fresh_scalar_result c actual expected =
     (case expected of
        None \<Rightarrow> Ok ()
      | Some ty \<Rightarrow> and_then (underlying c ty) (\<lambda>u. check (same_type actual u) E_TYPE))"

definition orderable :: "catalog \<Rightarrow> scalar_type \<Rightarrow> bool result" where
  "orderable c ty =
     (case ty of
        TRef i \<Rightarrow> and_then (definition_of c i) (\<lambda>_. Ok True)
      | TNamed _ \<Rightarrow> Ok False
      | _ \<Rightarrow> Ok True)"

definition underlying_option :: "catalog \<Rightarrow> scalar_type option \<Rightarrow> scalar_type option result" where
  "underlying_option c ty = (case ty of None \<Rightarrow> Ok None | Some t \<Rightarrow> map_ok Some (underlying c t))"

definition temporal_arithmetic_signature ::
  "catalog \<Rightarrow> scalar_type option \<Rightarrow> arithmetic_op \<Rightarrow> scalar_type option \<Rightarrow> scalar_type option \<Rightarrow>
     (scalar_type \<times> scalar_type \<times> scalar_type) option result" where
  "temporal_arithmetic_signature c left op right expected =
     and_then (underlying_option c left) (\<lambda>left_kind.
     and_then (underlying_option c right) (\<lambda>right_kind.
     and_then (underlying_option c expected) (\<lambda>expected_kind.
       let additive = (op = Add \<or> op = Subtract);
           durations = Some (TDuration, TDuration, TDuration);
           shifted = Some (TTimestamp, TDuration, TTimestamp);
           difference = Some (TTimestamp, TTimestamp, TDuration);
           signature =
             (if left_kind = Some TDuration \<and> additive \<and> right_kind = Some TDuration then durations
              else if left_kind = Some TTimestamp \<and> additive \<and> right_kind = Some TDuration then shifted
              else if left_kind = Some TTimestamp \<and> op = Subtract \<and> right_kind = Some TTimestamp then difference
              else if left_kind = Some TDuration \<and> additive \<and> right_kind = None then durations
              else if left_kind = None \<and> additive \<and> right_kind = Some TDuration \<and> expected_kind = Some TDuration then durations
              else if left_kind = Some TTimestamp \<and> additive \<and> right_kind = None \<and> expected_kind = Some TTimestamp then shifted
              else if left_kind = None \<and> op = Subtract \<and> right_kind = Some TTimestamp \<and> expected_kind = Some TDuration then difference
              else None)
       in if signature = None \<and>
             (left_kind \<in> {Some TTimestamp, Some TDuration} \<or> right_kind \<in> {Some TTimestamp, Some TDuration})
          then Err E_TYPE else Ok signature)))"

section \<open>Builtin signatures\<close>

definition temporal_result_type :: "string \<Rightarrow> scalar_type" where
  "temporal_result_type name = (if name = ''date_of'' then TDate else TTimestamp)"

definition builtin_scalar_arity :: "string \<Rightarrow> nat option" where
  "builtin_scalar_arity name =
     (if name \<in> {''contains_key'', ''get'', ''concat'', ''float_to_int'', ''date_of''} \<or> is_text_predicate name then Some 2
      else if name \<in> {''keys'', ''values'', ''entries''} then Some 1
      else if name \<in> {''int_to_decimal'', ''decimal_parse'', ''decimal_rescale'', ''substring'', ''timestamp_trunc''} then Some 3
      else if name = ''decimal_round'' then Some 4
      else if name \<in> {''decimal_mul'', ''decimal_div''} then Some 5
      else if is_builtin_scalar_function name then Some 1
      else None)"

definition map_scalar_result :: "string \<Rightarrow> scalar_type \<Rightarrow> scalar_type result" where
  "map_scalar_result name value_ty =
     (if name = ''contains_key'' then Ok TBool
      else if name = ''get'' then Ok (TOption value_ty)
      else if name = ''keys'' then Ok (TList TText)
      else if name = ''values'' then Ok (TList value_ty)
      else if name = ''entries'' then Ok (TList (TTuple [TText, value_ty]))
      else Err E_QUERY)"

definition builtin_scalar_result :: "string \<Rightarrow> scalar_type option" where
  "builtin_scalar_result name =
     (if name = ''int_to_float'' then Some TFloat
      else if name = ''float_to_int'' then Some TInt
      else if name \<in> {''starts_with'', ''ends_with'', ''contains_text''} then Some TBool
      else if name \<in> {''lower'', ''upper'', ''trim'', ''concat'', ''substring'', ''to_text''} then Some TText
      else if name = ''uuid_parse'' then Some TUuid
      else if name = ''bytes_parse_hex'' then Some TBytes
      else if name = ''date_parse'' then Some TDate
      else if name = ''timestamp_parse'' then Some TTimestamp
      else if name = ''duration_parse'' then Some TDuration
      else None)"

definition builtin_scalar_input_type :: "string \<Rightarrow> nat \<Rightarrow> scalar_type" where
  "builtin_scalar_input_type name position =
     (if name = ''float_to_int'' \<and> position = 0 then TFloat
      else if (name = ''substring'' \<and> position > 0) \<or> name = ''int_to_float'' then TInt
      else TText)"

definition decimal_target_type :: "scalar_expression \<Rightarrow> scalar_expression \<Rightarrow> scalar_type result" where
  "decimal_target_type precision scl = map_ok (\<lambda>(p, s). TDecimal p s) (decimal_target precision scl)"

definition is_decimal_type :: "scalar_type \<Rightarrow> bool" where
  "is_decimal_type ty = (case ty of TDecimal _ _ \<Rightarrow> True | _ \<Rightarrow> False)"

section \<open>Inference\<close>

text \<open>
  The arms of a call work on the list of the results its arguments infer to.  Indexing an argument
  list that is too short panics.
\<close>

type_synonym inferred = "scalar_type option result"

definition inferred_argument :: "inferred list \<Rightarrow> nat \<Rightarrow> inferred" where
  "inferred_argument infs i = (if i < length infs then infs ! i else Err PANIC)"

text \<open>\<open>if let Some(ty) = infer_scalar(...)? && !test(ty)? { return Err(E_TYPE) }\<close>\<close>

definition check_inferred :: "inferred \<Rightarrow> (scalar_type \<Rightarrow> bool result) \<Rightarrow> unit result" where
  "check_inferred ty test =
     and_then ty (\<lambda>ty. case ty of None \<Rightarrow> Ok () | Some ty \<Rightarrow> and_then (test ty) (\<lambda>ok. check ok E_TYPE))"

definition infer_map_call :: "catalog \<Rightarrow> string \<Rightarrow> inferred list \<Rightarrow> inferred" where
  "infer_map_call c name infs =
     and_then (ok_or PANIC (builtin_scalar_arity name)) (\<lambda>arity.
       if length infs \<noteq> arity then Err E_TYPE
       else and_then (inferred_argument infs 0) (\<lambda>m.
         case m of
           None \<Rightarrow>
             Ok (if name = ''contains_key'' then Some TBool
                 else if name = ''keys'' then Some (TList TText)
                 else None)
         | Some map_ty \<Rightarrow>
             and_then (underlying c map_ty) (\<lambda>u.
               case u of
                 TMap value_ty \<Rightarrow>
                   and_then (if arity = 2 then check_inferred (inferred_argument infs 1) (\<lambda>ty. Ok (same_type ty TText)) else Ok ()) (\<lambda>_.
                     map_ok Some (map_scalar_result name value_ty))
               | _ \<Rightarrow> Err E_TYPE)))"

definition infer_decimal_call :: "catalog \<Rightarrow> string \<Rightarrow> scalar_expression list \<Rightarrow> inferred list \<Rightarrow> inferred" where
  "infer_decimal_call c name arguments infs =
     and_then (ok_or PANIC (builtin_scalar_arity name)) (\<lambda>arity.
       if length arguments \<noteq> arity then Err E_TYPE
       else
         let binary = (name = ''decimal_mul'' \<or> name = ''decimal_div'');
             (precision_index, scale_index) = (if binary then (2, 3) else (1, 2))
         in and_then
              (if name = ''int_to_decimal'' then check_inferred (inferred_argument infs 0) (\<lambda>ty. Ok (same_type ty TInt))
               else if name \<noteq> ''decimal_parse'' then
                 try_fold (\<lambda>_ arg. check_inferred arg (\<lambda>ty. map_ok is_decimal_type (underlying c ty))) () (take (if binary then 2 else 1) infs)
               else Ok ()) (\<lambda>_.
            and_then
              (if name \<in> {''decimal_round'', ''decimal_mul'', ''decimal_div''}
               then and_then (literal_argument arguments (scale_index + 1)) (\<lambda>e. map_ok (\<lambda>_. ()) (decimal_rounding_of e))
               else Ok ()) (\<lambda>_.
            and_then (literal_argument arguments precision_index) (\<lambda>p.
            and_then (literal_argument arguments scale_index) (\<lambda>s. map_ok Some (decimal_target_type p s))))))"

definition infer_builtin_call :: "string \<Rightarrow> scalar_expression list \<Rightarrow> inferred list \<Rightarrow> inferred" where
  "infer_builtin_call name arguments infs =
     and_then (ok_or PANIC (builtin_scalar_arity name)) (\<lambda>arity.
       if length arguments \<noteq> arity then Err E_TYPE
       else and_then
              (if name = ''float_to_int'' then and_then (literal_argument arguments 1) (\<lambda>e. map_ok (\<lambda>_. ()) (float_rounding e))
               else Ok ()) (\<lambda>_.
            and_then
              (try_fold (\<lambda>_ (position, arg).
                 check_inferred arg (\<lambda>ty. Ok (same_type ty (builtin_scalar_input_type name position)))) () (zip [0..<length infs] infs)) (\<lambda>_.
              Ok (builtin_scalar_result name))))"

definition infer_call :: "catalog \<Rightarrow> string \<Rightarrow> scalar_expression list \<Rightarrow> inferred list \<Rightarrow> inferred" where
  "infer_call c name arguments infs =
     (if is_map_scalar_function name then infer_map_call c name infs
      else if is_temporal_projection name then
        and_then (temporal_function_arguments name arguments) (\<lambda>_.
        and_then (inferred_argument infs 0) (\<lambda>input.
        and_then (case input of Some ty \<Rightarrow> require_timestamp_input c ty | None \<Rightarrow> Ok ()) (\<lambda>_.
          Ok (Some (temporal_result_type name)))))
      else if name = ''to_text'' then
        (if length arguments \<noteq> 1 then Err E_TYPE
         else and_then (inferred_argument infs 0) (\<lambda>input.
              and_then (case input of Some ty \<Rightarrow> require_text_convertible c ty | None \<Rightarrow> Ok ()) (\<lambda>_. Ok (Some TText))))
      else if is_builtin_scalar_function name then
        (if is_decimal_function name then infer_decimal_call c name arguments infs
         else infer_builtin_call name arguments infs)
      else Err E_QUERY)"

definition has_length :: "scalar_type \<Rightarrow> bool" where
  "has_length ty = (case ty of TList _ \<Rightarrow> True | TMap _ \<Rightarrow> True | TText \<Rightarrow> True | TBytes \<Rightarrow> True | _ \<Rightarrow> False)"

text \<open>
  \<open>infer_arithmetic_type\<close> infers both operands again; here it takes the types its caller has inferred.
\<close>

definition infer_arithmetic_type ::
  "catalog \<Rightarrow> scalar_expression \<Rightarrow> arithmetic_op \<Rightarrow> scalar_expression \<Rightarrow> scalar_type option \<Rightarrow> scalar_type option \<Rightarrow> inferred" where
  "infer_arithmetic_type c left op right left_ty right_ty =
     and_then
       (case (left_ty, right_ty) of
          (Some l, Some r) \<Rightarrow>
            if same_type l r then Ok (Some l)
            else if is_constant left then Ok (Some r)
            else if is_constant right then Ok (Some l)
            else Err E_TYPE
        | (Some l, None) \<Rightarrow> Ok (Some l)
        | (None, Some r) \<Rightarrow> Ok (Some r)
        | (None, None) \<Rightarrow> Ok None) (\<lambda>result.
     and_then
       (case result of
          None \<Rightarrow> Ok ()
        | Some ty \<Rightarrow>
            and_then
              (if op = Multiply \<or> op = Divide
               then and_then (underlying c ty) (\<lambda>u. check (\<not> (u = TDuration \<or> is_decimal_type u)) E_TYPE)
               else Ok ()) (\<lambda>_. require_numeric c ty)) (\<lambda>_. Ok result))"

fun infer_scalar :: "catalog \<Rightarrow> column list \<Rightarrow> string \<Rightarrow> scalar_expression \<Rightarrow> inferred" where
  "infer_scalar c scope kind (Reference path) = map_ok Some (reference_type c scope path kind)"
| "infer_scalar c scope kind (Parameter _ ty) = Ok ty"
| "infer_scalar c scope kind (Literal v) = Ok (infer_literal v)"
| "infer_scalar c scope kind (Ascribed _ ty) = Ok (Some ty)"
| "infer_scalar c scope kind (Call name arguments _) =
     infer_call c name arguments (map (\<lambda>e. infer_scalar c scope kind e) arguments)"
| "infer_scalar c scope kind (Length e) =
     and_then (check_inferred (infer_scalar c scope kind e) (\<lambda>ty. map_ok has_length (underlying c ty))) (\<lambda>_. Ok (Some TInt))"
| "infer_scalar c scope kind (Negate e _) =
     and_then (infer_scalar c scope kind e) (\<lambda>ty.
     and_then (case ty of Some ty \<Rightarrow> require_negatable c ty | None \<Rightarrow> Ok ()) (\<lambda>_. Ok ty))"
| "infer_scalar c scope kind (Arithmetic left op right _) =
     and_then (infer_scalar c scope kind left) (\<lambda>left_ty.
     and_then (infer_scalar c scope kind right) (\<lambda>right_ty.
     and_then (temporal_arithmetic_signature c left_ty op right_ty None) (\<lambda>signature.
       case signature of
         Some (_, _, result) \<Rightarrow> Ok (Some result)
       | None \<Rightarrow> infer_arithmetic_type c left op right left_ty right_ty)))"

section \<open>Binding\<close>

text \<open>The final check of \<open>bind_scalar\<close> against the expected type.\<close>

definition meets_expected :: "scalar_type option \<Rightarrow> scalar_expression \<times> scalar_type \<Rightarrow> (scalar_expression \<times> scalar_type) result" where
  "meets_expected expected r =
     (case expected of
        Some ty \<Rightarrow> if same_type (snd r) ty then Ok r else Err E_TYPE
      | None \<Rightarrow> Ok r)"

text \<open>Binding one argument of a call in place.\<close>

type_synonym argument_binder = "scalar_type option \<Rightarrow> (scalar_expression \<times> scalar_type) result"

definition bind_argument :: "argument_binder list \<Rightarrow> nat \<Rightarrow> scalar_type \<Rightarrow> scalar_expression list \<Rightarrow> scalar_expression list result" where
  "bind_argument binders i ty arguments =
     (if i < length binders then map_ok (\<lambda>(e, _). arguments[i := e]) ((binders ! i) (Some ty)) else Err PANIC)"

definition bind_map_call ::
  "catalog \<Rightarrow> string \<Rightarrow> scalar_expression list \<Rightarrow> inferred list \<Rightarrow> argument_binder list \<Rightarrow> (scalar_expression list \<times> scalar_type) result" where
  "bind_map_call c name arguments infs binders =
     and_then (ok_or PANIC (builtin_scalar_arity name)) (\<lambda>arity.
       if length arguments \<noteq> arity then Err E_TYPE
       else and_then (inferred_argument infs 0) (\<lambda>m.
            and_then (ok_or E_TYPE m) (\<lambda>map_ty.
            and_then (underlying c map_ty) (\<lambda>u.
              case u of
                TMap value_ty \<Rightarrow>
                  and_then (bind_argument binders 0 map_ty arguments) (\<lambda>arguments.
                  and_then (if arity = 2 then bind_argument binders 1 TText arguments else Ok arguments) (\<lambda>arguments.
                    map_ok (Pair arguments) (map_scalar_result name value_ty)))
              | _ \<Rightarrow> Err E_TYPE))))"

definition bind_decimal_call ::
  "catalog \<Rightarrow> string \<Rightarrow> scalar_expression list \<Rightarrow> inferred list \<Rightarrow> argument_binder list \<Rightarrow> (scalar_expression list \<times> scalar_type) result" where
  "bind_decimal_call c name arguments infs binders =
     and_then (ok_or PANIC (builtin_scalar_arity name)) (\<lambda>arity.
       if length arguments \<noteq> arity then Err E_TYPE
       else
         let binary = (name = ''decimal_mul'' \<or> name = ''decimal_div'');
             (precision_index, scale_index) = (if binary then (2, 3) else (1, 2))
         in and_then (literal_argument arguments precision_index) (\<lambda>p.
            and_then (literal_argument arguments scale_index) (\<lambda>s.
            and_then (decimal_target_type p s) (\<lambda>target.
            and_then
              (if name \<in> {''decimal_round'', ''decimal_mul'', ''decimal_div''}
               then and_then (literal_argument arguments (scale_index + 1)) (\<lambda>e. map_ok (\<lambda>_. ()) (decimal_rounding_of e))
               else Ok ()) (\<lambda>_.
            and_then
              (if name = ''int_to_decimal'' then Ok TInt
               else if name = ''decimal_parse'' then Ok TText
               else and_then (inferred_argument infs 0) (ok_or E_TYPE)) (\<lambda>input.
            and_then
              (if name \<noteq> ''decimal_parse'' \<and> name \<noteq> ''int_to_decimal''
               then and_then (underlying c input) (\<lambda>u. check (is_decimal_type u) E_TYPE) else Ok ()) (\<lambda>_.
            and_then (bind_argument binders 0 input arguments) (\<lambda>arguments.
            and_then
              (if binary
               then and_then (inferred_argument infs 1) (\<lambda>r.
                    and_then (ok_or E_TYPE r) (\<lambda>right.
                    and_then (underlying c right) (\<lambda>u.
                    and_then (check (is_decimal_type u) E_TYPE) (\<lambda>_. bind_argument binders 1 right arguments))))
               else Ok arguments) (\<lambda>arguments. Ok (arguments, target))))))))))"

definition bind_builtin_call ::
  "string \<Rightarrow> scalar_expression list \<Rightarrow> argument_binder list \<Rightarrow> (scalar_expression list \<times> scalar_type) result" where
  "bind_builtin_call name arguments binders =
     and_then (ok_or PANIC (builtin_scalar_arity name)) (\<lambda>arity.
       if length arguments \<noteq> arity then Err E_TYPE
       else and_then
              (if name = ''float_to_int'' then and_then (literal_argument arguments 1) (\<lambda>e. map_ok (\<lambda>_. ()) (float_rounding e))
               else Ok ()) (\<lambda>_.
            and_then (traverse (\<lambda>(position, binder). map_ok fst (binder (Some (builtin_scalar_input_type name position))))
                        (zip [0..<length binders] binders)) (\<lambda>arguments.
              map_ok (Pair arguments) (ok_or PANIC (builtin_scalar_result name)))))"

fun bind_scalar ::
  "catalog \<Rightarrow> column list \<Rightarrow> string \<Rightarrow> scalar_expression \<Rightarrow> scalar_type option \<Rightarrow> (scalar_expression \<times> scalar_type) result" where
  "bind_scalar c scope kind (Reference path) expected =
     and_then (reference_type c scope path kind) (\<lambda>ty. meets_expected expected (Reference path, ty))"
| "bind_scalar c scope kind (Parameter name ty) expected =
     (case (case expected of Some t \<Rightarrow> Some t | None \<Rightarrow> ty) of
        Some t \<Rightarrow> meets_expected expected (Parameter name (Some t), t)
      | None \<Rightarrow> Err E_TYPE)"
| "bind_scalar c scope kind (Literal v) expected =
     and_then
       (case expected of
          Some t \<Rightarrow> map_ok (\<lambda>v. (Literal v, t)) (coerce c v t)
        | None \<Rightarrow> map_ok (Pair (Literal v)) (ok_or E_TYPE (infer_literal v))) (meets_expected expected)"
| "bind_scalar c scope kind (Ascribed e ty) expected =
     and_then (bind_scalar c scope kind e (Some ty)) (\<lambda>(e, _). meets_expected expected (Ascribed e ty, ty))"
| "bind_scalar c scope kind (Call name arguments sp) expected =
     (let infs = map (\<lambda>e. infer_scalar c scope kind e) arguments;
          binders = map (\<lambda>e ex. bind_scalar c scope kind e ex) arguments
      in if is_map_scalar_function name then
           and_then (bind_map_call c name arguments infs binders) (\<lambda>(arguments, ty).
             meets_expected expected (Call name arguments sp, ty))
         else if is_temporal_projection name then
           and_then (temporal_function_arguments name arguments) (\<lambda>_.
           and_then (inferred_argument infs 0) (\<lambda>known.
             let input = (case known of Some ty \<Rightarrow> ty | None \<Rightarrow> TTimestamp)
             in and_then (require_timestamp_input c input) (\<lambda>_.
                and_then (bind_argument binders 0 input arguments) (\<lambda>arguments.
                and_then (require_fresh_scalar_result c (temporal_result_type name) expected) (\<lambda>_.
                  Ok (Call name arguments sp, temporal_result_type name))))))
         else if name = ''to_text'' then
           (if length arguments \<noteq> 1 then Err E_TYPE
            else and_then (inferred_argument infs 0) (\<lambda>known.
                 and_then (ok_or E_TYPE known) (\<lambda>input.
                 and_then (require_text_convertible c input) (\<lambda>_.
                 and_then (bind_argument binders 0 input arguments) (\<lambda>arguments.
                   meets_expected expected (Call name arguments sp, TText))))))
         else if is_builtin_scalar_function name then
           (if is_decimal_function name then
              and_then (bind_decimal_call c name arguments infs binders) (\<lambda>(arguments, target).
              and_then (require_fresh_scalar_result c target expected) (\<lambda>_. Ok (Call name arguments sp, target)))
            else
              and_then (bind_builtin_call name arguments binders) (\<lambda>(arguments, ty).
                meets_expected expected (Call name arguments sp, ty)))
         else Err E_QUERY)"
| "bind_scalar c scope kind (Length e) expected =
     and_then (bind_scalar c scope kind e None) (\<lambda>(e, ty).
     and_then (underlying c ty) (\<lambda>u.
     and_then (check (has_length u) E_TYPE) (\<lambda>_. meets_expected expected (Length e, TInt))))"
| "bind_scalar c scope kind (Negate e _) expected =
     and_then (infer_scalar c scope kind e) (\<lambda>inferred.
     and_then (ok_or E_TYPE (case expected of Some t \<Rightarrow> Some t | None \<Rightarrow> inferred)) (\<lambda>result.
     and_then (require_negatable c result) (\<lambda>_.
     and_then (bind_scalar c scope kind e (Some result)) (\<lambda>(e, _).
       meets_expected expected (Negate e (Some result), result)))))"
| "bind_scalar c scope kind (Arithmetic left op right _) expected =
     and_then (infer_scalar c scope kind left) (\<lambda>left_inferred.
     and_then (infer_scalar c scope kind right) (\<lambda>right_inferred.
     and_then (temporal_arithmetic_signature c left_inferred op right_inferred expected) (\<lambda>signature.
       case signature of
         Some (left_ty, right_ty, result) \<Rightarrow>
           and_then (bind_scalar c scope kind left (Some left_ty)) (\<lambda>(left, _).
           and_then (bind_scalar c scope kind right (Some right_ty)) (\<lambda>(right, _).
           and_then (require_fresh_scalar_result c result expected) (\<lambda>_.
             Ok (Arithmetic left op right (Some result), result))))
       | None \<Rightarrow>
           and_then (infer_arithmetic_type c left op right left_inferred right_inferred) (\<lambda>inferred.
           and_then (ok_or E_TYPE (case expected of Some t \<Rightarrow> Some t | None \<Rightarrow> inferred)) (\<lambda>result.
           and_then (require_numeric c result) (\<lambda>_.
           and_then (bind_scalar c scope kind left (Some result)) (\<lambda>(left, _).
           and_then (bind_scalar c scope kind right (Some result)) (\<lambda>(right, _).
             meets_expected expected (Arithmetic left op right (Some result), result)))))))))"

section \<open>Conditions\<close>

definition orderable_for :: "catalog \<Rightarrow> cmp_op \<Rightarrow> scalar_type \<Rightarrow> unit result" where
  "orderable_for c op ty =
     (if op = Eq \<or> op = Ne then Ok () else and_then (orderable c ty) (\<lambda>ok. check ok E_TYPE))"

definition option_or :: "'a option \<Rightarrow> 'a option \<Rightarrow> 'a option" where
  "option_or x y = (case x of None \<Rightarrow> y | Some _ \<Rightarrow> x)"

text \<open>The element type that \<open>contains\<close> expects of a collection, and the one of a list.\<close>

definition contained_type :: "catalog \<Rightarrow> scalar_type \<Rightarrow> scalar_type result" where
  "contained_type c collection_ty =
     and_then (underlying c collection_ty) (\<lambda>u. case u of TList t \<Rightarrow> Ok t | TBytes \<Rightarrow> Ok TBytes | _ \<Rightarrow> Err E_TYPE)"

definition element_type :: "catalog \<Rightarrow> scalar_type \<Rightarrow> scalar_type result" where
  "element_type c collection_ty =
     and_then (underlying c collection_ty) (\<lambda>u. case u of TList t \<Rightarrow> Ok t | _ \<Rightarrow> Err E_TYPE)"

text \<open>A collection that takes its type from the item: a literal, or a parameter without a type.\<close>

definition contextual_collection :: "scalar_expression \<Rightarrow> bool" where
  "contextual_collection e \<longleftrightarrow> (case e of Literal _ \<Rightarrow> True | Parameter _ ty \<Rightarrow> ty = None | _ \<Rightarrow> False)"

fun bind_in_scope :: "catalog \<Rightarrow> column list \<Rightarrow> string \<Rightarrow> bool_expression \<Rightarrow> bool_expression result" where
  "bind_in_scope c scope kind (BValue e) =
     and_then (bind_scalar c scope kind e None) (\<lambda>(e, ty). map_ok (\<lambda>_. BValue e) (require_bool c ty))"
| "bind_in_scope c scope kind (BCompare left op right _) =
     and_then (infer_scalar c scope kind left) (\<lambda>inferred_left.
     and_then (infer_scalar c scope kind right) (\<lambda>inferred_right.
     and_then (ok_or E_TYPE
        (if is_constant left then option_or inferred_right inferred_left else option_or inferred_left inferred_right)) (\<lambda>expected.
     and_then (bind_scalar c scope kind left (Some expected)) (\<lambda>(left, left_ty).
     and_then (bind_scalar c scope kind right (Some expected)) (\<lambda>(right, right_ty).
     and_then (check (same_type left_ty right_ty) E_TYPE) (\<lambda>_.
     and_then (orderable_for c op left_ty) (\<lambda>_.
       Ok (BCompare left op right (Some left_ty)))))))))"
| "bind_in_scope c scope kind (BContains collection item) =
     and_then (infer_scalar c scope kind collection) (\<lambda>inferred_collection.
     and_then
       (case inferred_collection of
          Some collection_ty \<Rightarrow> map_ok (Pair collection_ty) (contained_type c collection_ty)
        | None \<Rightarrow>
            and_then (infer_scalar c scope kind item) (\<lambda>inferred_item.
            and_then (ok_or E_TYPE inferred_item) (\<lambda>item_ty. Ok (TList item_ty, item_ty)))) (\<lambda>(collection_ty, item_ty).
     and_then (bind_scalar c scope kind collection (Some collection_ty)) (\<lambda>(collection, _).
     and_then (bind_scalar c scope kind item (Some item_ty)) (\<lambda>(item, _). Ok (BContains collection item)))))"
| "bind_in_scope c scope kind (BMembership item collection negated) =
     and_then (infer_scalar c scope kind item) (\<lambda>inferred_item.
     and_then (infer_scalar c scope kind collection) (\<lambda>inferred_collection.
     and_then
       (case inferred_collection of
          Some collection_ty \<Rightarrow> map_ok Some (element_type c collection_ty)
        | None \<Rightarrow> Ok None) (\<lambda>collection_item_ty.
     and_then (ok_or E_TYPE
       (if contextual_collection collection then option_or inferred_item collection_item_ty
        else option_or collection_item_ty inferred_item)) (\<lambda>item_ty.
     and_then
       (if contextual_collection collection then Ok (TList item_ty) else ok_or PANIC inferred_collection) (\<lambda>collection_ty.
     and_then (bind_scalar c scope kind item (Some item_ty)) (\<lambda>(item, _).
     and_then (bind_scalar c scope kind collection (Some collection_ty)) (\<lambda>(collection, _).
       Ok (BMembership item collection negated))))))))"
| "bind_in_scope c scope kind (BAny collection binding predicate) =
     and_then (bind_scalar c scope kind collection None) (\<lambda>(collection, collection_ty).
     and_then (element_type c collection_ty) (\<lambda>item_ty.
     and_then (bind_in_scope c (Column binding item_ty None 0 # scope) ''list predicate binding'' predicate) (\<lambda>predicate.
       Ok (BAny collection binding predicate))))"
| "bind_in_scope c scope kind (BAll collection binding predicate) =
     and_then (bind_scalar c scope kind collection None) (\<lambda>(collection, collection_ty).
     and_then (element_type c collection_ty) (\<lambda>item_ty.
     and_then (bind_in_scope c (Column binding item_ty None 0 # scope) ''list predicate binding'' predicate) (\<lambda>predicate.
       Ok (BAll collection binding predicate))))"
| "bind_in_scope c scope kind (BIsSome e) =
     and_then (bind_scalar c scope kind e None) (\<lambda>(e, ty).
     and_then (underlying c ty) (\<lambda>u. case u of TOption _ \<Rightarrow> Ok (BIsSome e) | _ \<Rightarrow> Err E_TYPE))"
| "bind_in_scope c scope kind (BIsNone e) =
     and_then (bind_scalar c scope kind e None) (\<lambda>(e, ty).
     and_then (underlying c ty) (\<lambda>u. case u of TOption _ \<Rightarrow> Ok (BIsNone e) | _ \<Rightarrow> Err E_TYPE))"
| "bind_in_scope c scope kind (BNot e) = map_ok BNot (bind_in_scope c scope kind e)"
| "bind_in_scope c scope kind (BAnd l r) =
     and_then (bind_in_scope c scope kind l) (\<lambda>l. map_ok (BAnd l) (bind_in_scope c scope kind r))"
| "bind_in_scope c scope kind (BOr l r) =
     and_then (bind_in_scope c scope kind l) (\<lambda>l. map_ok (BOr l) (bind_in_scope c scope kind r))"

text \<open>\<open>bind\<close> and \<open>bind_match\<close>, \<open>bind_derive\<close>, \<open>infer_value_expression\<close> and \<open>bind_value_expression\<close>.\<close>

definition bind_filter :: "catalog \<Rightarrow> column list \<Rightarrow> bool_expression \<Rightarrow> bool_expression result" where
  "bind_filter c scope e = bind_in_scope c scope ''field'' e"

definition bind_match :: "catalog \<Rightarrow> column list \<Rightarrow> bool_expression \<Rightarrow> bool_expression result" where
  "bind_match c scope e = bind_in_scope c scope ''match binding'' e"

definition bind_derive :: "catalog \<Rightarrow> column list \<Rightarrow> bool_expression \<Rightarrow> (bool_expression \<times> scalar_type) result" where
  "bind_derive c scope e =
     (case e of
        BValue v \<Rightarrow> map_ok (\<lambda>(v, ty). (BValue v, ty)) (bind_scalar c scope ''field'' v None)
      | _ \<Rightarrow> map_ok (\<lambda>e. (e, TBool)) (bind_in_scope c scope ''field'' e))"

definition infer_value_expression :: "catalog \<Rightarrow> column list \<Rightarrow> bool_expression \<Rightarrow> string \<Rightarrow> inferred" where
  "infer_value_expression c scope e kind =
     (case e of BValue v \<Rightarrow> infer_scalar c scope kind v | _ \<Rightarrow> Ok (Some TBool))"

definition bind_value_expression ::
  "catalog \<Rightarrow> column list \<Rightarrow> bool_expression \<Rightarrow> scalar_type \<Rightarrow> string \<Rightarrow> bool_expression result" where
  "bind_value_expression c scope e expected kind =
     (case e of
        BValue v \<Rightarrow> map_ok (\<lambda>(v, _). BValue v) (bind_scalar c scope kind v (Some expected))
      | _ \<Rightarrow> and_then (require_bool c expected) (\<lambda>_. bind_in_scope c scope kind e))"

end
