(* ===== verification/Utf8.thy ===== *)
theory Utf8
  imports Expression
begin

text \<open>
  Characters of UTF-8 text: valid text is a sequence of encoded characters, and the text builtins of
  \<^verbatim>\<open>src/src/expression.rs\<close> (\<open>substring\<close>, \<open>trim\<close>, \<open>concat\<close>, \<open>length\<close>) act on that sequence, so they return
  valid text.
\<close>

section \<open>Characters\<close>

definition utf8_char :: "u8 list \<Rightarrow> bool" where
  "utf8_char ch \<longleftrightarrow> utf8_valid ch \<and> ch \<noteq> [] \<and> \<not> cont (hd ch) \<and> list_all cont (tl ch)"

lemma utf8_hd: "utf8_valid (b # bs) \<Longrightarrow> \<not> cont b"
  by (auto simp: cont_def word_le_nat_alt word_less_nat_alt split: if_splits)

lemma utf8_append_iff: "utf8_valid xs \<Longrightarrow> utf8_valid (xs @ ys) \<longleftrightarrow> utf8_valid ys"
proof (induction "length xs" arbitrary: xs rule: less_induct)
  case less
  show ?case
  proof (cases xs)
    case (Cons a bs)
    have IH: "utf8_valid (r @ ys) \<longleftrightarrow> utf8_valid ys" if "utf8_valid r" "length r < length xs" for r
      using less.hyps that by blast
    have v: "utf8_valid (a # bs)" using less.prems Cons by simp
    note eqs = utf8_valid.simps(2) [of a] append_Cons
    show ?thesis unfolding Cons
    proof (cases "a < 0x80")
      case True
      then show "utf8_valid ((a # bs) @ ys) \<longleftrightarrow> utf8_valid ys" using v IH Cons by simp
    next
      case ge: False
      note eqs = eqs if_not_P [OF ge]
      show "utf8_valid ((a # bs) @ ys) \<longleftrightarrow> utf8_valid ys"
      proof (cases "0xC2 \<le> a \<and> a \<le> 0xDF")
        case True
        note eqs = eqs if_P [OF True]
        from v obtain b r where r: "bs = b # r" unfolding eqs by (auto split: list.splits)
        from v IH [of r] show ?thesis unfolding eqs r list.case by (simp add: Cons r)
      next
        case two: False
        show ?thesis
        proof (cases "0xE0 \<le> a \<and> a \<le> 0xEF")
          case True
          note eqs = eqs if_not_P [OF two] if_P [OF True]
          from v obtain b d r where r: "bs = b # d # r" unfolding eqs by (auto split: list.splits)
          from v IH [of r] show ?thesis unfolding eqs r list.case by (simp add: Cons r)
        next
          case three: False
          note eqs = eqs if_not_P [OF two] if_not_P [OF three]
          have "0xF0 \<le> a \<and> a \<le> 0xF4" using v unfolding eqs by (simp split: if_splits)
          note eqs = eqs if_P [OF this]
          from v obtain b d e r where r: "bs = b # d # e # r" unfolding eqs by (auto split: list.splits)
          from v IH [of r] show ?thesis unfolding eqs r list.case by (simp add: Cons r)
        qed
      qed
    qed
  qed simp
qed

lemma range_cont:
  "0x80 \<le> a \<and> a \<le> 0x9F \<Longrightarrow> cont a" "0xA0 \<le> a \<and> a \<le> 0xBF \<Longrightarrow> cont a"
  "0x90 \<le> a \<and> a \<le> 0xBF \<Longrightarrow> cont a" "0x80 \<le> a \<and> a \<le> 0x8F \<Longrightarrow> cont a"
  by (auto simp: cont_def word_le_nat_alt)

lemma utf8_first:
  assumes "utf8_valid (a # bs)"
  obtains ch rest where "a # bs = ch @ rest" and "utf8_char ch" and "utf8_valid rest"
proof -
  have *: "\<not> cont a" using assms by (rule utf8_hd)
  show thesis
  proof (cases "a < 0x80")
    case True
    then show thesis using that [of "[a]" bs] assms * by (simp add: utf8_char_def)
  next
    case ge: False
    note eqs = utf8_valid.simps(2) [of a] if_not_P [OF ge]
    show thesis
    proof (cases "0xC2 \<le> a \<and> a \<le> 0xDF")
      case True
      note eqs = eqs if_P [OF True]
      obtain b r where "bs = b # r" "cont b" "utf8_valid r" using assms unfolding eqs by (auto split: list.splits)
      then show thesis using that [of "[a, b]" r] * by (simp only: utf8_char_def eqs) simp
    next
      case two: False
      show thesis
      proof (cases "0xE0 \<le> a \<and> a \<le> 0xEF")
        case True
        note eqs = eqs if_not_P [OF two] if_P [OF True]
        obtain b d r where r: "bs = b # d # r" using assms unfolding eqs by (auto split: list.splits)
        have v: "utf8_valid [a, b, d]" "cont d" "utf8_valid r" using assms unfolding eqs r by simp_all
        then have "cont b" unfolding eqs by (simp add: range_cont split: if_splits)
        then show thesis using that [of "[a, b, d]" r] * v r by (simp add: utf8_char_def del: utf8_valid.simps)
      next
        case three: False
        note eqs = eqs if_not_P [OF two] if_not_P [OF three]
        have "0xF0 \<le> a \<and> a \<le> 0xF4" using assms unfolding eqs by (simp split: if_splits)
        note eqs = eqs if_P [OF this]
        obtain b d e r where r: "bs = b # d # e # r" using assms unfolding eqs by (auto split: list.splits)
        have v: "utf8_valid [a, b, d, e]" "cont d" "cont e" "utf8_valid r" using assms unfolding eqs r by simp_all
        then have "cont b" unfolding eqs by (simp add: range_cont split: if_splits)
        then show thesis using that [of "[a, b, d, e]" r] * v r by (simp add: utf8_char_def del: utf8_valid.simps)
      qed
    qed
  qed
qed

lemma utf8_chars:
  assumes "utf8_valid bs"
  obtains chs where "bs = concat chs" and "list_all utf8_char chs"
  using assms
proof (induction "length bs" arbitrary: bs thesis rule: less_induct)
  case less
  show ?case
  proof (cases bs)
    case Nil
    then show ?thesis using less.prems(1) [of "[]"] by simp
  next
    case (Cons a r)
    with less.prems(2) obtain ch rest where ch: "bs = ch @ rest" "utf8_char ch" "utf8_valid rest"
      by (metis utf8_first)
    then have "length rest < length bs" by (auto simp: utf8_char_def)
    with less.hyps ch(3) obtain chs where "rest = concat chs" "list_all utf8_char chs" by metis
    with ch show ?thesis by (intro less.prems(1) [of "ch # chs"]) simp_all
  qed
qed

lemma utf8_concat: "list_all utf8_char chs \<Longrightarrow> utf8_valid (concat chs)"
  by (induction chs) (auto simp: utf8_append_iff utf8_char_def)

lemma utf8_valid_iff: "utf8_valid bs \<longleftrightarrow> (\<exists>chs. bs = concat chs \<and> list_all utf8_char chs)"
  using utf8_chars utf8_concat by metis

text \<open>No character is a prefix, or a suffix, of a text that starts, or ends, with another one.\<close>

lemma char_prefix:
  assumes "utf8_char w" "utf8_char ch" "list_all utf8_char chs"
    and "take (length w) (ch @ concat chs) = w"
  shows "w = ch"
proof -
  consider "length w = length ch" | "length w < length ch" | "length ch < length w" by linarith
  then show ?thesis
  proof cases
    case 1
    then show ?thesis using assms(4) by simp
  next
    case 2
    then obtain t where t: "ch = w @ t" "t \<noteq> []" using assms(4)
      by (metis append_take_drop_id drop_eq_Nil not_le take_append diff_is_0_eq' less_imp_le take_0 append_Nil2)
    then have "utf8_valid t" using assms(1,2) by (simp add: utf8_char_def utf8_append_iff)
    moreover have "cont (hd t)" using t assms(1,2) by (cases w; cases t) (auto simp: utf8_char_def)
    ultimately show ?thesis using t(2) utf8_hd by (cases t) auto
  next
    case 3
    define t where "t = take (length w - length ch) (concat chs)"
    have w: "w = ch @ t" using 3 assms(4) by (simp add: t_def)
    with 3 have "t \<noteq> []" by auto
    then obtain b t' where b: "t = b # t'" by (cases t) auto
    then obtain r where "concat chs = b # r" by (cases "concat chs") (auto simp: t_def take_Cons' split: if_splits)
    then have "\<not> cont b" using utf8_hd utf8_concat [OF assms(3)] by metis
    moreover have "cont b" using w b assms(1,2) by (cases ch) (auto simp: utf8_char_def)
    ultimately show ?thesis by simp
  qed
qed

lemma char_suffix:
  assumes "utf8_char w" "utf8_char ch" and "take (length w) (rev ch @ rest) = rev w"
  shows "w = ch"
proof -
  consider "length w = length ch" | "length w < length ch" | "length ch < length w" by linarith
  then show ?thesis
  proof cases
    case 1
    then show ?thesis using assms(3) by simp
  next
    case 2
    with assms(3) have "take (length w) (rev ch) = rev w" by simp
    then have "drop (length ch - length w) ch = w" by (simp add: take_rev rev_swap)
    moreover have pos: "length ch - length w < length ch" "length ch - length w \<noteq> 0"
      using 2 assms(1) length_greater_0_conv [of w] by (auto simp: utf8_char_def simp del: length_greater_0_conv)
    ultimately have "hd w = ch ! (length ch - length w)" using hd_drop_conv_nth by metis
    moreover have "ch ! i \<in> set (tl ch)" if "i \<noteq> 0" "i < length ch" for i
      using that by (cases ch; cases i) auto
    ultimately have "cont (hd w)" using assms(2) pos by (auto simp: utf8_char_def list_all_iff)
    then show ?thesis using assms(1) by (simp add: utf8_char_def)
  next
    case 3
    then have "rev w = rev ch @ take (length w - length ch) rest" using assms(3) by simp
    then have "w = rev (take (length w - length ch) rest) @ ch" by (metis rev_append rev_rev_ident)
    then obtain t where t: "w = t @ ch" "t \<noteq> []" using 3 by (metis append_Nil less_irrefl)
    then have "hd ch \<in> set (tl w)" using assms(2) by (cases t; cases ch) (auto simp: utf8_char_def)
    then show ?thesis using assms(1,2) by (auto simp: utf8_char_def list_all_iff)
  qed
qed

section \<open>Positions\<close>

lemma starts_append:
  assumes "utf8_char ch"
  shows "filter (\<lambda>i. \<not> cont ((ch @ bs) ! i)) [0..<length (ch @ bs)] =
    0 # map (\<lambda>i. i + length ch) (filter (\<lambda>i. \<not> cont (bs ! i)) [0..<length bs])"
proof -
  have "filter (\<lambda>i. \<not> cont (ch ! i)) [0..<length ch] = [0]"
    using assms by (cases ch) (auto simp: utf8_char_def upt_rec [of 0] list_all_length map_Suc_upt [symmetric] filter_empty_conv simp del: upt_Suc)
  then have "filter (\<lambda>i. \<not> cont ((ch @ bs) ! i)) [0..<length ch] = [0]"
    by (subst filter_cong [OF refl, where Q = "\<lambda>i. \<not> cont (ch ! i)"]) (simp_all add: nth_append)
  moreover have "filter (\<lambda>i. \<not> cont ((ch @ bs) ! i)) [length ch..<length ch + length bs] =
    map (\<lambda>i. i + length ch) (filter (\<lambda>i. \<not> cont (bs ! i)) [0..<length bs])"
  proof -
    have "[length ch..<length ch + length bs] = map (\<lambda>i. i + length ch) [0..<length bs]"
      by (simp only: map_add_upt add.commute)
    then show ?thesis by (simp add: filter_map comp_def nth_append)
  qed
  ultimately show ?thesis by (simp add: upt_add_eq_append [of 0 "length ch" "length bs"])
qed

lemma starts_chars:
  "list_all utf8_char chs \<Longrightarrow>
   filter (\<lambda>i. \<not> cont (concat chs ! i)) [0..<length (concat chs)] =
   map (\<lambda>k. length (concat (take k chs))) [0..<length chs]"
proof (induction chs)
  case (Cons ch chs)
  have "map (\<lambda>k. length (concat (take k (ch # chs)))) [0..<length (ch # chs)] =
    0 # map (\<lambda>k. length ch + length (concat (take k chs))) [0..<length chs]"
    by (simp add: upt_rec [of 0] map_Suc_upt [symmetric] del: upt_Suc)
  with Cons show ?case using starts_append [of ch "concat chs"] by (simp add: comp_def add.commute)
qed simp

lemma char_starts_bytes: "char_starts s = filter (\<lambda>i. \<not> cont (as_bytes s ! i)) [0..<length (as_bytes s)]"
  by (auto simp: char_starts_def as_bytes_def intro: filter_cong)

text \<open>The characters of a text.\<close>

definition chars_of :: "string \<Rightarrow> u8 list list \<Rightarrow> bool" where
  "chars_of s chs \<longleftrightarrow> as_bytes s = concat chs \<and> list_all utf8_char chs"

lemma string_ok_chars: "string_ok s \<longleftrightarrow> (\<exists>chs. chars_of s chs)"
  by (simp add: string_ok_def chars_of_def utf8_valid_iff)

lemma char_starts_chars: "chars_of s chs \<Longrightarrow> char_starts s = map (\<lambda>k. length (concat (take k chs))) [0..<length chs]"
  by (simp add: char_starts_bytes chars_of_def starts_chars)

lemma char_positions:
  assumes "chars_of s chs" "k \<le> length chs"
  shows "(char_starts s @ [length s]) ! k = length (concat (take k chs))"
proof -
  have "length s = length (concat chs)" using assms(1) by (metis chars_of_def length_as_bytes)
  with assms show ?thesis by (auto simp: char_starts_chars nth_append)
qed

lemma concat_slice:
  "i \<le> j \<Longrightarrow> take (length (concat (take j xs)) - length (concat (take i xs))) (drop (length (concat (take i xs))) (concat xs)) =
     concat (take (j - i) (drop i xs))"
proof -
  assume "i \<le> j"
  then have "xs = take i xs @ take (j - i) (drop i xs) @ drop j xs"
    by (metis append_take_drop_id drop_drop le_add_diff_inverse2)
  moreover have "take j xs = take i xs @ take (j - i) (drop i xs)" using \<open>i \<le> j\<close>
    by (metis le_add_diff_inverse take_add)
  ultimately have "concat xs = concat (take i xs) @ concat (take (j - i) (drop i xs)) @ concat (drop j xs)"
    "concat (take j xs) = concat (take i xs) @ concat (take (j - i) (drop i xs))"
    by (metis concat_append)+
  then show ?thesis by simp
qed

section \<open>Text builtins\<close>

lemma chars_of_take: "list_all utf8_char chs \<Longrightarrow> list_all utf8_char (take n chs) \<and> list_all utf8_char (drop n chs)"
  by (auto simp: list_all_iff dest: in_set_takeD in_set_dropD)

lemma drop_as_bytes: "as_bytes (drop n s) = drop n (as_bytes s)" and take_as_bytes: "as_bytes (take n s) = take n (as_bytes s)"
  by (simp_all add: as_bytes_def drop_map take_map)

lemma substring_chars:
  assumes "chars_of s chs"
  shows "substring_text s i j =
    (if 0 \<le> i \<and> i \<le> j \<and> j \<le> int (length chs)
     then let t = of_bytes (concat (take (nat j - nat i) (drop (nat i) chs)))
          in if length t > MAX_VALUE_BYTES then Err E_LIMIT else Ok t
     else Err E_TEXT_RANGE)"
proof -
  have len: "length (char_starts s @ [length s]) = Suc (length chs)" using assms by (simp add: char_starts_chars)
  show ?thesis
  proof (cases "0 \<le> i \<and> i \<le> j \<and> j \<le> int (length chs)")
    case True
    let ?p = "\<lambda>k. (char_starts s @ [length s]) ! k"
    have "?p (nat i) = length (concat (take (nat i) chs))" "?p (nat j) = length (concat (take (nat j) chs))"
      using char_positions [OF assms] True by auto
    moreover have "as_bytes s = concat chs" using assms by (simp add: chars_of_def)
    ultimately have "as_bytes (take (?p (nat j) - ?p (nat i)) (drop (?p (nat i)) s)) =
        concat (take (nat j - nat i) (drop (nat i) chs))"
      using concat_slice [of "nat i" "nat j" chs] nat_mono [of i j] True by (simp add: take_as_bytes drop_as_bytes)
    then have "take (?p (nat j) - ?p (nat i)) (drop (?p (nat i)) s) = of_bytes (concat (take (nat j - nat i) (drop (nat i) chs)))"
      by (metis of_bytes_as_bytes)
    moreover have "nat j < Suc (length chs)" using True by linarith
    ultimately show ?thesis using True len by (simp add: substring_text_def Let_def del: length_append length_take length_drop)
  next
    case False
    then show ?thesis using len by (auto simp: substring_text_def Let_def)
  qed
qed

text \<open>Removing characters of a set from the front.\<close>

lemma strip_front_chars:
  assumes "\<And>w ch rest. w \<in> set ws \<Longrightarrow> ch \<in> C \<Longrightarrow> set rest \<subseteq> C \<Longrightarrow> take (length w) (ch @ concat rest) = w \<Longrightarrow> w = ch"
    and "[] \<notin> set ws"
  shows "set chs \<subseteq> C \<Longrightarrow> length chs \<le> n \<Longrightarrow>
    strip_front n ws (concat chs) = concat (dropWhile (\<lambda>ch. ch \<in> set ws) chs)"
proof (induction n arbitrary: chs)
  case (Suc n)
  show ?case
  proof (cases chs)
    case Nil
    then have "find (\<lambda>w. take (length w) (concat chs) = w) ws = None" using assms(2) by (auto simp: find_None_iff)
    then show ?thesis using Nil by simp
  next
    case (Cons ch rest)
    have *: "w \<in> set ws \<Longrightarrow> take (length w) (concat chs) = w \<longleftrightarrow> w = ch" for w
      using assms(1) [of w ch rest] Suc.prems Cons by auto
    show ?thesis
    proof (cases "ch \<in> set ws")
      case True
      then have "find (\<lambda>w. take (length w) (concat chs) = w) ws \<noteq> None" using * by (auto simp: find_None_iff)
      then have "find (\<lambda>w. take (length w) (concat chs) = w) ws = Some ch" using * by (auto simp: find_Some_iff)
      with Cons True Suc show ?thesis by simp
    next
      case False
      then have "find (\<lambda>w. take (length w) (concat chs) = w) ws = None" using * by (auto simp: find_None_iff)
      with Cons False show ?thesis by simp
    qed
  qed
qed auto

lemma white_space_chars: "list_all utf8_char white_space"
  by code_simp

lemma chars_le: "list_all utf8_char chs \<Longrightarrow> length chs \<le> length (concat chs)"
proof (induction chs)
  case (Cons ch chs)
  then show ?case by (cases ch) (auto simp: utf8_char_def)
qed simp

definition strip_white :: "u8 list list \<Rightarrow> u8 list list" where
  "strip_white chs = dropWhile (\<lambda>ch. ch \<in> set white_space) chs"

lemma trim_chars:
  assumes "chars_of s chs"
  shows "chars_of (trim s) (rev (strip_white (rev (strip_white chs))))"
proof -
  let ?front = "strip_white chs"
  have chs: "as_bytes s = concat chs" "list_all utf8_char chs" using assms by (simp_all add: chars_of_def)
  have front: "list_all utf8_char ?front" using chs(2) by (auto simp: strip_white_def list_all_iff dest: set_dropWhileD)
  have nonempty: "[] \<notin> set white_space" "[] \<notin> set (map rev white_space)"
    using white_space_chars by (auto simp: list_all_iff utf8_char_def)
  have white: "utf8_char w" if "w \<in> set white_space" for w using white_space_chars that by (simp add: list_all_iff)
  have "strip_front (length (as_bytes s)) white_space (as_bytes s) = concat ?front"
    unfolding chs(1) strip_white_def
  proof (rule strip_front_chars [where C = "Collect utf8_char"])
    show "w = ch" if "w \<in> set white_space" "ch \<in> Collect utf8_char" "set rest \<subseteq> Collect utf8_char"
      "take (length w) (ch @ concat rest) = w" for w ch rest
      by (rule char_prefix [OF white _ _ that(4)]) (use that in \<open>auto simp: list_all_iff\<close>)
  qed (use nonempty chs chars_le in \<open>auto simp: list_all_iff\<close>)
  moreover have "strip_front (length (concat ?front)) (map rev white_space) (rev (concat ?front)) =
      concat (dropWhile (\<lambda>ch. ch \<in> set (map rev white_space)) (map rev (rev ?front)))"
    unfolding rev_concat rev_map
  proof (rule strip_front_chars [where C = "rev ` Collect utf8_char"])
    show "w = ch" if "w \<in> set (map rev white_space)" "ch \<in> rev ` Collect utf8_char"
      "take (length w) (ch @ concat rest) = w" for w ch rest
      using char_suffix [of "rev w" "rev ch" "concat rest"] white that by auto
  qed (use nonempty front chars_le in \<open>auto simp: list_all_iff\<close>)
  moreover have "dropWhile (\<lambda>ch. ch \<in> set (map rev white_space)) (map rev (rev ?front)) = map rev (strip_white (rev ?front))"
    by (simp add: strip_white_def dropWhile_map comp_def inj_image_mem_iff inj_on_rev)
  ultimately have "trim s = of_bytes (concat (rev (strip_white (rev ?front))))"
    by (simp add: trim_def Let_def rev_concat rev_map)
  moreover have "list_all utf8_char (rev (strip_white (rev ?front)))"
    using front by (auto simp: strip_white_def list_all_iff dest: set_dropWhileD)
  ultimately show ?thesis by (simp add: chars_of_def)
qed

lemma text_builtins_ok:
  assumes "string_ok s"
  shows "string_ok (trim s)" and "substring_text s i j = Ok t \<Longrightarrow> string_ok t"
    and "string_ok s' \<Longrightarrow> concat_text s s' = Ok t \<Longrightarrow> string_ok t"
proof -
  from assms obtain chs where chs: "chars_of s chs" by (auto simp: string_ok_chars)
  show "string_ok (trim s)" using trim_chars [OF chs] by (auto simp: string_ok_chars)
  show "string_ok t" if "substring_text s i j = Ok t"
    using that chs unfolding substring_chars [OF chs]
    by (auto simp: Let_def string_ok_def chars_of_def intro!: utf8_concat chars_of_take [THEN conjunct1] chars_of_take [THEN conjunct2]
        split: if_splits)
  show "string_ok t" if "string_ok s'" "concat_text s s' = Ok t"
    using that assms by (auto simp: concat_text_def string_ok_def as_bytes_def utf8_append_iff split: if_splits)
qed

lemma ascii_ok: "list_all (\<lambda>ch. byte_of ch < 0x80) s \<Longrightarrow> string_ok s"
  unfolding string_ok_def as_bytes_def by (induction s) auto

section \<open>Correctness of the text builtins\<close>

text \<open>
  (C27) On the encoded characters of a text, \<open>length\<close> counts them, \<open>substring\<close> selects the characters between two
  positions, failing exactly when the positions are not in order or exceed the text, or when the result is too
  long, and \<open>trim\<close> removes the white space at both ends.
\<close>

theorem text_builtins_correct:
  assumes "chars_of s chs"
  shows "char_count s = length chs \<and>
    substring_text s i j =
      (if 0 \<le> i \<and> i \<le> j \<and> j \<le> int (length chs)
       then let t = of_bytes (concat (take (nat j - nat i) (drop (nat i) chs)))
            in if length t > MAX_VALUE_BYTES then Err E_LIMIT else Ok t
       else Err E_TEXT_RANGE) \<and>
    chars_of (trim s) (rev (strip_white (rev (strip_white chs))))"
  using substring_chars [OF assms] trim_chars [OF assms] char_starts_chars [OF assms] by (simp add: char_count_def)

definition example_text :: string where
  "example_text = of_bytes [0x20, 0xC3, 0xA9, 0x61, 0x20]"

lemma example_text_chars: "chars_of example_text [[0x20], [0xC3, 0xA9], [0x61], [0x20]]"
  by code_simp

theorem text_builtins_correct_witness:
  "char_count example_text = 4 \<and> substring_text example_text 1 3 = Ok (of_bytes [0xC3, 0xA9, 0x61]) \<and>
   substring_text example_text 2 5 = Err E_TEXT_RANGE \<and> as_bytes (trim example_text) = [0xC3, 0xA9, 0x61]"
proof -
  note correct = text_builtins_correct [OF example_text_chars]
  have "char_count example_text = 4" using correct by simp
  moreover have "substring_text example_text 1 3 = Ok (of_bytes [0xC3, 0xA9, 0x61])"
    using correct [of 1 3] by (simp add: MAX_VALUE_BYTES_def)
  moreover have "substring_text example_text 2 5 = Err E_TEXT_RANGE" using correct [of 2 5] by simp
  moreover have "rev (strip_white (rev (strip_white [[0x20], [0xC3, 0xA9], [0x61], [0x20]]))) = [[0xC3, 0xA9], [0x61]]" by code_simp
  then have "as_bytes (trim example_text) = [0xC3, 0xA9, 0x61]" using correct by (simp add: chars_of_def)
  ultimately show ?thesis by blast
qed

end
