(* ===== verification/Typed_Results.thy ===== *)
theory Typed_Results
  imports Binder Utf8
begin

text \<open>
  The errors that depend on values, against those that type checking excludes, and which of the scalar
  operations, coercion and comparison can return: on values of their types, only the former.
\<close>

section \<open>Errors of the static kind\<close>

definition static_error :: "error \<Rightarrow> bool" where
  "static_error e \<longleftrightarrow> e \<in> {E_TYPE, E_FIELD, E_QUERY, E_MATCH, E_SCHEMA, PANIC}"

fun dynamic :: "'a result \<Rightarrow> bool" where
  "dynamic (Ok x) = True"
| "dynamic (Err e) = (\<not> static_error e)"

text \<open>\<open>yields P r\<close>: a result that satisfies \<open>P\<close>, or an error that depends on the values.\<close>

definition yields :: "('a \<Rightarrow> bool) \<Rightarrow> 'a result \<Rightarrow> bool" where
  "yields P r \<longleftrightarrow> (case r of Ok x \<Rightarrow> P x | Err e \<Rightarrow> \<not> static_error e)"

named_theorems dynamic_intros

lemma yields_simps [simp]: "yields P (Ok x) \<longleftrightarrow> P x" "yields P (Err e) \<longleftrightarrow> \<not> static_error e"
  by (simp_all add: yields_def)

lemma yields_iff: "yields P r \<longleftrightarrow> dynamic r \<and> (\<forall>x. r = Ok x \<longrightarrow> P x)"
  by (cases r) auto

lemma yieldsI: "dynamic r \<Longrightarrow> (\<And>x. r = Ok x \<Longrightarrow> P x) \<Longrightarrow> yields P r"
  by (simp add: yields_iff)

lemma yields_and_then: "yields Q r \<Longrightarrow> (\<And>x. r = Ok x \<Longrightarrow> Q x \<Longrightarrow> yields P (f x)) \<Longrightarrow> yields P (and_then r f)"
  by (cases r) auto

lemma yields_map_ok [simp]: "yields P (map_ok f r) \<longleftrightarrow> yields (\<lambda>x. P (f x)) r"
  by (cases r) auto

lemma yields_mono: "yields Q r \<Longrightarrow> (\<And>x. Q x \<Longrightarrow> P x) \<Longrightarrow> yields P r"
  by (cases r) auto

lemma dynamic_and_then [dynamic_intros]: "dynamic r \<Longrightarrow> (\<And>x. r = Ok x \<Longrightarrow> dynamic (f x)) \<Longrightarrow> dynamic (and_then r f)"
  by (cases r) auto

lemma dynamic_map_ok [simp]: "dynamic (map_ok f r) = dynamic r"
  by (cases r) auto

lemma dynamic_ok_or [dynamic_intros]: "\<not> static_error e \<Longrightarrow> dynamic (ok_or e x)"
  by (cases x) auto

lemma dynamic_map_err [dynamic_intros]: "dynamic r \<Longrightarrow> (\<And>e. \<not> static_error e \<Longrightarrow> \<not> static_error (g e)) \<Longrightarrow> dynamic (map_err g r)"
  by (cases r) auto

lemma dynamic_map_err_const: "\<not> static_error e \<Longrightarrow> dynamic (map_err (\<lambda>_. e) r)"
  by (cases r) auto

lemma dynamic_check [dynamic_intros]: "\<not> static_error e \<Longrightarrow> dynamic (check b e)"
  by (auto simp: check_def)

lemma dynamic_if [dynamic_intros]: "(b \<Longrightarrow> dynamic x) \<Longrightarrow> (\<not> b \<Longrightarrow> dynamic y) \<Longrightarrow> dynamic (if b then x else y)"
  by simp

lemma dynamic_prod [dynamic_intros]: "(\<And>x y. p = (x, y) \<Longrightarrow> dynamic (f x y)) \<Longrightarrow> dynamic (case p of (x, y) \<Rightarrow> f x y)"
  by (cases p) auto

lemma dynamic_try_fold: "(\<And>s x. x \<in> set xs \<Longrightarrow> dynamic (f s x)) \<Longrightarrow> dynamic (try_fold f s xs)"
proof (induction xs arbitrary: s)
  case (Cons x xs)
  then show ?case by (auto intro!: dynamic_intros)
qed simp

lemma dynamic_traverse: "(\<And>x. x \<in> set xs \<Longrightarrow> dynamic (f x)) \<Longrightarrow> dynamic (traverse f xs)"
  by (induction xs) (auto intro!: dynamic_intros)

lemma static_simps [simp]:
  "\<not> static_error E_LIMIT" "\<not> static_error E_ARITH" "\<not> static_error E_SCALAR_LITERAL" "\<not> static_error E_DECIMAL_RANGE"
  "\<not> static_error E_DECIMAL_TYPE" "\<not> static_error E_DECIMAL_ROUNDING" "\<not> static_error E_TEXT_RANGE" "\<not> static_error E_CAST_MODE"
  "\<not> static_error E_CAST_RANGE" "\<not> static_error E_CAST_PRECISION" "\<not> static_error E_TEMPORAL_UNIT"
  "\<not> static_error E_TEMPORAL_OFFSET" "\<not> static_error E_PARAM_MISSING" "\<not> static_error E_MAP_LIMIT"
  by (simp_all add: static_error_def)

section \<open>Scalars\<close>

lemma decimal_dynamic [simp]:
  "dynamic (validate_decimal_type p s)" "dynamic (decimal_new n p s)" "dynamic (decimal_rescale d p s)"
  "dynamic (round_ratio n m mode)" "dynamic (decimal_from_bigint n p s)" "dynamic (rescale_with_rounding d p s mode)"
  "dynamic (checked_mul_to d e p s mode)" "dynamic (checked_div_to d e p s mode)"
  "dynamic (rounding_from_str t)" "dynamic (decimal_checked_neg d)"
proof -
  show type: "dynamic (validate_decimal_type p s)" for p s by (simp add: validate_decimal_type_def dynamic_check)
  show new: "dynamic (decimal_new n p s)" for n p s using type by (auto simp: decimal_new_def intro!: dynamic_intros)
  show "dynamic (decimal_rescale d p s)" using type new by (auto simp: decimal_rescale_def Let_def intro!: dynamic_intros)
  show ratio: "dynamic (round_ratio n m mode)" for n m by (auto simp: round_ratio_def Let_def intro!: dynamic_intros)
  show big: "dynamic (decimal_from_bigint n p s)" for n using new by (auto simp: decimal_from_bigint_def intro!: dynamic_intros split: if_splits)
  show "dynamic (rescale_with_rounding d p s mode)" using type ratio big
    by (auto simp: rescale_with_rounding_def intro!: dynamic_intros)
  show "dynamic (checked_mul_to d e p s mode)" "dynamic (checked_div_to d e p s mode)" using type ratio big
    unfolding checked_mul_to_def checked_div_to_def Let_def by (intro dynamic_intros; simp)+
  show "dynamic (rounding_from_str t)" unfolding rounding_from_str_def by (intro dynamic_if) simp_all
  show "dynamic (decimal_checked_neg d)" by (auto simp: decimal_checked_neg_def intro!: dynamic_intros dynamic_map_err_const)
qed

lemma parse_dynamic [simp]:
  "dynamic (decimal_parse t p s)" "dynamic (uuid_from_str t)" "dynamic (bytes_from_str t)" "dynamic (date_from_str t)"
  "dynamic (timestamp_from_str t)" "dynamic (duration_from_str t)" "dynamic (fixed_offset_seconds t)"
  "dynamic (timestamp_from_epoch_microseconds n)" "dynamic (date_at_offset n i)" "dynamic (truncate_at_offset n u i)"
proof -
  have "dynamic (decimal_of_digits neg i f p s)" for neg i f
    unfolding decimal_of_digits_def push_digit_def by (intro dynamic_intros dynamic_try_fold) simp_all
  then show "dynamic (decimal_parse t p s)"
    unfolding decimal_parse_def Let_def by (auto intro!: dynamic_intros split: option.splits)
  have hex: "dynamic (hex_digit ch)" for ch by (simp add: hex_digit_def Let_def)
  then have "dynamic (hex_pairs t)" for t by (induction t rule: hex_pairs.induct) (auto intro!: dynamic_intros)
  then show "dynamic (bytes_from_str t)" by (simp add: bytes_from_str_def decode_hex_def)
  from hex show "dynamic (uuid_from_str t)"
    unfolding uuid_from_str_def uuid_step_def by (auto intro!: dynamic_try_fold dynamic_intros)
  have digits: "dynamic (parse_digits t)" for t by (simp add: parse_digits_def)
  have days: "dynamic (date_from_epoch_days n)" for n by (simp add: date_from_epoch_days_def)
  show date: "dynamic (date_from_str t)" for t unfolding date_from_str_def
    by (intro dynamic_intros) (simp_all add: digits days)
  show micros: "dynamic (timestamp_from_epoch_microseconds n)" for n by (simp add: timestamp_from_epoch_microseconds_def Let_def)
  show offset: "dynamic (fixed_offset_seconds t)" for t unfolding fixed_offset_seconds_def
    by (intro dynamic_intros) (simp_all add: digits)
  have "dynamic (fraction_loop n m t)" for n m t by (induction t arbitrary: n m) auto
  then have fraction: "dynamic (parse_fraction t)" for t unfolding parse_fraction_def by (intro dynamic_intros) simp_all
  show "dynamic (timestamp_from_str t)" unfolding timestamp_from_str_def
    by (intro dynamic_intros) (simp_all add: digits date micros offset fraction)
  show "dynamic (duration_from_str t)" unfolding duration_from_str_def Let_def by (intro dynamic_intros) simp_all
  have loc: "dynamic (local_at_offset n i)" for n i
    by (auto simp: local_at_offset_def Let_def intro!: dynamic_map_err_const)
  show "dynamic (date_at_offset n i)" "dynamic (truncate_at_offset n u i)"
    unfolding date_at_offset_def truncate_at_offset_def Let_def
    by (intro dynamic_and_then dynamic_if dynamic_map_err_const loc; simp)+
qed

text \<open>The types of their results.\<close>

lemma decimal_results:
  "decimal_parse t p s = Ok d \<Longrightarrow> decimal_ok p s d"
  "decimal_rescale e p s = Ok d \<Longrightarrow> decimal_ok p s d"
  "rescale_with_rounding e p s mode = Ok d \<Longrightarrow> decimal_ok p s d"
  "checked_mul_to e f p s mode = Ok d \<Longrightarrow> decimal_ok p s d"
  "checked_div_to e f p s mode = Ok d \<Longrightarrow> decimal_ok p s d"
proof -
  have digits: "decimal_of_digits neg i f p s = Ok d \<Longrightarrow> decimal_ok p s d" for neg i f
    unfolding decimal_of_digits_def by (auto simp: result_simps decimal_new_iff split: if_splits)
  show "decimal_parse t p s = Ok d \<Longrightarrow> decimal_ok p s d"
    unfolding decimal_parse_def Let_def by (auto simp: result_simps digits split: if_splits option.splits prod.splits)
  show "decimal_rescale e p s = Ok d \<Longrightarrow> decimal_ok p s d"
    unfolding decimal_rescale_def Let_def and_then_Ok_iff decimal_new_iff by blast
  show "rescale_with_rounding e p s mode = Ok d \<Longrightarrow> decimal_ok p s d"
    "checked_mul_to e f p s mode = Ok d \<Longrightarrow> decimal_ok p s d"
    unfolding rescale_with_rounding_def checked_mul_to_def Let_def and_then_Ok_iff from_bigint_iff by blast+
  show "checked_div_to e f p s mode = Ok d \<Longrightarrow> decimal_ok p s d"
    unfolding checked_div_to_def Let_def and_then_Ok_iff from_bigint_iff if_Err_eq_Ok by (auto split: prod.splits simp: and_then_Ok_iff from_bigint_iff)
qed

lemma temporal_results:
  "timestamp_from_epoch_microseconds n = Ok m \<Longrightarrow> timestamp_ok m"
  "date_at_offset n i = Ok m \<Longrightarrow> date_ok m"
  "truncate_at_offset n u i = Ok m \<Longrightarrow> timestamp_ok m"
  by (auto simp: timestamp_from_epoch_microseconds_def date_at_offset_def truncate_at_offset_def local_at_offset_def Let_def
      result_simps timestamp_ok_def date_from_epoch_days_iff date_ok_def split: if_splits)

lemma finite_float_yields: "yields (has_type c TFloat) (finite_float f)"
  by (auto simp: finite_float_def canonical_float_def f64_is_zero_def)

lemma checked_i64_Some [simp]: "checked_i64 n = Some m \<longleftrightarrow> in_i64 n \<and> m = n"
  by (auto simp: checked_i64_def)

lemma float_to_integer_yields: "yields in_i64 (float_to_integer f mode)"
proof (cases "is_finite f")
  case True
  have last: "yields in_i64 (if - (2 ^ 63) \<le> n \<and> n < 2 ^ 63 then Ok n else Err E_CAST_RANGE)" for n :: int
    by (simp add: in_i64_def)
  show ?thesis unfolding float_to_integer_def Let_def using True
    by (simp only: if_not_P not_not)
      (rule yields_and_then [where Q = "\<lambda>_. True", OF _ last], cases mode, simp_all)
qed (simp add: float_to_integer_def)

lemma int_to_float_yields: "in_i64 n \<Longrightarrow> yields (has_type c TFloat) (int_to_float n)"
  using i64_to_f64_zero i64_to_f64_exact
  by (auto simp: int_to_float_def Let_def canonical_float_def)

text \<open>Displayed scalars are ASCII.\<close>

definition ascii :: "string \<Rightarrow> bool" where
  "ascii s \<longleftrightarrow> list_all (\<lambda>ch. (of_char ch :: nat) < 128) s"

lemma ascii_simps [simp]: "ascii []" "ascii (ch # s) \<longleftrightarrow> (of_char ch :: nat) < 128 \<and> ascii s" "ascii (s @ t) \<longleftrightarrow> ascii s \<and> ascii t"
  by (auto simp: ascii_def)

lemma ascii_string_ok: "ascii s \<Longrightarrow> string_ok s"
  by (rule ascii_ok) (auto simp: ascii_def list_all_iff word_less_nat_alt unat_byte_of)

lemma ascii_digits [simp]: "ascii (show_nat n)" "ascii (show_padded w n)"
  using ascii_of_digits show_nat_digits show_padded_digits by (simp_all add: ascii_def)

lemma ascii_hex: "ascii (show_hex b)"
proof -
  have "unat b div 16 < 16" "unat b mod 16 < 16" using unsigned_less [of b, where ?'a = nat] by auto
  then show ?thesis by (auto simp: show_hex_def hex_char_def of_char_of)
qed

lemma ascii_concat: "(\<And>s. s \<in> set ss \<Longrightarrow> ascii s) \<Longrightarrow> ascii (concat ss)"
  by (induction ss) auto

lemma ascii_display [simp]:
  "ascii (show_int n)" "ascii (date_display n)" "ascii (duration_display n)" "ascii (decimal_display d)"
  "ascii (timestamp_display n)" "ascii (uuid_display bs)" "ascii (bytes_display bs)"
proof -
  show int: "ascii (show_int n)" for n by (simp add: show_int_def)
  show date: "ascii (date_display n)" for n using date_display_ascii by (simp add: ascii_def)
  have "ascii u" if "(u, k) \<in> set UNITS" for u k using that by (auto simp: UNITS_def)
  then show "ascii (duration_display n)" using int
    by (auto simp: duration_display_def Let_def find_Some_iff split: option.splits dest: nth_mem) (metis nth_mem)+
  show "ascii (decimal_display d)" by (simp add: decimal_display_def Let_def)
  have "ascii (trim_zeros s)" if "ascii s" for s
    using that by (auto simp: trim_zeros_def ascii_def list_all_iff dest: set_dropWhileD)
  then show "ascii (timestamp_display n)" using date by (simp add: timestamp_display_def Let_def)
  show "ascii (uuid_display bs)" "ascii (bytes_display bs)"
    by (auto simp: uuid_display_def bytes_display_def ascii_hex intro!: ascii_concat)
qed

section \<open>Equal types\<close>

lemma list_all_zip2: "length xs = length ys \<and> list_all (\<lambda>(x, y). P x y) (zip xs ys) \<longleftrightarrow> list_all2 P xs ys"
  by (simp add: list_all2_iff list_all_iff)

lemma same_type_simps [simp]:
  "same_type l TInt \<longleftrightarrow> l = TInt" "same_type l TFloat \<longleftrightarrow> l = TFloat" "same_type l TBool \<longleftrightarrow> l = TBool"
  "same_type l TText \<longleftrightarrow> l = TText" "same_type l TUuid \<longleftrightarrow> l = TUuid" "same_type l TDate \<longleftrightarrow> l = TDate"
  "same_type l TTimestamp \<longleftrightarrow> l = TTimestamp" "same_type l TDuration \<longleftrightarrow> l = TDuration" "same_type l TBytes \<longleftrightarrow> l = TBytes"
  "same_type l (TDecimal p s) \<longleftrightarrow> l = TDecimal p s" "same_type l (TRef i) \<longleftrightarrow> l = TRef i" "\<not> same_type l (TNamed n)"
  "same_type l (TOption t) \<longleftrightarrow> (\<exists>u. l = TOption u \<and> same_type u t)"
  "same_type l (TList t) \<longleftrightarrow> (\<exists>u. l = TList u \<and> same_type u t)"
  "same_type l (TMap t) \<longleftrightarrow> (\<exists>u. l = TMap u \<and> same_type u t)"
  "same_type l (TTuple ts) \<longleftrightarrow> (\<exists>us. l = TTuple us \<and> list_all2 same_type us ts)"
  "same_type l (TRecord cols) \<longleftrightarrow>
     (\<exists>cs. l = TRecord cs \<and> list_all2 (\<lambda>a b. col_name a = col_name b \<and> same_type (col_ty a) (col_ty b)) cs cols)"
  "same_type l (TEnum vs) \<longleftrightarrow>
     (\<exists>ws. l = TEnum ws \<and> list_all2 (\<lambda>a b. vd_id a = vd_id b \<and> list_all2 same_type (vd_args a) (vd_args b)) ws vs)"
  by (cases l; subst same_type.simps; simp add: list_all_zip2)+

lemma same_type_refl: "type_ok c t \<Longrightarrow> same_type t t"
proof (induction "size t" arbitrary: t rule: less_induct)
  case less
  then have "type_ok c u \<Longrightarrow> u \<in> set (subtypes t) \<Longrightarrow> same_type u u" for u
    using size_subtype by blast
  with less.prems show ?case
    by (cases t) (auto intro!: list_all2_refl_on simp: list_all_iff)
qed

section \<open>Coercion and comparison of typed values\<close>

lemma dynamic_zip_traverse:
  assumes "list_all2 P ts xs" and "list_all2 R ts us" and "\<And>t u x. t \<in> set ts \<Longrightarrow> u \<in> set us \<Longrightarrow> P t x \<Longrightarrow> R t u \<Longrightarrow> dynamic (f x u)"
  shows "dynamic (traverse (\<lambda>(v, t). f v t) (zip xs us))"
  using assms
  by (intro dynamic_traverse) (auto simp: set_zip list_all2_conv_all_nth intro!: assms(3) [of "ts ! n" "us ! n" for n])

lemma found_variant:
  "list_all2 (\<lambda>a b. vd_id a = vd_id b \<and> list_all2 same_type (vd_args a) (vd_args b)) ws vs \<Longrightarrow>
   find_variant ws i = Some w \<Longrightarrow> \<exists>v. find_variant vs i = Some v \<and> list_all2 same_type (vd_args w) (vd_args v)"
  by (induction rule: list_all2_induct) (auto simp: find_variant_def split: if_splits)

lemma found_column:
  "list_all2 (\<lambda>a b. col_name a = col_name b \<and> same_type (col_ty a) (col_ty b)) cs cols \<Longrightarrow> col \<in> set cols \<Longrightarrow>
   \<exists>a \<in> set cs. col_name a = col_name col \<and> same_type (col_ty a) (col_ty col)"
  by (induction rule: list_all2_induct) auto

lemma same_column:
  "list_all2 (\<lambda>a b. col_name a = col_name b \<and> same_type (col_ty a) (col_ty b)) cs cols \<Longrightarrow> a \<in> set cs \<Longrightarrow>
   \<exists>b \<in> set cols. col_name a = col_name b \<and> same_type (col_ty a) (col_ty b)"
  by (induction rule: list_all2_induct) auto

lemma same_columns: "list_all2 (\<lambda>a b. col_name a = col_name b \<and> P a b) cs cols \<Longrightarrow> map col_name cs = map col_name cols"
  by (induction rule: list_all2_induct) auto

lemma record_field_values:
  assumes "has_type c (TRecord cols) (VRecord fs)" and "distinct (map col_name cols)"
  shows "col \<in> set cols \<Longrightarrow> \<exists>w. bt_get fs (col_name col) = Some w \<and> has_type c (col_ty col) w"
    and "fst ` set fs = col_name ` set cols"
proof -
  have fs: "bt_ok fs" "length fs = length cols"
    "\<forall>(k, w) \<in> set fs. \<exists>col. find_column cols k = Some col \<and> has_type c (col_ty col) w"
    using assms(1) by auto
  show "col \<in> set cols \<Longrightarrow> \<exists>w. bt_get fs (col_name col) = Some w \<and> has_type c (col_ty col) w"
    using record_columns(1) [OF fs(1,2) assms(2) fs(3)] by blast
  show "fst ` set fs = col_name ` set cols" by (rule record_columns(2) [OF fs(1,2) assms(2) fs(3)])
qed

lemma coerce_dynamic:
  assumes "types_ok c"
  shows "same_type a b \<Longrightarrow> type_ok c a \<Longrightarrow> type_ok c b \<Longrightarrow> has_type c a x \<Longrightarrow> dynamic (coerce_inner c x b d)"
proof (induction d arbitrary: a b x rule: depth_induct)
  case (limit d)
  then show ?case by (simp add: coerce_limit)
next
  case (step d)
  note IH = step.IH and prems = step.prems
  show ?case
  proof (cases b)
    case (TRef i)
    then obtain w def where w: "x = VNamed i w" "definition_of c i = Ok def" "has_type c (def_ty def) w" using prems by auto
    have "type_ok c (def_ty def)" using types_okD [OF assms w(2)] .
    then have "dynamic (coerce_inner c w (def_ty def) (Suc d))" using IH [OF same_type_refl] w(3) by blast
    with w step.hyps TRef show ?thesis by (subst coerce_inner.simps) (simp add: coerce_raw_def)
  next
    case (TEnum vs)
    then obtain ws where ws: "a = TEnum ws" "list_all2 (\<lambda>a b. vd_id a = vd_id b \<and> list_all2 same_type (vd_args a) (vd_args b)) ws vs"
      using prems(1) by auto
    with prems obtain as w where w: "x = VEnum (vd_name w) as (vd_id w)" "vd_id w \<noteq> 0" "find_variant ws (vd_id w) = Some w"
      "list_all2 (has_type c) (vd_args w) as" by auto
    from found_variant [OF ws(2) w(3)] obtain v where v: "find_variant vs (vd_id w) = Some v" "list_all2 same_type (vd_args w) (vd_args v)" by blast
    have "w \<in> set ws" "v \<in> set vs" using find_variant_Some w(3) v(1) by blast+
    then have ok: "name_ok (vd_name w)" "\<And>t. t \<in> set (vd_args w) \<Longrightarrow> type_ok c t" "\<And>t. t \<in> set (vd_args v) \<Longrightarrow> type_ok c t"
      using prems(2,3) ws(1) TEnum by (auto simp: list_all_iff)
    have "coerce_variant c vs (vd_name w) (vd_id w) = Ok v"
      using ok(1) w(2) v(1) by (simp add: coerce_variant_def check_qualifier_def name_ok_def rsplit_once_None [THEN iffD2])
    moreover have "length as = length (vd_args v)" using w(4) v(2) by (metis list_all2_lengthD)
    moreover have "dynamic (traverse (\<lambda>(v, t). coerce_inner c v t (Suc d)) (zip as (vd_args v)))"
      by (rule dynamic_zip_traverse [OF w(4) v(2)]) (use IH ok in blast)
    ultimately show ?thesis using step.hyps TEnum w(1) by (subst coerce_inner.simps) simp
  next
    case (TRecord cols)
    then obtain cs where cs: "a = TRecord cs" "list_all2 (\<lambda>a b. col_name a = col_name b \<and> same_type (col_ty a) (col_ty b)) cs cols"
      using prems(1) by auto
    with prems obtain fs where x: "x = VRecord fs" by auto
    have dist: "distinct (map col_name cs)" using prems(2) cs(1) by simp
    note vals = record_field_values [OF prems(4) [unfolded cs(1) x] dist]
    have "\<exists>w. bt_get fs (col_name col) = Some w \<and> dynamic (coerce_inner c w (col_ty col) (Suc d))" if "col \<in> set cols" for col
    proof -
      from found_column [OF cs(2) that(1)] obtain ca where ca: "ca \<in> set cs" "col_name ca = col_name col" "same_type (col_ty ca) (col_ty col)"
        by blast
      with vals(1) [OF ca(1)] obtain w where "bt_get fs (col_name col) = Some w" "has_type c (col_ty ca) w" by auto
      then show ?thesis using IH [OF ca(3)] prems(2,3) cs(1) TRecord ca(1) that by simp
    qed
    moreover have "fst ` set fs = col_name ` set cols" using vals(2) same_columns [OF cs(2)] by (metis list.set_map)
    then have "\<not> list_ex (\<lambda>k. \<not> list_ex (\<lambda>col. col_name col = k) cols) (bt_keys fs)"
      by (auto simp: list_ex_iff bt_keys_def)
    ultimately show ?thesis using step.hyps TRecord x
      by (subst coerce_inner.simps) (fastforce intro!: dynamic_intros dynamic_try_fold)
  next
    case (TTuple ts)
    then obtain us xs where u: "a = TTuple us" "list_all2 same_type us ts" "x = VTuple xs" "list_all2 (has_type c) us xs"
      using prems by auto
    have "dynamic (traverse (\<lambda>(v, t). coerce_inner c v t (Suc d)) (zip xs ts))"
      by (rule dynamic_zip_traverse [OF u(4,2)]) (use IH prems TTuple u(1) in \<open>auto simp: list_all_iff\<close>)
    moreover have "length xs = length ts" using u(2,4) by (metis list_all2_lengthD)
    ultimately show ?thesis using step.hyps TTuple u(3) by (subst coerce_inner.simps) simp
  next
    case (TList t)
    then obtain u xs where "a = TList u" "same_type u t" "x = VList xs" "list_all (has_type c u) xs" using prems by auto
    then show ?thesis using step.hyps TList prems IH by (subst coerce_inner.simps) (auto simp: list_all_iff intro!: dynamic_traverse)
  next
    case (TMap t)
    then obtain u es where "a = TMap u" "same_type u t" "x = VMap es"
      "list_all (\<lambda>(k, w). string_ok k \<and> length k \<le> MAX_MAP_KEY_BYTES \<and> has_type c u w) es" using prems by auto
    then show ?thesis using step.hyps TMap prems IH
      by (subst coerce_inner.simps) (auto simp: list_all_iff intro!: dynamic_traverse)
  next
    case (TOption t)
    then show ?thesis using step.hyps prems IH by (subst coerce_inner.simps) auto
  qed (use prems step.hyps in \<open>subst coerce_inner.simps; auto simp: canonical_float_def\<close>)+
qed

lemma dynamic_lex_fold: "(\<And>x. x \<in> set xs \<Longrightarrow> dynamic (f x)) \<Longrightarrow> dynamic (lex_fold f xs)"
  by (induction xs) (auto intro!: dynamic_intros)

lemma zip3_all2:
  assumes "list_all2 P ts xs" "list_all2 Q us ys" "list_all2 R ts us" "((t, x), y) \<in> set (zip (zip ts xs) ys)"
  shows "\<exists>u \<in> set us. t \<in> set ts \<and> P t x \<and> Q u y \<and> R t u"
proof -
  from assms(4) obtain i where "i < length ts" "i < length xs" "i < length ys" "t = ts ! i" "x = xs ! i" "y = ys ! i"
    by (auto simp: set_zip)
  with assms(1-3) show ?thesis by (intro bexI [of _ "us ! i"]) (auto simp: list_all2_conv_all_nth)
qed

lemma cmp_items_dynamic:
  assumes "list_all2 P ts xs" "list_all2 Q us ys" "list_all2 R ts us"
    and "\<And>t u x y. t \<in> set ts \<Longrightarrow> u \<in> set us \<Longrightarrow> P t x \<Longrightarrow> Q u y \<Longrightarrow> R t u \<Longrightarrow> dynamic (f t x y)"
  shows "dynamic (cmp_typed_items f ts xs ys)"
proof -
  have "dynamic (f t x y)" if "((t, x), y) \<in> set (zip (zip ts xs) ys)" for t x y
    using zip3_all2 [OF assms(1-3) that] assms(4) by blast
  moreover have "length xs = length ts" "length ys = length ts" using assms(1-3) by (metis list_all2_lengthD)+
  ultimately show ?thesis by (auto simp: cmp_typed_items_def intro!: dynamic_lex_fold)
qed

lemma same_type_variants:
  assumes "list_all2 (\<lambda>a b. vd_id a = vd_id b \<and> list_all2 same_type (vd_args a) (vd_args b)) ws vs" "find_variant vs i = Some v"
  shows "\<exists>w. find_variant ws i = Some w \<and> list_all2 same_type (vd_args w) (vd_args v)"
  using assms by (induction rule: list_all2_induct) (auto simp: find_variant_def split: if_splits)

lemma cmp_typed_dynamic:
  assumes "types_ok c"
  shows "same_type a b \<Longrightarrow> type_ok c a \<Longrightarrow> type_ok c b \<Longrightarrow> has_type c a x \<Longrightarrow> has_type c b y \<Longrightarrow>
    dynamic (cmp_typed_inner c a x y d)"
proof (induction d arbitrary: a b x y rule: depth_induct)
  case (limit d)
  then show ?case by (subst cmp_typed_inner.simps) simp
next
  case (step d)
  note IH = step.IH and prems = step.prems and d = step.hyps
  show ?case
  proof (cases b)
    case (TRef i)
    then obtain v w def where w: "x = VNamed i v" "y = VNamed i w" "definition_of c i = Ok def"
      "has_type c (def_ty def) v" "has_type c (def_ty def) w" using prems by auto
    have "type_ok c (def_ty def)" using types_okD [OF assms w(3)] .
    then have "dynamic (cmp_typed_inner c (def_ty def) v w (Suc d))" using IH [OF same_type_refl] w(4,5) by blast
    with w d TRef prems(1) show ?thesis by (simp add: cmp_typed_node)
  next
    case (TEnum vs)
    then obtain ws where ws: "a = TEnum ws" "list_all2 (\<lambda>a b. vd_id a = vd_id b \<and> list_all2 same_type (vd_args a) (vd_args b)) ws vs"
      using prems(1) by auto
    with prems obtain xs w where w: "x = VEnum (vd_name w) xs (vd_id w)" "vd_id w \<noteq> 0" "find_variant ws (vd_id w) = Some w"
      "list_all2 (has_type c) (vd_args w) xs" by auto
    from prems TEnum obtain ys v where v: "y = VEnum (vd_name v) ys (vd_id v)" "vd_id v \<noteq> 0" "find_variant vs (vd_id v) = Some v"
      "list_all2 (has_type c) (vd_args v) ys" by auto
    from same_type_variants [OF ws(2) v(3)] obtain u where u: "find_variant ws (vd_id v) = Some u" "list_all2 same_type (vd_args u) (vd_args v)"
      by blast
    have len: "length xs = length (vd_args w)" "length ys = length (vd_args u)" using w(4) v(4) u(2) by (metis list_all2_lengthD)+
    have mem: "w \<in> set ws" "v \<in> set vs" using find_variant_Some w(3) v(3) by blast+
    then have ok: "\<And>t. t \<in> set (vd_args w) \<Longrightarrow> type_ok c t" "\<And>t. t \<in> set (vd_args v) \<Longrightarrow> type_ok c t"
      using prems(2,3) ws(1) TEnum by (auto simp: list_all_iff)
    have "dynamic (cmp_typed_items (\<lambda>ty l r. cmp_typed_inner c ty l r (Suc d)) (vd_args w) xs ys)" if "vd_id w = vd_id v"
    proof (rule cmp_items_dynamic [OF w(4) v(4)])
      show "list_all2 same_type (vd_args w) (vd_args v)" using u w(3) that by simp
    qed (use IH ok in blast)
    then show ?thesis using w v u len d ws(1)
      by (subst cmp_typed_inner.simps) (auto simp: variant_for_found Let_def)
  next
    case (TRecord cols)
    then obtain cs where cs: "a = TRecord cs" "list_all2 (\<lambda>a b. col_name a = col_name b \<and> same_type (col_ty a) (col_ty b)) cs cols"
      using prems(1) by auto
    with prems TRecord obtain fs gs where x: "x = VRecord fs" "y = VRecord gs" "length fs = length cs" "length gs = length cols" by auto
    have dist: "distinct (map col_name cs)" "distinct (map col_name cols)" using prems(2,3) cs(1) TRecord by simp_all
    note left = record_field_values [OF prems(4) [unfolded cs(1) x] dist(1)]
    note right = record_field_values [OF prems(5) [unfolded TRecord x] dist(2)]
    have "dynamic (and_then (ok_or E_TYPE (bt_get fs (col_name col))) (\<lambda>l.
        and_then (ok_or E_TYPE (bt_get gs (col_name col))) (\<lambda>r. cmp_typed_inner c (col_ty col) l r (Suc d))))"
      if col: "col \<in> set cs" for col
    proof -
      from col cs(2) obtain cb where cb: "cb \<in> set cols" "col_name col = col_name cb" "same_type (col_ty col) (col_ty cb)"
        using same_column by blast
      from left(1) [OF col] right(1) [OF cb(1)] cb(2) obtain v w where
        "bt_get fs (col_name col) = Some v" "has_type c (col_ty col) v" "bt_get gs (col_name col) = Some w" "has_type c (col_ty cb) w"
        by auto
      moreover have "type_ok c (col_ty col)" "type_ok c (col_ty cb)" using prems(2,3) cs(1) TRecord col cb(1) by auto
      ultimately show ?thesis using IH [OF cb(3)] by simp
    qed
    then have "dynamic (cmp_fields (\<lambda>ty l r. cmp_typed_inner c ty l r (Suc d)) cs fs gs)"
      using x list_all2_lengthD [OF cs(2)] by (auto simp: cmp_fields_def intro!: dynamic_lex_fold)
    then show ?thesis using cs x d by (simp add: cmp_typed_node)
  next
    case (TTuple ts)
    then obtain us xs ys where u: "a = TTuple us" "list_all2 same_type us ts" "x = VTuple xs" "list_all2 (has_type c) us xs"
      "y = VTuple ys" "list_all2 (has_type c) ts ys"
      using prems by auto
    have "dynamic (cmp_typed_items (\<lambda>ty l r. cmp_typed_inner c ty l r (Suc d)) us xs ys)"
      by (rule cmp_items_dynamic [OF u(4,6,2)]) (use IH prems TTuple u(1) in \<open>auto simp: list_all_iff\<close>)
    then show ?thesis using d u by (simp add: cmp_typed_node)
  next
    case (TList t)
    then obtain u xs ys where "a = TList u" "same_type u t" "x = VList xs" "list_all (has_type c u) xs" "y = VList ys"
      "list_all (has_type c t) ys" using prems by auto
    moreover have "dynamic (cmp_typed_inner c u v w (Suc d))" if "(v, w) \<in> set (zip xs ys)" for v w
      using calculation IH [of u t v w] prems TList set_zip_leftD [OF that] set_zip_rightD [OF that] by (simp add: list_all_iff)
    ultimately show ?thesis using d by (auto simp: cmp_typed_node lex_list_def intro!: dynamic_intros dynamic_lex_fold)
  next
    case (TMap t)
    with prems obtain u es es' where m: "a = TMap u" "same_type u t" "x = VMap es" "y = VMap es'"
      "\<forall>p \<in> set es. has_type c u (snd p)" "\<forall>p \<in> set es'. has_type c t (snd p)"
      by (auto simp: list_all_iff split_beta)
    have "dynamic (cmp_typed_inner c u (snd p) (snd q) (Suc d))" if "(p, q) \<in> set (zip es es')" for p q
      using m IH [of u t "snd p" "snd q"] prems TMap set_zip_leftD [OF that] set_zip_rightD [OF that] by simp
    then show ?thesis using d m
      by (auto simp: cmp_typed_node cmp_entries_def Let_def split_beta intro!: dynamic_intros dynamic_lex_fold)
  next
    case (TOption t)
    then obtain u where u: "a = TOption u" "same_type u t" using prems by auto
    with TOption prems show ?thesis using IH [OF u(2)] d by (auto simp: cmp_typed_node)
  qed (use prems d in \<open>auto simp: cmp_typed_scalar cmp_scalars_def decimal_ok_def cmp_floats_canonical\<close>)
qed

end
