(* ===== verification/Patterns.thy ===== *)
theory Patterns
  imports Typing Query
begin

text \<open>
  Match patterns (\<^verbatim>\<open>src/src/matching.rs\<close>): binding a parsed pattern to the variants and the
  payload types of the catalog, and matching a value against a bound pattern.  A bound pattern is
  the parsed one with the tags filled in.  The run-time matcher returns the extended bindings, or
  \<open>None\<close> where the source returns \<open>false\<close>; the \<open>context\<close> arguments that only feed messages are
  left out.
\<close>

section \<open>Resolving constructors\<close>

datatype match_source = SourceEnum "variant_def list" | SourceOption scalar_type

definition match_source_of :: "catalog \<Rightarrow> scalar_type \<Rightarrow> match_source result" where
  "match_source_of c ty =
     and_then (underlying c ty) (\<lambda>u.
       case u of
         TEnum vs \<Rightarrow> Ok (SourceEnum vs)
       | TOption t \<Rightarrow> Ok (SourceOption t)
       | _ \<Rightarrow> Err E_TYPE)"

definition qualifier_matches_enum :: "catalog \<Rightarrow> string \<Rightarrow> variant_def list \<Rightarrow> bool result" where
  "qualifier_matches_enum c qualifier expected =
     and_then (ok_or E_MATCH (bt_get (types c) qualifier)) (\<lambda>d.
     and_then (underlying c (def_ty d)) (\<lambda>u.
       case u of
         TEnum actual \<Rightarrow>
           Ok (length actual = length expected \<and> list_all (\<lambda>(a, e). vd_id a = vd_id e) (zip actual expected))
       | _ \<Rightarrow> Ok False))"

definition resolve_constructor ::
  "catalog \<Rightarrow> match_source \<Rightarrow> string \<Rightarrow> (match_tag \<times> scalar_type list \<times> string) result" where
  "resolve_constructor c source name =
     (case source of
        SourceEnum vs \<Rightarrow>
          let (qualifier, variant_name) =
                (case rsplit_once CHR ''.'' name of Some (q, n) \<Rightarrow> (Some q, n) | None \<Rightarrow> (None, name))
          in and_then (case qualifier of
                         Some q \<Rightarrow> and_then (qualifier_matches_enum c q vs) (\<lambda>same. check same E_MATCH)
                       | None \<Rightarrow> Ok ()) (\<lambda>_.
             and_then (ok_or E_MATCH (find (\<lambda>v. vd_name v = variant_name) vs)) (\<lambda>v.
               Ok (TagVariant (vd_id v), vd_args v, vd_name v)))
      | SourceOption inner \<Rightarrow>
          if name = ''None'' then Ok (TagNone, [], ''None'')
          else if name = ''Some'' then Ok (TagSome, [inner], ''Some'')
          else Err E_MATCH)"

section \<open>Binding patterns\<close>

definition combine_patterns :: "column list list \<Rightarrow> column list result" where
  "combine_patterns infos =
     map_ok snd (try_fold (\<lambda>(seen, bindings) binding.
       if col_name binding \<in> set seen then Err E_MATCH
       else Ok (bs_insert (col_name binding) seen, bindings @ [binding])) ([], []) (concat infos))"

lemma size_zip_fst [termination_simp]: "(a, b) \<in> set (zip xs ys) \<Longrightarrow> size a < Suc (size_list size xs)"
  by (rule size_zip_mem)

lemma size_match_field [termination_simp]: "size (mf_pattern f) < size f"
  by (cases f) simp

lemma size_field_mem [termination_simp]: "f \<in> set fs \<Longrightarrow> size (mf_pattern f) < Suc (size_list size fs)"
  using size_list_mem [of f fs size] size_match_field [of f] by simp

function (sequential) bind_nested_pattern :: "catalog \<Rightarrow> scalar_type \<Rightarrow> match_pattern \<Rightarrow> (match_pattern \<times> column list) result"
  and bind_payload :: "catalog \<Rightarrow> scalar_type list \<Rightarrow> match_payload \<Rightarrow> (match_payload \<times> column list) result"
  and bind_record_fields :: "catalog \<Rightarrow> column list \<Rightarrow> match_field list \<Rightarrow> bool \<Rightarrow> (match_field list \<times> column list) result"
where
  "bind_nested_pattern c expected PWildcard = Ok (PWildcard, [])"
| "bind_nested_pattern c expected (PBinding name) = Ok (PBinding name, [Column name expected None 0])"
| "bind_nested_pattern c expected (PConstructor name payload tag) =
     and_then (match_source_of c expected) (\<lambda>source.
     and_then (resolve_constructor c source name) (\<lambda>(resolved, argument_types, _).
       map_ok (\<lambda>(payload, bindings). (PConstructor name payload (Some resolved), bindings))
         (bind_payload c argument_types payload)))"
| "bind_nested_pattern c expected (PRecord fs rest) =
     and_then (underlying c expected) (\<lambda>u.
       case u of
         TRecord definitions \<Rightarrow>
           map_ok (\<lambda>(fs, bindings). (PRecord fs rest, bindings)) (bind_record_fields c definitions fs rest)
       | _ \<Rightarrow> Err E_MATCH)"
| "bind_nested_pattern c expected (PTuple patterns) =
     and_then (underlying c expected) (\<lambda>u.
       case u of
         TTuple items \<Rightarrow>
           if length patterns \<noteq> length items then Err E_MATCH
           else and_then (traverse (\<lambda>(p, t). bind_nested_pattern c t p) (zip patterns items)) (\<lambda>bound.
                  map_ok (Pair (PTuple (map fst bound))) (combine_patterns (map snd bound)))
       | _ \<Rightarrow> Err E_MATCH)"
| "bind_payload c argument_types PayloadUnit =
     (if argument_types = [] then Ok (PayloadUnit, []) else Err E_MATCH)"
| "bind_payload c argument_types (PayloadRecord fs rest) =
     (case argument_types of
        [payload] \<Rightarrow>
          and_then (underlying c payload) (\<lambda>u.
            case u of
              TRecord definitions \<Rightarrow>
                map_ok (\<lambda>(fs, bindings). (PayloadRecord fs rest, bindings)) (bind_record_fields c definitions fs rest)
            | _ \<Rightarrow> Err E_MATCH)
      | _ \<Rightarrow> Err E_MATCH)"
| "bind_payload c argument_types (PayloadPositional patterns) =
     (if length patterns \<noteq> length argument_types then Err E_MATCH
      else and_then (traverse (\<lambda>(p, t). bind_nested_pattern c t p) (zip patterns argument_types)) (\<lambda>bound.
             map_ok (Pair (PayloadPositional (map fst bound))) (combine_patterns (map snd bound))))"
| "bind_record_fields c definitions fs rest =
     and_then (try_fold (\<lambda>s f. case s of (seen, out, infos) \<Rightarrow>
         if mf_field f \<in> set seen then Err E_MATCH
         else and_then (ok_or E_MATCH (find_column definitions (mf_field f))) (\<lambda>definition.
              and_then (bind_nested_pattern c (col_ty definition) (mf_pattern f)) (\<lambda>(p, bindings).
                Ok (bs_insert (mf_field f) seen, out @ [MatchField (mf_field f) p], infos @ [bindings]))))
         ([], [], []) fs)
       (\<lambda>(seen, out, infos).
          if \<not> rest \<and> list_ex (\<lambda>d. col_name d \<notin> set seen) definitions then Err E_MATCH
          else map_ok (Pair out) (combine_patterns infos))"
  by pat_completeness auto
termination
  by (relation "measure (\<lambda>x. case x of
        Inl (c, ty, p) \<Rightarrow> 2 * size p
      | Inr (Inl (c, tys, p)) \<Rightarrow> 2 * size p
      | Inr (Inr (c, defs, fs, rest)) \<Rightarrow> Suc (2 * size_list size fs))")
     (auto dest: size_field_mem size_zip_fst)

section \<open>Matching a value\<close>

type_synonym bindings = "(string, value) btree"

text \<open>\<open>iter().all(...)\<close> with a test that extends the bindings.\<close>

fun all_match :: "('a \<Rightarrow> bindings \<Rightarrow> bindings option) \<Rightarrow> 'a list \<Rightarrow> bindings \<Rightarrow> bindings option" where
  "all_match f [] b = Some b"
| "all_match f (x # xs) b = (case f x b of None \<Rightarrow> None | Some b \<Rightarrow> all_match f xs b)"

lemma all_match_cong [fundef_cong]:
  "xs = ys \<Longrightarrow> b = b' \<Longrightarrow> (\<And>x b. x \<in> set ys \<Longrightarrow> f x b = g x b) \<Longrightarrow> all_match f xs b = all_match g ys b'"
proof (induction ys arbitrary: xs b b')
  case (Cons y ys)
  then have "all_match f ys a = all_match g ys a" for a by auto
  with Cons.prems show ?case by (auto split: option.splits)
qed simp

function (sequential) match_value_pattern :: "value \<Rightarrow> match_pattern \<Rightarrow> bindings \<Rightarrow> bindings option"
  and match_payload :: "value list \<Rightarrow> match_payload \<Rightarrow> bindings \<Rightarrow> bindings option"
where
  "match_value_pattern v PWildcard b = Some b"
| "match_value_pattern v (PBinding name) b =
     (if bt_get b name = None then Some (bt_insert name v b) else None)"
| "match_value_pattern v (PConstructor name payload tag) b =
     (case tag of
        None \<Rightarrow> None
      | Some t \<Rightarrow>
          (case (t, unwrapped v) of
             (TagVariant expected, VEnum n args i) \<Rightarrow> if expected = i then match_payload args payload b else None
           | (TagNone, VOption None) \<Rightarrow> match_payload [] payload b
           | (TagSome, VOption (Some w)) \<Rightarrow> match_payload [w] payload b
           | _ \<Rightarrow> None))"
| "match_value_pattern v (PRecord fs rest) b =
     (case unwrapped v of
        VRecord record \<Rightarrow>
          all_match (\<lambda>f b. case bt_get record (mf_field f) of
              None \<Rightarrow> None
            | Some w \<Rightarrow> match_value_pattern w (mf_pattern f) b) fs b
      | _ \<Rightarrow> None)"
| "match_value_pattern v (PTuple patterns) b =
     (case unwrapped v of
        VTuple vs \<Rightarrow>
          if length patterns = length vs
          then all_match (\<lambda>(p, w) b. match_value_pattern w p b) (zip patterns vs) b else None
      | _ \<Rightarrow> None)"
| "match_payload vs PayloadUnit b = (if vs = [] then Some b else None)"
| "match_payload vs (PayloadRecord fs rest) b =
     (case vs of
        [v] \<Rightarrow>
          (case unwrapped v of
             VRecord record \<Rightarrow>
               all_match (\<lambda>f b. case bt_get record (mf_field f) of
                   None \<Rightarrow> None
                 | Some w \<Rightarrow> match_value_pattern w (mf_pattern f) b) fs b
           | _ \<Rightarrow> None)
      | _ \<Rightarrow> None)"
| "match_payload vs (PayloadPositional patterns) b =
     (if length patterns = length vs
      then all_match (\<lambda>(p, w) b. match_value_pattern w p b) (zip patterns vs) b else None)"
  by pat_completeness auto
termination
  by (relation "measure (\<lambda>x. case x of Inl (v, p, b) \<Rightarrow> size p | Inr (vs, p, b) \<Rightarrow> size p)")
     (auto dest: size_field_mem size_zip_fst)

definition match_bindings :: "value \<Rightarrow> match_pattern \<Rightarrow> bindings option" where
  "match_bindings v p = match_value_pattern v p []"

definition binding_value :: "bindings \<Rightarrow> string \<Rightarrow> value option" where
  "binding_value b path =
     (let (head, tail) = (case split_once CHR ''.'' path of Some p \<Rightarrow> p | None \<Rightarrow> (path, []))
      in Option.bind (bt_get b head) (\<lambda>v. if tail = [] then Some v else value_field v tail))"

definition row_field :: "(string, value) btree \<Rightarrow> string \<Rightarrow> value option" where
  "row_field row path =
     (case bt_get row path of
        Some v \<Rightarrow> Some v
      | None \<Rightarrow> Option.bind (split_once CHR ''.'' path) (\<lambda>(head, tail).
                  Option.bind (bt_get row head) (\<lambda>v. value_field v tail)))"

end
