(* ===== verification/Builtin_Typing.thy ===== *)
theory Builtin_Typing
  imports Typed_Results Patterns
begin

text \<open>
  Types of evaluations: an evaluation is typed when it yields a value of its type or an error that depends on
  the values.  The builtin functions of \<^verbatim>\<open>src/src/expression.rs\<close> map typed arguments to typed results.
\<close>

section \<open>Scalar types\<close>

definition leaf :: "scalar_type \<Rightarrow> bool" where
  "leaf ty = (case ty of
     TInt \<Rightarrow> True | TFloat \<Rightarrow> True | TBool \<Rightarrow> True | TText \<Rightarrow> True | TUuid \<Rightarrow> True | TDate \<Rightarrow> True
   | TTimestamp \<Rightarrow> True | TDuration \<Rightarrow> True | TBytes \<Rightarrow> True | TDecimal _ _ \<Rightarrow> True | _ \<Rightarrow> False)"

lemma leaf_simps [simp]:
  "leaf TInt" "leaf TFloat" "leaf TBool" "leaf TText" "leaf TUuid" "leaf TDate" "leaf TTimestamp" "leaf TDuration" "leaf TBytes"
  "leaf (TDecimal p s)" "\<not> leaf (TRef i)"
  by (simp_all add: leaf_def)

lemma leaf_same: "leaf u \<Longrightarrow> same_type t u \<longleftrightarrow> t = u" "leaf t \<Longrightarrow> same_type t u \<longleftrightarrow> t = u"
  by (cases u; auto simp: leaf_def)+

lemma underlying_leaf: "leaf u \<Longrightarrow> underlying c u = Ok u"
  by (cases u) (simp_all add: underlying_def MAX_DEPTH_def leaf_def eval_nat_numeral)

lemma underlying_not_ref: "underlying c t = Ok u \<Longrightarrow> (\<exists>i. t = TRef i) \<or> t = u"
  by (cases t) (auto simp: underlying_def MAX_DEPTH_def eval_nat_numeral)

lemma coerce_at_ref:
  "d < MAX_DEPTH \<Longrightarrow> coerce_inner c x (TRef i) d =
     and_then (definition_of c i) (\<lambda>def. and_then (coerce_raw def i x) (\<lambda>raw.
       map_ok (VNamed i) (coerce_inner c raw (def_ty def) (Suc d))))"
  by (subst coerce_inner.simps) (cases x; simp)

lemma coerce_leaf_dynamic:
  "underlying_loop c n b = Ok u \<Longrightarrow> leaf u \<Longrightarrow> has_type c u x \<Longrightarrow> dynamic (coerce_inner c x b d)"
proof (induction n arbitrary: b d)
  case (Suc n)
  show ?case
  proof (cases "d < MAX_DEPTH")
    case d: True
    show ?thesis
    proof (cases "\<exists>i. b = TRef i")
      case True
      with Suc.prems(1) obtain i def where i: "b = TRef i" "definition_of c i = Ok def" "underlying_loop c n (def_ty def) = Ok u"
        by (auto simp: result_simps)
      have "coerce_raw def i x = Ok x" using Suc.prems(2,3) by (cases u) (auto simp: coerce_raw_def leaf_def)
      then show ?thesis using i d Suc by (simp add: coerce_at_ref)
    next
      case False
      then have "b = u" using Suc.prems(1) by (cases b) auto
      then show ?thesis using d Suc.prems(2,3)
        by (cases u; subst coerce_inner.simps) (auto simp: leaf_def canonical_float_def)
    qed
  qed (simp add: coerce_limit)
qed simp

text \<open>
  The type of an expression against the type it is bound at: the same, or the scalar under a nominal type
  for the results that are computed afresh.
\<close>

definition compat :: "catalog \<Rightarrow> scalar_type \<Rightarrow> scalar_type \<Rightarrow> bool" where
  "compat c t' t \<longleftrightarrow> same_type t' t \<or> (underlying c t = Ok t' \<and> leaf t')"

lemma compat_leaf: "compat c t' t \<Longrightarrow> underlying c t = Ok u \<Longrightarrow> leaf u \<Longrightarrow> underlying c t' = Ok u"
  using underlying_not_ref [of c t u] underlying_leaf by (auto simp: compat_def leaf_same)

lemma compat_leaf_eq: "compat c t' u \<Longrightarrow> leaf u \<Longrightarrow> t' = u"
  by (auto simp: compat_def leaf_same underlying_leaf)

lemma compat_coerce:
  assumes "types_ok c" "compat c t' t" "type_ok c t'" "type_ok c t" "has_type c t' x"
  shows "yields (has_type c t) (coerce c x t)"
proof (rule yieldsI)
  show "dynamic (coerce c x t)"
    using assms coerce_dynamic coerce_leaf_dynamic by (auto simp: compat_def coerce_def underlying_def)
  show "has_type c t y" if "coerce c x t = Ok y" for y
    using coerce_inner_conforms [OF assms(1)] has_type_ok [OF assms(1,5,3)] assms(4) that by (auto simp: coerce_def conforms_def)
qed

section \<open>Typed evaluations\<close>

definition typed_eval :: "catalog \<Rightarrow> scalar_type \<Rightarrow> evaluation \<Rightarrow> bool" where
  "typed_eval c t ev \<longleftrightarrow> (\<forall>b. yields (\<lambda>(v, b'). \<exists>x. v = Some x \<and> has_type c t x) (ev b))"

definition typed_under :: "catalog \<Rightarrow> scalar_type \<Rightarrow> evaluation \<Rightarrow> bool" where
  "typed_under c u ev \<longleftrightarrow> (\<forall>b. yields (\<lambda>(v, b'). \<exists>x. v = Some x \<and> has_type c u (unwrapped x)) (ev b))"

lemma typed_underI: "typed_eval c t ev \<Longrightarrow> underlying c t = Ok u \<Longrightarrow> typed_under c u ev"
  unfolding typed_eval_def typed_under_def
  by (blast intro: yields_mono underlying_type(1))

lemma on_value_typed:
  assumes "typed_eval c t ev" and "\<And>x b'. ev b = Ok (Some x, b') \<Longrightarrow> has_type c t x \<Longrightarrow> yields P (f x b')"
  shows "yields P (on_value a (ev b) f)"
proof -
  from assms(1) have "yields (\<lambda>(v, b'). \<exists>x. v = Some x \<and> has_type c t x) (ev b)" by (simp add: typed_eval_def)
  then show ?thesis using assms(2) by (cases "ev b") (auto simp: on_value_def)
qed

lemma on_value_under:
  assumes "typed_under c u ev" and "\<And>x b'. ev b = Ok (Some x, b') \<Longrightarrow> has_type c u (unwrapped x) \<Longrightarrow> yields P (f x b')"
  shows "yields P (on_value a (ev b) f)"
proof -
  from assms(1) have "yields (\<lambda>(v, b'). \<exists>x. v = Some x \<and> has_type c u (unwrapped x)) (ev b)" by (simp add: typed_under_def)
  then show ?thesis using assms(2) by (cases "ev b") (auto simp: on_value_def)
qed

lemma yields_returns: "yields (has_type c t) r \<Longrightarrow> yields (\<lambda>(v, b'). \<exists>x. v = Some x \<and> has_type c t x) (returns r b)"
  by (cases r) auto

section \<open>Builtin functions\<close>

lemma consume_dynamic: "dynamic (try_fold (\<lambda>b _. consume_collection_predicate b) b xs)"
  by (rule dynamic_try_fold) (simp add: consume_collection_predicate_def)

lemma list_entries_typed:
  "(\<And>x. x \<in> set xs \<Longrightarrow> has_type c t (f x)) \<Longrightarrow>
   yields (\<lambda>(v, b'). \<exists>x. v = Some x \<and> has_type c (TList t) x) (list_entries f xs b)"
  unfolding list_entries_def
  by (rule yields_and_then [where Q = "\<lambda>_. True"]) (auto simp: yields_iff consume_dynamic list_all_iff)

lemma call_argument_nth: "i < length evs \<Longrightarrow> call_argument evs i = evs ! i"
  by (simp add: call_argument_def)

lemma map_function_typed:
  assumes m: "typed_under c (TMap vt) (evs ! 0)" and result: "map_scalar_result name vt = Ok ty" and n: "0 < length evs"
    and two: "name \<in> {''contains_key'', ''get''} \<Longrightarrow> length evs = 2 \<and> typed_under c TText (evs ! 1)"
    and one: "name \<notin> {''contains_key'', ''get''} \<Longrightarrow> length evs = 1"
  shows "typed_eval c ty (map_function name evs)"
  unfolding typed_eval_def map_function_def call_argument_nth [OF n]
proof (intro allI, rule on_value_under [OF m])
  fix b x b' assume "has_type c (TMap vt) (unwrapped x)"
  then obtain es where es: "unwrapped x = VMap es" "bt_ok es" "\<And>k w. (k, w) \<in> set es \<Longrightarrow> string_ok k \<and> has_type c vt w"
    by (auto simp: list_all_iff)
  have get: "has_type c (TOption vt) (VOption (bt_get es k))" for k
    using es(2,3) by (cases "bt_get es k") (auto simp: bt_get_Some_iff)
  show "yields (\<lambda>(v, b'). \<exists>x. v = Some x \<and> has_type c ty x)
    (case unwrapped x of
       VMap entries \<Rightarrow>
         (let finish = (\<lambda>key b.
                if name = ''contains_key'' then
                  (case key of None \<Rightarrow> Err PANIC | Some k \<Rightarrow> Ok (Some (VBool (bt_get entries k \<noteq> None)), b))
                else if name = ''get'' then
                  (case key of None \<Rightarrow> Err PANIC | Some k \<Rightarrow> Ok (Some (VOption (bt_get entries k)), b))
                else if name = ''keys'' then list_entries (\<lambda>(k, v). VText k) entries b
                else if name = ''values'' then list_entries (\<lambda>(k, v). v) entries b
                else if name = ''entries'' then list_entries (\<lambda>(k, v). VTuple [VText k, v]) entries b
                else Err PANIC)
          in if length evs = 2
             then on_value None (call_argument evs 1 b') (\<lambda>k b.
               case unwrapped k of VText key \<Rightarrow> finish (Some key) b | _ \<Rightarrow> Err E_TYPE)
             else finish None b')
     | _ \<Rightarrow> Err E_TYPE)"
  proof (cases "name \<in> {''contains_key'', ''get''}")
    case True
    with two have arg: "length evs = 2" "typed_under c TText (evs ! 1)" by blast+
    have "call_argument evs 1 = evs ! 1" using arg(1) by (simp add: call_argument_nth)
    with True arg(1) result get show ?thesis
      by (auto simp: es(1) map_scalar_result_def split: if_splits intro!: on_value_under [OF arg(2) [unfolded One_nat_def]])
  next
    case False
    with one have "length evs = 1" by blast
    with False result es show ?thesis
      by (auto simp: map_scalar_result_def split: if_splits intro!: list_entries_typed)
  qed
qed

definition decimal_positions :: "string \<Rightarrow> nat \<times> nat" where
  "decimal_positions name = (if name = ''decimal_mul'' \<or> name = ''decimal_div'' then (2, 3) else (1, 2))"

definition rounds :: "string \<Rightarrow> bool" where
  "rounds name \<longleftrightarrow> name \<in> {''decimal_round'', ''decimal_mul'', ''decimal_div''}"

lemma decimal_result_typed:
  "(\<And>d. r = Ok d \<Longrightarrow> decimal_ok p s d) \<Longrightarrow> dynamic r \<Longrightarrow>
   yields (\<lambda>(v, b'). \<exists>x. v = Some x \<and> (\<exists>d. x = VDecimal d \<and> decimal_ok p s d)) (returns (map_ok VDecimal r) b)"
  by (cases r) auto

lemma int_to_decimal_result: "and_then (decimal_new n 38 0) (\<lambda>d. decimal_rescale d p s) = Ok d' \<Longrightarrow> decimal_ok p s d'"
  by (auto simp: result_simps decimal_results)

abbreviation gives :: "catalog \<Rightarrow> scalar_type \<Rightarrow> (value option \<times> budget) result \<Rightarrow> bool" where
  "gives c t r \<equiv> yields (\<lambda>(v, b'). \<exists>x. v = Some x \<and> has_type c t x) r"

lemma decimal_unary_typed:
  assumes n: "0 < length evs" and args: "literal_argument arguments 1 = Ok p" "literal_argument arguments 2 = Ok q" "decimal_target p q = Ok (precision, scl)"
  shows "typed_under c TInt (evs ! 0) \<Longrightarrow> gives c (TDecimal precision scl) (decimal_function ''int_to_decimal'' arguments evs b)"
    and "typed_under c TText (evs ! 0) \<Longrightarrow> gives c (TDecimal precision scl) (decimal_function ''decimal_parse'' arguments evs b)"
    and "typed_under c (TDecimal p0 s0) (evs ! 0) \<Longrightarrow> gives c (TDecimal precision scl) (decimal_function ''decimal_rescale'' arguments evs b)"
    and "typed_under c (TDecimal p0 s0) (evs ! 0) \<Longrightarrow> and_then (literal_argument arguments 3) decimal_rounding_of = Ok mode \<Longrightarrow>
      gives c (TDecimal precision scl) (decimal_function ''decimal_round'' arguments evs b)"
proof -
  note arg0 = call_argument_nth [OF n]
  have int: "dynamic (and_then (decimal_new i 38 0) (\<lambda>d. decimal_rescale d precision scl))" for i by (intro dynamic_intros) simp_all
  show "gives c (TDecimal precision scl) (decimal_function ''int_to_decimal'' arguments evs b)" if "typed_under c TInt (evs ! 0)"
    using args arg0 by (simp add: decimal_function_def)
      (rule on_value_under [OF that], clarsimp, rule decimal_result_typed [OF int_to_decimal_result int], simp)
  show "gives c (TDecimal precision scl) (decimal_function ''decimal_parse'' arguments evs b)" if "typed_under c TText (evs ! 0)"
    using args arg0 by (simp add: decimal_function_def)
      (rule on_value_under [OF that], clarsimp, rule decimal_result_typed [OF decimal_results(1)], simp_all)
  show "gives c (TDecimal precision scl) (decimal_function ''decimal_rescale'' arguments evs b)" if "typed_under c (TDecimal p0 s0) (evs ! 0)"
    using args arg0 by (simp add: decimal_function_def)
      (rule on_value_under [OF that], clarsimp, rule decimal_result_typed [OF decimal_results(2)], simp_all)
  show "gives c (TDecimal precision scl) (decimal_function ''decimal_round'' arguments evs b)" if "typed_under c (TDecimal p0 s0) (evs ! 0)"
    "and_then (literal_argument arguments 3) decimal_rounding_of = Ok mode"
    using args arg0 that(2) by (simp add: decimal_function_def)
      (rule on_value_under [OF that(1)], clarsimp, rule decimal_result_typed [OF decimal_results(3)], simp_all)
qed

lemma decimal_binary_typed:
  assumes n: "1 < length evs" and args: "literal_argument arguments 2 = Ok p" "literal_argument arguments 3 = Ok q" "decimal_target p q = Ok (precision, scl)"
    and mode: "and_then (literal_argument arguments 4) decimal_rounding_of = Ok mode"
    and evs: "typed_under c (TDecimal p0 s0) (evs ! 0)" "typed_under c (TDecimal p1 s1) (evs ! 1)"
  shows "gives c (TDecimal precision scl) (decimal_function ''decimal_mul'' arguments evs b)"
    and "gives c (TDecimal precision scl) (decimal_function ''decimal_div'' arguments evs b)"
proof -
  have arg: "call_argument evs 0 = evs ! 0" "call_argument evs 1 = evs ! 1" using n by (auto simp: call_argument_def)
  note second = evs(2) [unfolded One_nat_def]
  show "gives c (TDecimal precision scl) (decimal_function ''decimal_mul'' arguments evs b)"
    using args mode arg by (simp add: decimal_function_def)
      (rule on_value_under [OF evs(1)], clarsimp, rule on_value_under [OF second], clarsimp,
       rule decimal_result_typed [OF decimal_results(4)], simp_all)
  show "gives c (TDecimal precision scl) (decimal_function ''decimal_div'' arguments evs b)"
    using args mode arg by (simp add: decimal_function_def)
      (rule on_value_under [OF evs(1)], clarsimp, rule on_value_under [OF second], clarsimp,
       rule decimal_result_typed [OF decimal_results(5)], simp_all)
qed

lemma decimal_function_typed:
  assumes name: "is_decimal_function name" and pos: "decimal_positions name = (i, j)"
    and args: "literal_argument arguments i = Ok p" "literal_argument arguments j = Ok q" "decimal_target p q = Ok (precision, scl)"
    and mode: "rounds name \<Longrightarrow> and_then (literal_argument arguments (j + 1)) decimal_rounding_of = Ok mode"
    and n: "0 < length evs"
    and first: "typed_under c (if name = ''int_to_decimal'' then TInt else if name = ''decimal_parse'' then TText else TDecimal p0 s0) (evs ! 0)"
    and second: "name = ''decimal_mul'' \<or> name = ''decimal_div'' \<Longrightarrow> 1 < length evs \<and> typed_under c (TDecimal p1 s1) (evs ! 1)"
  shows "gives c (TDecimal precision scl) (decimal_function name arguments evs b)"
proof -
  consider "name = ''int_to_decimal''" | "name = ''decimal_parse''" | "name = ''decimal_rescale''" | "name = ''decimal_round''"
    | "name = ''decimal_mul''" | "name = ''decimal_div''"
    using name unfolding is_decimal_function_def insert_iff empty_iff simp_thms by (elim disjE)
  then show ?thesis
  proof cases
    case 1
    then have "i = 1" "j = 2" "typed_under c TInt (evs ! 0)" using pos first by (simp_all add: decimal_positions_def)
    then show ?thesis unfolding 1 using args by (intro decimal_unary_typed(1) [OF n]) simp_all
  next
    case 2
    then have "i = 1" "j = 2" "typed_under c TText (evs ! 0)" using pos first by (simp_all add: decimal_positions_def)
    then show ?thesis unfolding 2 using args by (intro decimal_unary_typed(2) [OF n]) simp_all
  next
    case 3
    then have "i = 1" "j = 2" "typed_under c (TDecimal p0 s0) (evs ! 0)" using pos first by (simp_all add: decimal_positions_def)
    then show ?thesis unfolding 3 using args by (intro decimal_unary_typed(3) [OF n]) simp_all
  next
    case 4
    then have "i = 1" "j = 2" "typed_under c (TDecimal p0 s0) (evs ! 0)" using pos first by (simp_all add: decimal_positions_def)
    moreover have "and_then (literal_argument arguments 3) decimal_rounding_of = Ok mode"
      using mode \<open>j = 2\<close> 4 by (simp add: rounds_def)
    ultimately show ?thesis unfolding 4 using args by (intro decimal_unary_typed(4) [OF n]) simp_all
  next
    case 5
    then have "i = 2" "j = 3" "typed_under c (TDecimal p0 s0) (evs ! 0)" using pos first by (simp_all add: decimal_positions_def)
    moreover have "and_then (literal_argument arguments 4) decimal_rounding_of = Ok mode"
      using mode \<open>j = 3\<close> 5 by (simp add: rounds_def)
    moreover have arg: "1 < length evs" "typed_under c (TDecimal p1 s1) (evs ! 1)" using second 5 by blast+
    ultimately show ?thesis unfolding 5 using args by (intro decimal_binary_typed(1) [OF arg(1) _ _ _ _ _ arg(2)]) simp_all
  next
    case 6
    then have "i = 2" "j = 3" "typed_under c (TDecimal p0 s0) (evs ! 0)" using pos first by (simp_all add: decimal_positions_def)
    moreover have "and_then (literal_argument arguments 4) decimal_rounding_of = Ok mode"
      using mode \<open>j = 3\<close> 6 by (simp add: rounds_def)
    moreover have arg: "1 < length evs" "typed_under c (TDecimal p1 s1) (evs ! 1)" using second 6 by blast+
    ultimately show ?thesis unfolding 6 using args by (intro decimal_binary_typed(2) [OF arg(1) _ _ _ _ _ arg(2)]) simp_all
  qed
qed

definition text_functions_ok :: "text_functions \<Rightarrow> bool" where
  "text_functions_ok tf \<longleftrightarrow>
     (\<forall>s. string_ok s \<longrightarrow> string_ok (to_lowercase tf s) \<and> string_ok (to_uppercase tf s)) \<and> (\<forall>f. string_ok (float_debug tf f))"

lemma text_result_typed: "string_ok s \<Longrightarrow> yields (has_type c TText) (text_result s)"
  by (simp add: text_result_def)

lemma text_to_text:
  assumes "text_functions_ok tf" "has_type c u (unwrapped x)" "leaf u"
  shows "yields string_ok (scalar_to_text tf x)"
proof -
  have "string_ok ''true''" "string_ok ''false''" by (simp_all add: ascii_string_ok)
  then show ?thesis using assms
    by (cases u) (clarsimp simp: scalar_to_text_def leaf_def text_functions_ok_def ascii_string_ok canonical_float_def)+
qed

lemma substring_dynamic: "dynamic (substring_text s i j)"
  unfolding substring_text_def Let_def by (intro dynamic_if) simp_all

lemma concat_dynamic: "dynamic (concat_text s t)"
  by (simp add: concat_text_def)

lemma gives_returns: "yields (has_type c t) r \<Longrightarrow> gives c t (returns r b)"
  by (rule yields_returns)

lemma text_unary_typed:
  assumes tf: "text_functions_ok tf" and s: "string_ok s"
  shows "gives c TText (text_function tf ''lower'' s evs b)" "gives c TText (text_function tf ''upper'' s evs b)"
    "gives c TText (text_function tf ''trim'' s evs b)" "gives c TUuid (text_function tf ''uuid_parse'' s evs b)"
    "gives c TBytes (text_function tf ''bytes_parse_hex'' s evs b)" "gives c TDate (text_function tf ''date_parse'' s evs b)"
    "gives c TTimestamp (text_function tf ''timestamp_parse'' s evs b)" "gives c TDuration (text_function tf ''duration_parse'' s evs b)"
proof -
  have lower: "string_ok (to_lowercase tf s)" "string_ok (to_uppercase tf s)" "string_ok (trim s)"
    using tf s text_builtins_ok(1) by (simp_all add: text_functions_ok_def)
  show "gives c TText (text_function tf ''lower'' s evs b)" "gives c TText (text_function tf ''upper'' s evs b)"
    "gives c TText (text_function tf ''trim'' s evs b)"
    using lower [THEN text_result_typed] by (simp_all add: text_function_def is_text_predicate_def gives_returns [of _ TText, simplified])
  have "yields (\<lambda>u. length u = 16) (uuid_from_str s)" "yields (\<lambda>bs. length bs \<le> MAX_BYTES) (bytes_from_str s)"
    "yields date_ok (date_from_str s)" "yields timestamp_ok (timestamp_from_str s)" "yields in_i64 (duration_from_str s)"
    by (auto simp: yields_iff uuid_from_str_length bytes_from_str_ok date_from_str_ok timestamp_from_str_ok duration_from_str_ok)
  then have "yields (has_type c TUuid) (map_ok VUuid (uuid_from_str s))" "yields (has_type c TBytes) (map_ok VBytes (bytes_from_str s))"
    "yields (has_type c TDate) (map_ok VDate (date_from_str s))" "yields (has_type c TTimestamp) (map_ok VTimestamp (timestamp_from_str s))"
    "yields (has_type c TDuration) (map_ok VDuration (duration_from_str s))"
    by simp_all
  note these = this [THEN gives_returns]
  show "gives c TUuid (text_function tf ''uuid_parse'' s evs b)"
    "gives c TBytes (text_function tf ''bytes_parse_hex'' s evs b)" "gives c TDate (text_function tf ''date_parse'' s evs b)"
    "gives c TTimestamp (text_function tf ''timestamp_parse'' s evs b)" "gives c TDuration (text_function tf ''duration_parse'' s evs b)"
    using these by (simp_all add: text_function_def is_text_predicate_def)
qed

lemma text_binary_typed:
  assumes s: "string_ok s" and n: "1 < length evs" and ev: "typed_under c TText (evs ! 1)"
  shows "is_text_predicate name \<Longrightarrow> gives c TBool (text_function tf name s evs b)"
    and "gives c TText (text_function tf ''concat'' s evs b)"
proof -
  note arg = call_argument_nth [OF n]
  show "gives c TBool (text_function tf name s evs b)" if "is_text_predicate name"
    unfolding text_function_def arg using that
    by (auto simp: is_text_predicate_def intro!: on_value_under [OF ev [unfolded One_nat_def]])
  have "gives c TText (returns (map_ok VText (concat_text s t)) b')" if "string_ok t" for t b'
    using text_builtins_ok(3) [OF s that] by (intro gives_returns) (auto simp: yields_iff concat_dynamic result_simps)
  then show "gives c TText (text_function tf ''concat'' s evs b)"
    unfolding text_function_def arg by (auto intro!: on_value_under [OF ev [unfolded One_nat_def]])
qed

lemma substring_typed:
  assumes s: "string_ok s" and n: "2 < length evs" and ev: "typed_under c TInt (evs ! 1)" "typed_under c TInt (evs ! 2)"
  shows "gives c TText (text_function tf ''substring'' s evs b)"
proof -
  have arg: "call_argument evs 1 = evs ! 1" "call_argument evs 2 = evs ! 2" using n by (simp_all add: call_argument_def)
  have "gives c TText (returns (map_ok VText (substring_text s i j)) b')" for i j b'
    using text_builtins_ok(2) [OF s] by (intro gives_returns) (auto simp: yields_iff substring_dynamic result_simps)
  then show ?thesis unfolding text_function_def arg
    by (auto intro!: on_value_under [OF ev(1) [unfolded One_nat_def]] on_value_under [OF ev(2)])
qed

definition text_builtin :: "string \<Rightarrow> bool" where
  "text_builtin name \<longleftrightarrow>
     is_builtin_scalar_function name \<and> \<not> is_map_scalar_function name \<and> \<not> is_temporal_projection name \<and> name \<noteq> ''to_text'' \<and>
     \<not> is_decimal_function name"

lemma builtin_arity_pos: "builtin_scalar_arity name = Some n \<Longrightarrow> 0 < n"
  unfolding builtin_scalar_arity_def by (simp split: if_split_asm)

lemma builtin_function_typed:
  assumes tf: "text_functions_ok tf" and name: "text_builtin name"
    and arity: "builtin_scalar_arity name = Some (length evs)"
    and evs: "\<And>i. i < length evs \<Longrightarrow> typed_under c (builtin_scalar_input_type name i) (evs ! i)"
    and mode: "name = ''float_to_int'' \<Longrightarrow> and_then (literal_argument arguments 1) float_rounding = Ok mode"
    and result: "builtin_scalar_result name = Some ty"
  shows "gives c ty (builtin_function tf name arguments evs b)"
proof -
  have n: "0 < length evs" using arity by (rule builtin_arity_pos)
  then have arg0: "call_argument evs 0 = evs ! 0" "evs \<noteq> []" by (auto simp: call_argument_def)
  have textual: "gives c ty (builtin_function tf name arguments evs b)"
    if "typed_under c TText (evs ! 0)" "\<And>s b. string_ok s \<Longrightarrow> gives c ty (text_function tf name s evs b)"
      "name \<noteq> ''float_to_int''" "name \<noteq> ''int_to_float''"
    using that(2-4) name arg0 unfolding builtin_function_def text_builtin_def by (auto intro!: on_value_under [OF that(1)])
  consider "name = ''int_to_float''" | "name = ''float_to_int''" | "is_text_predicate name" | "name = ''concat''" | "name = ''substring''"
    | "name \<in> {''lower'', ''upper'', ''trim'', ''uuid_parse'', ''bytes_parse_hex'', ''date_parse'', ''timestamp_parse'', ''duration_parse''}"
    using name unfolding text_builtin_def is_builtin_scalar_function_def is_decimal_function_def insert_iff empty_iff by (elim conjE disjE) simp_all
  then show ?thesis
  proof cases
    case 1
    with evs [OF n] have f: "typed_under c TInt (evs ! 0)" by (simp add: builtin_scalar_input_type_def)
    have "ty = TFloat" using result 1 by (simp add: builtin_scalar_result_def)
    then show ?thesis using arg0 unfolding 1
      by (simp add: builtin_function_def is_decimal_function_def is_temporal_projection_def)
        (rule on_value_under [OF f], use int_to_float_yields [THEN gives_returns] in auto)
  next
    case 2
    with evs [OF n] have f: "typed_under c TFloat (evs ! 0)" by (simp add: builtin_scalar_input_type_def)
    have ty: "ty = TInt" using result 2 by (simp add: builtin_scalar_result_def)
    obtain e where e: "literal_argument arguments 1 = Ok e" "float_rounding e = Ok mode" using mode 2 by (auto simp: and_then_Ok_iff)
    have "gives c TInt (returns (map_ok VInt (float_to_integer x mode)) b')" for x b'
      using float_to_integer_yields by (intro gives_returns) simp
    then show ?thesis using arg0 ty e unfolding 2
      by (simp add: builtin_function_def is_decimal_function_def is_temporal_projection_def) (rule on_value_under [OF f], auto)
  next
    case 3
    then have n2: "1 < length evs" using arity by (simp add: builtin_scalar_arity_def)
    have ty: "ty = TBool" using result 3 unfolding is_text_predicate_def insert_iff empty_iff
      by (elim disjE) (simp_all add: builtin_scalar_result_def)
    have input: "builtin_scalar_input_type name i = TText" for i using 3 by (auto simp: builtin_scalar_input_type_def is_text_predicate_def)
    show ?thesis using text_binary_typed(1) [OF _ n2 _ 3] evs [OF n] evs [OF n2] 3 input ty
      by (intro textual) (auto simp: is_text_predicate_def)
  next
    case 4
    then have n2: "1 < length evs" and ty: "ty = TText" using arity result
      by (simp_all add: builtin_scalar_arity_def builtin_scalar_result_def)
    have input: "builtin_scalar_input_type name i = TText" for i using 4 by (auto simp: builtin_scalar_input_type_def)
    show ?thesis using text_binary_typed(2) [OF _ n2] evs [OF n] evs [OF n2] 4 input ty by (intro textual) auto
  next
    case 5
    then have n3: "2 < length evs" and ty: "ty = TText" using arity result
      by (simp_all add: builtin_scalar_arity_def builtin_scalar_result_def is_text_predicate_def)
    have input: "typed_under c TText (evs ! 0)" "typed_under c TInt (evs ! 1)" "typed_under c TInt (evs ! 2)"
      using evs [OF n] evs [of 1] evs [of 2] n3 5 by (auto simp: builtin_scalar_input_type_def)
    show ?thesis using substring_typed [OF _ n3 input(2,3)] input(1) 5 ty by (intro textual) auto
  next
    case 6
    then have "builtin_scalar_input_type name 0 = TText" by (auto simp: builtin_scalar_input_type_def)
    then have input: "typed_under c TText (evs ! 0)" using evs [OF n] by simp
    have "gives c ty (text_function tf name s evs b)" if "string_ok s" for s b
      using text_unary_typed [OF tf that, of c evs b] 6 result unfolding insert_iff empty_iff
      by (elim disjE) (simp_all add: builtin_scalar_result_def)
    then show ?thesis using input 6 by (intro textual) auto
  qed
qed

end
