(* ===== verification/Binder_Facts.thy ===== *)
theory Binder_Facts
  imports Builtin_Typing
begin

text \<open>
  Facts about inference and binding (\<^verbatim>\<open>src/src/expression.rs\<close>): inferred types are well formed, every arm of
  a call that binding accepts is inverted into its conditions, and binding at an inferred type keeps the type.
\<close>

lemma case_map_Ok [result_simps]: "(case u of TMap t \<Rightarrow> f t | _ \<Rightarrow> Err e) = Ok r \<longleftrightarrow> (\<exists>t. u = TMap t \<and> f t = Ok r)"
  by (cases u) auto

lemma case_kind_Ok [result_simps]:
  "(case u of TRecord cols \<Rightarrow> g cols | _ \<Rightarrow> Err e) = Ok r \<longleftrightarrow> (\<exists>cols. u = TRecord cols \<and> g cols = Ok r)"
  "(case u of TList t \<Rightarrow> f t | _ \<Rightarrow> Err e) = Ok r \<longleftrightarrow> (\<exists>t. u = TList t \<and> f t = Ok r)"
  "(case u of TOption t \<Rightarrow> f t | _ \<Rightarrow> Err e) = Ok r \<longleftrightarrow> (\<exists>t. u = TOption t \<and> f t = Ok r)"
  by (cases u; simp)+

section \<open>Well-formed expressions and scopes\<close>

fun expression_ok :: "catalog \<Rightarrow> scalar_expression \<Rightarrow> bool" where
  "expression_ok c (Reference path) = True"
| "expression_ok c (Parameter name ty) = (case ty of None \<Rightarrow> True | Some t \<Rightarrow> type_ok c t)"
| "expression_ok c (Literal v) =
     (value_ok v \<and> (case infer_literal v of None \<Rightarrow> True | Some t \<Rightarrow> type_ok c t \<and> has_type c t v))"
| "expression_ok c (Ascribed e ty) = (expression_ok c e \<and> type_ok c ty)"
| "expression_ok c (Call name arguments sp) = list_all (expression_ok c) arguments"
| "expression_ok c (Length e) = expression_ok c e"
| "expression_ok c (Negate e ty) = expression_ok c e"
| "expression_ok c (Arithmetic l op r ty) = (expression_ok c l \<and> expression_ok c r)"

definition scope_ok :: "catalog \<Rightarrow> column list \<Rightarrow> bool" where
  "scope_ok c scope \<longleftrightarrow> (\<forall>col \<in> set scope. type_ok c (col_ty col))"

lemma field_type_ok:
  assumes "types_ok c" "scope_ok c scope" "field_type c scope path = Ok t"
  shows "type_ok c t"
proof -
  have step: "type_ok c t'" if "type_ok c u" "field_type_step c u part = Ok t'" for u t' part
  proof -
    from that(2) obtain cols col where col: "underlying c u = Ok (TRecord cols)" "find_column cols part = Some col" "t' = col_ty col"
      by (auto simp: field_type_step_def result_simps)
    have "type_ok c (TRecord cols)" using underlying_type(3) [OF col(1) assms(1) that(1)] .
    then show ?thesis using find_column_Some [OF col(2)] col(3) by simp
  qed
  have col: "type_ok c (col_ty col)" if "find_column scope n = Some col" for n col
    using find_column_Some [OF that] assms(2) by (simp add: scope_ok_def)
  show ?thesis
  proof (cases "find_column scope path")
    case None
    with assms(3) obtain col where "find_column scope (hd (split_on CHR ''.'' path)) = Some col"
      "try_fold (field_type_step c) (col_ty col) (tl (split_on CHR ''.'' path)) = Ok t"
      by (auto simp: field_type_def Let_def result_simps)
    then show ?thesis using try_fold_invariant [of "field_type_step c" "col_ty col" _ t "type_ok c"] col step by blast
  next
    case (Some col)
    then show ?thesis using assms(3) col [OF Some] by (simp add: field_type_def)
  qed
qed

lemma reference_type_Ok: "reference_type c scope path kind = Ok t \<longleftrightarrow> field_type c scope path = Ok t"
  by (simp add: reference_type_def map_err_Ok_iff)

lemma map_result_ok: "map_scalar_result name vt = Ok t \<Longrightarrow> type_ok c vt \<Longrightarrow> type_ok c t"
  by (auto simp: map_scalar_result_def split: if_split_asm)

lemma decimal_target_ok: "decimal_target_type p q = Ok t \<Longrightarrow> type_ok c t"
  by (auto simp: decimal_target_type_def decimal_target_def result_simps Let_def split: prod.splits)

lemma builtin_result_leaf: "builtin_scalar_result name = Some t \<Longrightarrow> leaf t"
  unfolding builtin_scalar_result_def by (simp split: if_split_asm)

lemma leaf_type_ok: "leaf t \<Longrightarrow> (\<And>p s. t \<noteq> TDecimal p s) \<Longrightarrow> type_ok c t"
  by (cases t) (auto simp: leaf_def)

lemma builtin_result_ok: "builtin_scalar_result name = Some t \<Longrightarrow> type_ok c t"
  unfolding builtin_scalar_result_def by (auto split: if_split_asm)

lemma temporal_result_ok [simp]: "type_ok c (temporal_result_type name)" "leaf (temporal_result_type name)"
  by (simp_all add: temporal_result_type_def)

lemma temporal_signature_ok:
  assumes "temporal_arithmetic_signature c l op r expected = Ok (Some (lt, rt, result))"
  shows "(lt, rt, result) \<in> {(TDuration, TDuration, TDuration), (TTimestamp, TDuration, TTimestamp), (TTimestamp, TTimestamp, TDuration)}"
    and "op \<in> {Add, Subtract}" and "(lt, rt) = (TTimestamp, TTimestamp) \<Longrightarrow> op = Subtract"
proof -
  from assms obtain lk rk ek where *:
    "(if lk = Some TDuration \<and> (op = Add \<or> op = Subtract) \<and> rk = Some TDuration then Some (TDuration, TDuration, TDuration)
      else if lk = Some TTimestamp \<and> (op = Add \<or> op = Subtract) \<and> rk = Some TDuration then Some (TTimestamp, TDuration, TTimestamp)
      else if lk = Some TTimestamp \<and> op = Subtract \<and> rk = Some TTimestamp then Some (TTimestamp, TTimestamp, TDuration)
      else if lk = Some TDuration \<and> (op = Add \<or> op = Subtract) \<and> rk = None then Some (TDuration, TDuration, TDuration)
      else if lk = None \<and> (op = Add \<or> op = Subtract) \<and> rk = Some TDuration \<and> ek = Some TDuration then Some (TDuration, TDuration, TDuration)
      else if lk = Some TTimestamp \<and> (op = Add \<or> op = Subtract) \<and> rk = None \<and> ek = Some TTimestamp then Some (TTimestamp, TDuration, TTimestamp)
      else if lk = None \<and> op = Subtract \<and> rk = Some TTimestamp \<and> ek = Some TDuration then Some (TTimestamp, TTimestamp, TDuration)
      else None) = Some (lt, rt, result)"
    unfolding temporal_arithmetic_signature_def Let_def and_then_Ok_iff if_Err_eq_Ok result.inject by blast
  show "(lt, rt, result) \<in> {(TDuration, TDuration, TDuration), (TTimestamp, TDuration, TTimestamp), (TTimestamp, TTimestamp, TDuration)}"
    using * by (simp split: if_split_asm)
  show "op \<in> {Add, Subtract}" using * by (simp split: if_split_asm; blast)
  show "(lt, rt) = (TTimestamp, TTimestamp) \<Longrightarrow> op = Subtract" using * by (simp split: if_split_asm)
qed

lemma infer_map_Ok:
  assumes "infer_map_call c name infs = Ok (Some t)"
  shows "t \<in> {TBool, TList TText} \<or>
    (\<exists>u vt. inferred_argument infs 0 = Ok (Some u) \<and> underlying c u = Ok (TMap vt) \<and> map_scalar_result name vt = Ok t)"
proof -
  from assms obtain m where m: "inferred_argument infs 0 = Ok m" unfolding infer_map_call_def and_then_Ok_iff if_Err_eq_Ok by blast
  show ?thesis
  proof (cases m)
    case None
    then show ?thesis using assms m unfolding infer_map_call_def and_then_Ok_iff if_Err_eq_Ok by (auto split: if_split_asm)
  next
    case (Some u)
    then show ?thesis using assms m unfolding infer_map_call_def and_then_Ok_iff if_Err_eq_Ok
      by (simp add: case_map_Ok and_then_Ok_iff map_ok_Ok_iff) blast
  qed
qed

lemma infer_decimal_Ok:
  assumes "infer_decimal_call c name arguments infs = Ok s"
  shows "\<exists>t p q. s = Some t \<and> literal_argument arguments (fst (decimal_positions name)) = Ok p \<and>
    literal_argument arguments (snd (decimal_positions name)) = Ok q \<and> decimal_target_type p q = Ok t"
proof (cases "name = ''decimal_mul'' \<or> name = ''decimal_div''")
  case True
  from assms show ?thesis
    unfolding infer_decimal_call_def decimal_positions_def Let_def if_P [OF True] prod.case and_then_Ok_iff if_Err_eq_Ok map_ok_Ok_iff
    by auto
next
  case False
  from assms show ?thesis
    unfolding infer_decimal_call_def decimal_positions_def Let_def if_not_P [OF False] prod.case and_then_Ok_iff if_Err_eq_Ok map_ok_Ok_iff
    by auto
qed

lemma infer_builtin_Ok: "infer_builtin_call name arguments infs = Ok t \<Longrightarrow> builtin_scalar_result name = t"
  unfolding infer_builtin_call_def and_then_Ok_iff if_Err_eq_Ok by auto

lemma infer_ok:
  assumes "types_ok c" "scope_ok c scope"
  shows "infer_scalar c scope kind e = Ok (Some t) \<Longrightarrow> expression_ok c e \<Longrightarrow> type_ok c t"
proof (induction e arbitrary: t)
  case (Reference path)
  then show ?case using field_type_ok [OF assms] by (auto simp: result_simps reference_type_Ok)
next
  case (Call name arguments sp)
  let ?infs = "map (\<lambda>e. infer_scalar c scope kind e) arguments"
  have arg: "type_ok c u" if "inferred_argument ?infs i = Ok (Some u)" for i u
    using that Call.IH [of "arguments ! i" u] Call.prems(2) by (auto simp: inferred_argument_def list_all_iff split: if_split_asm)
  have "type_ok c t" if "infer_map_call c name ?infs = Ok (Some t)"
    using infer_map_Ok [OF that] arg map_result_ok underlying_type(3) assms(1) by fastforce
  moreover have "type_ok c t" if "infer_decimal_call c name arguments ?infs = Ok (Some t)"
    using infer_decimal_Ok [OF that] decimal_target_ok by blast
  moreover have "type_ok c t" if "infer_builtin_call name arguments ?infs = Ok (Some t)"
    using infer_builtin_Ok [OF that] builtin_result_ok by blast
  ultimately show ?case using Call.prems(1) unfolding infer_scalar.simps infer_call_def and_then_Ok_iff if_Err_eq_Ok
    by (simp split: if_split_asm) (auto simp: result_simps)
next
  case (Arithmetic l op r ty)
  from Arithmetic.prems(1) obtain lt rt sig where i: "infer_scalar c scope kind l = Ok lt" "infer_scalar c scope kind r = Ok rt"
    "temporal_arithmetic_signature c lt op rt None = Ok sig"
    "(case sig of Some (_, _, result) \<Rightarrow> Ok (Some result) | None \<Rightarrow> infer_arithmetic_type c l op r lt rt) = Ok (Some t)"
    by (auto simp: result_simps)
  show ?case
  proof (cases sig)
    case None
    with i(4) have "lt = Some t \<or> rt = Some t" unfolding infer_arithmetic_type_def
      by (auto simp: result_simps split: option.split_asm if_split_asm)
    then show ?thesis using Arithmetic i by auto
  next
    case (Some s)
    then show ?thesis using i(3,4) temporal_signature_ok(1) by (cases s) fastforce
  qed
qed (auto simp: result_simps split: option.split_asm)

section \<open>Binding\<close>

lemma meets_expected_Ok:
  "meets_expected expected r = Ok r' \<longleftrightarrow> r' = r \<and> (\<forall>t. expected = Some t \<longrightarrow> same_type (snd r) t)"
  by (auto simp: meets_expected_def split: option.splits)

lemma bind_argument_Ok:
  "bind_argument binders i ty arguments = Ok arguments' \<longleftrightarrow>
     i < length binders \<and> (\<exists>e t. (binders ! i) (Some ty) = Ok (e, t) \<and> arguments' = arguments[i := e])"
  by (auto simp: bind_argument_def map_ok_Ok_iff split: prod.splits)

lemma fresh_Ok:
  "leaf t \<Longrightarrow> require_fresh_scalar_result c t expected = Ok () \<longleftrightarrow> (\<forall>u. expected = Some u \<longrightarrow> underlying c u = Ok t)"
  by (auto simp: require_fresh_scalar_result_def result_simps leaf_same split: option.splits)

lemma require_Ok:
  "require_timestamp_input c t = Ok () \<longleftrightarrow> underlying c t = Ok TTimestamp"
  "require_bool c t = Ok () \<longleftrightarrow> underlying c t = Ok TBool"
  by (auto simp: require_timestamp_input_def require_bool_def result_simps)

lemma text_convertible_leaf: "require_text_convertible c t = Ok () \<Longrightarrow> \<exists>u. underlying c t = Ok u \<and> leaf u"
  by (cases "underlying c t") (simp_all add: require_text_convertible_def leaf_def split: scalar_type.splits)

lemma numeric_leaf:
  "require_numeric c t = Ok () \<Longrightarrow> \<exists>u. underlying c t = Ok u \<and> (u = TInt \<or> u = TFloat \<or> (\<exists>p s. u = TDecimal p s))"
  "require_negatable c t = Ok () \<Longrightarrow> \<exists>u. underlying c t = Ok u \<and> (u = TInt \<or> u = TFloat \<or> u = TDuration \<or> (\<exists>p s. u = TDecimal p s))"
  by (cases "underlying c t"; simp add: require_numeric_def require_negatable_def split: scalar_type.splits)+

text \<open>The arms of a call, inverted.\<close>

lemma bind_map_Ok:
  assumes "bind_map_call c name arguments infs binders = Ok (arguments', ty)"
  obtains map_ty vt e0 t0 where "inferred_argument infs 0 = Ok (Some map_ty)" "underlying c map_ty = Ok (TMap vt)"
    "map_scalar_result name vt = Ok ty" "builtin_scalar_arity name = Some (length arguments)"
    "0 < length binders" "(binders ! 0) (Some map_ty) = Ok (e0, t0)"
    "length arguments = 2 \<longrightarrow> 1 < length binders \<and> (\<exists>e1 t1. (binders ! 1) (Some TText) = Ok (e1, t1) \<and> arguments' = arguments[0 := e0, 1 := e1])"
    "length arguments \<noteq> 2 \<longrightarrow> arguments' = arguments[0 := e0]"
proof -
  from assms obtain map_ty vt args0 where a: "builtin_scalar_arity name = Some (length arguments)" "inferred_argument infs 0 = Ok (Some map_ty)"
    "underlying c map_ty = Ok (TMap vt)" "bind_argument binders 0 map_ty arguments = Ok args0"
    "(if length arguments = 2 then bind_argument binders 1 TText args0 else Ok args0) = Ok arguments'" "map_scalar_result name vt = Ok ty"
    unfolding bind_map_call_def and_then_Ok_iff if_Err_eq_Ok ok_or_Ok_iff case_map_Ok map_ok_Ok_iff prod.inject by blast
  from a(4) obtain e0 t0 where e0: "0 < length binders" "(binders ! 0) (Some map_ty) = Ok (e0, t0)" "args0 = arguments[0 := e0]"
    by (auto simp: bind_argument_Ok)
  show thesis
    by (rule that [OF a(2,3,6,1) e0(1,2)]) (use a(5) e0(3) in \<open>auto simp: bind_argument_Ok\<close>)
qed

definition decimal_input :: "catalog \<Rightarrow> string \<Rightarrow> inferred list \<Rightarrow> scalar_type \<Rightarrow> bool" where
  "decimal_input c name infs input \<longleftrightarrow>
     (if name = ''int_to_decimal'' then input = TInt
      else if name = ''decimal_parse'' then input = TText
      else inferred_argument infs 0 = Ok (Some input) \<and> (\<exists>p s. underlying c input = Ok (TDecimal p s)))"

lemma is_decimal_type_iff: "is_decimal_type u \<longleftrightarrow> (\<exists>p s. u = TDecimal p s)"
  by (cases u) (auto simp: is_decimal_type_def)

lemma bind_decimal_Ok:
  assumes "bind_decimal_call c name arguments infs binders = Ok (arguments', ty)" and "decimal_positions name = (i, j)"
  obtains p q input e0 t0 where "builtin_scalar_arity name = Some (length arguments)"
    "literal_argument arguments i = Ok p" "literal_argument arguments j = Ok q" "decimal_target_type p q = Ok ty"
    "rounds name \<longrightarrow> (\<exists>mode. and_then (literal_argument arguments (j + 1)) decimal_rounding_of = Ok mode)"
    "decimal_input c name infs input" "0 < length binders" "(binders ! 0) (Some input) = Ok (e0, t0)"
    "name = ''decimal_mul'' \<or> name = ''decimal_div'' \<longrightarrow>
       (\<exists>right p1 s1 e1 t1. inferred_argument infs 1 = Ok (Some right) \<and> underlying c right = Ok (TDecimal p1 s1) \<and> 1 < length binders \<and>
         (binders ! 1) (Some right) = Ok (e1, t1) \<and> arguments' = arguments[0 := e0, 1 := e1])"
    "\<not> (name = ''decimal_mul'' \<or> name = ''decimal_div'') \<longrightarrow> arguments' = arguments[0 := e0]"
proof -
  have ij: "(if name = ''decimal_mul'' \<or> name = ''decimal_div'' then (2, 3) else (1, 2)) = (i, j)"
    using assms(2) by (simp add: decimal_positions_def)
  from assms(1) obtain p q input args0 u1 u2 where a: "builtin_scalar_arity name = Some (length arguments)"
    "literal_argument arguments i = Ok p" "literal_argument arguments j = Ok q" "decimal_target_type p q = Ok ty"
    "(if name \<in> {''decimal_round'', ''decimal_mul'', ''decimal_div''}
      then and_then (literal_argument arguments (j + 1)) (\<lambda>e. map_ok (\<lambda>_. ()) (decimal_rounding_of e)) else Ok ()) = Ok u1"
    "(if name = ''int_to_decimal'' then Ok TInt else if name = ''decimal_parse'' then Ok TText
      else and_then (inferred_argument infs 0) (ok_or E_TYPE)) = Ok input"
    "(if name \<noteq> ''decimal_parse'' \<and> name \<noteq> ''int_to_decimal''
      then and_then (underlying c input) (\<lambda>u. check (is_decimal_type u) E_TYPE) else Ok ()) = Ok u2"
    "bind_argument binders 0 input arguments = Ok args0"
    "(if name = ''decimal_mul'' \<or> name = ''decimal_div''
      then and_then (inferred_argument infs 1) (\<lambda>r. and_then (ok_or E_TYPE r) (\<lambda>right. and_then (underlying c right) (\<lambda>u.
             and_then (check (is_decimal_type u) E_TYPE) (\<lambda>_. bind_argument binders 1 right args0))))
      else Ok args0) = Ok arguments'"
    unfolding bind_decimal_call_def Let_def ij prod.case and_then_Ok_iff if_Err_eq_Ok ok_or_Ok_iff result.inject prod.inject
    by (elim exE conjE, hypsubst) (rule that; (assumption | simp only: not_not))
  from a(8) obtain e0 t0 where e0: "0 < length binders" "(binders ! 0) (Some input) = Ok (e0, t0)" "args0 = arguments[0 := e0]"
    by (auto simp: bind_argument_Ok)
  show thesis
  proof (rule that [OF a(1-4) _ _ e0(1,2)]; (intro impI)?)
    show "\<exists>mode. and_then (literal_argument arguments (j + 1)) decimal_rounding_of = Ok mode" if "rounds name"
      using a(5) that by (auto simp: rounds_def result_simps split: if_split_asm)
    show "decimal_input c name infs input"
      using a(6,7) unfolding decimal_input_def by (auto simp: result_simps is_decimal_type_iff split: if_split_asm)
    show "\<exists>right p1 s1 e1 t1. inferred_argument infs 1 = Ok (Some right) \<and> underlying c right = Ok (TDecimal p1 s1) \<and> 1 < length binders \<and>
         (binders ! 1) (Some right) = Ok (e1, t1) \<and> arguments' = arguments[0 := e0, 1 := e1]"
      if "name = ''decimal_mul'' \<or> name = ''decimal_div''"
      using a(9) e0(3) unfolding if_P [OF that] by (auto simp: result_simps is_decimal_type_iff bind_argument_Ok)
    show "arguments' = arguments[0 := e0]" if "\<not> (name = ''decimal_mul'' \<or> name = ''decimal_div'')"
      using a(9) e0(3) unfolding if_not_P [OF that] by simp
  qed
qed

lemma bind_builtin_Ok:
  assumes "bind_builtin_call name arguments binders = Ok (arguments', ty)" and "length binders = length arguments"
  shows "builtin_scalar_arity name = Some (length arguments)" and "builtin_scalar_result name = Some ty" and "length arguments' = length arguments"
    and "name = ''float_to_int'' \<Longrightarrow> \<exists>mode. and_then (literal_argument arguments 1) float_rounding = Ok mode"
    and "i < length arguments \<Longrightarrow> \<exists>t. (binders ! i) (Some (builtin_scalar_input_type name i)) = Ok (arguments' ! i, t)"
proof -
  from assms(1) obtain u1 where a: "builtin_scalar_arity name = Some (length arguments)" "builtin_scalar_result name = Some ty"
    "(if name = ''float_to_int'' then and_then (literal_argument arguments 1) (\<lambda>e. map_ok (\<lambda>_. ()) (float_rounding e)) else Ok ()) = Ok u1"
    "traverse (\<lambda>(position, binder). map_ok fst (binder (Some (builtin_scalar_input_type name position)))) (zip [0..<length binders] binders) = Ok arguments'"
    unfolding bind_builtin_call_def and_then_Ok_iff if_Err_eq_Ok ok_or_Ok_iff map_ok_Ok_iff prod.inject
    by (elim exE conjE, hypsubst) (rule that; (assumption | simp only: not_not))
  show "builtin_scalar_arity name = Some (length arguments)" "builtin_scalar_result name = Some ty" by fact+
  show "length arguments' = length arguments" using traverse_length [OF a(4)] assms(2) by simp
  show "\<exists>mode. and_then (literal_argument arguments 1) float_rounding = Ok mode" if "name = ''float_to_int''"
    using a(3) that by (auto simp: result_simps)
  show "\<exists>t. (binders ! i) (Some (builtin_scalar_input_type name i)) = Ok (arguments' ! i, t)" if "i < length arguments"
    using a(4) that assms(2) by (auto simp: traverse_Ok_iff list_all2_conv_all_nth map_ok_Ok_iff)
qed


text \<open>Binding an expression at the type inferred for it keeps that type.\<close>

lemma signature_expected:
  assumes "temporal_arithmetic_signature c l op r None = Ok s" and "temporal_arithmetic_signature c l op r expected = Ok s'"
  shows "s' = s"
  using assms unfolding temporal_arithmetic_signature_def Let_def and_then_Ok_iff if_Err_eq_Ok underlying_option_def
  by (auto split: if_split_asm)

lemma bind_inferred:
  assumes "infer_scalar c scope kind e = Ok (Some t)" and "bind_scalar c scope kind e (Some t) = Ok (e', t')"
  shows "t' = t"
proof (cases e)
  case (Call name arguments sp)
  let ?infs = "map (\<lambda>e. infer_scalar c scope kind e) arguments"
  let ?binders = "map (\<lambda>e ex. bind_scalar c scope kind e ex) arguments"
  consider "is_map_scalar_function name" | "\<not> is_map_scalar_function name" "is_temporal_projection name"
    | "\<not> is_map_scalar_function name" "\<not> is_temporal_projection name" "name = ''to_text''"
    | "\<not> is_map_scalar_function name" "\<not> is_temporal_projection name" "name \<noteq> ''to_text''" "is_builtin_scalar_function name"
        "is_decimal_function name"
    | "\<not> is_map_scalar_function name" "\<not> is_temporal_projection name" "name \<noteq> ''to_text''" "is_builtin_scalar_function name"
        "\<not> is_decimal_function name"
    | "\<not> is_builtin_scalar_function name" "name \<noteq> ''to_text''"
    by blast
  then show ?thesis
  proof cases
    case 1
    with assms obtain args where i: "infer_map_call c name ?infs = Ok (Some t)"
      and b: "bind_map_call c name arguments ?infs ?binders = Ok (args, t')"
      unfolding Call infer_scalar.simps bind_scalar.simps Let_def infer_call_def
      by (auto simp: and_then_Ok_iff meets_expected_Ok)
    from b obtain map_ty vt where "inferred_argument ?infs 0 = Ok (Some map_ty)" "underlying c map_ty = Ok (TMap vt)"
      "map_scalar_result name vt = Ok t'" by (rule bind_map_Ok)
    then show ?thesis using i unfolding infer_map_call_def and_then_Ok_iff if_Err_eq_Ok by (auto simp: map_ok_Ok_iff and_then_Ok_iff)
  next
    case 2
    with assms show ?thesis unfolding Call infer_scalar.simps bind_scalar.simps Let_def infer_call_def
      by (auto simp: and_then_Ok_iff)
  next
    case 3
    with assms show ?thesis unfolding Call infer_scalar.simps bind_scalar.simps Let_def infer_call_def
      by (auto simp: and_then_Ok_iff meets_expected_Ok if_Err_eq_Ok)
  next
    case 4
    obtain i j where ij: "decimal_positions name = (i, j)" by fastforce
    from 4 assms obtain args where i: "infer_decimal_call c name arguments ?infs = Ok (Some t)"
      and b: "bind_decimal_call c name arguments ?infs ?binders = Ok (args, t')"
      unfolding Call infer_scalar.simps bind_scalar.simps Let_def infer_call_def
      by (auto simp: and_then_Ok_iff)
    from b ij obtain p q where "literal_argument arguments i = Ok p" "literal_argument arguments j = Ok q" "decimal_target_type p q = Ok t'"
      by (rule bind_decimal_Ok)
    with infer_decimal_Ok [OF i] ij show ?thesis by auto
  next
    case 5
    with assms obtain args where i: "infer_builtin_call name arguments ?infs = Ok (Some t)"
      and b: "bind_builtin_call name arguments ?binders = Ok (args, t')"
      unfolding Call infer_scalar.simps bind_scalar.simps Let_def infer_call_def
      by (auto simp: and_then_Ok_iff meets_expected_Ok)
    from infer_builtin_Ok [OF i] bind_builtin_Ok(2) [OF b] show ?thesis by simp
  next
    case 6
    with assms show ?thesis unfolding Call infer_scalar.simps infer_call_def
      by (simp add: is_builtin_scalar_function_def split: if_split_asm)
  qed
next
  case (Arithmetic l op r ty)
  from assms(1) obtain lt rt sig where i: "infer_scalar c scope kind l = Ok lt" "infer_scalar c scope kind r = Ok rt"
    "temporal_arithmetic_signature c lt op rt None = Ok sig"
    "(case sig of Some (_, _, result) \<Rightarrow> Ok (Some result) | None \<Rightarrow> infer_arithmetic_type c l op r lt rt) = Ok (Some t)"
    by (auto simp: result_simps Arithmetic)
  from assms(2) i(1,2) obtain sig' where s: "temporal_arithmetic_signature c lt op rt (Some t) = Ok sig'"
    by (auto simp: Arithmetic and_then_Ok_iff)
  have "sig' = sig" by (rule signature_expected [OF i(3) s])
  then show ?thesis using assms(2) i s
    by (cases sig) (auto simp: Arithmetic and_then_Ok_iff meets_expected_Ok)
qed (use assms in \<open>auto simp: and_then_Ok_iff map_ok_Ok_iff meets_expected_Ok\<close>)


end
