(* ===== verification/Type_Soundness.thy ===== *)
theory Type_Soundness
  imports Binder_Facts
begin

text \<open>
  Soundness of the type checker of expressions (\<^verbatim>\<open>src/src/expression.rs\<close>): the evaluation of an expression
  that binding accepts yields a value of the type that binding reports, or an error that depends on the values
  (arithmetic overflow, an invalid literal in a text, a limit), never one of the errors that type checking exists
  to exclude.
\<close>

section \<open>Soundness of scalar expressions\<close>

text \<open>
  What an environment promises for a scope: a value of its type for every path that has a type.
\<close>

definition environment_ok :: "catalog \<Rightarrow> column list \<Rightarrow> (string \<Rightarrow> value option) \<Rightarrow> bool" where
  "environment_ok c scope values \<longleftrightarrow>
     (\<forall>path t. field_type c scope path = Ok t \<longrightarrow> (\<exists>v. values path = Some v \<and> has_type c t v))"

text \<open>Evaluations that never yield a value: an operand is a parameter that was not supplied.\<close>

definition never :: "evaluation \<Rightarrow> bool" where
  "never ev \<longleftrightarrow> (\<forall>b. yields (\<lambda>_. False) (ev b))"

definition not_decimal :: "catalog \<Rightarrow> scalar_type option \<Rightarrow> bool" where
  "not_decimal c s \<longleftrightarrow> (\<forall>ty. s = Some ty \<longrightarrow> underlying c ty = Ok TInt \<or> underlying c ty = Ok TFloat)"

definition sound :: "catalog \<Rightarrow> text_functions \<Rightarrow> (string \<Rightarrow> value option) \<Rightarrow> column list \<Rightarrow> string \<Rightarrow> scalar_expression \<Rightarrow> bool" where
  "sound c tf values scope kind e \<longleftrightarrow>
     (\<forall>expected e' t. bind_scalar c scope kind e expected = Ok (e', t) \<longrightarrow> (\<forall>u. expected = Some u \<longrightarrow> type_ok c u) \<longrightarrow>
        type_ok c t \<and> (\<forall>u. expected = Some u \<longrightarrow> compat c t u) \<and> typed_eval c t (evaluate_scalar c tf values e') \<and>
        (\<forall>u p q s. expected = Some u \<longrightarrow> underlying c u = Ok (TDecimal p q) \<longrightarrow> infer_scalar c scope kind e = Ok s \<longrightarrow>
           not_decimal c s \<longrightarrow> never (evaluate_scalar c tf values e')))"

lemma soundI:
  assumes "\<And>expected e' t. bind_scalar c scope kind e expected = Ok (e', t) \<Longrightarrow> (\<And>u. expected = Some u \<Longrightarrow> type_ok c u) \<Longrightarrow>
    type_ok c t \<and> (\<forall>u. expected = Some u \<longrightarrow> compat c t u) \<and> typed_eval c t (evaluate_scalar c tf values e')"
    and "\<And>e' t u p q s. bind_scalar c scope kind e (Some u) = Ok (e', t) \<Longrightarrow> type_ok c u \<Longrightarrow> underlying c u = Ok (TDecimal p q) \<Longrightarrow>
      infer_scalar c scope kind e = Ok s \<Longrightarrow> not_decimal c s \<Longrightarrow> never (evaluate_scalar c tf values e')"
  shows "sound c tf values scope kind e"
  unfolding sound_def
proof (intro allI impI)
  fix expected e' t assume b: "bind_scalar c scope kind e expected = Ok (e', t)" "\<forall>u. expected = Some u \<longrightarrow> type_ok c u"
  have "never (evaluate_scalar c tf values e')" if "expected = Some u" "underlying c u = Ok (TDecimal p q)"
    "infer_scalar c scope kind e = Ok s" "not_decimal c s" for u p q s
    by (rule assms(2) [OF _ _ that(2-4)]) (use b that(1) in simp_all)
  with assms(1) [OF b(1)] b(2)
  show "type_ok c t \<and> (\<forall>u. expected = Some u \<longrightarrow> compat c t u) \<and> typed_eval c t (evaluate_scalar c tf values e') \<and>
    (\<forall>u p q s. expected = Some u \<longrightarrow> underlying c u = Ok (TDecimal p q) \<longrightarrow> infer_scalar c scope kind e = Ok s \<longrightarrow>
      not_decimal c s \<longrightarrow> never (evaluate_scalar c tf values e'))"
    by simp
qed

lemma soundD:
  assumes "sound c tf values scope kind e" "bind_scalar c scope kind e expected = Ok (e', t)" "\<And>u. expected = Some u \<Longrightarrow> type_ok c u"
  shows "type_ok c t" and "expected = Some u \<Longrightarrow> compat c t u" and "typed_eval c t (evaluate_scalar c tf values e')"
    and "expected = Some u \<Longrightarrow> underlying c u = Ok (TDecimal p q) \<Longrightarrow> infer_scalar c scope kind e = Ok s \<Longrightarrow> not_decimal c s \<Longrightarrow>
      never (evaluate_scalar c tf values e')"
proof -
  note sound = assms(1) [unfolded sound_def, rule_format, OF assms(2,3)]
  show "type_ok c t" and "expected = Some u \<Longrightarrow> compat c t u" and "typed_eval c t (evaluate_scalar c tf values e')"
    and "expected = Some u \<Longrightarrow> underlying c u = Ok (TDecimal p q) \<Longrightarrow> infer_scalar c scope kind e = Ok s \<Longrightarrow> not_decimal c s \<Longrightarrow>
      never (evaluate_scalar c tf values e')"
    using sound by simp_all
qed

lemma compat_same: "same_type t u \<Longrightarrow> compat c t u"
  by (simp add: compat_def)

lemma never_typed: "never ev \<Longrightarrow> typed_eval c t ev"
  unfolding never_def typed_eval_def by (blast intro: yields_mono)

text \<open>A type over a decimal is only equal to itself.\<close>

lemma same_decimal: "same_type t u \<Longrightarrow> underlying c u = Ok (TDecimal p q) \<Longrightarrow> t = u"
  using underlying_not_ref [of c u "TDecimal p q"] by auto

lemma not_decimal_other: "not_decimal c (Some u) \<Longrightarrow> underlying c u \<noteq> Ok (TDecimal p q)"
  by (auto simp: not_decimal_def)

lemma sound_Reference:
  assumes "types_ok c" "scope_ok c scope" "environment_ok c scope values"
  shows "sound c tf values scope kind (Reference path)"
proof (rule soundI)
  fix expected e' t assume "bind_scalar c scope kind (Reference path) expected = Ok (e', t)"
  then have t: "field_type c scope path = Ok t" "e' = Reference path" "\<forall>u. expected = Some u \<longrightarrow> same_type t u"
    by (auto simp: and_then_Ok_iff meets_expected_Ok reference_type_Ok)
  then show "type_ok c t \<and> (\<forall>u. expected = Some u \<longrightarrow> compat c t u) \<and> typed_eval c t (evaluate_scalar c tf values e')"
    using field_type_ok [OF assms(1,2)] assms(3) by (auto simp: compat_same typed_eval_def environment_ok_def)
next
  fix e' t u p q s
  assume "bind_scalar c scope kind (Reference path) (Some u) = Ok (e', t)" "underlying c u = Ok (TDecimal p q)"
    "infer_scalar c scope kind (Reference path) = Ok s" "not_decimal c s"
  then have "s = Some u"
    by (auto simp: and_then_Ok_iff meets_expected_Ok reference_type_Ok map_ok_Ok_iff dest: same_decimal)
  then show "never (evaluate_scalar c tf values e')"
    using \<open>not_decimal c s\<close> \<open>underlying c u = _\<close> not_decimal_other by blast
qed

lemma sound_Parameter:
  assumes "expression_ok c (Parameter name ty)"
  shows "sound c tf values scope kind (Parameter name ty)"
proof (rule soundI)
  fix expected e' t assume "bind_scalar c scope kind (Parameter name ty) expected = Ok (e', t)" "\<And>u. expected = Some u \<Longrightarrow> type_ok c u"
  then show "type_ok c t \<and> (\<forall>u. expected = Some u \<longrightarrow> compat c t u) \<and> typed_eval c t (evaluate_scalar c tf values e')"
    using assms by (auto simp: meets_expected_Ok compat_same typed_eval_def split: option.split_asm)
qed (auto simp: meets_expected_Ok never_def split: option.split_asm)

text \<open>Only decimals, under their nominal wrappers, coerce to a decimal.\<close>

lemma coerce_to_decimal:
  "underlying_loop c n t = Ok (TDecimal p q) \<Longrightarrow> coerce_inner c v t d = Ok w \<Longrightarrow> (\<exists>x. v = VDecimal x) \<or> (\<exists>i x. v = VNamed i x \<and> t = TRef i)"
proof (induction n arbitrary: t v d w)
  case (Suc n)
  have d: "d < MAX_DEPTH" using Suc.prems(2) coerce_limit [of d c v t] by (cases "MAX_DEPTH \<le> d") auto
  show ?case
  proof (cases "\<exists>i. t = TRef i")
    case True
    with Suc.prems d obtain i def raw w' where i: "t = TRef i" "coerce_raw def i v = Ok raw" "underlying_loop c n (def_ty def) = Ok (TDecimal p q)"
      "coerce_inner c raw (def_ty def) (Suc d) = Ok w'"
      by (auto simp: coerce_ref result_simps)
    from Suc.IH [OF i(3,4)] i(1,2) show ?thesis
      by (auto simp: coerce_raw_def split: if_split_asm "value.split_asm")
  next
    case False
    then have "t = TDecimal p q" using Suc.prems(1) by (cases t) auto
    then show ?thesis using Suc.prems(2) d by (auto simp: coerce_leaf)
  qed
qed simp

lemma sound_Literal:
  assumes "types_ok c" "expression_ok c (Literal v)"
  shows "sound c tf values scope kind (Literal v)"
proof (rule soundI)
  fix expected e' t assume a: "bind_scalar c scope kind (Literal v) expected = Ok (e', t)" "\<And>u. expected = Some u \<Longrightarrow> type_ok c u"
  show "type_ok c t \<and> (\<forall>u. expected = Some u \<longrightarrow> compat c t u) \<and> typed_eval c t (evaluate_scalar c tf values e')"
  proof (cases expected)
    case None
    then show ?thesis using a assms(2) by (auto simp: result_simps meets_expected_Ok typed_eval_def)
  next
    case (Some u)
    with a obtain w where w: "coerce c v u = Ok w" "e' = Literal w" "t = u" "same_type u u"
      by (auto simp: result_simps meets_expected_Ok)
    moreover have "has_type c u w"
      using coerce_inner_conforms [OF assms(1)] w(1) a(2) [OF Some] assms(2) by (auto simp: coerce_def conforms_def)
    ultimately show ?thesis using Some a(2) by (auto simp: typed_eval_def compat_same)
  qed
next
  fix e' t u p q s
  assume a: "bind_scalar c scope kind (Literal v) (Some u) = Ok (e', t)" "underlying c u = Ok (TDecimal p q)"
    "infer_scalar c scope kind (Literal v) = Ok s" "not_decimal c s"
  from a(1) obtain w where "coerce_inner c v u 0 = Ok w" by (auto simp: result_simps coerce_def)
  with coerce_to_decimal a(2) have "(\<exists>x. v = VDecimal x) \<or> (\<exists>i x. v = VNamed i x \<and> u = TRef i)" by (auto simp: underlying_def)
  then show "never (evaluate_scalar c tf values e')"
    using a(2-4) by (auto simp: not_decimal_def underlying_leaf)
qed

lemma sound_Ascribed:
  assumes "types_ok c" "type_ok c ty" and e: "sound c tf values scope kind e"
  shows "sound c tf values scope kind (Ascribed e ty)"
proof (rule soundI)
  fix expected e' t assume "bind_scalar c scope kind (Ascribed e ty) expected = Ok (e', t)"
  then obtain e1 t1 where b: "bind_scalar c scope kind e (Some ty) = Ok (e1, t1)" "e' = Ascribed e1 ty" "t = ty"
    "\<forall>u. expected = Some u \<longrightarrow> same_type ty u"
    by (auto simp: and_then_Ok_iff meets_expected_Ok)
  note s = soundD [OF e b(1)]
  have "type_ok c t1" "compat c t1 ty" "typed_eval c t1 (evaluate_scalar c tf values e1)" using s(1-3) assms(2) by auto
  then have "typed_eval c ty (evaluate_scalar c tf values e')"
    unfolding b(2) typed_eval_def evaluate_scalar.simps
    by (intro allI on_value_typed [where t = t1 and c = c] gives_returns compat_coerce [OF assms(1) _ _ assms(2)]) (auto simp: typed_eval_def)
  with b assms(2) show "type_ok c t \<and> (\<forall>u. expected = Some u \<longrightarrow> compat c t u) \<and> typed_eval c t (evaluate_scalar c tf values e')"
    by (auto simp: compat_same)
next
  fix e' t u p q s
  assume a: "bind_scalar c scope kind (Ascribed e ty) (Some u) = Ok (e', t)" "underlying c u = Ok (TDecimal p q)"
    "infer_scalar c scope kind (Ascribed e ty) = Ok s" "not_decimal c s"
  then have "s = Some u" by (auto simp: and_then_Ok_iff meets_expected_Ok dest: same_decimal)
  then show "never (evaluate_scalar c tf values e')" using a not_decimal_other by blast
qed


section \<open>Arithmetic\<close>

text \<open>Decimal arithmetic computes with the full precision; the result is then coerced to its type.\<close>

definition widened :: "scalar_type \<Rightarrow> scalar_type" where
  "widened u = (case u of TDecimal p s \<Rightarrow> TDecimal 38 s | _ \<Rightarrow> u)"

lemma widened_simps [simp]:
  "widened TInt = TInt" "widened TFloat = TFloat" "widened TDuration = TDuration" "widened TTimestamp = TTimestamp"
  "widened (TDecimal p s) = TDecimal 38 s"
  by (simp_all add: widened_def)

lemma coerce_decimal_dynamic: "underlying_loop c n b = Ok (TDecimal p q) \<Longrightarrow> dynamic (coerce_inner c (VDecimal x) b d)"
proof (induction n arbitrary: b d)
  case (Suc n)
  show ?case
  proof (cases "d < MAX_DEPTH")
    case d: True
    show ?thesis
    proof (cases "\<exists>i. b = TRef i")
      case True
      with Suc.prems obtain i def where "b = TRef i" "definition_of c i = Ok def" "underlying_loop c n (def_ty def) = Ok (TDecimal p q)"
        by (auto simp: result_simps)
      then show ?thesis using d Suc.IH by (simp add: coerce_at_ref coerce_raw_def)
    next
      case False
      then have "b = TDecimal p q" using Suc.prems by (cases b) auto
      then show ?thesis using d by (subst coerce_inner.simps) simp
    qed
  qed (simp add: coerce_limit)
qed simp

lemma widened_coerce:
  assumes "types_ok c" "type_ok c t" "underlying c t = Ok u" "leaf u" "has_type c (widened u) x"
  shows "yields (has_type c t) (coerce_arithmetic_result c (Some t) x)"
proof -
  have dyn: "dynamic (coerce c x t)"
  proof (cases "\<exists>p s. u = TDecimal p s")
    case True
    then show ?thesis using assms(3,5) coerce_decimal_dynamic by (auto simp: coerce_def underlying_def)
  next
    case False
    then have "widened u = u" by (cases u) (auto simp: widened_def)
    then show ?thesis using assms(3-5) coerce_leaf_dynamic by (auto simp: coerce_def underlying_def)
  qed
  have "type_ok c u" using underlying_type(3) [OF assms(3,1,2)] .
  then have "type_ok c (widened u)" using assms(5)
    by (cases u) (auto simp: widened_def dest: valid_of_ok)
  then have "value_ok x" using has_type_ok [OF assms(1,5)] by blast
  then have "has_type c t y" if "coerce c x t = Ok y" for y
    using coerce_inner_conforms [OF assms(1)] assms(2) that by (auto simp: coerce_def conforms_def)
  with dyn show ?thesis unfolding coerce_arithmetic_result_def
    by (cases "coerce c x t") (auto split: scalar_type.splits)
qed

lemma decimal_new_full: "decimal_new n 38 s = Ok d \<Longrightarrow> decimal_ok 38 s d"
  by (simp add: decimal_new_iff)

lemma checked_yields: "yields in_i64 (ok_or E_ARITH (checked_i64 n))"
  by (simp add: checked_i64_def)

lemma negate_typed:
  assumes "has_type c u v" "u = TInt \<or> u = TFloat \<or> u = TDuration \<or> (\<exists>p s. u = TDecimal p s)"
  shows "yields (has_type c (widened u)) (evaluate_negate v)"
proof -
  have "yields (decimal_ok 38 s) (decimal_checked_neg d)" if "decimal_ok p s d" for p s d
  proof (rule yieldsI)
    show "decimal_ok 38 s x" if "decimal_checked_neg d = Ok x" for x
      using that \<open>decimal_ok p s d\<close> by (auto simp: decimal_checked_neg_def result_simps decimal_new_iff decimal_ok_def)
  qed simp
  then show ?thesis using assms finite_float_yields checked_yields by (auto simp: evaluate_negate_def)
qed

lemma decimal_add_yields:
  assumes "decimal_ok p s d" "decimal_ok p s e"
  shows "yields (decimal_ok 38 s) (decimal_checked_add d e)" and "yields (decimal_ok 38 s) (decimal_checked_sub d e)"
proof -
  have sc: "scale d = s" "scale e = s" using assms by (simp_all add: decimal_ok_def)
  show "yields (decimal_ok 38 s) (decimal_checked_add d e)" "yields (decimal_ok 38 s) (decimal_checked_sub d e)"
    unfolding decimal_checked_add_def decimal_checked_sub_def sc
    by (rule yieldsI; auto simp: result_simps decimal_new_iff intro!: dynamic_intros dynamic_map_err_const)+
qed

lemma arithmetic_typed:
  assumes v: "has_type c u (unwrapped v)" "has_type c u (unwrapped w)"
    and u: "u = TInt \<or> u = TFloat \<or> (\<exists>p s. u = TDecimal p s \<and> op \<in> {Add, Subtract})"
  shows "yields (has_type c (widened u)) (evaluate_arithmetic v op w)"
  using u
proof (elim disjE exE conjE)
  assume "u = TInt"
  then show ?thesis using v checked_yields by (cases op) (auto simp: evaluate_arithmetic_def)
next
  assume "u = TFloat"
  then show ?thesis using v finite_float_yields [of c] by (cases op) (auto simp: evaluate_arithmetic_def)
next
  fix p s assume "u = TDecimal p s" "op \<in> {Add, Subtract}"
  then show ?thesis using v decimal_add_yields by (auto simp: evaluate_arithmetic_def)
qed

lemma temporal_arithmetic_typed:
  assumes "(lt, rt, t) \<in> {(TDuration, TDuration, TDuration), (TTimestamp, TDuration, TTimestamp), (TTimestamp, TTimestamp, TDuration)}"
    "op \<in> {Add, Subtract}" "(lt, rt) = (TTimestamp, TTimestamp) \<Longrightarrow> op = Subtract"
    and "has_type c lt (unwrapped v)" "has_type c rt (unwrapped w)"
  shows "yields (has_type c (widened t)) (evaluate_arithmetic v op w)"
proof -
  have micros: "yields timestamp_ok (timestamp_from_epoch_microseconds n)" for n
    using temporal_results(1) by (auto simp: yields_iff)
  have shift: "yields timestamp_ok (and_then (ok_or E_ARITH (checked_i64 n)) timestamp_from_epoch_microseconds)" for n
    by (rule yields_and_then [OF checked_yields]) (rule micros)
  have map: "and_then r (\<lambda>t. map_ok VTimestamp (f t)) = map_ok VTimestamp (and_then r f)" for r :: "int result" and f
    by (cases r) simp_all
  consider "lt = TDuration" "rt = TDuration" "t = TDuration" | "lt = TTimestamp" "rt = TDuration" "t = TTimestamp"
    | "lt = TTimestamp" "rt = TTimestamp" "t = TDuration" "op = Subtract"
    using assms(1,3) by auto
  then show ?thesis
    using assms(2,4,5) checked_yields shift by cases (auto simp: evaluate_arithmetic_def map)
qed

section \<open>Operators\<close>

lemma on_value_never: "yields (\<lambda>_. False) r \<Longrightarrow> yields P (on_value a r f)"
  by (cases r) (simp_all add: on_value_def)

lemma never_operand:
  assumes "typed_under c u (evaluate_scalar c tf values l)" "typed_under c u (evaluate_scalar c tf values r)"
    and "never (evaluate_scalar c tf values l) \<or> never (evaluate_scalar c tf values r)"
  shows "never (evaluate_scalar c tf values (Arithmetic l op r ty))"
  using assms(3)
proof
  assume "never (evaluate_scalar c tf values l)"
  then show ?thesis by (simp add: never_def on_value_never)
next
  assume "never (evaluate_scalar c tf values r)"
  then show ?thesis unfolding never_def evaluate_scalar.simps
    by (intro allI on_value_under [OF assms(1)] on_value_never) blast
qed

lemma multiply_inferred:
  assumes "infer_arithmetic_type c l op r li ri = Ok inferred" "op = Multiply \<or> op = Divide"
  shows "not_decimal c inferred"
proof (cases inferred)
  case (Some ty)
  from assms Some have "\<exists>u. underlying c ty = Ok u \<and> \<not> is_decimal_type u" "require_numeric c ty = Ok ()"
    unfolding infer_arithmetic_type_def by (auto simp: and_then_Ok_iff check_Ok_iff)
  then show ?thesis using numeric_leaf(1) [of c ty] Some by (auto simp: not_decimal_def is_decimal_type_iff)
qed (simp add: not_decimal_def)

lemma sound_Length:
  assumes "types_ok c" and e: "sound c tf values scope kind e"
  shows "sound c tf values scope kind (Length e)"
proof (rule soundI)
  fix expected e' t assume "bind_scalar c scope kind (Length e) expected = Ok (e', t)"
  then obtain e1 t1 u where b: "bind_scalar c scope kind e None = Ok (e1, t1)" "underlying c t1 = Ok u" "has_length u"
    "e' = Length e1" "t = TInt" "\<forall>u. expected = Some u \<longrightarrow> same_type TInt u"
    by (auto simp: and_then_Ok_iff meets_expected_Ok check_Ok_iff)
  have "typed_under c u (evaluate_scalar c tf values e1)" using typed_underI [OF soundD(3) [OF e b(1)] b(2)] by simp
  moreover have len: "length_of x \<noteq> None" if "has_type c u (unwrapped x)" for x
    using that b(3) by (cases u) (auto simp: has_length_def length_of_def)
  have "gives c TInt (case length_of x of None \<Rightarrow> Ok (None, b')
      | Some n \<Rightarrow> returns (map_ok VInt (ok_or E_LIMIT (checked_i64 (int n)))) b')" if "has_type c u (unwrapped x)" for x b'
    using that len [OF that] by (cases "length_of x") (auto simp: checked_i64_def)
  ultimately have "typed_eval c TInt (evaluate_scalar c tf values e')"
    unfolding b(4) typed_eval_def evaluate_scalar.simps
    by (intro allI on_value_under [where u = u and c = c]) blast+
  with b show "type_ok c t \<and> (\<forall>u. expected = Some u \<longrightarrow> compat c t u) \<and> typed_eval c t (evaluate_scalar c tf values e')"
    by (auto simp: compat_same)
next
  fix e' t u p q s
  assume "bind_scalar c scope kind (Length e) (Some u) = Ok (e', t)" "underlying c u = Ok (TDecimal p q)"
  then show "never (evaluate_scalar c tf values e')"
    by (auto simp: and_then_Ok_iff meets_expected_Ok check_Ok_iff underlying_leaf dest: same_decimal)
qed

lemma sound_Negate:
  assumes "types_ok c" "scope_ok c scope" "expression_ok c e" and e: "sound c tf values scope kind e"
  shows "sound c tf values scope kind (Negate e ty)"
proof (rule soundI)
  fix expected e' t assume a: "bind_scalar c scope kind (Negate e ty) expected = Ok (e', t)" "\<And>u. expected = Some u \<Longrightarrow> type_ok c u"
  then obtain inferred e1 t1 where b: "infer_scalar c scope kind e = Ok inferred" "(case expected of Some t \<Rightarrow> Some t | None \<Rightarrow> inferred) = Some t"
    "require_negatable c t = Ok ()" "bind_scalar c scope kind e (Some t) = Ok (e1, t1)" "e' = Negate e1 (Some t)" "\<forall>u. expected = Some u \<longrightarrow> same_type t u"
    by (auto simp: and_then_Ok_iff meets_expected_Ok ok_or_Ok_iff)
  have t: "type_ok c t"
    using b(1,2) a(2) infer_ok [OF assms(1,2) _ assms(3)] by (auto split: option.split_asm)
  from numeric_leaf(2) [OF b(3)] obtain u where u: "underlying c t = Ok u" "u = TInt \<or> u = TFloat \<or> u = TDuration \<or> (\<exists>p s. u = TDecimal p s)"
    by blast
  then have "leaf u" by auto
  have "compat c t1 t" using soundD(2) [OF e b(4)] t by simp
  then have "underlying c t1 = Ok u" by (rule compat_leaf [OF _ u(1) \<open>leaf u\<close>])
  with soundD(3) [OF e b(4)] t have ev: "typed_under c u (evaluate_scalar c tf values e1)" by (simp add: typed_underI)
  have "yields (has_type c t) (and_then (evaluate_negate x) (coerce_arithmetic_result c (Some t)))" if "has_type c u (unwrapped x)" for x
  proof (rule yields_and_then)
    have "evaluate_negate x = evaluate_negate (unwrapped x)" using that u(2) by (auto simp: evaluate_negate_def)
    then show "yields (has_type c (widened u)) (evaluate_negate x)" using negate_typed [OF that u(2)] by simp
  qed (rule widened_coerce [OF assms(1) t u(1) \<open>leaf u\<close>])
  then have "typed_eval c t (evaluate_scalar c tf values e')"
    unfolding b(5) typed_eval_def evaluate_scalar.simps by (intro allI on_value_under [OF ev] gives_returns)
  with t b(6) show "type_ok c t \<and> (\<forall>u. expected = Some u \<longrightarrow> compat c t u) \<and> typed_eval c t (evaluate_scalar c tf values e')"
    by (auto simp: compat_same)
next
  fix e' t u p q s
  assume a: "bind_scalar c scope kind (Negate e ty) (Some u) = Ok (e', t)" "type_ok c u" "underlying c u = Ok (TDecimal p q)"
    "infer_scalar c scope kind (Negate e ty) = Ok s" "not_decimal c s"
  then obtain e1 t1 where b: "infer_scalar c scope kind e = Ok s" "bind_scalar c scope kind e (Some u) = Ok (e1, t1)" "e' = Negate e1 (Some u)"
    by (auto simp: and_then_Ok_iff meets_expected_Ok ok_or_Ok_iff)
  have "never (evaluate_scalar c tf values e1)" using soundD(4) [OF e b(2) _ _ a(3) b(1) a(5)] a(2) by simp
  then show "never (evaluate_scalar c tf values e')"
    unfolding b(3) never_def evaluate_scalar.simps by (simp add: on_value_never)
qed


lemma sound_Arithmetic:
  assumes c: "types_ok c" "scope_ok c scope" and ok: "expression_ok c l" "expression_ok c r"
    and l: "sound c tf values scope kind l" and r: "sound c tf values scope kind r"
  shows "sound c tf values scope kind (Arithmetic l op r ty)"
proof (rule soundI)
  fix expected e' t assume a: "bind_scalar c scope kind (Arithmetic l op r ty) expected = Ok (e', t)" "\<And>u. expected = Some u \<Longrightarrow> type_ok c u"
  then obtain li ri sig where i: "infer_scalar c scope kind l = Ok li" "infer_scalar c scope kind r = Ok ri"
    "temporal_arithmetic_signature c li op ri expected = Ok sig" by (auto simp: and_then_Ok_iff)
  show "type_ok c t \<and> (\<forall>u. expected = Some u \<longrightarrow> compat c t u) \<and> typed_eval c t (evaluate_scalar c tf values e')"
  proof (cases sig)
    case (Some s)
    obtain lt rt result where s: "sig = Some (lt, rt, result)" using Some by (cases s) auto
    note sig = temporal_signature_ok [OF i(3) [unfolded s]]
    have leaf: "leaf lt" "leaf rt" "leaf result" "type_ok c lt" "type_ok c rt" "type_ok c result" using sig(1) by auto
    from a(1) i s leaf(3) obtain l1 r1 t1 t2 where b: "bind_scalar c scope kind l (Some lt) = Ok (l1, t1)" "bind_scalar c scope kind r (Some rt) = Ok (r1, t2)"
      "e' = Arithmetic l1 op r1 (Some result)" "t = result" "\<forall>u. expected = Some u \<longrightarrow> underlying c u = Ok result"
      by (auto simp: and_then_Ok_iff fresh_Ok)
    have "t1 = lt" "t2 = rt"
      using compat_leaf_eq [OF soundD(2) [OF l b(1) _ refl] leaf(1)] compat_leaf_eq [OF soundD(2) [OF r b(2) _ refl] leaf(2)] leaf(4,5) by simp_all
    then have ev: "typed_under c lt (evaluate_scalar c tf values l1)" "typed_under c rt (evaluate_scalar c tf values r1)"
      using soundD(3) [OF l b(1)] soundD(3) [OF r b(2)] leaf underlying_leaf by (auto intro: typed_underI)
    have "yields (has_type c result) (and_then (evaluate_arithmetic x op y) (coerce_arithmetic_result c (Some result)))"
      if "has_type c lt (unwrapped x)" "has_type c rt (unwrapped y)" for x y
      by (rule yields_and_then [OF temporal_arithmetic_typed [OF sig that] widened_coerce [OF c(1) leaf(6) underlying_leaf [OF leaf(3)] leaf(3)]])
    then have "typed_eval c t (evaluate_scalar c tf values e')"
      unfolding b(3,4) typed_eval_def evaluate_scalar.simps by (intro allI on_value_under [OF ev(1)] on_value_under [OF ev(2)] gives_returns)
    then show ?thesis using b leaf by (auto simp: compat_def)
  next
    case None
    with a(1) i obtain inferred l1 r1 t1 t2 where b: "infer_arithmetic_type c l op r li ri = Ok inferred"
      "(case expected of Some t \<Rightarrow> Some t | None \<Rightarrow> inferred) = Some t" "require_numeric c t = Ok ()"
      "bind_scalar c scope kind l (Some t) = Ok (l1, t1)" "bind_scalar c scope kind r (Some t) = Ok (r1, t2)"
      "e' = Arithmetic l1 op r1 (Some t)" "\<forall>u. expected = Some u \<longrightarrow> same_type t u"
      by (auto simp: and_then_Ok_iff meets_expected_Ok ok_or_Ok_iff)
    have inferred: "inferred = None \<and> li = None \<or> (inferred = li \<or> inferred = ri) \<and> inferred \<noteq> None"
      using b(1) unfolding infer_arithmetic_type_def by (auto simp: result_simps split: option.split_asm if_split_asm)
    have t: "type_ok c t"
      using b(2) a(2) i inferred infer_ok [OF c _ ok(1)] infer_ok [OF c _ ok(2)] by (auto split: option.split_asm)
    from numeric_leaf(1) [OF b(3)] obtain u where u: "underlying c t = Ok u" "u = TInt \<or> u = TFloat \<or> (\<exists>p s. u = TDecimal p s)" by blast
    then have "leaf u" by auto
    have "underlying c t1 = Ok u" "underlying c t2 = Ok u"
      using compat_leaf [OF soundD(2) [OF l b(4)] u(1) \<open>leaf u\<close>] compat_leaf [OF soundD(2) [OF r b(5)] u(1) \<open>leaf u\<close>] t by simp_all
    then have ev: "typed_under c u (evaluate_scalar c tf values l1)" "typed_under c u (evaluate_scalar c tf values r1)"
      using soundD(3) [OF l b(4)] soundD(3) [OF r b(5)] t by (auto intro: typed_underI)
    have "typed_eval c t (evaluate_scalar c tf values e')"
    proof (cases "(\<exists>p s. u = TDecimal p s) \<and> op \<notin> {Add, Subtract}")
      case False
      have "yields (has_type c t) (and_then (evaluate_arithmetic x op y) (coerce_arithmetic_result c (Some t)))"
        if "has_type c u (unwrapped x)" "has_type c u (unwrapped y)" for x y
        by (rule yields_and_then [OF arithmetic_typed [OF that] widened_coerce [OF c(1) t u(1) \<open>leaf u\<close>]]) (use u(2) False in blast)
      then show ?thesis
        unfolding b(6) typed_eval_def evaluate_scalar.simps by (intro allI on_value_under [OF ev(1)] on_value_under [OF ev(2)] gives_returns)
    next
      case True
      then obtain p q where dec: "u = TDecimal p q" "op = Multiply \<or> op = Divide" by (cases op) auto
      have nd: "not_decimal c inferred" using multiply_inferred [OF b(1) dec(2)] .
      have "never (evaluate_scalar c tf values e')"
        unfolding b(6)
        by (rule never_operand [OF ev], rule disjE [OF inferred])
          (use nd soundD(4) [OF l b(4) _ refl u(1) [unfolded dec(1)] i(1)] soundD(4) [OF r b(5) _ refl u(1) [unfolded dec(1)] i(2)] t
           in \<open>auto simp: not_decimal_def\<close>)
      then show ?thesis by (rule never_typed)
    qed
    then show ?thesis using t b(7) by (auto simp: compat_same)
  qed
next
  fix e' t u p q s
  assume a: "bind_scalar c scope kind (Arithmetic l op r ty) (Some u) = Ok (e', t)" "type_ok c u" "underlying c u = Ok (TDecimal p q)"
    "infer_scalar c scope kind (Arithmetic l op r ty) = Ok s" "not_decimal c s"
  then obtain li ri sig sig' where i: "infer_scalar c scope kind l = Ok li" "infer_scalar c scope kind r = Ok ri"
    "temporal_arithmetic_signature c li op ri (Some u) = Ok sig" "temporal_arithmetic_signature c li op ri None = Ok sig'"
    by (auto simp: and_then_Ok_iff)
  have "sig = sig'" by (rule signature_expected [OF i(4,3)])
  have sig: "sig = None"
  proof (rule ccontr)
    assume "sig \<noteq> None"
    then obtain lt rt result where s: "sig = Some (lt, rt, result)" by (cases sig) auto
    then have "result \<in> {TDuration, TTimestamp}" "leaf result" using temporal_signature_ok(1) [OF i(3) [unfolded s]] by auto
    moreover have "underlying c u = Ok result" using a(1) i s \<open>leaf result\<close> by (auto simp: and_then_Ok_iff fresh_Ok)
    ultimately show False using a(3) by auto
  qed
  with a i \<open>sig = sig'\<close> obtain l1 r1 t1 t2 where b: "infer_arithmetic_type c l op r li ri = Ok s"
    "bind_scalar c scope kind l (Some u) = Ok (l1, t1)" "bind_scalar c scope kind r (Some u) = Ok (r1, t2)" "e' = Arithmetic l1 op r1 (Some u)"
    by (auto simp: and_then_Ok_iff meets_expected_Ok ok_or_Ok_iff)
  have inferred: "s = None \<and> li = None \<or> (s = li \<or> s = ri) \<and> s \<noteq> None"
    using b(1) unfolding infer_arithmetic_type_def by (auto simp: result_simps split: option.split_asm if_split_asm)
  have "underlying c t1 = Ok (TDecimal p q)" "underlying c t2 = Ok (TDecimal p q)"
    using compat_leaf [OF soundD(2) [OF l b(2)] a(3)] compat_leaf [OF soundD(2) [OF r b(3)] a(3)] a(2) by simp_all
  then have ev: "typed_under c (TDecimal p q) (evaluate_scalar c tf values l1)" "typed_under c (TDecimal p q) (evaluate_scalar c tf values r1)"
    using soundD(3) [OF l b(2)] soundD(3) [OF r b(3)] a(2) by (auto intro: typed_underI)
  show "never (evaluate_scalar c tf values e')"
    unfolding b(4)
    by (rule never_operand [OF ev], rule disjE [OF inferred])
      (use a soundD(4) [OF l b(2) _ refl a(3) i(1)] soundD(4) [OF r b(3) _ refl a(3) i(2)] in \<open>auto simp: not_decimal_def\<close>)
qed


section \<open>Calls\<close>

lemma nth_evaluations: "i < length es \<Longrightarrow> map (\<lambda>e b. evaluate_scalar c tf values e b) es ! i = evaluate_scalar c tf values (es ! i)"
  by simp

text \<open>The arguments of a call: each is sound, and binding one in place gives a typed evaluation.\<close>

definition sound_arguments :: "catalog \<Rightarrow> text_functions \<Rightarrow> (string \<Rightarrow> value option) \<Rightarrow> column list \<Rightarrow> string \<Rightarrow> scalar_expression list \<Rightarrow> bool" where
  "sound_arguments c tf values scope kind es \<longleftrightarrow> (\<forall>e \<in> set es. expression_ok c e \<and> sound c tf values scope kind e)"

lemma bound_inferred:
  assumes c: "types_ok c" "scope_ok c scope" and es: "sound_arguments c tf values scope kind es"
    and i: "inferred_argument (map (\<lambda>e. infer_scalar c scope kind e) es) i = Ok (Some t)"
    and b: "(map (\<lambda>e ex. bind_scalar c scope kind e ex) es ! i) (Some t) = Ok (e', t')"
    and u: "underlying c t = Ok u"
  shows "type_ok c t" and "typed_under c u (evaluate_scalar c tf values e')"
proof -
  have n: "i < length es" and inf: "infer_scalar c scope kind (es ! i) = Ok (Some t)" using i by (auto simp: inferred_argument_def split: if_split_asm)
  have b': "bind_scalar c scope kind (es ! i) (Some t) = Ok (e', t')" using b n by simp
  have s: "expression_ok c (es ! i)" "sound c tf values scope kind (es ! i)" using es n by (simp_all add: sound_arguments_def)
  show t: "type_ok c t" by (rule infer_ok [OF c inf s(1)])
  have "t' = t" by (rule bind_inferred [OF inf b'])
  then show "typed_under c u (evaluate_scalar c tf values e')" using typed_underI [OF soundD(3) [OF s(2) b']] u t by simp
qed

lemma bound_leaf:
  assumes es: "sound_arguments c tf values scope kind es" and n: "i < length es" and t: "type_ok c t" "leaf t"
    and b: "(map (\<lambda>e ex. bind_scalar c scope kind e ex) es ! i) (Some t) = Ok (e', t')"
  shows "typed_under c t (evaluate_scalar c tf values e')"
proof -
  have b': "bind_scalar c scope kind (es ! i) (Some t) = Ok (e', t')" using b n by simp
  have s: "sound c tf values scope kind (es ! i)" using es n by (simp add: sound_arguments_def)
  have "t' = t" using compat_leaf_eq [OF soundD(2) [OF s b' _ refl] t(2)] t(1) by simp
  then show ?thesis using typed_underI [OF soundD(3) [OF s b']] underlying_leaf t by simp
qed

lemma map_arity:
  "is_map_scalar_function name \<Longrightarrow> builtin_scalar_arity name = Some (if name \<in> {''contains_key'', ''get''} then 2 else 1)"
  unfolding is_map_scalar_function_def insert_iff empty_iff
  by (elim disjE; simp add: builtin_scalar_arity_def is_text_predicate_def)

lemma map_call_typed:
  assumes c: "types_ok c" "scope_ok c scope" and es: "sound_arguments c tf values scope kind es" and name: "is_map_scalar_function name"
    and b: "bind_map_call c name es (map (\<lambda>e. infer_scalar c scope kind e) es) (map (\<lambda>e ex. bind_scalar c scope kind e ex) es) = Ok (es', t)"
  shows "type_ok c t" and "typed_eval c t (evaluate_scalar c tf values (Call name es' sp))" and "\<forall>i. t \<noteq> TRef i" and "\<forall>p s. t \<noteq> TDecimal p s"
proof -
  let ?infs = "map (\<lambda>e. infer_scalar c scope kind e) es" and ?binders = "map (\<lambda>e ex. bind_scalar c scope kind e ex) es"
  obtain map_ty vt e0 t0 where m: "inferred_argument ?infs 0 = Ok (Some map_ty)" "underlying c map_ty = Ok (TMap vt)"
    "map_scalar_result name vt = Ok t" "builtin_scalar_arity name = Some (length es)" "0 < length ?binders" "(?binders ! 0) (Some map_ty) = Ok (e0, t0)"
    "length es = 2 \<longrightarrow> 1 < length ?binders \<and> (\<exists>e1 t1. (?binders ! 1) (Some TText) = Ok (e1, t1) \<and> es' = es[0 := e0, 1 := e1])"
    "length es \<noteq> 2 \<longrightarrow> es' = es[0 := e0]"
    using b by (rule bind_map_Ok)
  have arg0: "type_ok c map_ty" "typed_under c (TMap vt) (evaluate_scalar c tf values e0)" using bound_inferred [OF c es m(1,6,2)] by simp_all
  have "type_ok c vt" using underlying_type(3) [OF m(2) c(1) arg0(1)] by simp
  then show "type_ok c t" by (rule map_result_ok [OF m(3)])
  show "\<forall>i. t \<noteq> TRef i" "\<forall>p s. t \<noteq> TDecimal p s" using m(3) by (auto simp: map_scalar_result_def split: if_split_asm)
  have len: "length es' = length es" "0 < length es'" "es' ! 0 = e0" using m(5,7,8) by (cases "length es = 2"; auto)+
  have arity: "name \<in> {''contains_key'', ''get''} \<longleftrightarrow> length es = 2" "name \<notin> {''contains_key'', ''get''} \<longleftrightarrow> length es = 1"
    using map_arity [OF name] m(4) by (simp_all split: if_split_asm)
  let ?evs = "map (\<lambda>e b. evaluate_scalar c tf values e b) es'"
  have "typed_eval c t (map_function name ?evs)"
  proof (rule map_function_typed [OF _ m(3)])
    show "typed_under c (TMap vt) (?evs ! 0)" "0 < length ?evs" using arg0(2) len by (simp_all add: nth_evaluations)
    show "length ?evs = 2 \<and> typed_under c TText (?evs ! 1)" if "name \<in> {''contains_key'', ''get''}"
    proof -
      have two: "length es = 2" using arity(1) that by blast
      from m(7) two obtain e1 t1 where e1: "(?binders ! 1) (Some TText) = Ok (e1, t1)" "es' = es[0 := e0, 1 := e1]" by blast
      have "typed_under c TText (evaluate_scalar c tf values e1)" by (rule bound_leaf [OF es _ _ _ e1(1)]) (simp_all add: two)
      then show ?thesis using e1(2) two by (simp add: nth_evaluations)
    qed
    show "length ?evs = 1" if "name \<notin> {''contains_key'', ''get''}" using arity(2) that len by simp
  qed
  then show "typed_eval c t (evaluate_scalar c tf values (Call name es' sp))"
    using name by (simp add: typed_eval_def)
qed

lemma decimal_call_typed:
  assumes c: "types_ok c" "scope_ok c scope" and es: "sound_arguments c tf values scope kind es"
    and name: "is_decimal_function name"
    and b: "bind_decimal_call c name es (map (\<lambda>e. infer_scalar c scope kind e) es) (map (\<lambda>e ex. bind_scalar c scope kind e ex) es) = Ok (es', t)"
  shows "type_ok c t" and "leaf t" and "typed_eval c t (evaluate_scalar c tf values (Call name es' sp))"
proof -
  let ?infs = "map (\<lambda>e. infer_scalar c scope kind e) es" and ?binders = "map (\<lambda>e ex. bind_scalar c scope kind e ex) es"
  obtain i j where ij: "decimal_positions name = (i, j)" by fastforce
  obtain p q input e0 t0 where d: "builtin_scalar_arity name = Some (length es)"
    "literal_argument es i = Ok p" "literal_argument es j = Ok q" "decimal_target_type p q = Ok t"
    "rounds name \<longrightarrow> (\<exists>mode. and_then (literal_argument es (j + 1)) decimal_rounding_of = Ok mode)"
    "decimal_input c name ?infs input" "0 < length ?binders" "(?binders ! 0) (Some input) = Ok (e0, t0)"
    "name = ''decimal_mul'' \<or> name = ''decimal_div'' \<longrightarrow>
       (\<exists>right p1 s1 e1 t1. inferred_argument ?infs 1 = Ok (Some right) \<and> underlying c right = Ok (TDecimal p1 s1) \<and> 1 < length ?binders \<and>
         (?binders ! 1) (Some right) = Ok (e1, t1) \<and> es' = es[0 := e0, 1 := e1])"
    "\<not> (name = ''decimal_mul'' \<or> name = ''decimal_div'') \<longrightarrow> es' = es[0 := e0]"
    using b ij by (rule bind_decimal_Ok)
  show "type_ok c t" by (rule decimal_target_ok [OF d(4)])
  obtain precision scl where target: "decimal_target p q = Ok (precision, scl)" "t = TDecimal precision scl"
    using d(4) by (auto simp: decimal_target_type_def map_ok_Ok_iff)
  then show "leaf t" by simp
  let ?binary = "name = ''decimal_mul'' \<or> name = ''decimal_div''"
  let ?evs = "map (\<lambda>e b. evaluate_scalar c tf values e b) es'"
  have len: "length es' = length es" "es' ! 0 = e0" using d(7,9,10) by (cases ?binary; auto)+
  have lits: "literal_argument es' k = literal_argument es k" if "k \<ge> (if ?binary then 2 else 1)" for k
    using that d(9,10) len(1) by (cases ?binary) (auto simp: literal_argument_def)
  have ks: "i \<ge> (if ?binary then 2 else 1)" "j \<ge> (if ?binary then 2 else 1)"
    using ij unfolding decimal_positions_def by (cases ?binary; simp)+
  obtain mode where mode: "rounds name \<Longrightarrow> and_then (literal_argument es' (j + 1)) decimal_rounding_of = Ok mode"
    using d(5) lits [of "j + 1"] ks(2) by (cases "rounds name") auto
  have first: "\<exists>p0 s0. typed_under c (if name = ''int_to_decimal'' then TInt else if name = ''decimal_parse'' then TText else TDecimal p0 s0)
      (evaluate_scalar c tf values e0)"
  proof (cases "name = ''int_to_decimal'' \<or> name = ''decimal_parse''")
    case True
    then have "leaf input" "type_ok c input" "input = (if name = ''int_to_decimal'' then TInt else TText)" using d(6) by (auto simp: decimal_input_def)
    then show ?thesis using bound_leaf [OF es _ _ _ d(8)] d(7) True by auto
  next
    case False
    then obtain p0 s0 where "inferred_argument ?infs 0 = Ok (Some input)" "underlying c input = Ok (TDecimal p0 s0)" using d(6) by (auto simp: decimal_input_def)
    then show ?thesis using bound_inferred(2) [OF c es _ d(8)] False by auto
  qed
  then obtain p0 s0 where first: "typed_under c (if name = ''int_to_decimal'' then TInt else if name = ''decimal_parse'' then TText else TDecimal p0 s0)
      (evaluate_scalar c tf values e0)" by blast
  have "\<exists>p1 s1. ?binary \<longrightarrow> 1 < length es' \<and> typed_under c (TDecimal p1 s1) (evaluate_scalar c tf values (es' ! 1))"
  proof (cases ?binary)
    case True
    from d(9) this obtain right p1 s1 e1 t1 where r: "inferred_argument ?infs 1 = Ok (Some right)" "underlying c right = Ok (TDecimal p1 s1)"
      "1 < length ?binders" "(?binders ! 1) (Some right) = Ok (e1, t1)" "es' = es[0 := e0, 1 := e1]" by blast
    then show ?thesis using bound_inferred(2) [OF c es r(1,4,2)] by auto
  qed blast
  then obtain p1 s1 where second: "?binary \<Longrightarrow> 1 < length es' \<and> typed_under c (TDecimal p1 s1) (evaluate_scalar c tf values (es' ! 1))" by blast
  have "gives c t (decimal_function name es' ?evs b)" for b
    unfolding target(2)
    by (rule decimal_function_typed [OF name ij _ _ target(1) mode, where ?p0.0 = p0 and ?s0.0 = s0 and ?p1.0 = p1 and ?s1.0 = s1])
      (use d(2,3,7) lits ks len first second in \<open>simp_all add: nth_evaluations\<close>)
  moreover have "\<not> is_map_scalar_function name" "is_builtin_scalar_function name"
    using name unfolding is_decimal_function_def is_map_scalar_function_def is_builtin_scalar_function_def insert_iff empty_iff by (elim disjE; simp)+
  ultimately show "typed_eval c t (evaluate_scalar c tf values (Call name es' sp))"
    using name by (simp add: typed_eval_def builtin_function_def)
qed


lemma temporal_arguments_bound:
  "temporal_function_arguments name (es[0 := e]) = temporal_function_arguments name es"
proof (cases "length es = (if name = ''date_of'' then 2 else 3)")
  case True
  then show ?thesis by (simp add: temporal_function_arguments_def Let_def split: if_split_asm)
qed (simp add: temporal_function_arguments_def Let_def)

lemma case_text_Ok:
  "(case e of Literal (VText s) \<Rightarrow> f s | _ \<Rightarrow> Err er) = Ok r \<longleftrightarrow> (\<exists>s. e = Literal (VText s) \<and> f s = Ok r)"
  by (auto split: scalar_expression.splits "value.splits")

lemma temporal_arguments_unit:
  assumes "temporal_function_arguments name es = Ok (offset, unit_arg)" "is_temporal_projection name"
  shows "(unit_arg = None \<longleftrightarrow> name = ''date_of'') \<and> 0 < length es"
proof (cases "name = ''date_of''")
  case True
  then show ?thesis using assms(1) by (auto simp: temporal_function_arguments_def Let_def and_then_Ok_iff if_Err_eq_Ok case_text_Ok)
next
  case False
  then have "name = ''timestamp_trunc''" using assms(2) by (simp add: is_temporal_projection_def)
  then show ?thesis using assms(1)
    by (auto simp: temporal_function_arguments_def Let_def and_then_Ok_iff if_Err_eq_Ok case_text_Ok map_ok_Ok_iff)
qed

lemma temporal_call_typed:
  assumes c: "types_ok c" "scope_ok c scope" and es: "sound_arguments c tf values scope kind es" and name: "is_temporal_projection name"
    and args: "temporal_function_arguments name es = Ok (offset, unit_arg)"
    and known: "inferred_argument (map (\<lambda>e. infer_scalar c scope kind e) es) 0 = Ok known"
    and input: "underlying c (case known of Some ty \<Rightarrow> ty | None \<Rightarrow> TTimestamp) = Ok TTimestamp"
    and b: "bind_argument (map (\<lambda>e ex. bind_scalar c scope kind e ex) es) 0 (case known of Some ty \<Rightarrow> ty | None \<Rightarrow> TTimestamp) es = Ok es'"
  shows "typed_eval c (temporal_result_type name) (evaluate_scalar c tf values (Call name es' sp))"
proof -
  let ?binders = "map (\<lambda>e ex. bind_scalar c scope kind e ex) es"
  from b obtain e0 t0 where e0: "0 < length ?binders" "(?binders ! 0) (Some (case known of Some ty \<Rightarrow> ty | None \<Rightarrow> TTimestamp)) = Ok (e0, t0)" "es' = es[0 := e0]"
    by (auto simp: bind_argument_Ok)
  have "typed_under c TTimestamp (evaluate_scalar c tf values e0)"
  proof (cases known)
    case None
    then show ?thesis using bound_leaf [OF es _ _ _ e0(2)] e0(1) by simp
  next
    case (Some ty)
    then show ?thesis using bound_inferred(2) [OF c es _ _ input] known e0(2) by simp
  qed
  moreover have "es' ! 0 = e0" "0 < length es'" using e0 by auto
  ultimately have ev: "typed_under c TTimestamp (evaluate_scalar c tf values (es' ! 0))" "0 < length es'" by simp_all
  note unit = temporal_arguments_unit [OF args name]
  have args': "temporal_function_arguments name es' = Ok (offset, unit_arg)" using args e0(3) temporal_arguments_bound by simp
  have kind: "name \<noteq> ''to_text''" "\<not> is_decimal_function name" "\<not> is_map_scalar_function name" "is_builtin_scalar_function name"
    using name unfolding is_temporal_projection_def is_decimal_function_def is_map_scalar_function_def is_builtin_scalar_function_def insert_iff empty_iff
    by (elim disjE; simp)+
  have result: "yields (has_type c (temporal_result_type name))
      (case unit_arg of Some u \<Rightarrow> map_ok VTimestamp (truncate_at_offset n u offset) | None \<Rightarrow> map_ok VDate (date_at_offset n offset))" for n
    using unit temporal_results(2,3) by (auto simp: temporal_result_type_def yields_iff map_ok_Ok_iff split: option.splits)
  have "gives c (temporal_result_type name) (builtin_function tf name es' (map (\<lambda>e b. evaluate_scalar c tf values e b) es') b)" for b
    using ev(2) kind name args' unfolding builtin_function_def
    by (auto simp: call_argument_nth intro!: on_value_under [OF ev(1)] gives_returns [OF result])
  then show ?thesis using kind by (simp add: typed_eval_def)
qed

lemma to_text_typed:
  assumes c: "types_ok c" "scope_ok c scope" and tf: "text_functions_ok tf" and es: "sound_arguments c tf values scope kind es"
    and known: "inferred_argument (map (\<lambda>e. infer_scalar c scope kind e) es) 0 = Ok (Some input)" "require_text_convertible c input = Ok ()"
    and b: "bind_argument (map (\<lambda>e ex. bind_scalar c scope kind e ex) es) 0 input es = Ok es'"
  shows "typed_eval c TText (evaluate_scalar c tf values (Call ''to_text'' es' sp))"
proof -
  let ?binders = "map (\<lambda>e ex. bind_scalar c scope kind e ex) es"
  from b obtain e0 t0 where e0: "0 < length ?binders" "(?binders ! 0) (Some input) = Ok (e0, t0)" "es' = es[0 := e0]"
    by (auto simp: bind_argument_Ok)
  from text_convertible_leaf [OF known(2)] obtain u where u: "underlying c input = Ok u" "leaf u" by blast
  have "es' ! 0 = e0" "0 < length es'" using e0 by auto
  with bound_inferred(2) [OF c es known(1) e0(2) u(1)]
  have ev: "typed_under c u (evaluate_scalar c tf values (es' ! 0))" "0 < length es'" by simp_all
  have "gives c TText (returns (map_ok VText (scalar_to_text tf x)) b)" if "has_type c u (unwrapped x)" for x b
    using text_to_text [OF tf that u(2)] by (intro gives_returns) simp
  then have "gives c TText (builtin_function tf ''to_text'' es' (map (\<lambda>e b. evaluate_scalar c tf values e b) es') b)" for b
    using ev(2) unfolding builtin_function_def
    by (auto simp: call_argument_nth is_decimal_function_def intro!: on_value_under [OF ev(1)])
  then show ?thesis by (simp add: typed_eval_def is_map_scalar_function_def is_builtin_scalar_function_def)
qed

lemma builtin_input_leaf: "leaf (builtin_scalar_input_type name i)" "type_ok c (builtin_scalar_input_type name i)"
  by (simp_all add: builtin_scalar_input_type_def)

lemma builtin_call_typed:
  assumes tf: "text_functions_ok tf" and es: "sound_arguments c tf values scope kind es" and name: "text_builtin name"
    and b: "bind_builtin_call name es (map (\<lambda>e ex. bind_scalar c scope kind e ex) es) = Ok (es', t)"
  shows "typed_eval c t (evaluate_scalar c tf values (Call name es' sp))"
proof -
  note bound = bind_builtin_Ok [OF b, simplified]
  let ?evs = "map (\<lambda>e b. evaluate_scalar c tf values e b) es'"
  have evs: "typed_under c (builtin_scalar_input_type name i) (?evs ! i)" if "i < length ?evs" for i
  proof -
    have n: "i < length es" using that bound(3) by simp
    from bound(5) [OF n] obtain t where t: "bind_scalar c scope kind (es ! i) (Some (builtin_scalar_input_type name i)) = Ok (es' ! i, t)" using n by auto
    show ?thesis unfolding nth_evaluations [OF that [unfolded length_map]]
      by (rule bound_leaf [OF es n builtin_input_leaf(2,1)]) (use t n in simp)
  qed
  obtain mode where mode: "name = ''float_to_int'' \<Longrightarrow> and_then (literal_argument es' 1) float_rounding = Ok mode"
  proof (cases "name = ''float_to_int''")
    case True
    from bound(4) True obtain mode where "and_then (literal_argument es 1) float_rounding = Ok mode" by auto
    moreover have "literal_argument es' 1 = literal_argument es 1"
    proof -
      have n: "length es = 2" using bound(1) True by (simp add: builtin_scalar_arity_def)
      from bound(5) [of 1] n True obtain t where "bind_scalar c scope kind (es ! 1) (Some TText) = Ok (es' ! 1, t)"
        by (auto simp: builtin_scalar_input_type_def)
      moreover from \<open>and_then _ _ = _\<close> n obtain s where "es ! 1 = Literal (VText s)"
        by (auto simp: and_then_Ok_iff literal_argument_def float_rounding_def case_text_Ok)
      ultimately have "es' ! 1 = es ! 1"
        by (auto simp: result_simps meets_expected_Ok coerce_def coerce_leaf MAX_DEPTH_def)
      then show ?thesis using n bound(3) by (simp add: literal_argument_def)
    qed
    ultimately show thesis using that by simp
  next
    case False
    then show thesis using that by blast
  qed
  have "gives c t (builtin_function tf name es' ?evs b)" for b
    using bound(1-3) evs mode by (intro builtin_function_typed [OF tf name]) auto
  then show ?thesis using name by (simp add: typed_eval_def text_builtin_def)
qed


lemma call_kinds:
  obtains "is_map_scalar_function name" | "\<not> is_map_scalar_function name" "is_temporal_projection name"
    | "\<not> is_map_scalar_function name" "\<not> is_temporal_projection name" "name = ''to_text''"
    | "is_decimal_function name" "\<not> is_map_scalar_function name" "\<not> is_temporal_projection name" "name \<noteq> ''to_text''" "is_builtin_scalar_function name"
    | "text_builtin name" | "\<not> is_builtin_scalar_function name" "\<not> is_map_scalar_function name" "\<not> is_temporal_projection name" "name \<noteq> ''to_text''"
  unfolding text_builtin_def by argo

lemma call_result_not_decimal:
  assumes "same_type t u" "underlying c u = Ok (TDecimal p q)" "\<forall>i. t \<noteq> TRef i" "\<forall>p s. t \<noteq> TDecimal p s"
  shows False
  using same_decimal [OF assms(1,2)] underlying_not_ref [OF assms(2)] assms(3,4) by auto

lemma builtin_result_plain: "builtin_scalar_result name = Some t \<Longrightarrow> (\<forall>i. t \<noteq> TRef i) \<and> (\<forall>p s. t \<noteq> TDecimal p s)"
  unfolding builtin_scalar_result_def by (simp split: if_split_asm; fastforce)

lemma sound_Call:
  assumes c: "types_ok c" "scope_ok c scope" and tf: "text_functions_ok tf" and es: "sound_arguments c tf values scope kind es"
  shows "sound c tf values scope kind (Call name es sp)"
proof (rule soundI)
  let ?infs = "map (\<lambda>e. infer_scalar c scope kind e) es" and ?binders = "map (\<lambda>e ex. bind_scalar c scope kind e ex) es"
  fix expected e' t assume a: "bind_scalar c scope kind (Call name es sp) expected = Ok (e', t)"
  show "type_ok c t \<and> (\<forall>u. expected = Some u \<longrightarrow> compat c t u) \<and> typed_eval c t (evaluate_scalar c tf values e')"
  proof (cases name rule: call_kinds)
    case 1
    with a obtain es' where b: "bind_map_call c name es ?infs ?binders = Ok (es', t)" "e' = Call name es' sp" "\<forall>u. expected = Some u \<longrightarrow> same_type t u"
      by (auto simp: Let_def and_then_Ok_iff meets_expected_Ok)
    show ?thesis using map_call_typed(1,2) [OF c es 1 b(1)] b(2,3) by (simp add: compat_same)
  next
    case 2
    with a obtain args known es' where b: "temporal_function_arguments name es = Ok args" "inferred_argument ?infs 0 = Ok known"
      "underlying c (case known of Some ty \<Rightarrow> ty | None \<Rightarrow> TTimestamp) = Ok TTimestamp"
      "bind_argument ?binders 0 (case known of Some ty \<Rightarrow> ty | None \<Rightarrow> TTimestamp) es = Ok es'"
      "e' = Call name es' sp" "t = temporal_result_type name" "\<forall>u. expected = Some u \<longrightarrow> underlying c u = Ok t"
      by (auto simp: Let_def and_then_Ok_iff require_Ok fresh_Ok)
    obtain offset unit_arg where args: "args = (offset, unit_arg)" by (cases args)
    show ?thesis using temporal_call_typed [OF c es 2(2) b(1) [unfolded args] b(2-4)] b(5-7) by (simp add: compat_def)
  next
    case 3
    with a obtain input es' where b: "inferred_argument ?infs 0 = Ok (Some input)" "require_text_convertible c input = Ok ()"
      "bind_argument ?binders 0 input es = Ok es'" "e' = Call ''to_text'' es' sp" "t = TText" "\<forall>u. expected = Some u \<longrightarrow> same_type TText u"
      by (auto simp: Let_def and_then_Ok_iff meets_expected_Ok ok_or_Ok_iff if_Err_eq_Ok)
    show ?thesis using to_text_typed [OF c tf es b(1-3)] b(4-6) by (simp add: compat_same)
  next
    case 4
    with a obtain es' where b: "bind_decimal_call c name es ?infs ?binders = Ok (es', t)" "e' = Call name es' sp"
      "require_fresh_scalar_result c t expected = Ok ()"
      by (auto simp: Let_def and_then_Ok_iff)
    note typed = decimal_call_typed [OF c es 4(1) b(1)]
    then have "\<forall>u. expected = Some u \<longrightarrow> underlying c u = Ok t" using b(3) fresh_Ok by simp
    then show ?thesis using typed b(2) by (simp add: compat_def)
  next
    case 5
    with a obtain es' where b: "bind_builtin_call name es ?binders = Ok (es', t)" "e' = Call name es' sp" "\<forall>u. expected = Some u \<longrightarrow> same_type t u"
      unfolding text_builtin_def by (auto simp: Let_def and_then_Ok_iff meets_expected_Ok)
    have "type_ok c t" using bind_builtin_Ok(2) [OF b(1)] builtin_result_ok by simp
    then show ?thesis using builtin_call_typed [OF tf es 5 b(1)] b(2,3) by (simp add: compat_same)
  next
    case 6
    then show ?thesis using a by (simp add: Let_def)
  qed
next
  let ?infs = "map (\<lambda>e. infer_scalar c scope kind e) es" and ?binders = "map (\<lambda>e ex. bind_scalar c scope kind e ex) es"
  fix e' t u p q s
  assume a: "bind_scalar c scope kind (Call name es sp) (Some u) = Ok (e', t)" "underlying c u = Ok (TDecimal p q)"
    "infer_scalar c scope kind (Call name es sp) = Ok s" "not_decimal c s"
  have False
  proof (cases name rule: call_kinds)
    case 1
    with a(1) obtain es' where b: "bind_map_call c name es ?infs ?binders = Ok (es', t)" "same_type t u"
      by (auto simp: Let_def and_then_Ok_iff meets_expected_Ok)
    show False using call_result_not_decimal [OF b(2) a(2)] map_call_typed(3,4) [OF c es 1 b(1)] by simp
  next
    case 2
    with a(1) have "underlying c u = Ok (temporal_result_type name)" by (auto simp: Let_def and_then_Ok_iff fresh_Ok)
    then show False using a(2) by (simp add: temporal_result_type_def split: if_split_asm)
  next
    case 3
    with a(1) have "same_type TText u" by (auto simp: Let_def and_then_Ok_iff meets_expected_Ok if_Err_eq_Ok)
    then show False using call_result_not_decimal [OF _ a(2)] by blast
  next
    case 4
    then have "infer_decimal_call c name es ?infs = Ok s" using a(3) by (simp add: infer_call_def)
    from infer_decimal_Ok [OF this] obtain ty p q where s: "s = Some ty" "decimal_target_type p q = Ok ty" by blast
    then show False using a(4) s by (auto simp: decimal_target_type_def map_ok_Ok_iff not_decimal_def underlying_leaf)
  next
    case 5
    with a(1) obtain es' where b: "bind_builtin_call name es ?binders = Ok (es', t)" "same_type t u"
      unfolding text_builtin_def by (auto simp: Let_def and_then_Ok_iff meets_expected_Ok)
    then show False using call_result_not_decimal [OF b(2) a(2)] builtin_result_plain bind_builtin_Ok(2) [OF b(1)] by simp
  next
    case 6
    then show False using a(1) by (simp add: Let_def)
  qed
  then show "never (evaluate_scalar c tf values e')" ..
qed

lemma bind_sound:
  assumes c: "types_ok c" "scope_ok c scope" and tf: "text_functions_ok tf" and env: "environment_ok c scope values"
  shows "expression_ok c e \<Longrightarrow> sound c tf values scope kind e"
proof (induction e)
  case (Reference path)
  show ?case by (rule sound_Reference [OF c env])
next
  case (Parameter name ty)
  then show ?case by (rule sound_Parameter)
next
  case (Literal v)
  then show ?case by (rule sound_Literal [OF c(1)])
next
  case (Ascribed e ty)
  then show ?case by (intro sound_Ascribed [OF c(1)]) simp_all
next
  case (Call name es sp)
  then show ?case by (intro sound_Call [OF c tf]) (simp add: sound_arguments_def list_all_iff)
next
  case (Length e)
  then show ?case by (intro sound_Length [OF c(1)]) simp_all
next
  case (Negate e ty)
  then show ?case by (intro sound_Negate [OF c]) simp_all
next
  case (Arithmetic l op r ty)
  then show ?case by (intro sound_Arithmetic [OF c]) simp_all
qed


end
