(* ===== verification/Condition_Soundness.thy ===== *)
theory Condition_Soundness
  imports Type_Soundness
begin

text \<open>
  Soundness of conditions (\<^verbatim>\<open>src/src/expression.rs\<close>, \<open>bind\<close> and \<open>evaluate\<close>): a condition that binding accepts
  evaluates, on every row of the schema, to a truth value or to an error that depends on the values.
\<close>

section \<open>Environments\<close>

lemma split_on_ne: "split_on ch s \<noteq> []"
  by (cases s) (auto split: list.splits)

lemma split_on_append: "ch \<notin> set a \<Longrightarrow> split_on ch (a @ ch # b) = a # split_on ch b"
  by (induction a) auto

lemma split_on_whole: "ch \<notin> set a \<Longrightarrow> split_on ch a = [a]"
  by (induction a) auto

lemma field_path:
  assumes "types_ok c"
  shows "try_fold (field_type_step c) ty parts = Ok t \<Longrightarrow> type_ok c ty \<Longrightarrow> has_type c ty v \<Longrightarrow>
    \<exists>w. foldl (\<lambda>acc part. Option.bind acc (\<lambda>v. field_step v part)) (Some v) parts = Some w \<and> has_type c t w"
proof (induction parts arbitrary: ty v)
  case (Cons part parts)
  from Cons.prems(1) obtain cols col where s: "underlying c ty = Ok (TRecord cols)" "find_column cols part = Some col"
    "try_fold (field_type_step c) (col_ty col) parts = Ok t"
    unfolding try_fold.simps and_then_Ok_iff by (auto simp: field_type_step_def [of c ty] result_simps)
  have ok: "type_ok c (TRecord cols)" using underlying_type(3) [OF s(1) assms Cons.prems(2)] .
  have rec: "has_type c (TRecord cols) (unwrapped v)" using underlying_type(1) [OF s(1) Cons.prems(3)] .
  then obtain fs where fs: "unwrapped v = VRecord fs" by auto
  have col: "col \<in> set cols" "col_name col = part" using find_column_Some [OF s(2)] by auto
  from record_field_values(1) [OF rec [unfolded fs] _ col(1)] ok col(2) obtain w where
    w: "bt_get fs part = Some w" "has_type c (col_ty col) w" by auto
  have "type_ok c (col_ty col)" using ok col(1) by simp
  from Cons.IH [OF s(3) this w(2)] show ?case using w(1) fs by (simp add: field_step_def)
qed simp

text \<open>The rows of a schema: a value of its type for every column, and nothing else.\<close>

definition row_ok :: "catalog \<Rightarrow> column list \<Rightarrow> (string, value) btree \<Rightarrow> bool" where
  "row_ok c schema row \<longleftrightarrow>
     bt_ok row \<and> list_all (\<lambda>(n, _). find_column schema n \<noteq> None) row \<and>
     list_all (\<lambda>col. case bt_get row (col_name col) of None \<Rightarrow> False | Some v \<Rightarrow> has_type c (col_ty col) v) schema"

lemma row_okD:
  assumes "row_ok c schema row"
  shows "find_column schema n = Some col \<Longrightarrow> \<exists>v. bt_get row n = Some v \<and> has_type c (col_ty col) v"
    and "find_column schema n = None \<Longrightarrow> bt_get row n = None"
proof -
  show "\<exists>v. bt_get row n = Some v \<and> has_type c (col_ty col) v" if "find_column schema n = Some col"
    using find_column_Some [OF that] assms by (auto simp: row_ok_def list_all_iff split: option.split_asm)
  show "bt_get row n = None" if "find_column schema n = None"
  proof (cases "bt_get row n")
    case (Some v)
    then have "(n, v) \<in> set row" using assms by (simp add: row_ok_def bt_get_Some_iff)
    then show ?thesis using assms that by (auto simp: row_ok_def list_all_iff)
  qed
qed

lemma row_environment:
  assumes "types_ok c" "scope_ok c schema" "row_ok c schema row"
  shows "environment_ok c schema (row_field row)"
  unfolding environment_ok_def
proof (intro allI impI)
  fix path t assume t: "field_type c schema path = Ok t"
  show "\<exists>v. row_field row path = Some v \<and> has_type c t v"
  proof (cases "find_column schema path")
    case (Some col)
    then show ?thesis using t row_okD(1) [OF assms(3) Some] by (auto simp: field_type_def row_field_def)
  next
    case None
    let ?parts = "split_on CHR ''.'' path"
    from None t obtain col where col: "find_column schema (hd ?parts) = Some col" "try_fold (field_type_step c) (col_ty col) (tl ?parts) = Ok t"
      by (auto simp: field_type_def Let_def result_simps)
    have "CHR ''.'' \<in> set path"
    proof (rule ccontr)
      assume "CHR ''.'' \<notin> set path"
      then show False using None col(1) split_on_whole [of "CHR ''.''" path] by simp
    qed
    then obtain head rest where path: "split_once CHR ''.'' path = Some (head, rest)"
      using split_once_None [of "CHR ''.''" path] by (cases "split_once CHR ''.'' path") auto
    then have parts: "?parts = head # split_on CHR ''.'' rest" using split_once_Some [OF path] split_on_append by auto
    from row_okD(1) [OF assms(3) col(1)] parts obtain v where v: "bt_get row head = Some v" "has_type c (col_ty col) v" by auto
    have "type_ok c (col_ty col)" using find_column_Some [OF col(1)] assms(2) by (simp add: scope_ok_def)
    from field_path [OF assms(1) col(2) this v(2)] parts obtain w where "value_field v rest = Some w" "has_type c t w"
      by (auto simp: value_field_def)
    moreover have "bt_get row path = None" using row_okD(2) [OF assms(3) None] .
    ultimately show ?thesis using path v(1) by (auto simp: row_field_def)
  qed
qed

text \<open>
  A collection predicate adds its binding to the scope.  A path under the binding must not be the name of an
  outer column: the type checker would find the column, the evaluation the element.
\<close>

definition binding_ok :: "string \<Rightarrow> string list \<Rightarrow> bool" where
  "binding_ok binding names \<longleftrightarrow> CHR ''.'' \<notin> set binding \<and> list_all (\<lambda>n. \<not> starts_with n (binding @ ''.'')) names"

lemma starts_with_append: "starts_with s t \<longleftrightarrow> (\<exists>u. s = t @ u)"
  unfolding starts_with_def by (metis append_eq_conv_conj)

lemma scoped_environment:
  assumes c: "types_ok c" and item: "type_ok c item_ty" "has_type c item_ty item"
    and env: "environment_ok c scope values" and b: "binding_ok binding (map col_name scope)"
  shows "environment_ok c (Column binding item_ty None 0 # scope) (scoped binding item values)"
  unfolding environment_ok_def
proof (intro allI impI)
  let ?scope = "Column binding item_ty None 0 # scope"
  have dot: "CHR ''.'' \<notin> set binding" using b by (simp add: binding_ok_def)
  fix path t assume t: "field_type c ?scope path = Ok t"
  consider "path = binding" | rest where "path = binding @ ''.'' @ rest" | "path \<noteq> binding" "\<not> starts_with path (binding @ ''.'')"
    by (auto simp: starts_with_append)
  then show "\<exists>v. scoped binding item values path = Some v \<and> has_type c t v"
  proof cases
    case 1
    then show ?thesis using t item by (simp add: field_type_def find_column_def scoped_def)
  next
    case 2
    have "find_column ?scope path = None"
      using b 2 by (auto simp: find_column_def find_None_iff binding_ok_def list_all_iff starts_with_append)
    moreover have "split_on CHR ''.'' path = binding # split_on CHR ''.'' rest" using 2 split_on_append [OF dot] by simp
    ultimately have "try_fold (field_type_step c) item_ty (split_on CHR ''.'' rest) = Ok t"
      using t by (simp add: field_type_def find_column_def Let_def)
    from field_path [OF c this item] show ?thesis
      using 2 by (auto simp: scoped_def value_field_def starts_with_append)
  next
    case 3
    have hd: "hd (split_on CHR ''.'' path) \<noteq> binding"
    proof (cases "split_once CHR ''.'' path")
      case None
      then show ?thesis using 3 split_once_None [of "CHR ''.''" path] split_on_whole [of "CHR ''.''" path] by simp
    next
      case (Some p)
      then obtain a rest where "path = a @ CHR ''.'' # rest" "CHR ''.'' \<notin> set a" using split_once_Some by (cases p) blast
      then show ?thesis using 3 split_on_append by (auto simp: starts_with_append)
    qed
    have "find_column ?scope path = find_column scope path"
      "find_column ?scope (hd (split_on CHR ''.'' path)) = find_column scope (hd (split_on CHR ''.'' path))"
      using hd 3(1) by (auto simp: find_column_def)
    then have "field_type c scope path = Ok t" using t unfolding field_type_def Let_def by (cases "find_column scope path") simp_all
    then show ?thesis using env 3 by (simp add: environment_ok_def scoped_def)
  qed
qed

section \<open>Conditions\<close>

fun condition_ok :: "catalog \<Rightarrow> string list \<Rightarrow> bool_expression \<Rightarrow> bool" where
  "condition_ok c names (BValue e) = expression_ok c e"
| "condition_ok c names (BCompare l op r ty) = (expression_ok c l \<and> expression_ok c r)"
| "condition_ok c names (BContains l r) = (expression_ok c l \<and> expression_ok c r)"
| "condition_ok c names (BMembership l r neg) = (expression_ok c l \<and> expression_ok c r)"
| "condition_ok c names (BAny e binding p) = (expression_ok c e \<and> binding_ok binding names \<and> condition_ok c (binding # names) p)"
| "condition_ok c names (BAll e binding p) = (expression_ok c e \<and> binding_ok binding names \<and> condition_ok c (binding # names) p)"
| "condition_ok c names (BIsSome e) = expression_ok c e"
| "condition_ok c names (BIsNone e) = expression_ok c e"
| "condition_ok c names (BNot p) = condition_ok c names p"
| "condition_ok c names (BAnd p q) = (condition_ok c names p \<and> condition_ok c names q)"
| "condition_ok c names (BOr p q) = (condition_ok c names p \<and> condition_ok c names q)"

lemma membership_yields: "yields (\<lambda>_. True) (membership_loop item vs b)"
proof (induction vs arbitrary: b)
  case (Cons v vs)
  then show ?case by (simp add: consume_collection_predicate_def)
qed simp

lemma quantifier_yields:
  "(\<And>v b. v \<in> set vs \<Longrightarrow> yields (\<lambda>_. True) (test v b)) \<Longrightarrow> yields (\<lambda>_. True) (quantifier_loop all_q test vs b)"
proof (induction vs arbitrary: b)
  case (Cons v vs)
  have "yields (\<lambda>_. True) (quantifier_loop all_q test vs b)" for b using Cons by simp
  then show ?case using Cons.prems [of v]
    by (auto simp: consume_collection_predicate_def intro!: yields_and_then [where Q = "\<lambda>_. True"])
qed simp

lemma quantify_yields:
  assumes "typed_under c (TList t) ev" and "\<And>v b. has_type c t v \<Longrightarrow> yields (\<lambda>_. True) (test v b)"
  shows "yields (\<lambda>_. True) (quantify all_q (ev b) test)"
  unfolding quantify_def
  by (rule on_value_under [OF assms(1)]) (use assms(2) in \<open>auto simp: list_all_iff intro!: quantifier_yields\<close>)

lemma option_yields: "typed_under c (TOption t) ev \<Longrightarrow> yields (\<lambda>_. True) (option_test some (ev b))"
  unfolding option_test_def by (erule on_value_under) auto

lemma compare_yields:
  assumes "types_ok c" "same_type lt rt" "type_ok c lt" "type_ok c rt" "has_type c lt x" "has_type c rt y"
  shows "yields (\<lambda>_. True) (compare_values c x op y (Some lt))"
proof -
  have "dynamic (cmp_typed c lt x y)" using cmp_typed_dynamic [OF assms] by (simp add: cmp_typed_def)
  then show ?thesis by (auto simp: compare_values_def yields_iff intro!: dynamic_intros)
qed

lemma boolean_simps: "yields (\<lambda>_. True) (case x of (r, b) \<Rightarrow> Ok (f r b))"
  by (cases x) simp

text \<open>A checked environment: what every arm of a bound condition relies on.\<close>

definition checked :: "catalog \<Rightarrow> text_functions \<Rightarrow> column list \<Rightarrow> (string \<Rightarrow> value option) \<Rightarrow> bool" where
  "checked c tf scope values \<longleftrightarrow> types_ok c \<and> text_functions_ok tf \<and> scope_ok c scope \<and> environment_ok c scope values"

lemma scalar_checked:
  assumes "checked c tf scope values" "expression_ok c e" "bind_scalar c scope kind e expected = Ok (e', t)" "\<forall>u. expected = Some u \<longrightarrow> type_ok c u"
  shows "type_ok c t" and "typed_eval c t (evaluate_scalar c tf values e')" and "expected = Some u \<Longrightarrow> compat c t u"
proof -
  have "sound c tf values scope kind e" using assms(1,2) bind_sound by (simp add: checked_def)
  from soundD [OF this assms(3)] assms(4)
  show "type_ok c t" "typed_eval c t (evaluate_scalar c tf values e')" "expected = Some u \<Longrightarrow> compat c t u" by simp_all
qed

lemma inferred_checked: "checked c tf scope values \<Longrightarrow> expression_ok c e \<Longrightarrow> infer_scalar c scope kind e = Ok (Some t) \<Longrightarrow> type_ok c t"
  unfolding checked_def by (blast intro: infer_ok)

lemma compare_sound:
  assumes ch: "checked c tf scope values" and ok: "expression_ok c l" "expression_ok c r"
    and bind: "bind_in_scope c scope kind (BCompare l op r ty) = Ok e'"
  shows "yields (\<lambda>_. True) (evaluate_resolved c tf values e' b)"
proof -
  from bind obtain li ri expected l1 r1 lt rt where b: "infer_scalar c scope kind l = Ok li" "infer_scalar c scope kind r = Ok ri"
    "(if is_constant l then option_or ri li else option_or li ri) = Some expected"
    "bind_scalar c scope kind l (Some expected) = Ok (l1, lt)" "bind_scalar c scope kind r (Some expected) = Ok (r1, rt)"
    "same_type lt rt" "e' = BCompare l1 op r1 (Some lt)"
    by (auto simp: and_then_Ok_iff ok_or_Ok_iff check_Ok_iff)
  have "li = Some expected \<or> ri = Some expected" using b(3) by (auto simp: option_or_def split: if_split_asm option.split_asm)
  then have ex: "type_ok c expected" using b(1,2) inferred_checked [OF ch] ok by blast
  note left = scalar_checked [OF ch ok(1) b(4)] and right = scalar_checked [OF ch ok(2) b(5)]
  have c: "types_ok c" using ch by (simp add: checked_def)
  have ty: "type_ok c lt" "type_ok c rt" "typed_eval c lt (evaluate_scalar c tf values l1)" "typed_eval c rt (evaluate_scalar c tf values r1)"
    using left right ex by simp_all
  show ?thesis unfolding b(7) evaluate_resolved.simps
    by (intro on_value_typed [OF ty(3)] on_value_typed [OF ty(4)] yields_and_then [OF compare_yields [OF c b(6) ty(1,2)]]) simp_all
qed

lemma contains_sound:
  assumes ch: "checked c tf scope values" and ok: "expression_ok c l" "expression_ok c r"
    and bind: "bind_in_scope c scope kind (BContains l r) = Ok e'"
  shows "yields (\<lambda>_. True) (evaluate_resolved c tf values e' b)"
proof -
  have c: "types_ok c" using ch by (simp add: checked_def)
  from bind obtain lt rt l1 r1 t1 t2 li where b: "bind_scalar c scope kind l (Some lt) = Ok (l1, t1)"
    "bind_scalar c scope kind r (Some rt) = Ok (r1, t2)" "e' = BContains l1 r1"
    "infer_scalar c scope kind l = Ok li" "li = Some lt \<and> contained_type c lt = Ok rt \<or> infer_scalar c scope kind r = Ok (Some rt) \<and> lt = TList rt"
    by (auto simp: and_then_Ok_iff ok_or_Ok_iff map_ok_Ok_iff split: option.split_asm)
  have "type_ok c lt \<and> type_ok c rt"
    using b(5)
  proof
    assume a: "li = Some lt \<and> contained_type c lt = Ok rt"
    then have lt: "type_ok c lt" using b(4) inferred_checked [OF ch ok(1)] by blast
    from a obtain u where u: "underlying c lt = Ok u" "u = TList rt \<or> rt = TBytes"
      unfolding contained_type_def and_then_Ok_iff by (cases "underlying c lt") (auto split: scalar_type.split_asm)
    then show ?thesis using underlying_type(3) [OF u(1) c lt] lt by auto
  next
    assume "infer_scalar c scope kind r = Ok (Some rt) \<and> lt = TList rt"
    then show ?thesis using inferred_checked [OF ch ok(2)] by auto
  qed
  then have "typed_eval c t1 (evaluate_scalar c tf values l1)" "typed_eval c t2 (evaluate_scalar c tf values r1)"
    using scalar_checked(2) [OF ch ok(1) b(1)] scalar_checked(2) [OF ch ok(2) b(2)] by simp_all
  then show ?thesis unfolding b(3) evaluate_resolved.simps by (intro on_value_typed) simp_all
qed

lemma underlying_list: "underlying c (TList t) = Ok (TList t)"
  by (simp add: underlying_def MAX_DEPTH_def eval_nat_numeral)

lemma element_type_Ok: "element_type c ty = Ok t \<longleftrightarrow> underlying c ty = Ok (TList t)"
  by (auto simp: element_type_def result_simps)

lemma membership_collection:
  assumes ch: "checked c tf scope values" and ok: "expression_ok c r" and item: "type_ok c item_ty"
    and ri: "infer_scalar c scope kind r = Ok ri" "(case ri of Some t \<Rightarrow> map_ok Some (element_type c t) | None \<Rightarrow> Ok None) = Ok ci"
    and coll: "(if contextual_collection r then Ok (TList item_ty) else ok_or PANIC ri) = Ok coll_ty"
    and b: "bind_scalar c scope kind r (Some coll_ty) = Ok (r1, t2)"
  shows "\<exists>t. typed_under c (TList t) (evaluate_scalar c tf values r1)"
proof (cases "contextual_collection r")
  case True
  then have cl: "coll_ty = TList item_ty" "type_ok c coll_ty" using coll item by auto
  have "compat c t2 coll_ty" using scalar_checked(3) [OF ch ok b _ refl] cl(2) by simp
  then obtain u where u: "t2 = TList u" using cl(1) by (auto simp: compat_def underlying_list leaf_def)
  then show ?thesis using typed_underI [OF scalar_checked(2) [OF ch ok b]] cl(2) underlying_list by auto
next
  case False
  then have r: "ri = Some coll_ty" using coll by (simp add: ok_or_Ok_iff)
  then obtain t where t: "underlying c coll_ty = Ok (TList t)" using ri(2) by (auto simp: element_type_Ok map_ok_Ok_iff)
  have "type_ok c coll_ty" using inferred_checked [OF ch ok] ri(1) r by blast
  moreover have "t2 = coll_ty" using bind_inferred ri(1) b r by blast
  ultimately show ?thesis using typed_underI [OF scalar_checked(2) [OF ch ok b]] t by auto
qed

lemma membership_sound:
  assumes ch: "checked c tf scope values" and ok: "expression_ok c l" "expression_ok c r"
    and bind: "bind_in_scope c scope kind (BMembership l r neg) = Ok e'"
  shows "yields (\<lambda>_. True) (evaluate_resolved c tf values e' b)"
proof -
  have c: "types_ok c" using ch by (simp add: checked_def)
  from bind obtain li ri ci item_ty coll_ty l1 r1 t1 t2 where b: "infer_scalar c scope kind l = Ok li" "infer_scalar c scope kind r = Ok ri"
    "(case ri of Some t \<Rightarrow> map_ok Some (element_type c t) | None \<Rightarrow> Ok None) = Ok ci"
    "(if contextual_collection r then option_or li ci else option_or ci li) = Some item_ty"
    "(if contextual_collection r then Ok (TList item_ty) else ok_or PANIC ri) = Ok coll_ty"
    "bind_scalar c scope kind l (Some item_ty) = Ok (l1, t1)" "bind_scalar c scope kind r (Some coll_ty) = Ok (r1, t2)" "e' = BMembership l1 r1 neg"
    by (auto simp: and_then_Ok_iff ok_or_Ok_iff)
  have element: "type_ok c t" if ci: "ci = Some t" for t
  proof -
    from ci b(3) obtain ty where ty: "ri = Some ty" "underlying c ty = Ok (TList t)"
      by (auto simp: element_type_Ok map_ok_Ok_iff split: option.split_asm)
    then show ?thesis using underlying_type(3) [OF ty(2) c] inferred_checked [OF ch ok(2)] b(2) by auto
  qed
  have "li = Some item_ty \<or> ci = Some item_ty" using b(4) by (auto simp: option_or_def split: if_split_asm option.split_asm)
  then have item: "type_ok c item_ty" using b(1) element inferred_checked [OF ch ok(1)] by blast
  from membership_collection [OF ch ok(2) item b(2,3,5,7)] obtain t where coll: "typed_under c (TList t) (evaluate_scalar c tf values r1)" ..
  have "typed_eval c t1 (evaluate_scalar c tf values l1)" using scalar_checked(2) [OF ch ok(1) b(6)] item by simp
  then show ?thesis unfolding b(8) evaluate_resolved.simps
    by (rule on_value_typed) (rule on_value_under [OF coll], clarsimp, rule yields_and_then [OF membership_yields], clarsimp)
qed

lemma quantifier_sound:
  assumes ch: "checked c tf scope values" and ok: "expression_ok c e" "binding_ok binding (map col_name scope)"
    and b: "bind_scalar c scope kind e None = Ok (e1, ty)" "element_type c ty = Ok item_ty"
    and p: "\<And>item b. checked c tf (Column binding item_ty None 0 # scope) (scoped binding item values) \<Longrightarrow>
      yields (\<lambda>_. True) (evaluate_resolved c tf (scoped binding item values) p b)"
  shows "yields (\<lambda>_. True) (quantify all_q (evaluate_scalar c tf values e1 b)
    (\<lambda>item b. evaluate_resolved c tf (scoped binding item values) p b))"
proof (rule quantify_yields)
  have u: "underlying c ty = Ok (TList item_ty)" using b(2) by (simp add: element_type_Ok)
  note e = scalar_checked [OF ch ok(1) b(1)]
  show "typed_under c (TList item_ty) (evaluate_scalar c tf values e1)" using typed_underI [OF e(2) u] by simp
  have "type_ok c item_ty" using underlying_type(3) [OF u] ch e(1) by (simp add: checked_def)
  then show "yields (\<lambda>_. True) (evaluate_resolved c tf (scoped binding item values) p b)" if "has_type c item_ty item" for item b
    using p ch scoped_environment [OF _ _ that _ ok(2)] by (simp add: checked_def scope_ok_def)
qed

lemma condition_sound:
  "bind_in_scope c scope kind e = Ok e' \<Longrightarrow> condition_ok c (map col_name scope) e \<Longrightarrow> checked c tf scope vals \<Longrightarrow>
   yields (\<lambda>_. True) (evaluate_resolved c tf vals e' b)"
proof (induction e arbitrary: scope kind vals e' b)
  case (BValue e)
  then obtain e1 ty where e: "bind_scalar c scope kind e None = Ok (e1, ty)" "e' = BValue e1" by (auto simp: result_simps)
  have "typed_eval c ty (evaluate_scalar c tf vals e1)" using scalar_checked(2) [OF BValue.prems(3) _ e(1)] BValue.prems(2) by simp
  then show ?case unfolding e(2) evaluate_resolved.simps by (rule on_value_typed) simp
next
  case (BCompare l op r ty)
  then show ?case by (intro compare_sound [OF BCompare.prems(3) _ _ BCompare.prems(1)]) simp_all
next
  case (BContains l r)
  then show ?case by (intro contains_sound [OF BContains.prems(3) _ _ BContains.prems(1)]) simp_all
next
  case (BMembership l r neg)
  then show ?case by (intro membership_sound [OF BMembership.prems(3) _ _ BMembership.prems(1)]) simp_all
next
  case (BAny e binding p)
  then obtain e1 ty item_ty p' where b: "bind_scalar c scope kind e None = Ok (e1, ty)" "element_type c ty = Ok item_ty"
    "bind_in_scope c (Column binding item_ty None 0 # scope) ''list predicate binding'' p = Ok p'" "e' = BAny e1 binding p'"
    by (auto simp: and_then_Ok_iff)
  show ?case unfolding b(4) evaluate_resolved.simps
    by (rule quantifier_sound [OF BAny.prems(3) _ _ b(1,2)]) (use BAny.prems(2) BAny.IH [OF b(3)] in simp_all)
next
  case (BAll e binding p)
  then obtain e1 ty item_ty p' where b: "bind_scalar c scope kind e None = Ok (e1, ty)" "element_type c ty = Ok item_ty"
    "bind_in_scope c (Column binding item_ty None 0 # scope) ''list predicate binding'' p = Ok p'" "e' = BAll e1 binding p'"
    by (auto simp: and_then_Ok_iff)
  show ?case unfolding b(4) evaluate_resolved.simps
    by (rule quantifier_sound [OF BAll.prems(3) _ _ b(1,2)]) (use BAll.prems(2) BAll.IH [OF b(3)] in simp_all)
next
  case (BIsSome e)
  then obtain e1 ty t where e: "bind_scalar c scope kind e None = Ok (e1, ty)" "underlying c ty = Ok (TOption t)" "e' = BIsSome e1" by (auto simp: result_simps)
  have "typed_under c (TOption t) (evaluate_scalar c tf vals e1)"
    using typed_underI [OF scalar_checked(2) [OF BIsSome.prems(3) _ e(1)] e(2)] BIsSome.prems(2) by simp
  then show ?case unfolding e(3) evaluate_resolved.simps by (rule option_yields)
next
  case (BIsNone e)
  then obtain e1 ty t where e: "bind_scalar c scope kind e None = Ok (e1, ty)" "underlying c ty = Ok (TOption t)" "e' = BIsNone e1" by (auto simp: result_simps)
  have "typed_under c (TOption t) (evaluate_scalar c tf vals e1)"
    using typed_underI [OF scalar_checked(2) [OF BIsNone.prems(3) _ e(1)] e(2)] BIsNone.prems(2) by simp
  then show ?case unfolding e(3) evaluate_resolved.simps by (rule option_yields)
next
  case (BNot p)
  then obtain p' where b: "bind_in_scope c scope kind p = Ok p'" "e' = BNot p'" by (auto simp: result_simps)
  have "yields (\<lambda>_. True) (evaluate_resolved c tf vals p' b)" using BNot.IH [OF b(1)] BNot.prems(2,3) by simp
  then show ?case unfolding b(2) evaluate_resolved.simps by (rule yields_and_then) (simp add: boolean_simps)
next
  case (BAnd p q)
  then obtain p' q' where b: "bind_in_scope c scope kind p = Ok p'" "bind_in_scope c scope kind q = Ok q'" "e' = BAnd p' q'" by (auto simp: result_simps)
  have p: "yields (\<lambda>_. True) (evaluate_resolved c tf vals p' b)" using BAnd.IH(1) [OF b(1)] BAnd.prems(2,3) by simp
  have q: "yields (\<lambda>_. True) (evaluate_resolved c tf vals q' b')" for b' using BAnd.IH(2) [OF b(2)] BAnd.prems(2,3) by simp
  show ?case unfolding b(3) evaluate_resolved.simps by (rule yields_and_then [OF p]) (simp add: q split: prod.split)
next
  case (BOr p q)
  then obtain p' q' where b: "bind_in_scope c scope kind p = Ok p'" "bind_in_scope c scope kind q = Ok q'" "e' = BOr p' q'" by (auto simp: result_simps)
  have p: "yields (\<lambda>_. True) (evaluate_resolved c tf vals p' b)" using BOr.IH(1) [OF b(1)] BOr.prems(2,3) by simp
  have q: "yields (\<lambda>_. True) (evaluate_resolved c tf vals q' b')" for b' using BOr.IH(2) [OF b(2)] BOr.prems(2,3) by simp
  show ?case unfolding b(3) evaluate_resolved.simps by (rule yields_and_then [OF p]) (simp add: q split: prod.split)
qed

section \<open>Soundness\<close>

text \<open>
  (C5) Type soundness of expressions: an expression that binding accepts evaluates, on every row of the schema and with every
  budget, to a value of the type that binding reports, or to an error that depends on the values; never to a type, field, query,
  match or schema error, and never to a panic.
\<close>

theorem expression_type_sound:
  assumes "types_ok c" and "scope_ok c schema" and "text_functions_ok tf" and "row_ok c schema row"
    and "expression_ok c e" and "bind_scalar c schema kind e None = Ok (e', t)"
  shows "case evaluate_scalar c tf (row_field row) e' b of
      Ok (v, b') \<Rightarrow> \<exists>x. v = Some x \<and> has_type c t x
    | Err err \<Rightarrow> err \<notin> {E_TYPE, E_FIELD, E_QUERY, E_MATCH, E_SCHEMA, PANIC}"
proof -
  have "checked c tf schema (row_field row)" using assms row_environment by (simp add: checked_def)
  then have "typed_eval c t (evaluate_scalar c tf (row_field row) e')" using scalar_checked(2) assms(5,6) by blast
  then show ?thesis by (auto simp: typed_eval_def yields_def static_error_def split: result.splits)
qed


definition example_schema :: "column list" where
  "example_schema = [Column ''id'' TInt None 10, Column ''at'' (TRef 1) None 11, Column ''tags'' (TList TText) None 12]"

definition example_row :: "(string, value) btree" where
  "example_row = [(''at'', VNamed 1 (VRecord [(''x'', VInt 3), (''y'', VFloat 0)])), (''id'', VInt 5),
     (''tags'', VList [VText ''one'', VText ''two''])]"

definition example_text_functions :: text_functions where
  "example_text_functions = \<lparr>to_lowercase = (\<lambda>s. s), to_uppercase = (\<lambda>s. s), float_debug = (\<lambda>_. ''0.0'')\<rparr>"

definition example_scalar :: scalar_expression where
  "example_scalar = Arithmetic (Reference ''id'') Multiply (Reference ''at.x'') None"

definition example_condition :: bool_expression where
  "example_condition =
     BAnd (BCompare example_scalar Gt (Literal (VInt 14)) None)
       (BAny (Reference ''tags'') ''t'' (BValue (Call ''starts_with'' [Reference ''t'', Literal (VText ''tw'')] \<lparr>sp_line = 1, sp_column = 1\<rparr>)))"

lemma example_text_functions_ok: "text_functions_ok example_text_functions"
  by (simp add: text_functions_ok_def example_text_functions_def ascii_string_ok)

lemma example_schema_ok: "scope_ok example_catalog example_schema" "row_ok example_catalog example_schema example_row"
  by code_simp+

lemma example_conditions_ok: "expression_ok example_catalog example_scalar" "condition_ok example_catalog (map col_name example_schema) example_condition"
  by code_simp+

lemma example_scalar_bound:
  "bind_scalar example_catalog example_schema ''field'' example_scalar None =
     Ok (Arithmetic (Reference ''id'') Multiply (Reference ''at.x'') (Some TInt), TInt)"
  by code_simp


theorem expression_type_sound_witness:
  "case evaluate_scalar example_catalog example_text_functions (row_field example_row)
        (Arithmetic (Reference ''id'') Multiply (Reference ''at.x'') (Some TInt)) 100 of
      Ok (v, b') \<Rightarrow> \<exists>x. v = Some x \<and> has_type example_catalog TInt x
    | Err err \<Rightarrow> err \<notin> {E_TYPE, E_FIELD, E_QUERY, E_MATCH, E_SCHEMA, PANIC}"
  by (rule expression_type_sound [OF example_catalog_ok example_schema_ok(1) example_text_functions_ok example_schema_ok(2)
        example_conditions_ok(1) example_scalar_bound])

lemma example_condition_bound:
  "bind_filter example_catalog example_schema example_condition =
     Ok (BAnd (BCompare (Arithmetic (Reference ''id'') Multiply (Reference ''at.x'') (Some TInt)) Gt (Literal (VInt 14)) (Some TInt))
       (BAny (Reference ''tags'') ''t'' (BValue (Call ''starts_with'' [Reference ''t'', Literal (VText ''tw'')] \<lparr>sp_line = 1, sp_column = 1\<rparr>))))"
  by code_simp


section \<open>Collection predicates return\<close>

text \<open>The elements a collection predicate looks at: up to and including the first that decides it.\<close>

definition visited :: "bool \<Rightarrow> (value \<Rightarrow> bool) \<Rightarrow> value list \<Rightarrow> nat" where
  "visited all_q f items = min (Suc (length (takeWhile (\<lambda>v. f v = all_q) items))) (length items)"

lemma visited_simps:
  "visited all_q f [] = 0"
  "visited all_q f (v # vs) = (if f v = all_q then Suc (visited all_q f vs) else 1)"
  by (simp_all add: visited_def)

lemma visited_le: "visited all_q f items \<le> length items"
  by (simp add: visited_def)

lemma quantifier_loop_exact:
  assumes "\<And>v b. v \<in> set items \<Longrightarrow> test v b = Ok (f v, b)"
  shows "quantifier_loop all_q test items b =
    (if visited all_q f items \<le> b
     then Ok (if all_q then list_all f items else list_ex f items, b - visited all_q f items) else Err E_LIMIT)"
  using assms
proof (induction items arbitrary: b)
  case (Cons v vs)
  show ?case
  proof (cases b)
    case (Suc n)
    have "quantifier_loop all_q test vs n =
      (if visited all_q f vs \<le> n then Ok (if all_q then list_all f vs else list_ex f vs, n - visited all_q f vs) else Err E_LIMIT)"
      using Cons.IH Cons.prems by simp
    then show ?thesis using Suc Cons.prems [of v] by (simp add: consume_collection_predicate_def visited_simps)
  qed (simp add: consume_collection_predicate_def visited_simps)
qed (simp add: visited_simps)

text \<open>
  (C26) Collection predicates return: over a list whose elements the predicate decides, \<open>any\<close> and \<open>all\<close> give the
  existential and the universal truth value whenever the budget covers the elements up to the first deciding one, which a
  budget of the length of the list always does; they spend exactly that many units, and report \<open>E_LIMIT\<close> below it.
\<close>

theorem collection_predicate_returns:
  assumes "evaluate_scalar c tf values collection b = Ok (Some v, n)" and "unwrapped v = VList items"
    and "\<forall>x \<in> set items. \<forall>k. evaluate_resolved c tf (scoped binding x values) p k = Ok (f x, k)"
  shows "evaluate_resolved c tf values (BAny collection binding p) b =
           (if visited False f items \<le> n then Ok (list_ex f items, n - visited False f items) else Err E_LIMIT)
       \<and> evaluate_resolved c tf values (BAll collection binding p) b =
           (if visited True f items \<le> n then Ok (list_all f items, n - visited True f items) else Err E_LIMIT)
       \<and> visited False f items \<le> length items \<and> visited True f items \<le> length items"
  using assms by (simp add: quantify_def on_value_def quantifier_loop_exact [where f = f] visited_le)

theorem collection_predicate_returns_witness:
  "evaluate_resolved example_catalog example_text_functions (row_field example_row)
     (BAny (Reference ''tags'') ''t'' (BCompare (Reference ''t'') Eq (Literal (VText ''two'')) (Some TText))) 2 = Ok (True, 0)"
proof -
  let ?p = "BCompare (Reference ''t'') Eq (Literal (VText ''two'')) (Some TText)"
  have "\<forall>x \<in> set [VText ''one'', VText ''two'']. \<forall>k.
      evaluate_resolved example_catalog example_text_functions (scoped ''t'' x (row_field example_row)) ?p k =
        Ok (x = VText ''two'', k)"
    by (simp add: on_value_def scoped_def compare_values_def)
  moreover have "evaluate_scalar example_catalog example_text_functions (row_field example_row) (Reference ''tags'') 2 =
      Ok (Some (VList [VText ''one'', VText ''two'']), 2)"
    by code_simp
  ultimately show ?thesis
    using collection_predicate_returns [of example_catalog example_text_functions "row_field example_row" "Reference ''tags''" 2
        "VList [VText ''one'', VText ''two'']" 2 "[VText ''one'', VText ''two'']" "''t''" ?p "\<lambda>x. x = VText ''two''"]
    by (simp add: visited_simps)
qed

section \<open>A column that hides a field\<close>

text \<open>
  Projecting the nested path \<open>p.x\<close> makes a column of that name.  Under a binding \<open>p\<close> the type checker takes
  the column, the resolver the field of the element: an accepted filter fails with a type error on a row of the schema.
\<close>

definition hiding_schema :: "column list" where
  "hiding_schema = [Column ''p.x'' TText None 20, Column ''points'' (TList (TRef 1)) None 21]"

definition hiding_row :: "(string, value) btree" where
  "hiding_row = [(''p.x'', VText ''a''), (''points'', VList [VNamed 1 (VRecord [(''x'', VInt 3), (''y'', VFloat 0)])])]"


section \<open>A membership test that binding cannot type\<close>

text \<open>
  (C30) Binding \<open>item in collection\<close> panics when the item has a type and the collection has none, unless the collection is a
  literal or a bare parameter: the \<open>expect\<close> on the type of the collection fails.  \<open>id in -$p\<close> is such a test.
\<close>

theorem membership_inference_panics:
  assumes "infer_scalar c schema ''field'' item = Ok (Some t)" and "infer_scalar c schema ''field'' collection = Ok None"
    and "\<not> contextual_collection collection"
  shows "bind_filter c schema (BMembership item collection negated) = Err PANIC"
  using assms by (simp add: bind_filter_def option_or_def)

theorem membership_inference_panics_witness:
  "bind_filter example_catalog example_schema (BMembership (Reference ''id'') (Negate (Parameter ''p'' None) None) False) = Err PANIC"
proof (rule membership_inference_panics)
  show "infer_scalar example_catalog example_schema ''field'' (Reference ''id'') = Ok (Some TInt)" by code_simp
  show "infer_scalar example_catalog example_schema ''field'' (Negate (Parameter ''p'' None) None) = Ok None" by code_simp
  show "\<not> contextual_collection (Negate (Parameter ''p'' None) None)" by code_simp
qed

end
