(* ===== verification/Coverage.thy ===== *)
theory Coverage
  imports Patterns Type_Graph
begin

text \<open>
  The coverage analysis of match patterns (\<^verbatim>\<open>src/src/matching.rs\<close>): patterns reduced to
  constructors and wildcards, the usefulness of a pattern row against a matrix of earlier rows, the
  search for an uncovered row, and \<open>bind_patterns\<close>, which rejects unreachable and non-exhaustive
  matches.  The step budget is threaded through both searches and bounds them.
\<close>

section \<open>Coverage patterns\<close>

datatype coverage_constructor =
    CVariant u64 string
  | CNone
  | CSome
  | CRecord "string list"
  | CTuple

datatype coverage_pattern =
    CWildcard
  | CConstructor coverage_constructor "coverage_pattern list"

definition constructor_name :: "coverage_constructor \<Rightarrow> string option" where
  "constructor_name k =
     (case k of
        CVariant _ name \<Rightarrow> Some name
      | CNone \<Rightarrow> Some ''None''
      | CSome \<Rightarrow> Some ''Some''
      | _ \<Rightarrow> None)"

definition join :: "string \<Rightarrow> string list \<Rightarrow> string" where
  "join separator parts =
     (case parts of [] \<Rightarrow> [] | p # ps \<Rightarrow> p @ concat (map (\<lambda>q. separator @ q) ps))"

fun display_pattern :: "coverage_pattern \<Rightarrow> string" where
  "display_pattern CWildcard = ''_''"
| "display_pattern (CConstructor k values) =
     (let shown = map display_pattern values;
          record_form = (\<lambda>names shown. ''{'' @ join '', '' (map (\<lambda>(f, v). f @ '' = '' @ v) (zip names shown)) @ ''}'')
      in case k of
           CVariant _ name \<Rightarrow>
             if values = [] then name
             else (case values of
                     [CConstructor (CRecord names) inner] \<Rightarrow> name @ '' '' @ display_pattern (CConstructor (CRecord names) inner)
                   | _ \<Rightarrow> name @ ''('' @ join '', '' shown @ '')'')
         | CNone \<Rightarrow> ''None''
         | CSome \<Rightarrow> ''Some '' @ (case shown of [] \<Rightarrow> ''_'' | s # _ \<Rightarrow> s)
         | CRecord names \<Rightarrow> record_form names shown
         | CTuple \<Rightarrow> ''('' @ join '', '' shown @ '')'')"

record constructor_spec =
  cs_constructor :: coverage_constructor
  cs_arguments :: "scalar_type list"

definition MAX_COVERAGE_STEPS :: nat where
  "MAX_COVERAGE_STEPS = 100000"

definition coverage_step :: "nat \<Rightarrow> nat result" where
  "coverage_step remaining = (if remaining = 0 then Err E_LIMIT else Ok (remaining - 1))"

definition constructor_of_tag :: "match_tag \<Rightarrow> string \<Rightarrow> coverage_constructor" where
  "constructor_of_tag tag display_name =
     (case tag of TagVariant i \<Rightarrow> CVariant i display_name | TagNone \<Rightarrow> CNone | TagSome \<Rightarrow> CSome)"

lemma size_find_field [termination_simp]: "find P fs = Some f \<Longrightarrow> size (mf_pattern f) < Suc (size_list size fs)"
  by (rule size_field_mem) (auto simp: find_Some_iff)

function (sequential) coverage_pattern_of :: "catalog \<Rightarrow> scalar_type \<Rightarrow> match_pattern \<Rightarrow> coverage_pattern result"
  and coverage_payload :: "catalog \<Rightarrow> scalar_type list \<Rightarrow> match_payload \<Rightarrow> coverage_pattern list result"
  and coverage_record_pattern :: "catalog \<Rightarrow> scalar_type \<Rightarrow> match_field list \<Rightarrow> coverage_pattern result"
where
  "coverage_pattern_of c expected PWildcard = Ok CWildcard"
| "coverage_pattern_of c expected (PBinding name) = Ok CWildcard"
| "coverage_pattern_of c expected (PConstructor name payload tag) =
     and_then (match_source_of c expected) (\<lambda>source.
     and_then (resolve_constructor c source name) (\<lambda>(tag, arguments, display_name).
       map_ok (CConstructor (constructor_of_tag tag display_name)) (coverage_payload c arguments payload)))"
| "coverage_pattern_of c expected (PRecord fs rest) = coverage_record_pattern c expected fs"
| "coverage_pattern_of c expected (PTuple patterns) =
     and_then (underlying c expected) (\<lambda>u.
       case u of
         TTuple items \<Rightarrow>
           map_ok (CConstructor CTuple) (traverse (\<lambda>(p, t). coverage_pattern_of c t p) (zip patterns items))
       | _ \<Rightarrow> Err E_MATCH)"
| "coverage_payload c arguments PayloadUnit = Ok []"
| "coverage_payload c arguments (PayloadRecord fs rest) =
     (case arguments of
        [record_type] \<Rightarrow> map_ok (\<lambda>p. [p]) (coverage_record_pattern c record_type fs)
      | _ \<Rightarrow> Err E_MATCH)"
| "coverage_payload c arguments (PayloadPositional patterns) =
     traverse (\<lambda>(p, t). coverage_pattern_of c t p) (zip patterns arguments)"
| "coverage_record_pattern c expected fs =
     and_then (underlying c expected) (\<lambda>u.
       case u of
         TRecord definitions \<Rightarrow>
           map_ok (CConstructor (CRecord (map col_name definitions)))
             (traverse (\<lambda>d. case find (\<lambda>f. mf_field f = col_name d) fs of
                 None \<Rightarrow> Ok CWildcard
               | Some f \<Rightarrow> coverage_pattern_of c (col_ty d) (mf_pattern f)) definitions)
       | _ \<Rightarrow> Err E_MATCH)"
  by pat_completeness auto
termination
  by (relation "measure (\<lambda>x. case x of
        Inl (c, ty, p) \<Rightarrow> 2 * size p
      | Inr (Inl (c, tys, p)) \<Rightarrow> 2 * size p
      | Inr (Inr (c, ty, fs)) \<Rightarrow> Suc (2 * size_list size fs))")
     (auto dest: size_find_field size_zip_fst)

section \<open>Constructors of a type\<close>

function (sequential) type_contains_ref :: "scalar_type \<Rightarrow> u64 \<Rightarrow> bool" where
  "type_contains_ref (TRef i) target = (i = target)"
| "type_contains_ref (TRecord cols) target = list_ex (\<lambda>col. type_contains_ref (col_ty col) target) cols"
| "type_contains_ref (TEnum vs) target = list_ex (\<lambda>v. list_ex (\<lambda>t. type_contains_ref t target) (vd_args v)) vs"
| "type_contains_ref (TTuple ts) target = list_ex (\<lambda>t. type_contains_ref t target) ts"
| "type_contains_ref (TOption t) target = type_contains_ref t target"
| "type_contains_ref (TList t) target = type_contains_ref t target"
| "type_contains_ref (TMap t) target = type_contains_ref t target"
| "type_contains_ref _ target = False"
  by pat_completeness auto
termination
  by (relation "measure (\<lambda>(ty, target). size ty)") (auto dest: size_column size_variant size_list_mem [where f = size])

text \<open>\<open>sort_by_key\<close> is stable and orders \<open>false\<close> before \<open>true\<close>, as \<open>sort_key\<close> does.\<close>

definition constructor_specs :: "catalog \<Rightarrow> scalar_type \<Rightarrow> constructor_spec list option result" where
  "constructor_specs c ty =
     and_then (underlying c ty) (\<lambda>u. Ok (case u of
         TEnum vs \<Rightarrow>
           let ordered = (case ty of
                 TRef i \<Rightarrow> sort_key (\<lambda>v. list_ex (\<lambda>a. type_contains_ref a i) (vd_args v)) vs
               | _ \<Rightarrow> vs)
           in Some (map (\<lambda>v. \<lparr>cs_constructor = CVariant (vd_id v) (vd_name v), cs_arguments = vd_args v\<rparr>) ordered)
       | TOption t \<Rightarrow> Some [\<lparr>cs_constructor = CNone, cs_arguments = []\<rparr>, \<lparr>cs_constructor = CSome, cs_arguments = [t]\<rparr>]
       | TRecord cols \<Rightarrow> Some [\<lparr>cs_constructor = CRecord (map col_name cols), cs_arguments = map col_ty cols\<rparr>]
       | TTuple ts \<Rightarrow> Some [\<lparr>cs_constructor = CTuple, cs_arguments = ts\<rparr>]
       | _ \<Rightarrow> None))"

section \<open>Pattern matrices\<close>

type_synonym pattern_row = "coverage_pattern list"

definition specialize_matrix :: "pattern_row list \<Rightarrow> coverage_constructor \<Rightarrow> nat \<Rightarrow> pattern_row list" where
  "specialize_matrix matrix k arity =
     List.map_filter (\<lambda>row. case row of
         [] \<Rightarrow> None
       | CWildcard # tail \<Rightarrow> Some (replicate arity CWildcard @ tail)
       | CConstructor candidate arguments # tail \<Rightarrow> if candidate = k then Some (arguments @ tail) else None) matrix"

definition default_matrix :: "pattern_row list \<Rightarrow> pattern_row list" where
  "default_matrix matrix =
     List.map_filter (\<lambda>row. case row of CWildcard # tail \<Rightarrow> Some tail | _ \<Rightarrow> None) matrix"

definition covered_by_wildcards :: "pattern_row list \<Rightarrow> nat \<Rightarrow> bool" where
  "covered_by_wildcards matrix width \<longleftrightarrow>
     list_ex (\<lambda>row. length row = width \<and> list_all (\<lambda>p. p = CWildcard) row) matrix"

function (sequential, domintros) pattern_is_useful ::
    "catalog \<Rightarrow> pattern_row list \<Rightarrow> pattern_row \<Rightarrow> scalar_type list \<Rightarrow> nat \<Rightarrow> (bool \<times> nat) result"
  and useful_constructors ::
    "catalog \<Rightarrow> pattern_row list \<Rightarrow> constructor_spec list \<Rightarrow> pattern_row \<Rightarrow> scalar_type list \<Rightarrow> nat \<Rightarrow> (bool \<times> nat) result"
where
  "pattern_is_useful c matrix query ts remaining =
     and_then (coverage_step remaining) (\<lambda>b.
       if covered_by_wildcards matrix (length query) then Ok (False, b)
       else case query of
         [] \<Rightarrow> Ok (matrix = [], b)
       | head # tail \<Rightarrow>
           (case ts of
              [] \<Rightarrow> Err E_MATCH
            | head_type # tail_types \<Rightarrow>
                and_then (constructor_specs c head_type) (\<lambda>specs.
                  case head of
                    CWildcard \<Rightarrow>
                      (case specs of
                         Some constructors \<Rightarrow> useful_constructors c matrix constructors tail tail_types b
                       | None \<Rightarrow> pattern_is_useful c (default_matrix matrix) tail tail_types b)
                  | CConstructor k arguments \<Rightarrow>
                      and_then (ok_or E_MATCH (Option.bind specs (find (\<lambda>s. cs_constructor s = k)))) (\<lambda>spec.
                        pattern_is_useful c (specialize_matrix matrix k (length (cs_arguments spec)))
                          (arguments @ tail) (cs_arguments spec @ tail_types) b))))"
| "useful_constructors c matrix [] tail tail_types b = Ok (False, b)"
| "useful_constructors c matrix (spec # specs) tail tail_types b =
     and_then (pattern_is_useful c (specialize_matrix matrix (cs_constructor spec) (length (cs_arguments spec)))
         (replicate (length (cs_arguments spec)) CWildcard @ tail) (cs_arguments spec @ tail_types) b) (\<lambda>(useful, b).
       if useful then Ok (True, b) else useful_constructors c matrix specs tail tail_types b)"
  by pat_completeness auto

lemma coverage_step_Ok: "coverage_step b = Ok b' \<longleftrightarrow> b = Suc b'"
  by (cases b) (auto simp: coverage_step_def)

text \<open>Every step uses up budget, so the search ends.\<close>

lemma useful_budget:
  shows "pattern_is_useful_useful_constructors_dom (Inl (c, m, q, ts, b)) \<Longrightarrow>
      pattern_is_useful c m q ts b = Ok (r, b') \<Longrightarrow> b' < b"
    and "pattern_is_useful_useful_constructors_dom (Inr (c, m, specs, rest, tts, b)) \<Longrightarrow>
      useful_constructors c m specs rest tts b = Ok (r, b') \<Longrightarrow> b' \<le> b"
proof (induction c m q ts b and c m specs rest tts b arbitrary: r b' and r b'
    rule: pattern_is_useful_useful_constructors.pinduct)
  case (1 c m q ts b)
  note eq = 1(5) [unfolded pattern_is_useful.psimps [OF 1(1)]]
  from eq obtain b0 where b: "coverage_step b = Ok b0" "b = Suc b0"
    by (auto simp: result_simps coverage_step_Ok)
  show ?case
  proof (cases "covered_by_wildcards m (length q) \<or> q = []")
    case True
    then show ?thesis using eq b by (auto split: if_splits)
  next
    case False
    then obtain h t ty tys specs where q: "q = h # t" and ts: "ts = ty # tys" and specs: "constructor_specs c ty = Ok specs"
      using eq b by (cases q; cases ts) (auto simp: result_simps)
    have "b' \<le> b0"
    proof (cases h)
      case CWildcard
      then show ?thesis
        using eq b False q ts specs 1(2) [OF b(1) _ q ts specs] 1(3) [OF b(1) _ q ts specs]
        by (cases specs) (auto dest: less_imp_le)
    next
      case (CConstructor k args)
      then show ?thesis
        using eq b False q ts specs 1(4) [OF b(1) _ q ts specs CConstructor]
        by (fastforce simp: result_simps intro: less_imp_le)
    qed
    with b show ?thesis by simp
  qed
next
  case (2 c m rest tts b)
  then show ?case by (simp add: useful_constructors.psimps)
next
  case (3 c m spec specs rest tts b)
  from 3(1,4) obtain useful b1 where
    1: "pattern_is_useful c (specialize_matrix m (cs_constructor spec) (length (cs_arguments spec)))
         (replicate (length (cs_arguments spec)) CWildcard @ rest) (cs_arguments spec @ tts) b = Ok (useful, b1)"
    and 2: "(if useful then Ok (True, b1) else useful_constructors c m specs rest tts b1) = Ok (r, b')"
    by (auto simp: useful_constructors.psimps result_simps)
  have "b1 < b" using 3(2) 1 by blast
  moreover have "b' \<le> b1"
    using 2 3(3) [OF 1 refl] by (auto split: if_splits)
  ultimately show ?case by simp
qed

termination pattern_is_useful
proof (relation "inv_image (less_than <*lex*> less_than) (\<lambda>x. case x of
      Inl (c, m, q, ts, b) \<Rightarrow> (b, 0 :: nat)
    | Inr (c, m, specs, rest, tts, b) \<Rightarrow> (b, Suc (length specs)))", goal_cases)
qed (auto simp: coverage_step_Ok dest: useful_budget)

declare pattern_is_useful.simps [simp del]
declare useful_constructors.simps [simp del]

text \<open>\<open>split_off\<close> panics when the witness is shorter than the arity.\<close>

function (sequential, domintros) uncovered_patterns ::
    "catalog \<Rightarrow> pattern_row list \<Rightarrow> scalar_type list \<Rightarrow> nat \<Rightarrow> (pattern_row option \<times> nat) result"
  and uncovered_constructors ::
    "catalog \<Rightarrow> pattern_row list \<Rightarrow> constructor_spec list \<Rightarrow> scalar_type list \<Rightarrow> nat \<Rightarrow> (pattern_row option \<times> nat) result"
where
  "uncovered_patterns c matrix ts remaining =
     and_then (coverage_step remaining) (\<lambda>b.
       if covered_by_wildcards matrix (length ts) then Ok (None, b)
       else case ts of
         [] \<Rightarrow> Ok (if matrix = [] then Some [] else None, b)
       | head_type # tail_types \<Rightarrow>
           and_then (constructor_specs c head_type) (\<lambda>specs.
             case specs of
               Some constructors \<Rightarrow> uncovered_constructors c matrix constructors tail_types b
             | None \<Rightarrow>
                 map_ok (\<lambda>(w, b). (map_option ((#) CWildcard) w, b))
                   (uncovered_patterns c (default_matrix matrix) tail_types b)))"
| "uncovered_constructors c matrix [] tail_types b = Ok (None, b)"
| "uncovered_constructors c matrix (spec # specs) tail_types b =
     (let arity = length (cs_arguments spec)
      in and_then (uncovered_patterns c (specialize_matrix matrix (cs_constructor spec) arity)
             (cs_arguments spec @ tail_types) b) (\<lambda>(w, b).
           case w of
             Some w \<Rightarrow>
               if length w < arity then Err PANIC
               else Ok (Some (CConstructor (cs_constructor spec) (take arity w) # drop arity w), b)
           | None \<Rightarrow> uncovered_constructors c matrix specs tail_types b))"
  by pat_completeness auto

lemma uncovered_budget:
  shows "uncovered_patterns_uncovered_constructors_dom (Inl (c, m, ts, b)) \<Longrightarrow>
      uncovered_patterns c m ts b = Ok (r, b') \<Longrightarrow> b' < b"
    and "uncovered_patterns_uncovered_constructors_dom (Inr (c, m, specs, tts, b)) \<Longrightarrow>
      uncovered_constructors c m specs tts b = Ok (r, b') \<Longrightarrow> b' \<le> b"
proof (induction c m ts b and c m specs tts b arbitrary: r b' and r b'
    rule: uncovered_patterns_uncovered_constructors.pinduct)
  case (1 c m ts b)
  note eq = 1(4) [unfolded uncovered_patterns.psimps [OF 1(1)]]
  from eq obtain b0 where b: "coverage_step b = Ok b0" "b = Suc b0"
    by (auto simp: result_simps coverage_step_Ok)
  show ?case
  proof (cases "covered_by_wildcards m (length ts) \<or> ts = []")
    case True
    then show ?thesis using eq b by (auto split: if_splits)
  next
    case False
    then obtain ty tys specs where ts: "ts = ty # tys" and specs: "constructor_specs c ty = Ok specs"
      using eq b by (cases ts) (auto simp: result_simps)
    have "b' \<le> b0"
      using eq b False ts specs 1(2) [OF b(1) _ ts specs] 1(3) [OF b(1) _ ts specs]
      by (cases specs) (auto simp: result_simps dest: less_imp_le)
    with b show ?thesis by simp
  qed
next
  case (2 c m tts b)
  then show ?case by (simp add: uncovered_constructors.psimps)
next
  case (3 c m spec specs tts b)
  from 3(1,4) obtain w b1 where
    1: "uncovered_patterns c (specialize_matrix m (cs_constructor spec) (length (cs_arguments spec)))
         (cs_arguments spec @ tts) b = Ok (w, b1)"
    and 2: "w = None \<Longrightarrow> uncovered_constructors c m specs tts b1 = Ok (r, b')" "w \<noteq> None \<Longrightarrow> b' = b1"
    by (auto simp: uncovered_constructors.psimps result_simps Let_def split: option.splits if_splits)
  have "b1 < b" using 3(2) 1 by blast
  moreover have "b' \<le> b1"
    using 2 3(3) [OF refl 1 refl] by (cases w) auto
  ultimately show ?case by simp
qed

termination uncovered_patterns
proof (relation "inv_image (less_than <*lex*> less_than) (\<lambda>x. case x of
      Inl (c, m, ts, b) \<Rightarrow> (b, 0 :: nat)
    | Inr (c, m, specs, tts, b) \<Rightarrow> (b, Suc (length specs)))", goal_cases)
qed (auto simp: coverage_step_Ok dest: uncovered_budget)

declare uncovered_patterns.simps [simp del]
declare uncovered_constructors.simps [simp del]

section \<open>Binding a match\<close>

definition missing_top_level_constructors ::
  "catalog \<Rightarrow> scalar_type \<Rightarrow> pattern_row list \<Rightarrow> nat \<Rightarrow> (string list \<times> nat) result" where
  "missing_top_level_constructors c source_type matrix b =
     and_then (constructor_specs c source_type) (\<lambda>specs.
     and_then (ok_or E_MATCH specs) (\<lambda>constructors.
     and_then (try_fold (\<lambda>(missing, b) spec.
         let pattern = CConstructor (cs_constructor spec) (replicate (length (cs_arguments spec)) CWildcard)
         in and_then (pattern_is_useful c matrix [pattern] [source_type] b) (\<lambda>(useful, b).
              Ok (if useful
                  then missing @ [case constructor_name (cs_constructor spec) of Some n \<Rightarrow> n | None \<Rightarrow> display_pattern pattern]
                  else missing, b))) ([], b) constructors)
       (\<lambda>(missing, b). Ok (if missing = [] then [''a nested value''] else missing, b))))"

definition bind_top_pattern ::
  "catalog \<Rightarrow> match_source \<Rightarrow> scalar_type \<Rightarrow> bool \<Rightarrow> match_pattern \<Rightarrow> (match_pattern \<times> column list) result" where
  "bind_top_pattern c source source_ty last_arm pattern =
     (case pattern of
        PWildcard \<Rightarrow> if last_arm then Ok (PWildcard, []) else Err E_MATCH
      | PBinding name \<Rightarrow> if last_arm then Ok (PBinding name, [Column name source_ty None 0]) else Err E_MATCH
      | PConstructor name payload tag \<Rightarrow>
          and_then (resolve_constructor c source name) (\<lambda>(resolved, argument_types, _).
            map_ok (\<lambda>(payload, bindings). (PConstructor name payload (Some resolved), bindings))
              (bind_payload c argument_types payload))
      | _ \<Rightarrow> Err E_MATCH)"

record coverage_state =
  cov_matrix :: "pattern_row list"
  cov_budget :: nat
  cov_patterns :: "match_pattern list"
  cov_bindings :: "column list list"

definition bind_arm :: "catalog \<Rightarrow> match_source \<Rightarrow> scalar_type \<Rightarrow> nat \<Rightarrow> coverage_state \<Rightarrow> match_pattern \<Rightarrow> coverage_state result" where
  "bind_arm c source source_ty arm_count s pattern =
     and_then (bind_top_pattern c source source_ty (length (cov_patterns s) + 1 = arm_count) pattern) (\<lambda>(bound, bindings).
     and_then (coverage_pattern_of c source_ty bound) (\<lambda>coverage.
     and_then (pattern_is_useful c (cov_matrix s) [coverage] [source_ty] (cov_budget s)) (\<lambda>(useful, b).
       if \<not> useful then Err E_MATCH
       else Ok \<lparr>cov_matrix = cov_matrix s @ [[coverage]], cov_budget = b,
                cov_patterns = cov_patterns s @ [bound], cov_bindings = cov_bindings s @ [bindings]\<rparr>)))"

definition bind_patterns ::
  "catalog \<Rightarrow> scalar_type \<Rightarrow> match_pattern list \<Rightarrow> (match_pattern list \<times> column list list) result" where
  "bind_patterns c source_ty patterns =
     and_then (match_source_of c source_ty) (\<lambda>source.
     and_then (try_fold (bind_arm c source source_ty (length patterns))
         \<lparr>cov_matrix = [], cov_budget = MAX_COVERAGE_STEPS, cov_patterns = [], cov_bindings = []\<rparr> patterns) (\<lambda>s.
     and_then (uncovered_patterns c (cov_matrix s) [source_ty] (cov_budget s)) (\<lambda>(witness, b).
       case witness of
         Some _ \<Rightarrow> and_then (missing_top_level_constructors c source_ty (cov_matrix s) b) (\<lambda>_. Err E_MATCH)
       | None \<Rightarrow> Ok (cov_patterns s, cov_bindings s))))"

end
