(* ===== verification/Exhaustiveness.thy ===== *)
theory Exhaustiveness
  imports Coverage Coerce
begin

text \<open>
  Correctness of the coverage analysis against the values of a type: a match that
  \<open>bind_patterns\<close> accepts selects an arm for every value of its source type, every arm is selected by
  some value, and the bindings of the selected arm have their declared types.
\<close>

section \<open>Types and constructors\<close>

text \<open>The arguments a value has under a constructor.\<close>

definition destruct :: "coverage_constructor \<Rightarrow> value \<Rightarrow> value list option" where
  "destruct k v =
     (case (k, unwrapped v) of
        (CVariant i n, VEnum m args j) \<Rightarrow> if i = j then Some args else None
      | (CNone, VOption None) \<Rightarrow> Some []
      | (CSome, VOption (Some w)) \<Rightarrow> Some [w]
      | (CRecord names, VRecord fs) \<Rightarrow> those (map (bt_get fs) names)
      | (CTuple, VTuple ws) \<Rightarrow> Some ws
      | _ \<Rightarrow> None)"

lemma those_map_Some: "those (map f xs) = Some ys \<longleftrightarrow> list_all2 (\<lambda>x y. f x = Some y) xs ys"
proof (induction xs arbitrary: ys)
  case (Cons x xs)
  then show ?case by (cases ys) (auto split: option.splits)
qed auto

lemma those_columns:
  "\<forall>col \<in> set cols. bt_get fs (col_name col) = Some (f col) \<Longrightarrow> those (map (bt_get fs) (map col_name cols)) = Some (map f cols)"
  unfolding those_map_Some by (auto simp: list_all2_conv_all_nth)

lemma record_destruct:
  assumes "has_type c (TRecord cols) (VRecord fs)" and "type_ok c (TRecord cols)"
  shows "\<exists>ws. those (map (bt_get fs) (map col_name cols)) = Some ws \<and> list_all2 (has_type c) (map col_ty cols) ws"
proof -
  from assms have fs: "bt_ok fs" "length fs = length cols" "distinct (map col_name cols)"
    "\<forall>(k, w) \<in> set fs. \<exists>col. find_column cols k = Some col \<and> has_type c (col_ty col) w"
    by fastforce+
  from record_columns(1) [OF this] obtain f where
    f: "\<forall>col \<in> set cols. bt_get fs (col_name col) = Some (f col)" "\<forall>col \<in> set cols. has_type c (col_ty col) (f col)"
    by metis
  from f(2) have "list_all2 (has_type c) (map col_ty cols) (map f cols)"
    by (auto simp: list_all2_conv_all_nth)
  with those_columns [OF f(1)] show ?thesis by blast
qed

lemma record_construct:
  assumes "list_all2 (has_type c) (map col_ty cols) ws" and "type_ok c (TRecord cols)"
  shows "\<exists>fs. has_type c (TRecord cols) (VRecord fs) \<and> those (map (bt_get fs) (map col_name cols)) = Some ws"
proof -
  define f where "f col = the (map_of (zip (map col_name cols) ws) (col_name col))" for col
  have len: "length ws = length cols" using assms(1) by (auto dest: list_all2_lengthD)
  have nth: "f (cols ! i) = ws ! i" if "i < length cols" for i
    using map_of_zip_nth [of "map col_name cols" ws i] assms(2) that len by (simp add: f_def)
  have "\<forall>col \<in> set cols. has_type c (col_ty col) (f col)"
    using assms(1) nth len by (auto simp: list_all2_conv_all_nth in_set_conv_nth)
  from record_of_columns [OF assms(2) this] obtain fs where
    "has_type c (TRecord cols) (VRecord fs)" "\<forall>col \<in> set cols. bt_get fs (col_name col) = Some (f col)" by blast
  moreover have "map f cols = ws" using nth len by (auto intro: nth_equalityI)
  ultimately show ?thesis using those_columns by metis
qed

definition variant_spec :: "variant_def \<Rightarrow> constructor_spec" where
  "variant_spec v = \<lparr>cs_constructor = CVariant (vd_id v) (vd_name v), cs_arguments = vd_args v\<rparr>"

inductive spec_shape :: "scalar_type \<Rightarrow> constructor_spec list \<Rightarrow> bool" where
  by_enum: "set specs = variant_spec ` set vs \<Longrightarrow> spec_shape (TEnum vs) specs"
| by_option: "spec_shape (TOption t) [\<lparr>cs_constructor = CNone, cs_arguments = []\<rparr>, \<lparr>cs_constructor = CSome, cs_arguments = [t]\<rparr>]"
| by_record: "spec_shape (TRecord cols) [\<lparr>cs_constructor = CRecord (map col_name cols), cs_arguments = map col_ty cols\<rparr>]"
| by_tuple: "spec_shape (TTuple ts) [\<lparr>cs_constructor = CTuple, cs_arguments = ts\<rparr>]"

lemma constructor_specs_Ok:
  assumes "constructor_specs c ty = Ok (Some specs)"
  obtains u where "underlying c ty = Ok u" and "spec_shape u specs"
proof -
  from assms obtain u where u: "underlying c ty = Ok u" by (auto simp: constructor_specs_def result_simps)
  have "spec_shape u specs"
    using assms u unfolding constructor_specs_def Let_def variant_spec_def [symmetric]
    by (cases u) (auto intro!: spec_shape.intros split: scalar_type.splits)
  with u that show ?thesis by blast
qed

text \<open>A value of a type with constructors is built by exactly one of them, from arguments of its types.\<close>

lemma specs_decompose:
  assumes "constructor_specs c ty = Ok (Some specs)" "has_type c ty v" "types_ok c" "type_ok c ty"
  shows "\<exists>s \<in> set specs. \<exists>ws. destruct (cs_constructor s) v = Some ws \<and> list_all2 (has_type c) (cs_arguments s) ws"
proof -
  obtain u where u: "underlying c ty = Ok u" "spec_shape u specs" using assms(1) by (rule constructor_specs_Ok)
  have v: "has_type c u (unwrapped v)" and ok: "type_ok c u"
    using underlying_type(1,3) [OF u(1)] assms by blast+
  from u(2) show ?thesis
  proof cases
    case (by_enum vs)
    then obtain w args where "unwrapped v = VEnum (vd_name w) args (vd_id w)" "w \<in> set vs" "list_all2 (has_type c) (vd_args w) args"
      using v by (auto dest: find_variant_Some)
    then show ?thesis unfolding by_enum by (auto simp: destruct_def variant_spec_def)
  next
    case (by_record cols)
    with v obtain fs where fs: "unwrapped v = VRecord fs" by auto
    with v ok by_record have "has_type c (TRecord cols) (VRecord fs)" "type_ok c (TRecord cols)" by simp_all
    from record_destruct [OF this] fs show ?thesis unfolding by_record by (auto simp: destruct_def)
  qed (use v in \<open>auto simp: destruct_def\<close>)
qed

lemma specs_construct:
  assumes "constructor_specs c ty = Ok (Some specs)" "s \<in> set specs" "list_all2 (has_type c) (cs_arguments s) ws"
    and "types_ok c" "type_ok c ty"
  shows "\<exists>v. has_type c ty v \<and> destruct (cs_constructor s) v = Some ws"
proof -
  obtain u where u: "underlying c ty = Ok u" "spec_shape u specs" using assms(1) by (rule constructor_specs_Ok)
  have ok: "type_ok c u" using underlying_type(3) [OF u(1)] assms(4,5) by blast
  have "\<exists>w. has_type c u w \<and> destruct (cs_constructor s) w = Some ws \<and> unwrapped w = w"
    using u(2)
  proof cases
    case (by_enum vs)
    with assms(2) obtain v where v: "s = variant_spec v" "v \<in> set vs" by auto
    with ok by_enum have "find_variant vs (vd_id v) = Some v" "vd_id v \<noteq> 0"
      using find_variant_distinct by (auto simp: list_all_iff)
    with v assms(3) by_enum show ?thesis
      by (intro exI [of _ "VEnum (vd_name v) ws (vd_id v)"]) (auto simp: variant_spec_def destruct_def)
  next
    case (by_option t)
    with assms(2,3) consider "s = \<lparr>cs_constructor = CNone, cs_arguments = []\<rparr>" "ws = []"
      | w where "s = \<lparr>cs_constructor = CSome, cs_arguments = [t]\<rparr>" "ws = [w]" "has_type c t w"
      by (auto simp: list_all2_Cons1)
    then show ?thesis
    proof cases
      case 1
      then show ?thesis by (intro exI [of _ "VOption None"]) (simp add: by_option destruct_def)
    next
      case (2 w)
      then show ?thesis by (intro exI [of _ "VOption (Some w)"]) (simp add: by_option destruct_def)
    qed
  next
    case (by_record cols)
    with assms(2,3) have "list_all2 (has_type c) (map col_ty cols) ws" by simp
    from record_construct [OF this] ok by_record obtain fs where
      "has_type c (TRecord cols) (VRecord fs)" "those (map (bt_get fs) (map col_name cols)) = Some ws" by blast
    with assms(2) by_record show ?thesis by (intro exI [of _ "VRecord fs"]) (auto simp: destruct_def)
  next
    case (by_tuple ts)
    with assms(2,3) show ?thesis by (intro exI [of _ "VTuple ws"]) (simp add: destruct_def)
  qed
  then obtain w where w: "has_type c u w" "destruct (cs_constructor s) w = Some ws" "unwrapped w = w" by blast
  from underlying_type(2) [OF u(1) w(1)] obtain v where "has_type c ty v" "unwrapped v = w" by blast
  with w show ?thesis by (auto simp: destruct_def)
qed

lemma destruct_inj:
  "destruct (CVariant i n) v = Some ws \<Longrightarrow> destruct (CVariant j m) v = Some ws' \<Longrightarrow> i = j"
  "destruct CNone v = Some ws \<Longrightarrow> destruct CSome v = Some ws' \<Longrightarrow> False"
  by (cases "unwrapped v"; auto simp: destruct_def split: if_splits option.splits)+

lemma specs_unique:
  assumes "constructor_specs c ty = Ok (Some specs)" "s \<in> set specs" "s' \<in> set specs" "types_ok c" "type_ok c ty"
    and same: "cs_constructor s = cs_constructor s' \<or>
      (\<exists>v ws ws'. destruct (cs_constructor s) v = Some ws \<and> destruct (cs_constructor s') v = Some ws')"
  shows "s = s'"
proof -
  obtain u where u: "underlying c ty = Ok u" "spec_shape u specs" using assms(1) by (rule constructor_specs_Ok)
  have ok: "type_ok c u" using underlying_type(3) [OF u(1)] assms(4,5) by blast
  from u(2) show ?thesis
  proof cases
    case (by_enum vs)
    with assms(2,3) obtain a b where ab: "s = variant_spec a" "s' = variant_spec b" "a \<in> set vs" "b \<in> set vs" by auto
    from same have "vd_id a = vd_id b" unfolding ab variant_spec_def by (auto dest: destruct_inj(1))
    with ab ok by_enum have "a = b" by (auto simp: distinct_map inj_on_def)
    with ab show ?thesis by simp
  next
    case (by_option t)
    with assms(2,3) same show ?thesis by (auto dest: destruct_inj(2))
  qed (use assms(2,3) in auto)
qed

section \<open>What a coverage pattern covers\<close>

lemma size_zip_pattern: "(p, w) \<in> set (zip ps ws) \<Longrightarrow> size p < Suc (size_list size ps)"
  using size_list_mem [of p ps size] by (auto dest: set_zip_leftD)

function (sequential) covers :: "coverage_pattern \<Rightarrow> value \<Rightarrow> bool" where
  "covers CWildcard v = True"
| "covers (CConstructor k ps) v =
     (case destruct k v of
        None \<Rightarrow> False
      | Some ws \<Rightarrow> length ps = length ws \<and> list_all (\<lambda>(p, w). covers p w) (zip ps ws))"
  by pat_completeness auto
termination by (relation "measure (\<lambda>(p, v). size p)") (auto dest: size_zip_pattern)

lemma covers_constructor [simp]:
  "covers (CConstructor k ps) v \<longleftrightarrow> (\<exists>ws. destruct k v = Some ws \<and> list_all2 covers ps ws)"
  by (auto simp: list_all2_iff list_all_iff split: option.splits)

declare covers.simps(2) [simp del]

definition covered :: "pattern_row list \<Rightarrow> value list \<Rightarrow> bool" where
  "covered m vs \<longleftrightarrow> (\<exists>row \<in> set m. list_all2 covers row vs)"

text \<open>A coverage pattern that fits a type: its constructors are those of the type, fully applied.\<close>

function (sequential) fits :: "catalog \<Rightarrow> scalar_type \<Rightarrow> coverage_pattern \<Rightarrow> bool" where
  "fits c ty CWildcard = True"
| "fits c ty (CConstructor k ps) =
     (case constructor_specs c ty of
        Ok (Some specs) \<Rightarrow>
          (\<exists>s \<in> set specs. cs_constructor s = k \<and> length ps = length (cs_arguments s) \<and>
             list_all (\<lambda>(p, t). fits c t p) (zip ps (cs_arguments s)))
      | _ \<Rightarrow> False)"
  by pat_completeness auto
termination by (relation "measure (\<lambda>(c, ty, p). size p)") (auto dest: size_zip_pattern)

lemma fits_constructor [simp]:
  "fits c ty (CConstructor k ps) \<longleftrightarrow>
     (\<exists>specs. constructor_specs c ty = Ok (Some specs) \<and>
       (\<exists>s \<in> set specs. cs_constructor s = k \<and> list_all2 (fits c) (cs_arguments s) ps))"
  by (auto simp: list_all_zip split: result.splits option.splits)

declare fits.simps(2) [simp del]

abbreviation rows_fit :: "catalog \<Rightarrow> scalar_type list \<Rightarrow> pattern_row list \<Rightarrow> bool" where
  "rows_fit c ts m \<equiv> \<forall>row \<in> set m. list_all2 (fits c) ts row"

lemma all2_wildcards: "list_all2 covers (replicate n CWildcard) ws \<longleftrightarrow> length ws = n"
  by (auto simp: list_all2_conv_all_nth)

lemma fits_wildcards: "list_all2 (fits c) ts (replicate (length ts) CWildcard)"
  by (auto simp: list_all2_conv_all_nth)

lemma specialize_row:
  "row \<in> set (specialize_matrix m k n) \<longleftrightarrow>
     (\<exists>t. CWildcard # t \<in> set m \<and> row = replicate n CWildcard @ t) \<or>
     (\<exists>args t. CConstructor k args # t \<in> set m \<and> row = args @ t)"
proof (induction m)
  case (Cons r m)
  show ?case
  proof (cases r)
    case Nil
    with Cons show ?thesis by (simp add: specialize_matrix_def List.map_filter_simps)
  next
    case (Cons h t)
    with Cons.IH show ?thesis
      by (cases h) (auto simp: specialize_matrix_def List.map_filter_simps)
  qed
qed (simp add: specialize_matrix_def List.map_filter_simps)

lemma default_row: "row \<in> set (default_matrix m) \<longleftrightarrow> CWildcard # row \<in> set m"
proof (induction m)
  case (Cons r m)
  then show ?case
    by (cases r; cases "hd r") (auto simp: default_matrix_def List.map_filter_simps)
qed (simp add: default_matrix_def List.map_filter_simps)

text \<open>Specialising a matrix to the constructor of a value keeps what it covers.\<close>

lemma specialize_fits:
  assumes "rows_fit c (ty # tys) m" "constructor_specs c ty = Ok (Some specs)" "s \<in> set specs" "types_ok c" "type_ok c ty"
  shows "rows_fit c (cs_arguments s @ tys) (specialize_matrix m (cs_constructor s) (length (cs_arguments s)))"
proof
  fix row assume "row \<in> set (specialize_matrix m (cs_constructor s) (length (cs_arguments s)))"
  then consider t where "CWildcard # t \<in> set m" "row = replicate (length (cs_arguments s)) CWildcard @ t"
    | args t where "CConstructor (cs_constructor s) args # t \<in> set m" "row = args @ t"
    unfolding specialize_row by blast
  then show "list_all2 (fits c) (cs_arguments s @ tys) row"
  proof cases
    case 1
    with assms(1) show ?thesis by (auto intro!: list_all2_appendI fits_wildcards)
  next
    case (2 args t)
    with assms(1) have "list_all2 (fits c) (ty # tys) (CConstructor (cs_constructor s) args # t)" by blast
    then obtain s' where "s' \<in> set specs" "cs_constructor s' = cs_constructor s" "list_all2 (fits c) (cs_arguments s') args"
      "list_all2 (fits c) tys t"
      using assms(2) by auto
    with specs_unique [OF assms(2) \<open>s' \<in> set specs\<close> assms(3-5)] 2 show ?thesis
      by (auto intro!: list_all2_appendI)
  qed
qed

lemma default_fits: "rows_fit c (ty # tys) m \<Longrightarrow> rows_fit c tys (default_matrix m)"
  by (auto simp: default_row)

lemma specialize_covered:
  assumes "rows_fit c (ty # tys) m" "constructor_specs c ty = Ok (Some specs)" "s \<in> set specs" "types_ok c" "type_ok c ty"
    and d: "destruct (cs_constructor s) v = Some ws" and len: "length ws = length (cs_arguments s)"
  shows "covered (specialize_matrix m (cs_constructor s) (length (cs_arguments s))) (ws @ vs) \<longleftrightarrow> covered m (v # vs)"
proof
  assume "covered (specialize_matrix m (cs_constructor s) (length (cs_arguments s))) (ws @ vs)"
  then obtain row where row: "list_all2 covers row (ws @ vs)"
    "(\<exists>t. CWildcard # t \<in> set m \<and> row = replicate (length (cs_arguments s)) CWildcard @ t) \<or>
     (\<exists>args t. CConstructor (cs_constructor s) args # t \<in> set m \<and> row = args @ t)"
    unfolding covered_def using specialize_row by blast
  from row(2) show "covered m (v # vs)"
  proof (elim disjE exE conjE)
    fix t assume "CWildcard # t \<in> set m" "row = replicate (length (cs_arguments s)) CWildcard @ t"
    then show ?thesis using row(1) len by (force simp: covered_def list_all2_append)
  next
    fix args t assume a: "CConstructor (cs_constructor s) args # t \<in> set m" "row = args @ t"
    with assms(1) have "list_all2 (fits c) (ty # tys) (CConstructor (cs_constructor s) args # t)" by blast
    then obtain s' where "s' \<in> set specs" "cs_constructor s' = cs_constructor s" "list_all2 (fits c) (cs_arguments s') args"
      using assms(2) by auto
    with specs_unique [OF assms(2) \<open>s' \<in> set specs\<close> assms(3-5)] len have "length args = length ws"
      by (auto dest: list_all2_lengthD)
    with a row(1) have "list_all2 covers args ws" "list_all2 covers t vs" by (simp_all add: list_all2_append)
    with a(1) d show ?thesis unfolding covered_def by (intro bexI [OF _ a(1)]) simp
  qed
next
  assume "covered m (v # vs)"
  then obtain h t where ht: "h # t \<in> set m" "covers h v" "list_all2 covers t vs"
    unfolding covered_def by (auto simp: list_all2_Cons2)
  show "covered (specialize_matrix m (cs_constructor s) (length (cs_arguments s))) (ws @ vs)"
  proof (cases h)
    case CWildcard
    with ht have "replicate (length (cs_arguments s)) CWildcard @ t \<in> set (specialize_matrix m (cs_constructor s) (length (cs_arguments s)))"
      unfolding specialize_row by blast
    moreover have "list_all2 covers (replicate (length (cs_arguments s)) CWildcard @ t) (ws @ vs)"
      using ht(3) len by (intro list_all2_appendI) (simp_all add: all2_wildcards)
    ultimately show ?thesis unfolding covered_def by blast
  next
    case (CConstructor k args)
    with ht assms(1) have "fits c ty (CConstructor k args)" by fastforce
    then obtain s' where s': "s' \<in> set specs" "cs_constructor s' = k" using assms(2) by auto
    from ht(2) CConstructor obtain ws' where ws': "destruct k v = Some ws'" "list_all2 covers args ws'" by auto
    with s' d specs_unique [OF assms(2) s'(1) assms(3-5)] have "k = cs_constructor s" by blast
    with ht(1) CConstructor have "args @ t \<in> set (specialize_matrix m (cs_constructor s) (length (cs_arguments s)))"
      unfolding specialize_row by blast
    moreover have "list_all2 covers (args @ t) (ws @ vs)"
      using ws' d ht(3) \<open>k = _\<close> by (intro list_all2_appendI) simp_all
    ultimately show ?thesis unfolding covered_def by blast
  qed
qed

lemma default_covered:
  assumes "rows_fit c (ty # tys) m" "constructor_specs c ty = Ok None"
  shows "covered (default_matrix m) vs \<longleftrightarrow> covered m (v # vs)"
proof -
  have "h = CWildcard" if "h # t \<in> set m" for h t
    using assms that by (cases h) fastforce+
  then show ?thesis
    using default_row [of _ m] unfolding covered_def list_all2_Cons2 by (metis covers.simps(1))
qed

lemma wildcard_row_covered:
  assumes "covered_by_wildcards m (length vs)" shows "covered m vs"
proof -
  from assms obtain row where "row \<in> set m" "length row = length vs" "\<forall>p \<in> set row. p = CWildcard"
    by (auto simp: covered_by_wildcards_def list_ex_iff list_all_iff)
  then show ?thesis unfolding covered_def list_all2_conv_all_nth by (metis covers.simps(1) nth_mem)
qed

section \<open>Usefulness\<close>

text \<open>A set of valid types that is closed under the arguments of their constructors.\<close>

definition closed_types :: "catalog \<Rightarrow> scalar_type set \<Rightarrow> bool" where
  "closed_types c T \<longleftrightarrow> (\<forall>ty \<in> T. type_ok c ty \<and>
     (\<forall>specs. constructor_specs c ty = Ok (Some specs) \<longrightarrow> (\<forall>s \<in> set specs. set (cs_arguments s) \<subseteq> T)))"

lemma closed_typesD:
  assumes "closed_types c T" "ty \<in> T"
  shows "type_ok c ty"
    and "constructor_specs c ty = Ok (Some specs) \<Longrightarrow> s \<in> set specs \<Longrightarrow> set (cs_arguments s) \<subseteq> T"
  using assms by (auto simp: closed_types_def)

text \<open>
  The meaning of the answer \<open>r\<close> to the question whether the row \<open>q\<close> is useful after the matrix \<open>m\<close>: if
  not, every value it covers is covered by the matrix; if so, and all the types have values, it covers
  values that the matrix does not.
\<close>

definition answers :: "catalog \<Rightarrow> scalar_type set \<Rightarrow> pattern_row list \<Rightarrow> pattern_row \<Rightarrow> scalar_type list \<Rightarrow> bool \<Rightarrow> bool" where
  "answers c T m q ts r \<longleftrightarrow>
     (if r
      then (\<forall>t \<in> T. inhabited c t) \<longrightarrow>
             (\<exists>vs. list_all2 (has_type c) ts vs \<and> list_all2 covers q vs \<and> \<not> covered m vs)
      else \<forall>vs. list_all2 (has_type c) ts vs \<longrightarrow> list_all2 covers q vs \<longrightarrow> covered m vs)"

lemma answers_covered: "length q = length ts \<Longrightarrow> covered_by_wildcards m (length q) \<Longrightarrow> answers c T m q ts False"
  using wildcard_row_covered by (auto simp: answers_def dest: list_all2_lengthD)

lemma answers_empty: "m \<noteq> [] \<Longrightarrow> rows_fit c [] m \<Longrightarrow> answers c T m [] [] False"
  "answers c T [] [] [] True"
  by (auto simp: answers_def covered_def neq_Nil_conv)

lemma answers_default:
  assumes "answers c T (default_matrix m) t tys r" "rows_fit c (ty # tys) m" "constructor_specs c ty = Ok None" "ty \<in> T"
  shows "answers c T m (CWildcard # t) (ty # tys) r"
proof (cases r)
  case True
  show ?thesis unfolding answers_def
  proof (simp add: True, intro impI)
    assume inh: "\<forall>t \<in> T. inhabited c t"
    with assms(1) True obtain vs where vs: "list_all2 (has_type c) tys vs" "list_all2 covers t vs" "\<not> covered (default_matrix m) vs"
      by (auto simp: answers_def)
    from inh assms(4) obtain v where "has_type c ty v" by (auto simp: inhabited_def)
    with vs default_covered [OF assms(2,3)]
    show "\<exists>vs. list_all2 (has_type c) (ty # tys) vs \<and> list_all2 covers (CWildcard # t) vs \<and> \<not> covered m vs"
      by (intro exI [of _ "v # vs"]) auto
  qed
next
  case False
  then show ?thesis using assms(1) default_covered [OF assms(2,3)]
    by (auto simp: answers_def list_all2_Cons1)
qed

text \<open>The rows under one constructor.\<close>

lemma answers_constructor:
  assumes a: "answers c T (specialize_matrix m (cs_constructor s) (length (cs_arguments s))) (args @ t) (cs_arguments s @ tys) r"
    and fit: "rows_fit c (ty # tys) m" and specs: "constructor_specs c ty = Ok (Some specs)" "s \<in> set specs"
    and ok: "types_ok c" "type_ok c ty" and len: "length args = length (cs_arguments s)"
  shows "answers c T m (CConstructor (cs_constructor s) args # t) (ty # tys) r"
proof (cases r)
  case True
  show ?thesis unfolding answers_def
  proof (simp add: True del: covers_constructor, intro impI)
    assume "\<forall>t \<in> T. inhabited c t"
    with a True obtain vs where vs: "list_all2 (has_type c) (cs_arguments s @ tys) vs" "list_all2 covers (args @ t) vs"
      "\<not> covered (specialize_matrix m (cs_constructor s) (length (cs_arguments s))) vs"
      by (auto simp: answers_def)
    from vs(1) obtain ws us where u: "vs = ws @ us" "list_all2 (has_type c) (cs_arguments s) ws" "list_all2 (has_type c) tys us"
      by (auto simp: list_all2_append1)
    from specs_construct [OF specs u(2) ok] obtain v where v: "has_type c ty v" "destruct (cs_constructor s) v = Some ws" by blast
    have lw: "length ws = length (cs_arguments s)" using u(2) by (auto dest: list_all2_lengthD)
    with vs(2) u(1) len have "list_all2 covers args ws" "list_all2 covers t us" by (simp_all add: list_all2_append)
    with v u specialize_covered [OF fit specs ok v(2) lw, of us] vs(3)
    show "\<exists>vs. list_all2 (has_type c) (ty # tys) vs \<and> list_all2 covers (CConstructor (cs_constructor s) args # t) vs \<and> \<not> covered m vs"
      by (intro exI [of _ "v # us"]) auto
  qed
next
  case False
  show ?thesis unfolding answers_def
  proof (simp add: False del: covers_constructor, intro allI impI)
    fix vs assume ty: "list_all2 (has_type c) (ty # tys) vs" and cov: "list_all2 covers (CConstructor (cs_constructor s) args # t) vs"
    then obtain v us where v: "vs = v # us" "has_type c ty v" "list_all2 (has_type c) tys us" by (auto simp: list_all2_Cons1)
    with cov obtain ws where ws: "destruct (cs_constructor s) v = Some ws" "list_all2 covers args ws" "list_all2 covers t us" by auto
    from specs_decompose [OF specs(1) v(2) ok] obtain s' ws' where s': "s' \<in> set specs"
      "destruct (cs_constructor s') v = Some ws'" "list_all2 (has_type c) (cs_arguments s') ws'" by blast
    with specs_unique [OF specs(1) s'(1) specs(2) ok] ws(1) have "s' = s" by blast
    with s' ws(1) have tw: "list_all2 (has_type c) (cs_arguments s) ws" by simp
    then have lw: "length ws = length (cs_arguments s)" by (auto dest: list_all2_lengthD)
    have "covered (specialize_matrix m (cs_constructor s) (length (cs_arguments s))) (ws @ us)"
      using a False tw v(3) ws(2,3) by (auto simp: answers_def intro!: list_all2_appendI)
    with specialize_covered [OF fit specs ok ws(1) lw] v(1) show "covered m vs" by simp
  qed
qed

lemma answers_wildcard:
  assumes specs: "constructor_specs c ty = Ok (Some specs)" and ok: "types_ok c" "type_ok c ty"
    and a: "if r then \<exists>s \<in> set specs. answers c T m (CConstructor (cs_constructor s) (replicate (length (cs_arguments s)) CWildcard) # t) (ty # tys) True
            else \<forall>s \<in> set specs. answers c T m (CConstructor (cs_constructor s) (replicate (length (cs_arguments s)) CWildcard) # t) (ty # tys) False"
  shows "answers c T m (CWildcard # t) (ty # tys) r"
proof (cases r)
  case True
  with a obtain s :: constructor_spec where s: "answers c T m (CConstructor (cs_constructor s) (replicate (length (cs_arguments s)) CWildcard) # t) (ty # tys) True"
    by auto
  show ?thesis unfolding answers_def
  proof (simp add: True, intro impI)
    assume "\<forall>t \<in> T. inhabited c t"
    with s obtain vs where "list_all2 (has_type c) (ty # tys) vs" "\<not> covered m vs"
      "list_all2 covers (CConstructor (cs_constructor s) (replicate (length (cs_arguments s)) CWildcard) # t) vs"
      by (auto simp: answers_def simp del: covers_constructor)
    then show "\<exists>vs. list_all2 (has_type c) (ty # tys) vs \<and> list_all2 covers (CWildcard # t) vs \<and> \<not> covered m vs"
      by (auto simp: list_all2_Cons1)
  qed
next
  case False
  show ?thesis unfolding answers_def
  proof (simp add: False, intro allI impI)
    fix vs assume ty: "list_all2 (has_type c) (ty # tys) vs" and cov: "list_all2 covers (CWildcard # t) vs"
    then obtain v us where v: "vs = v # us" "has_type c ty v" "list_all2 covers t us" by (auto simp: list_all2_Cons1)
    from specs_decompose [OF specs v(2) ok] obtain s ws where s: "s \<in> set specs"
      "destruct (cs_constructor s) v = Some ws" "list_all2 (has_type c) (cs_arguments s) ws" by blast
    then have "list_all2 covers (CConstructor (cs_constructor s) (replicate (length (cs_arguments s)) CWildcard) # t) vs"
      using v by (auto simp: all2_wildcards dest: list_all2_lengthD)
    with a False s(1) ty show "covered m vs" by (auto simp: answers_def simp del: covers_constructor)
  qed
qed

lemma useful_correct:
  assumes ok: "types_ok c" and closed: "closed_types c T"
  shows "pattern_is_useful c m q ts b = Ok (r, b') \<Longrightarrow> set ts \<subseteq> T \<Longrightarrow> rows_fit c ts m \<Longrightarrow> list_all2 (fits c) ts q \<Longrightarrow>
      answers c T m q ts r"
    and "useful_constructors c m ss t tys b = Ok (r, b') \<Longrightarrow> constructor_specs c ty = Ok (Some specs) \<Longrightarrow> set ss \<subseteq> set specs \<Longrightarrow>
      insert ty (set tys) \<subseteq> T \<Longrightarrow> rows_fit c (ty # tys) m \<Longrightarrow> list_all2 (fits c) tys t \<Longrightarrow>
      if r then \<exists>s \<in> set ss. answers c T m (CConstructor (cs_constructor s) (replicate (length (cs_arguments s)) CWildcard) # t) (ty # tys) True
      else \<forall>s \<in> set ss. answers c T m (CConstructor (cs_constructor s) (replicate (length (cs_arguments s)) CWildcard) # t) (ty # tys) False"
  using ok closed
proof (induction c m q ts b and c m ss t tys b arbitrary: r b' and r b' ty specs
    rule: pattern_is_useful_useful_constructors.induct)
  case (1 c m q ts b)
  note eq = 1(4) [unfolded pattern_is_useful.simps [of c m q ts b]]
  from eq obtain b0 where b: "coverage_step b = Ok b0" by (auto simp: result_simps)
  have len: "length q = length ts" using 1(7) by (auto dest: list_all2_lengthD)
  show ?case
  proof (cases "covered_by_wildcards m (length q)")
    case True
    with eq b have "\<not> r" by auto
    with answers_covered [OF len True] show ?thesis by simp
  next
    case nw: False
    show ?thesis
    proof (cases q)
      case Nil
      with eq b nw have "r = (m = [])" by auto
      with Nil len 1(6) answers_empty show ?thesis by (cases "m = []") auto
    next
      case q: (Cons h t)
      then obtain ty tys where ts: "ts = ty # tys" using len by (cases ts) auto
      from eq b nw q ts obtain specs where specs: "constructor_specs c ty = Ok specs" by (auto simp: result_simps)
      have ty: "ty \<in> T" "set tys \<subseteq> T" "type_ok c ty" using 1(5) ts closed_typesD(1) [OF 1(9)] by auto
      note step = b nw q ts specs
      show ?thesis
      proof (cases h)
        case CWildcard
        show ?thesis
        proof (cases specs)
          case None
          then have "pattern_is_useful c (default_matrix m) t tys b0 = Ok (r, b')" using eq step CWildcard by simp
          from 1(1) [OF step CWildcard None this ty(2) default_fits] 1(6-9) q ts
          have "answers c T (default_matrix m) t tys r" by auto
          with answers_default [OF this] 1(6) ts specs None ty(1) q CWildcard show ?thesis by simp
        next
          case (Some ss)
          then have "useful_constructors c m ss t tys b0 = Ok (r, b')" using eq step CWildcard by simp
          from 1(2) [OF step CWildcard Some this, of ty ss] specs Some ty 1(6-9) q ts answers_wildcard [of c ty ss r T m t tys]
          show ?thesis using CWildcard by simp
        qed
      next
        case (CConstructor k args)
        then obtain ss s where s: "specs = Some ss" "find (\<lambda>s. cs_constructor s = k) ss = Some s"
          and u: "pattern_is_useful c (specialize_matrix m k (length (cs_arguments s))) (args @ t) (cs_arguments s @ tys) b0 = Ok (r, b')"
          using eq step by (cases specs) (auto simp: result_simps)
        from s(2) have k: "s \<in> set ss" "cs_constructor s = k" by (auto simp: find_Some_iff)
        have sp: "constructor_specs c ty = Ok (Some ss)" using specs s(1) by simp
        from 1(7) q ts CConstructor sp obtain s' where s': "s' \<in> set ss" "cs_constructor s' = k" "list_all2 (fits c) (cs_arguments s') args"
          and tf: "list_all2 (fits c) tys t" by auto
        have "s' = s" using specs_unique [OF sp s'(1) k(1) 1(8) ty(3)] s'(2) k(2) by simp
        with s'(3) have af: "list_all2 (fits c) (cs_arguments s) args" by simp
        have "answers c T (specialize_matrix m k (length (cs_arguments s))) (args @ t) (cs_arguments s @ tys) r"
        proof (rule 1(3) [OF step CConstructor _ u])
          show "ok_or E_MATCH (Option.bind specs (find (\<lambda>s. cs_constructor s = k))) = Ok s" using s by simp
          show "set (cs_arguments s @ tys) \<subseteq> T" using closed_typesD(2) [OF 1(9) ty(1) sp k(1)] ty(2) by simp
          show "rows_fit c (cs_arguments s @ tys) (specialize_matrix m k (length (cs_arguments s)))"
            using specialize_fits [OF _ sp k(1) 1(8) ty(3)] 1(6) ts k(2) by simp
          show "list_all2 (fits c) (cs_arguments s @ tys) (args @ t)" using af tf by (rule list_all2_appendI)
        qed (use 1(8,9) in auto)
        with answers_constructor [OF _ _ sp k(1) 1(8) ty(3)] 1(6) ts k(2) list_all2_lengthD [OF af] q CConstructor
        show ?thesis by simp
      qed
    qed
  qed
next
  case (2 c m t tys b)
  then show ?case by (simp add: useful_constructors.simps)
next
  case (3 c m s ss t tys b)
  from 3(3) obtain useful b1 where
    p: "pattern_is_useful c (specialize_matrix m (cs_constructor s) (length (cs_arguments s)))
         (replicate (length (cs_arguments s)) CWildcard @ t) (cs_arguments s @ tys) b = Ok (useful, b1)"
    and rest: "(if useful then Ok (True, b1) else useful_constructors c m ss t tys b1) = Ok (r, b')"
    by (auto simp: useful_constructors.simps result_simps)
  have ty: "ty \<in> T" "type_ok c ty" "s \<in> set specs" using 3(5,6) closed_typesD(1) [OF 3(10)] by auto
  have "answers c T (specialize_matrix m (cs_constructor s) (length (cs_arguments s)))
         (replicate (length (cs_arguments s)) CWildcard @ t) (cs_arguments s @ tys) useful"
  proof (rule 3(1) [OF p])
    show "set (cs_arguments s @ tys) \<subseteq> T" using closed_typesD(2) [OF 3(10) ty(1) 3(4) ty(3)] 3(6) by simp
    show "rows_fit c (cs_arguments s @ tys) (specialize_matrix m (cs_constructor s) (length (cs_arguments s)))"
      using specialize_fits [OF 3(7) 3(4) ty(3) 3(9) ty(2)] by simp
    show "list_all2 (fits c) (cs_arguments s @ tys) (replicate (length (cs_arguments s)) CWildcard @ t)"
      using fits_wildcards 3(8) by (rule list_all2_appendI)
  qed (use 3(9,10) in auto)
  from answers_constructor [OF this 3(7) 3(4) ty(3) 3(9) ty(2)]
  have a: "answers c T m (CConstructor (cs_constructor s) (replicate (length (cs_arguments s)) CWildcard) # t) (ty # tys) useful"
    by simp
  show ?case
  proof (cases useful)
    case True
    with rest a show ?thesis by auto
  next
    case False
    with rest have "useful_constructors c m ss t tys b1 = Ok (r, b')" by simp
    from 3(2) [OF p refl False this 3(4)] 3(5-10) a False show ?thesis by auto
  qed
qed

section \<open>Uncovered rows\<close>

abbreviation wildcards :: "nat \<Rightarrow> pattern_row" where
  "wildcards n \<equiv> replicate n CWildcard"

definition search_answers :: "catalog \<Rightarrow> scalar_type set \<Rightarrow> pattern_row list \<Rightarrow> scalar_type list \<Rightarrow> pattern_row option \<Rightarrow> bool" where
  "search_answers c T m ts w \<longleftrightarrow>
     (case w of
        None \<Rightarrow> answers c T m (wildcards (length ts)) ts False
      | Some q \<Rightarrow> list_all2 (fits c) ts q \<and> answers c T m q ts True)"

lemma uncovered_correct:
  assumes ok: "types_ok c" and closed: "closed_types c T"
  shows "uncovered_patterns c m ts b = Ok (w, b') \<Longrightarrow> set ts \<subseteq> T \<Longrightarrow> rows_fit c ts m \<Longrightarrow> search_answers c T m ts w"
    and "uncovered_constructors c m ss tys b = Ok (w, b') \<Longrightarrow> constructor_specs c ty = Ok (Some specs) \<Longrightarrow> set ss \<subseteq> set specs \<Longrightarrow>
      insert ty (set tys) \<subseteq> T \<Longrightarrow> rows_fit c (ty # tys) m \<Longrightarrow>
      (case w of
         None \<Rightarrow> \<forall>s \<in> set ss. answers c T m (CConstructor (cs_constructor s) (wildcards (length (cs_arguments s))) # wildcards (length tys))
                   (ty # tys) False
       | Some q \<Rightarrow> list_all2 (fits c) (ty # tys) q \<and> answers c T m q (ty # tys) True)"
  using ok closed
proof (induction c m ts b and c m ss tys b arbitrary: w b' and w b' ty specs
    rule: uncovered_patterns_uncovered_constructors.induct)
  case (1 c m ts b)
  note eq = 1(3) [unfolded uncovered_patterns.simps [of c m ts b]]
  from eq obtain b0 where b: "coverage_step b = Ok b0" by (auto simp: result_simps)
  show ?case
  proof (cases "covered_by_wildcards m (length ts)")
    case True
    with eq b have "w = None" by auto
    with answers_covered [of "wildcards (length ts)" ts m] True show ?thesis by (simp add: search_answers_def)
  next
    case nw: False
    show ?thesis
    proof (cases ts)
      case Nil
      with eq b nw have "w = (if m = [] then Some [] else None)" by auto
      with Nil 1(5) answers_empty show ?thesis by (auto simp: search_answers_def)
    next
      case ts: (Cons ty tys)
      from eq b nw ts obtain specs where specs: "constructor_specs c ty = Ok specs" by (auto simp: result_simps)
      have ty: "ty \<in> T" "set tys \<subseteq> T" "type_ok c ty" using 1(4) ts closed_typesD(1) [OF 1(7)] by auto
      note step = b nw ts specs
      show ?thesis
      proof (cases specs)
        case None
        then obtain w0 where w0: "uncovered_patterns c (default_matrix m) tys b0 = Ok (w0, b')" "w = map_option ((#) CWildcard) w0"
          using eq step by (auto simp: result_simps)
        from 1(1) [OF step None w0(1) ty(2) default_fits] 1(5-7) ts
        have "search_answers c T (default_matrix m) tys w0" by auto
        with answers_default [of c T m _ tys _ ty] 1(5) ts specs None ty(1) w0(2) show ?thesis
          by (auto simp: search_answers_def split: option.splits)
      next
        case (Some ss)
        then have "uncovered_constructors c m ss tys b0 = Ok (w, b')" using eq step by simp
        from 1(2) [OF step Some this, of ty ss] specs Some ty 1(5-7) ts answers_wildcard [of c ty ss False T m "wildcards (length tys)" tys]
        show ?thesis by (auto simp: search_answers_def split: option.splits)
      qed
    qed
  qed
next
  case (2 c m tys b)
  then show ?case by (simp add: uncovered_constructors.simps)
next
  case (3 c m s ss tys b)
  let ?sm = "specialize_matrix m (cs_constructor s) (length (cs_arguments s))"
  from 3(3) obtain w0 b1 where p: "uncovered_patterns c ?sm (cs_arguments s @ tys) b = Ok (w0, b1)"
    by (auto simp: uncovered_constructors.simps result_simps Let_def)
  have ty: "ty \<in> T" "type_ok c ty" "s \<in> set specs" using 3(5,6) closed_typesD(1) [OF 3(9)] by auto
  have sa: "search_answers c T ?sm (cs_arguments s @ tys) w0"
  proof (rule 3(1) [OF refl p])
    show "set (cs_arguments s @ tys) \<subseteq> T" using closed_typesD(2) [OF 3(9) ty(1) 3(4) ty(3)] 3(6) by simp
    show "rows_fit c (cs_arguments s @ tys) ?sm" using specialize_fits [OF 3(7) 3(4) ty(3) 3(8) ty(2)] by simp
  qed (use 3(8,9) in auto)
  note lift = answers_constructor [OF _ 3(7) 3(4) ty(3) 3(8) ty(2)]
  show ?case
  proof (cases w0)
    case None
    with 3(3) p have rest: "uncovered_constructors c m ss tys b1 = Ok (w, b')"
      by (simp add: uncovered_constructors.simps Let_def)
    have "answers c T m (CConstructor (cs_constructor s) (wildcards (length (cs_arguments s))) # wildcards (length tys)) (ty # tys) False"
      using lift [of T "wildcards (length (cs_arguments s))" "wildcards (length tys)"] sa None
      by (simp add: search_answers_def replicate_add)
    with 3(2) [OF refl p refl None rest 3(4)] 3(5-9) show ?thesis by (auto split: option.splits)
  next
    case (Some q)
    with sa have q: "list_all2 (fits c) (cs_arguments s @ tys) q" "answers c T ?sm q (cs_arguments s @ tys) True"
      by (auto simp: search_answers_def)
    then obtain as t where at: "q = as @ t" "list_all2 (fits c) (cs_arguments s) as" "list_all2 (fits c) tys t"
      by (auto simp: list_all2_append1)
    then have "length as = length (cs_arguments s)" by (auto dest: list_all2_lengthD)
    moreover from this have "w = Some (CConstructor (cs_constructor s) as # t)"
      using 3(3) p Some at(1) by (auto simp: uncovered_constructors.simps Let_def)
    ultimately show ?thesis
      using lift [of T as t True] q(2) at ty(3) 3(4) by auto
  qed
qed

section \<open>Bound patterns\<close>

text \<open>What a successful match adds: a value of its declared type for each binding.\<close>

definition extends_bindings :: "catalog \<Rightarrow> column list \<Rightarrow> bindings \<Rightarrow> bindings \<Rightarrow> bool" where
  "extends_bindings c cols b b' \<longleftrightarrow>
     (\<forall>n. n \<notin> col_name ` set cols \<longrightarrow> bt_get b' n = bt_get b n) \<and>
     (\<forall>col \<in> set cols. \<exists>w. bt_get b' (col_name col) = Some w \<and> has_type c (col_ty col) w)"

definition runs :: "catalog \<Rightarrow> column list \<Rightarrow> bool \<Rightarrow> (bindings \<Rightarrow> bindings option) \<Rightarrow> bool" where
  "runs c cols cov f \<longleftrightarrow>
     (\<forall>b. (\<forall>col \<in> set cols. bt_get b (col_name col) = None) \<longrightarrow>
        (if cov then \<exists>b'. f b = Some b' \<and> extends_bindings c cols b b' else f b = None))"

lemma extends_trans:
  assumes "extends_bindings c i1 b b1" "extends_bindings c i2 b1 b2" "col_name ` set i1 \<inter> col_name ` set i2 = {}"
  shows "extends_bindings c (i1 @ i2) b b2"
  unfolding extends_bindings_def
proof (intro conjI allI impI ballI)
  fix n assume "n \<notin> col_name ` set (i1 @ i2)"
  with assms show "bt_get b2 n = bt_get b n" by (simp add: extends_bindings_def image_Un)
next
  fix col assume "col \<in> set (i1 @ i2)"
  then consider "col \<in> set i2" | "col \<in> set i1" "col_name col \<notin> col_name ` set i2" using assms(3) by auto
  then show "\<exists>w. bt_get b2 (col_name col) = Some w \<and> has_type c (col_ty col) w"
    using assms(1,2) by cases (auto simp: extends_bindings_def)
qed

lemma runs_seq:
  assumes f: "runs c i1 p f" and g: "runs c i2 q g" and disj: "col_name ` set i1 \<inter> col_name ` set i2 = {}"
  shows "runs c (i1 @ i2) (p \<and> q) (\<lambda>b. case f b of None \<Rightarrow> None | Some b \<Rightarrow> g b)"
  unfolding runs_def
proof (intro allI impI)
  fix b :: bindings
  assume fresh: "\<forall>col \<in> set (i1 @ i2). bt_get b (col_name col) = None"
  show "if p \<and> q then \<exists>b'. (case f b of None \<Rightarrow> None | Some b \<Rightarrow> g b) = Some b' \<and> extends_bindings c (i1 @ i2) b b'
        else (case f b of None \<Rightarrow> None | Some b \<Rightarrow> g b) = None"
  proof (cases p)
    case False
    with f fresh show ?thesis by (simp add: runs_def)
  next
    case True
    with f fresh obtain b1 where b1: "f b = Some b1" "extends_bindings c i1 b b1" by (auto simp: runs_def)
    have "\<forall>col \<in> set i2. bt_get b1 (col_name col) = None"
      using b1(2) fresh disj by (fastforce simp: extends_bindings_def)
    with g have "if q then \<exists>b'. g b1 = Some b' \<and> extends_bindings c i2 b1 b' else g b1 = None"
      by (simp add: runs_def)
    with True b1 extends_trans [OF b1(2) _ disj] show ?thesis by auto
  qed
qed

lemma runs_all_match:
  assumes "\<forall>(x, info, cov) \<in> set xs. runs c info cov (f x)"
    and "distinct (map col_name (concat (map (\<lambda>(x, info, cov). info) xs)))"
  shows "runs c (concat (map (\<lambda>(x, info, cov). info) xs)) (\<forall>(x, info, cov) \<in> set xs. cov) (all_match f (map fst xs))"
  using assms
proof (induction xs)
  case Nil
  then show ?case by (simp add: runs_def extends_bindings_def)
next
  case (Cons e xs)
  obtain x info cov where e: "e = (x, info, cov)" by (cases e)
  let ?rest = "concat (map (\<lambda>(x, info, cov). info) xs)"
  have "runs c (info @ ?rest) (cov \<and> (\<forall>(x, info, cov) \<in> set xs. cov))
      (\<lambda>b. case f x b of None \<Rightarrow> None | Some b \<Rightarrow> all_match f (map fst xs) b)"
    using Cons e by (intro runs_seq) auto
  moreover have "(\<lambda>b. case f x b of None \<Rightarrow> None | Some b \<Rightarrow> all_match f (map fst xs) b) = all_match f (map fst (e # xs))"
    using e by (auto split: option.splits)
  ultimately show ?case using e by simp
qed

lemma combine_patterns_Ok:
  assumes "combine_patterns infos = Ok cols"
  shows "cols = concat infos" and "distinct (map col_name cols)"
proof -
  have "try_fold (\<lambda>(seen, bindings) binding.
       if col_name binding \<in> set seen then Err E_MATCH
       else Ok (bs_insert (col_name binding) seen, bindings @ [binding])) (seen, out) bs = Ok (seen', out') \<Longrightarrow>
     set seen = set (map col_name out) \<Longrightarrow> distinct (map col_name out) \<Longrightarrow>
     out' = out @ bs \<and> distinct (map col_name out')" for seen out bs seen' out'
  proof (induction bs arbitrary: seen out)
    case (Cons x bs)
    then have "col_name x \<notin> set seen" by (auto split: if_splits)
    with Cons.prems have "out' = (out @ [x]) @ bs \<and> distinct (map col_name out')"
      by (intro Cons.IH [of "bs_insert (col_name x) seen" "out @ [x]"]) auto
    then show ?case by (metis append.assoc append_Cons append_Nil)
  qed simp
  from this [of "[]" "[]" "concat infos"] assms show "cols = concat infos" "distinct (map col_name cols)"
    by (auto simp: combine_patterns_def result_simps)
qed

text \<open>
  What binding a pattern guarantees: its bindings have distinct names, it has a coverage pattern that
  fits the type, and it matches exactly the values of the type that its coverage pattern covers.
\<close>

definition bound_ok :: "catalog \<Rightarrow> scalar_type \<Rightarrow> match_pattern \<times> column list \<Rightarrow> bool" where
  "bound_ok c ty r \<longleftrightarrow>
     distinct (map col_name (snd r)) \<and>
     (\<exists>cp. coverage_pattern_of c ty (fst r) = Ok cp \<and> fits c ty cp \<and>
        (\<forall>v. has_type c ty v \<longrightarrow> runs c (snd r) (covers cp v) (match_value_pattern v (fst r))))"

text \<open>The same for a sequence of patterns against a sequence of values.\<close>

lemma bound_list:
  assumes bound: "list_all2 (\<lambda>t r. bound_ok c t r) ts rs" and comb: "combine_patterns (map snd rs) = Ok cols"
  shows "\<exists>cps. traverse (\<lambda>(p, t). coverage_pattern_of c t p) (zip (map fst rs) ts) = Ok cps \<and> list_all2 (fits c) ts cps \<and>
    (\<forall>ws. list_all2 (has_type c) ts ws \<longrightarrow>
       runs c cols (list_all2 covers cps ws) (all_match (\<lambda>(p, w) b. match_value_pattern w p b) (zip (map fst rs) ws)))"
proof -
  have cols: "cols = concat (map snd rs)" "distinct (map col_name cols)" using combine_patterns_Ok [OF comb] by blast+
  have len: "length rs = length ts" using bound by (auto dest: list_all2_lengthD)
  from bound have "\<forall>i < length ts. \<exists>cp. coverage_pattern_of c (ts ! i) (fst (rs ! i)) = Ok cp \<and> fits c (ts ! i) cp \<and>
      (\<forall>v. has_type c (ts ! i) v \<longrightarrow> runs c (snd (rs ! i)) (covers cp v) (match_value_pattern v (fst (rs ! i))))"
    by (auto simp: list_all2_conv_all_nth bound_ok_def)
  then obtain g where g: "\<And>i. i < length ts \<Longrightarrow> coverage_pattern_of c (ts ! i) (fst (rs ! i)) = Ok (g i)"
    "\<And>i. i < length ts \<Longrightarrow> fits c (ts ! i) (g i)"
    "\<And>i v. i < length ts \<Longrightarrow> has_type c (ts ! i) v \<Longrightarrow> runs c (snd (rs ! i)) (covers (g i) v) (match_value_pattern v (fst (rs ! i)))"
    by metis
  define cps where "cps = map g [0..<length ts]"
  have "traverse (\<lambda>(p, t). coverage_pattern_of c t p) (zip (map fst rs) ts) = Ok cps"
    unfolding traverse_Ok_iff using g(1) len by (auto simp: cps_def list_all2_conv_all_nth)
  moreover have "list_all2 (fits c) ts cps" using g(2) by (auto simp: cps_def list_all2_conv_all_nth)
  moreover have "runs c cols (list_all2 covers cps ws) (all_match (\<lambda>(p, w) b. match_value_pattern w p b) (zip (map fst rs) ws))"
    if ws: "list_all2 (has_type c) ts ws" for ws
  proof -
    have lw: "length ws = length ts" using ws by (auto dest: list_all2_lengthD)
    define xs where "xs = map (\<lambda>i. ((fst (rs ! i), ws ! i), snd (rs ! i), covers (g i) (ws ! i))) [0..<length ts]"
    have "map fst xs = zip (map fst rs) ws" using len lw by (auto simp: xs_def intro!: nth_equalityI)
    moreover have "map (\<lambda>(x, info, cov). info) xs = map snd rs" using len by (auto simp: xs_def intro!: nth_equalityI)
    moreover have "(\<forall>(x, info, cov) \<in> set xs. cov) \<longleftrightarrow> list_all2 covers cps ws"
      using lw by (auto simp: xs_def cps_def list_all2_conv_all_nth)
    moreover have "\<forall>(x, info, cov) \<in> set xs. runs c info cov ((\<lambda>(p, w) b. match_value_pattern w p b) x)"
      using g(3) ws by (auto simp: xs_def list_all2_conv_all_nth)
    ultimately show ?thesis using runs_all_match [of xs c "\<lambda>(p, w) b. match_value_pattern w p b"] cols by simp
  qed
  ultimately show ?thesis by blast
qed

text \<open>The fields of a record pattern.\<close>

lemma bind_fields_loop:
  assumes "try_fold (\<lambda>s f. case s of (seen, out, infos) \<Rightarrow>
         if mf_field f \<in> set seen then Err E_MATCH
         else and_then (ok_or E_MATCH (find_column definitions (mf_field f))) (\<lambda>definition.
              and_then (bind_nested_pattern c (col_ty definition) (mf_pattern f)) (\<lambda>(p, bindings).
                Ok (bs_insert (mf_field f) seen, out @ [MatchField (mf_field f) p], infos @ [bindings]))))
         (seen, out, infos) fs = Ok (seen', out', infos')"
  shows "\<exists>rs. length rs = length fs \<and> out' = out @ map2 (\<lambda>f r. MatchField (mf_field f) (fst r)) fs rs \<and> infos' = infos @ map snd rs \<and>
     distinct (map mf_field fs) \<and> set (map mf_field fs) \<inter> set seen = {} \<and>
     (\<forall>i < length fs. \<exists>d. find_column definitions (mf_field (fs ! i)) = Some d \<and>
        bind_nested_pattern c (col_ty d) (mf_pattern (fs ! i)) = Ok (rs ! i))"
  using assms
proof (induction fs arbitrary: seen out infos)
  case (Cons f fs)
  from Cons.prems obtain d p bs where f: "mf_field f \<notin> set seen" "find_column definitions (mf_field f) = Some d"
    "bind_nested_pattern c (col_ty d) (mf_pattern f) = Ok (p, bs)"
    by (auto simp: result_simps split: if_splits)
  with Cons.prems Cons.IH [of "bs_insert (mf_field f) seen" "out @ [MatchField (mf_field f) p]" "infos @ [bs]"]
  obtain rs where rs: "length rs = length fs"
    "out' = out @ MatchField (mf_field f) p # map2 (\<lambda>f r. MatchField (mf_field f) (fst r)) fs rs" "infos' = infos @ bs # map snd rs"
    "distinct (map mf_field fs)" "set (map mf_field fs) \<inter> insert (mf_field f) (set seen) = {}"
    "\<forall>i < length fs. \<exists>d. find_column definitions (mf_field (fs ! i)) = Some d \<and>
        bind_nested_pattern c (col_ty d) (mf_pattern (fs ! i)) = Ok (rs ! i)"
    by auto
  show ?case
  proof (intro exI conjI)
    show "\<forall>i < length (f # fs). \<exists>d. find_column definitions (mf_field ((f # fs) ! i)) = Some d \<and>
        bind_nested_pattern c (col_ty d) (mf_pattern ((f # fs) ! i)) = Ok (((p, bs) # rs) ! i)"
      using rs(6) f by (auto simp: less_Suc_eq_0_disj)
  qed (use rs f in auto)
qed auto

lemma find_nth_key:
  assumes "distinct (map key xs)" "i < length xs"
  shows "find (\<lambda>x. key x = key (xs ! i)) xs = Some (xs ! i)"
  unfolding find_Some_iff
  using assms by (intro exI [of _ i]) (auto simp: distinct_conv_nth)

lemma bound_fields:
  assumes und: "underlying c ty = Ok (TRecord defs)" and ok: "types_ok c" "type_ok c ty"
    and len: "length rs = length fs" and dist: "distinct (map mf_field fs)"
    and each: "\<forall>i < length fs. \<exists>d. find_column defs (mf_field (fs ! i)) = Some d \<and> bound_ok c (col_ty d) (rs ! i)"
    and comb: "combine_patterns (map snd rs) = Ok cols"
    and out: "out = map2 (\<lambda>f r. MatchField (mf_field f) (fst r)) fs rs"
  shows "\<exists>cp. coverage_record_pattern c ty out = Ok cp \<and> fits c ty cp \<and>
    (\<forall>v entries. has_type c ty v \<longrightarrow> unwrapped v = VRecord entries \<longrightarrow>
       runs c cols (covers cp v) (all_match (\<lambda>f b. case bt_get entries (mf_field f) of
           None \<Rightarrow> None | Some w \<Rightarrow> match_value_pattern w (mf_pattern f) b) out))"
proof -
  have cols: "cols = concat (map snd rs)" "distinct (map col_name cols)" using combine_patterns_Ok [OF comb] by blast+
  have tok: "type_ok c (TRecord defs)" using underlying_type(3) [OF und] ok by blast
  have lo: "length out = length fs" and fo: "map mf_field out = map mf_field fs"
    and po: "\<And>i. i < length fs \<Longrightarrow> out ! i = MatchField (mf_field (fs ! i)) (fst (rs ! i))"
    using len by (auto simp: out intro!: nth_equalityI)
  from each obtain d where d: "\<And>i. i < length fs \<Longrightarrow> find_column defs (mf_field (fs ! i)) = Some (d i)"
    "\<And>i. i < length fs \<Longrightarrow> bound_ok c (col_ty (d i)) (rs ! i)" by metis
  from d(2) obtain g where g: "\<And>i. i < length fs \<Longrightarrow> coverage_pattern_of c (col_ty (d i)) (fst (rs ! i)) = Ok (g i)"
    "\<And>i. i < length fs \<Longrightarrow> fits c (col_ty (d i)) (g i)"
    "\<And>i v. i < length fs \<Longrightarrow> has_type c (col_ty (d i)) v \<Longrightarrow> runs c (snd (rs ! i)) (covers (g i) v) (match_value_pattern v (fst (rs ! i)))"
    unfolding bound_ok_def by metis
  have dm: "d i \<in> set defs" "col_name (d i) = mf_field (fs ! i)" if "i < length fs" for i
    using find_column_Some [OF d(1) [OF that]] by auto
  define cpd where "cpd col = (case find (\<lambda>f. mf_field f = col_name col) out of None \<Rightarrow> CWildcard
    | Some f \<Rightarrow> (case coverage_pattern_of c (col_ty col) (mf_pattern f) of Ok cp \<Rightarrow> cp | Err _ \<Rightarrow> CWildcard))" for col
  have at: "find (\<lambda>f. mf_field f = col_name (d i)) out = Some (out ! i)" "cpd (d i) = g i" if "i < length fs" for i
    using find_nth_key [of mf_field out i] dist fo lo po dm that g(1) by (auto simp: cpd_def)
  have cases: "find (\<lambda>f. mf_field f = col_name col) out = None \<or> (\<exists>i < length fs. col = d i)" if col: "col \<in> set defs" for col
  proof (cases "find (\<lambda>f. mf_field f = col_name col) out")
    case (Some f)
    then obtain i where "i < length fs" "mf_field (out ! i) = col_name col" using lo by (auto simp: find_Some_iff)
    moreover from this have "col_name (d i) = col_name col" using dm po by simp
    moreover have "distinct (map col_name defs)" using tok by simp
    ultimately have "col = d i" using col dm(1) by (metis find_column_distinct option.inject)
    with \<open>i < length fs\<close> show ?thesis by blast
  qed simp
  have "traverse (\<lambda>col. case find (\<lambda>f. mf_field f = col_name col) out of None \<Rightarrow> Ok CWildcard
      | Some f \<Rightarrow> coverage_pattern_of c (col_ty col) (mf_pattern f)) defs = Ok (map cpd defs)"
  proof (rule traverse_OkI)
    fix col assume "col \<in> set defs"
    from cases [OF this] show "(case find (\<lambda>f. mf_field f = col_name col) out of None \<Rightarrow> Ok CWildcard
      | Some f \<Rightarrow> coverage_pattern_of c (col_ty col) (mf_pattern f)) = Ok (cpd col)"
      using at po g(1) by (auto simp: cpd_def)
  qed
  then have cp: "coverage_record_pattern c ty out = Ok (CConstructor (CRecord (map col_name defs)) (map cpd defs))"
    using und by simp
  have "fits c (col_ty col) (cpd col)" if "col \<in> set defs" for col
    using cases [OF that] at(2) g(2) by (auto simp: cpd_def)
  then have fit: "fits c ty (CConstructor (CRecord (map col_name defs)) (map cpd defs))"
    using und by (auto simp: constructor_specs_def list_all2_conv_all_nth)
  have "runs c cols (covers (CConstructor (CRecord (map col_name defs)) (map cpd defs)) v) (all_match (\<lambda>f b. case bt_get entries (mf_field f) of
           None \<Rightarrow> None | Some w \<Rightarrow> match_value_pattern w (mf_pattern f) b) out)"
    (is "runs c cols ?cov (all_match ?f out)")
    if v: "has_type c ty v" "unwrapped v = VRecord entries" for v entries
  proof -
    have "has_type c (TRecord defs) (VRecord entries)" using underlying_type(1) [OF und v(1)] v(2) by simp
    then have "bt_ok entries" "length entries = length defs" "distinct (map col_name defs)"
      "\<forall>(k, w) \<in> set entries. \<exists>col. find_column defs k = Some col \<and> has_type c (col_ty col) w"
      using tok by fastforce+
    from record_columns(1) [OF this] obtain wf where wf: "\<forall>col \<in> set defs. bt_get entries (col_name col) = Some (wf col)"
      "\<forall>col \<in> set defs. has_type c (col_ty col) (wf col)" by metis
    define xs where "xs = map (\<lambda>i. (out ! i, snd (rs ! i), covers (g i) (wf (d i)))) [0..<length fs]"
    have "map fst xs = out" using lo by (auto simp: xs_def intro!: nth_equalityI)
    moreover have "map (\<lambda>(x, info, cov). info) xs = map snd rs" using len by (auto simp: xs_def intro!: nth_equalityI)
    moreover have "(\<forall>(x, info, cov) \<in> set xs. cov) \<longleftrightarrow> ?cov"
    proof -
      have "?cov \<longleftrightarrow> (\<forall>col \<in> set defs. covers (cpd col) (wf col))"
        using those_columns [OF wf(1)] v(2) by (auto simp: destruct_def list_all2_conv_all_nth all_set_conv_all_nth)
      also have "\<dots> \<longleftrightarrow> (\<forall>i < length fs. covers (g i) (wf (d i)))"
        using cases at(2) dm(1) by (fastforce simp: cpd_def)
      finally show ?thesis by (auto simp: xs_def)
    qed
    moreover have "\<forall>(x, info, cov) \<in> set xs. runs c info cov (?f x)"
    proof -
      have "bt_get entries (mf_field (fs ! i)) = Some (wf (d i))" if "i < length fs" for i
        using wf(1) dm [OF that] by metis
      then show ?thesis using g(3) wf(2) dm(1) po by (auto simp: xs_def)
    qed
    ultimately show ?thesis using runs_all_match [of xs c ?f] cols by simp
  qed
  with cp fit show ?thesis by blast
qed

definition bound_payload_ok :: "catalog \<Rightarrow> scalar_type list \<Rightarrow> match_payload \<times> column list \<Rightarrow> bool" where
  "bound_payload_ok c tys r \<longleftrightarrow>
     distinct (map col_name (snd r)) \<and>
     (\<exists>cps. coverage_payload c tys (fst r) = Ok cps \<and> list_all2 (fits c) tys cps \<and>
        (\<forall>ws. list_all2 (has_type c) tys ws \<longrightarrow> runs c (snd r) (list_all2 covers cps ws) (match_payload ws (fst r))))"

definition bound_record_ok :: "catalog \<Rightarrow> column list \<Rightarrow> match_field list \<times> column list \<Rightarrow> bool" where
  "bound_record_ok c defs r \<longleftrightarrow>
     distinct (map col_name (snd r)) \<and>
     (\<forall>ty. underlying c ty = Ok (TRecord defs) \<longrightarrow> type_ok c ty \<longrightarrow>
       (\<exists>cp. coverage_record_pattern c ty (fst r) = Ok cp \<and> fits c ty cp \<and>
         (\<forall>v entries. has_type c ty v \<longrightarrow> unwrapped v = VRecord entries \<longrightarrow>
            runs c (snd r) (covers cp v) (all_match (\<lambda>f b. case bt_get entries (mf_field f) of
                None \<Rightarrow> None | Some w \<Rightarrow> match_value_pattern w (mf_pattern f) b) (fst r)))))"

lemma runs_nothing: "runs c [] True Some"
  by (simp add: runs_def extends_bindings_def)

lemma runs_binding: "has_type c ty v \<Longrightarrow> runs c [Column n ty None 0] True (match_value_pattern v (PBinding n))"
  by (auto simp: runs_def extends_bindings_def bt_get_insert)

lemma traverse_bound:
  assumes "traverse (\<lambda>(p, t). bind_nested_pattern c t p) (zip ps ts) = Ok rs" and "length ps = length ts"
    and "\<And>p t r. (p, t) \<in> set (zip ps ts) \<Longrightarrow> bind_nested_pattern c t p = Ok r \<Longrightarrow> bound_ok c t r"
  shows "list_all2 (bound_ok c) ts rs"
proof -
  have "length rs = length ts" using traverse_length [OF assms(1)] assms(2) by simp
  moreover have "bound_ok c (ts ! i) (rs ! i)" if "i < length ts" for i
  proof (rule assms(3))
    show "(ps ! i, ts ! i) \<in> set (zip ps ts)" using that assms(2) by (auto simp: set_zip)
    show "bind_nested_pattern c (ts ! i) (ps ! i) = Ok (rs ! i)"
      using assms(1,2) that unfolding traverse_Ok_iff by (auto simp: list_all2_conv_all_nth)
  qed
  ultimately show ?thesis by (simp add: list_all2_conv_all_nth)
qed

lemma find_member: "find P xs = Some x \<Longrightarrow> x \<in> set xs \<and> P x"
  by (auto simp: find_Some_iff)

lemma resolved_spec:
  assumes "match_source_of c ty = Ok source" "resolve_constructor c source name = Ok (tag, tys, display)"
  shows "\<exists>specs. constructor_specs c ty = Ok (Some specs) \<and>
    \<lparr>cs_constructor = constructor_of_tag tag display, cs_arguments = tys\<rparr> \<in> set specs"
proof -
  from assms(1) obtain u where u1: "underlying c ty = Ok u" by (auto simp: match_source_of_def result_simps)
  with assms(1) have "(\<exists>vs. u = TEnum vs \<and> source = SourceEnum vs) \<or> (\<exists>t. u = TOption t \<and> source = SourceOption t)"
    by (cases u) (auto simp: match_source_of_def)
  note u = u1 this
  from u(2) show ?thesis
  proof (elim disjE exE conjE)
    fix vs assume vs: "u = TEnum vs" "source = SourceEnum vs"
    with assms(2) obtain v where "v \<in> set vs" "tag = TagVariant (vd_id v)" "tys = vd_args v" "display = vd_name v"
      by (auto simp: resolve_constructor_def result_simps dest!: find_member split: prod.splits option.splits)
    with u(1) vs(1) show ?thesis
      by (auto simp: constructor_specs_def constructor_of_tag_def Let_def split: scalar_type.splits)
  next
    fix t assume "u = TOption t" "source = SourceOption t"
    with assms(2) u(1) show ?thesis
      by (auto simp: resolve_constructor_def constructor_specs_def constructor_of_tag_def split: if_splits)
  qed
qed

lemma constructor_match:
  assumes "match_source_of c ty = Ok source" "resolve_constructor c source name = Ok (tag, tys, display)"
    and ok: "types_ok c" "type_ok c ty" and payload: "bound_payload_ok c tys (payload, cols)"
  shows "bound_ok c ty (PConstructor name payload (Some tag), cols)"
proof -
  let ?k = "constructor_of_tag tag display"
  from resolved_spec [OF assms(1,2)] obtain specs where specs: "constructor_specs c ty = Ok (Some specs)"
    "\<lparr>cs_constructor = ?k, cs_arguments = tys\<rparr> \<in> set specs" (is "?s \<in> _") by blast
  from payload obtain cps where cps: "coverage_payload c tys payload = Ok cps" "list_all2 (fits c) tys cps"
    and run: "\<And>ws. list_all2 (has_type c) tys ws \<Longrightarrow> runs c cols (list_all2 covers cps ws) (match_payload ws payload)"
    and dist: "distinct (map col_name cols)"
    by (auto simp: bound_payload_ok_def)
  have "coverage_pattern_of c ty (PConstructor name payload (Some tag)) = Ok (CConstructor ?k cps)"
    using assms(1,2) cps(1) by simp
  moreover have "fits c ty (CConstructor ?k cps)" using specs cps(2) by (auto intro!: bexI [OF _ specs(2)])
  moreover have "runs c cols (covers (CConstructor ?k cps) v) (match_value_pattern v (PConstructor name payload (Some tag)))"
    if v: "has_type c ty v" for v
  proof (cases "destruct ?k v")
    case None
    then have "match_value_pattern v (PConstructor name payload (Some tag)) b = None" for b
      by (cases tag; cases "unwrapped v") (auto simp: destruct_def constructor_of_tag_def split: option.splits if_splits)
    with None show ?thesis by (simp add: runs_def)
  next
    case (Some ws)
    from specs_decompose [OF specs(1) v ok] obtain s' ws' where s': "s' \<in> set specs"
      "destruct (cs_constructor s') v = Some ws'" "list_all2 (has_type c) (cs_arguments s') ws'" by blast
    with specs_unique [OF specs(1) s'(1) specs(2) ok] Some have "s' = ?s" by auto
    with s' Some have ws: "list_all2 (has_type c) tys ws" by simp
    have "match_value_pattern v (PConstructor name payload (Some tag)) = match_payload ws payload"
      using Some by (cases tag; cases "unwrapped v")
        (auto simp: destruct_def constructor_of_tag_def fun_eq_iff split: option.splits if_splits)
    with run [OF ws] Some show ?thesis by simp
  qed
  ultimately show ?thesis using dist by (simp add: bound_ok_def)
qed

lemma resolved_args_ok:
  assumes "match_source_of c ty = Ok source" "resolve_constructor c source name = Ok (tag, tys, display)" "types_ok c" "type_ok c ty"
  shows "list_all (type_ok c) tys"
proof -
  from resolved_spec [OF assms(1,2)] obtain specs where specs: "constructor_specs c ty = Ok (Some specs)"
    "\<lparr>cs_constructor = constructor_of_tag tag display, cs_arguments = tys\<rparr> \<in> set specs" by blast
  obtain u where u: "underlying c ty = Ok u" "spec_shape u specs" using specs(1) by (rule constructor_specs_Ok)
  have "type_ok c u" using underlying_type(3) [OF u(1)] assms(3,4) by blast
  with u(2) specs(2) show ?thesis
    by cases (auto simp: variant_spec_def list_all_iff)
qed

lemma case_type_Ok [result_simps]:
  "(case u of TRecord cols \<Rightarrow> f cols | _ \<Rightarrow> Err e) = Ok r \<longleftrightarrow> (\<exists>cols. u = TRecord cols \<and> f cols = Ok r)"
  "(case u of TTuple ts \<Rightarrow> g ts | _ \<Rightarrow> Err e) = Ok r \<longleftrightarrow> (\<exists>ts. u = TTuple ts \<and> g ts = Ok r)"
  by (cases u; simp)+

abbreviation match_fields :: "(string, value) btree \<Rightarrow> match_field list \<Rightarrow> bindings \<Rightarrow> bindings option" where
  "match_fields entries \<equiv> all_match (\<lambda>f b. case bt_get entries (mf_field f) of
     None \<Rightarrow> None | Some w \<Rightarrow> match_value_pattern w (mf_pattern f) b)"

lemma record_entries:
  "underlying c ty = Ok (TRecord defs) \<Longrightarrow> has_type c ty v \<Longrightarrow> \<exists>entries. unwrapped v = VRecord entries"
  using underlying_type(1) [of c ty "TRecord defs" v] by auto

lemma bound_record_pattern:
  assumes und: "underlying c ty = Ok (TRecord defs)" and ok: "type_ok c ty" and b: "bound_record_ok c defs (fs, cols)"
  shows "bound_ok c ty (PRecord fs rest, cols)" and "bound_payload_ok c [ty] (PayloadRecord fs rest, cols)"
proof -
  from b und ok obtain cp where cp: "distinct (map col_name cols)" "coverage_record_pattern c ty fs = Ok cp" "fits c ty cp"
    "\<And>v entries. has_type c ty v \<Longrightarrow> unwrapped v = VRecord entries \<Longrightarrow> runs c cols (covers cp v) (match_fields entries fs)"
    by (auto simp: bound_record_ok_def)
  have "runs c cols (covers cp v) (match_value_pattern v (PRecord fs rest)) \<and> runs c cols (covers cp v) (match_payload [v] (PayloadRecord fs rest))"
    if v: "has_type c ty v" for v
  proof -
    obtain entries where e: "unwrapped v = VRecord entries" using record_entries [OF und v] by blast
    then have "match_value_pattern v (PRecord fs rest) = match_fields entries fs"
      "match_payload [v] (PayloadRecord fs rest) = match_fields entries fs" by (simp_all add: fun_eq_iff)
    with cp(4) [OF v e] show ?thesis by simp
  qed
  with cp(1-3) show "bound_ok c ty (PRecord fs rest, cols)" "bound_payload_ok c [ty] (PayloadRecord fs rest, cols)"
    by (auto simp: bound_ok_def bound_payload_ok_def list_all2_Cons1 simp del: coverage_record_pattern.simps)
qed

lemma bound_positional:
  assumes b: "list_all2 (bound_ok c) ts rs" and comb: "combine_patterns (map snd rs) = Ok cols"
  shows "bound_payload_ok c ts (PayloadPositional (map fst rs), cols)"
    and "underlying c ty = Ok (TTuple ts) \<Longrightarrow> bound_ok c ty (PTuple (map fst rs), cols)"
proof -
  from bound_list [OF b comb] obtain cps where cps:
    "traverse (\<lambda>(p, t). coverage_pattern_of c t p) (zip (map fst rs) ts) = Ok cps" "list_all2 (fits c) ts cps"
    "\<And>ws. list_all2 (has_type c) ts ws \<Longrightarrow>
       runs c cols (list_all2 covers cps ws) (all_match (\<lambda>(p, w) b. match_value_pattern w p b) (zip (map fst rs) ws))" by blast
  have dist: "distinct (map col_name cols)" by (rule combine_patterns_Ok(2) [OF comb])
  have len: "length rs = length ws" if "list_all2 (has_type c) ts ws" for ws
    using b that by (auto dest!: list_all2_lengthD)
  have "runs c cols (list_all2 covers cps ws) (match_payload ws (PayloadPositional (map fst rs)))" if ws: "list_all2 (has_type c) ts ws" for ws
  proof -
    have "match_payload ws (PayloadPositional (map fst rs)) = all_match (\<lambda>(p, w) b. match_value_pattern w p b) (zip (map fst rs) ws)"
      using len [OF ws] by (simp add: fun_eq_iff)
    with cps(3) [OF ws] show ?thesis by simp
  qed
  with cps(1,2) dist show "bound_payload_ok c ts (PayloadPositional (map fst rs), cols)" by (simp add: bound_payload_ok_def)
  assume und: "underlying c ty = Ok (TTuple ts)"
  have "runs c cols (covers (CConstructor CTuple cps) v) (match_value_pattern v (PTuple (map fst rs)))" if v: "has_type c ty v" for v
  proof -
    obtain ws where ws: "unwrapped v = VTuple ws" "list_all2 (has_type c) ts ws" using underlying_type(1) [OF und v] by auto
    then have "match_value_pattern v (PTuple (map fst rs)) = all_match (\<lambda>(p, w) b. match_value_pattern w p b) (zip (map fst rs) ws)"
      using len [OF ws(2)] by (simp add: fun_eq_iff)
    with cps(3) [OF ws(2)] ws(1) show ?thesis by (simp add: destruct_def)
  qed
  moreover have "fits c ty (CConstructor CTuple cps)" using und cps(2) by (auto simp: constructor_specs_def)
  ultimately show "bound_ok c ty (PTuple (map fst rs), cols)" using cps(1) und dist by (simp add: bound_ok_def)
qed

lemma bind_bound:
  assumes ok: "types_ok c"
  shows "bind_nested_pattern c ty p = Ok r \<Longrightarrow> type_ok c ty \<Longrightarrow> bound_ok c ty r"
    and "bind_payload c tys pl = Ok rp \<Longrightarrow> list_all (type_ok c) tys \<Longrightarrow> bound_payload_ok c tys rp"
    and "bind_record_fields c defs fs rest = Ok rf \<Longrightarrow> type_ok c (TRecord defs) \<Longrightarrow> bound_record_ok c defs rf"
  using ok
proof (induction c ty p and c tys pl and c defs fs rest arbitrary: r and rp and rf
    rule: bind_nested_pattern_bind_payload_bind_record_fields.induct)
  case (1 c ty)
  then show ?case by (auto simp: bound_ok_def runs_def extends_bindings_def)
next
  case (2 c ty name)
  then show ?case using runs_binding by (auto simp: bound_ok_def)
next
  case (3 c ty name payload tag)
  then obtain source resolved tys display payload' cols where
    a: "match_source_of c ty = Ok source" "resolve_constructor c source name = Ok (resolved, tys, display)"
      "bind_payload c tys payload = Ok (payload', cols)" "r = (PConstructor name payload' (Some resolved), cols)"
    by (auto simp: result_simps)
  have "bound_payload_ok c tys (payload', cols)"
    using 3(1) [OF a(1,2) refl refl a(3)] resolved_args_ok [OF a(1,2)] 3(3,4) by blast
  from constructor_match [OF a(1,2) 3(4,3) this] a(4) show ?case by simp
next
  case (4 c ty fs rest)
  then obtain defs fs' cols where a: "underlying c ty = Ok (TRecord defs)" "bind_record_fields c defs fs rest = Ok (fs', cols)"
    "r = (PRecord fs' rest, cols)"
    by (auto simp: result_simps simp del: bind_record_fields.simps)
  from bound_record_pattern(1) [OF a(1) 4(3) 4(1) [OF a(1) refl a(2)]] underlying_type(3) [OF a(1)] 4(3,4) a(3)
  show ?case by blast
next
  case (5 c ty ps)
  then obtain ts rs cols where a: "underlying c ty = Ok (TTuple ts)" "length ps = length ts"
    "traverse (\<lambda>(p, t). bind_nested_pattern c t p) (zip ps ts) = Ok rs" "combine_patterns (map snd rs) = Ok cols"
    "r = (PTuple (map fst rs), cols)"
    by (auto simp: result_simps)
  have "type_ok c (TTuple ts)" using underlying_type(3) [OF a(1)] 5 by blast
  then have "list_all2 (bound_ok c) ts rs"
    using 5(1) [OF a(1) refl _ _ refl] a(2) 5(4)
    by (intro traverse_bound [OF a(3,2)]) (fastforce simp: list_all_iff dest: set_zip_rightD)
  from bound_positional(2) [OF this a(4,1)] a(5) show ?case by simp
next
  case (6 c tys)
  then show ?case
    by (auto simp: bound_payload_ok_def runs_def extends_bindings_def split: if_splits)
next
  case (7 c tys fs rest)
  then obtain ty where ty: "tys = [ty]" by (auto split: list.splits)
  with 7 obtain defs fs' cols where a: "underlying c ty = Ok (TRecord defs)" "bind_record_fields c defs fs rest = Ok (fs', cols)"
    "rp = (PayloadRecord fs' rest, cols)"
    by (auto simp: result_simps simp del: bind_record_fields.simps)
  have tok: "type_ok c ty" using 7(3) ty by simp
  from bound_record_pattern(2) [OF a(1) tok 7(1) [OF ty refl a(1) refl a(2)]] underlying_type(3) [OF a(1)] tok 7(4) a(3) ty
  show ?case by blast
next
  case (8 c tys ps)
  then obtain rs cols where a: "length ps = length tys"
    "traverse (\<lambda>(p, t). bind_nested_pattern c t p) (zip ps tys) = Ok rs" "combine_patterns (map snd rs) = Ok cols"
    "rp = (PayloadPositional (map fst rs), cols)"
    by (auto simp: result_simps split: if_splits)
  have "list_all2 (bound_ok c) tys rs"
    using 8(1) [OF _ _ refl] a(1) 8(3,4)
    by (intro traverse_bound [OF a(2,1)]) (fastforce simp: list_all_iff dest: set_zip_rightD)
  from bound_positional(1) [OF this a(3)] a(4) show ?case by simp
next
  case (9 c defs fs rest)
  then obtain seen out infos cols where a: "try_fold (\<lambda>s f. case s of (seen, out, infos) \<Rightarrow>
         if mf_field f \<in> set seen then Err E_MATCH
         else and_then (ok_or E_MATCH (find_column defs (mf_field f))) (\<lambda>definition.
              and_then (bind_nested_pattern c (col_ty definition) (mf_pattern f)) (\<lambda>(p, bindings).
                Ok (bs_insert (mf_field f) seen, out @ [MatchField (mf_field f) p], infos @ [bindings]))))
         ([], [], []) fs = Ok (seen, out, infos)" "combine_patterns infos = Ok cols" "rf = (out, cols)"
    by (auto simp: result_simps split: if_splits)
  from bind_fields_loop [OF a(1)] obtain rs where rs: "length rs = length fs"
    "out = map2 (\<lambda>f r. MatchField (mf_field f) (fst r)) fs rs" "infos = map snd rs" "distinct (map mf_field fs)"
    "\<forall>i < length fs. \<exists>d. find_column defs (mf_field (fs ! i)) = Some d \<and>
        bind_nested_pattern c (col_ty d) (mf_pattern (fs ! i)) = Ok (rs ! i)"
    by auto
  have "\<exists>d. find_column defs (mf_field (fs ! i)) = Some d \<and> bound_ok c (col_ty d) (rs ! i)" if i: "i < length fs" for i
  proof -
    from rs(5) i obtain d where d: "find_column defs (mf_field (fs ! i)) = Some d"
      "bind_nested_pattern c (col_ty d) (mf_pattern (fs ! i)) = Ok (rs ! i)" by blast
    have "type_ok c (col_ty d)" using find_column_Some [OF d(1)] 9(3) by simp
    moreover have "mf_field (fs ! i) \<notin> set []" "fs ! i \<in> set fs" using i by simp_all
    ultimately show ?thesis using 9(1) [OF _ refl refl _ _ d(2), of "[]"] d(1) 9(4) by auto
  qed
  with bound_fields [OF _ 9(4) _ rs(1,4) _ _ rs(2)] a(2,3) rs(3) combine_patterns_Ok(2) [OF a(2)] show ?case
    by (simp add: bound_record_ok_def del: coverage_record_pattern.simps)
qed

section \<open>Accepted matches\<close>

lemma specs_arguments:
  assumes "constructor_specs c ty = Ok (Some specs)" "s \<in> set specs" "types_ok c" "type_ok c ty"
  shows "\<exists>u. underlying c ty = Ok u \<and> set (cs_arguments s) \<subseteq> set (subtypes u) \<and> list_all (type_ok c) (cs_arguments s)"
proof -
  obtain u where u: "underlying c ty = Ok u" "spec_shape u specs" using assms(1) by (rule constructor_specs_Ok)
  have "type_ok c u" using underlying_type(3) [OF u(1)] assms(3,4) by blast
  with u(2) assms(2) have "set (cs_arguments s) \<subseteq> set (subtypes u) \<and> list_all (type_ok c) (cs_arguments s)"
    by cases (auto simp: variant_spec_def list_all_iff)
  with u(1) show ?thesis by blast
qed

lemma closed_type_ok: "types_ok c \<Longrightarrow> closed_types c {t. type_ok c t}"
  unfolding closed_types_def list_all_iff [symmetric]
  using specs_arguments by (simp add: list_all_iff subset_eq) blast

text \<open>The state of \<open>bind_patterns\<close> after some arms.\<close>

definition arms_ok :: "catalog \<Rightarrow> scalar_type set \<Rightarrow> scalar_type \<Rightarrow> coverage_state \<Rightarrow> bool" where
  "arms_ok c T ty s \<longleftrightarrow>
     length (cov_bindings s) = length (cov_patterns s) \<and> length (cov_matrix s) = length (cov_patterns s) \<and>
     (\<forall>i < length (cov_patterns s). bound_ok c ty (cov_patterns s ! i, cov_bindings s ! i) \<and>
        (\<exists>cp. coverage_pattern_of c ty (cov_patterns s ! i) = Ok cp \<and> fits c ty cp \<and> cov_matrix s ! i = [cp] \<and>
           answers c T (take i (cov_matrix s)) [cp] [ty] True))"

lemma arms_okD:
  assumes "arms_ok c T ty s" "i < length (cov_patterns s)"
  obtains cp where "bound_ok c ty (cov_patterns s ! i, cov_bindings s ! i)" "coverage_pattern_of c ty (cov_patterns s ! i) = Ok cp"
    "fits c ty cp" "cov_matrix s ! i = [cp]" "answers c T (take i (cov_matrix s)) [cp] [ty] True"
  using assms unfolding arms_ok_def by blast

lemma arms_fit: "arms_ok c T ty s \<Longrightarrow> rows_fit c [ty] (cov_matrix s)"
  by (fastforce simp: in_set_conv_nth arms_ok_def)

lemma top_pattern_nested:
  assumes "match_source_of c ty = Ok source" "bind_top_pattern c source ty l p = Ok r"
  shows "bind_nested_pattern c ty p = Ok r"
  using assms by (cases p) (auto simp: bind_top_pattern_def split: if_splits)

lemma bind_arm_ok:
  assumes src: "match_source_of c ty = Ok source" and ok: "types_ok c" "ty \<in> T" "closed_types c T"
    and inv: "arms_ok c T ty s" and step: "bind_arm c source ty n s p = Ok s'"
  shows "arms_ok c T ty s'"
proof -
  from step obtain bound cols cp b where a: "bind_top_pattern c source ty (length (cov_patterns s) + 1 = n) p = Ok (bound, cols)"
    "coverage_pattern_of c ty bound = Ok cp" "pattern_is_useful c (cov_matrix s) [cp] [ty] (cov_budget s) = Ok (True, b)"
    "s' = \<lparr>cov_matrix = cov_matrix s @ [[cp]], cov_budget = b, cov_patterns = cov_patterns s @ [bound], cov_bindings = cov_bindings s @ [cols]\<rparr>"
    by (auto simp: bind_arm_def result_simps split: if_splits)
  have tok: "type_ok c ty" using closed_typesD(1) [OF ok(3,2)] .
  have bound: "bound_ok c ty (bound, cols)"
    using bind_bound(1) [OF ok(1) top_pattern_nested [OF src a(1)] tok] .
  then have fit: "fits c ty cp" using a(2) by (auto simp: bound_ok_def)
  have "answers c T (cov_matrix s) [cp] [ty] True"
    using useful_correct(1) [OF ok(1,3) a(3)] ok(2) arms_fit [OF inv] fit by simp
  with inv bound fit a(2,4) show ?thesis by (auto simp: arms_ok_def nth_append less_Suc_eq)
qed

lemma bind_patterns_Ok:
  assumes "bind_patterns c ty patterns = Ok (arms, binds)" "types_ok c" "ty \<in> T" "closed_types c T"
  obtains s where "arms_ok c T ty s" "cov_patterns s = arms" "cov_bindings s = binds"
    "answers c T (cov_matrix s) [CWildcard] [ty] False"
proof -
  from assms(1) obtain source s b where a: "match_source_of c ty = Ok source"
    "try_fold (bind_arm c source ty (length patterns))
       \<lparr>cov_matrix = [], cov_budget = MAX_COVERAGE_STEPS, cov_patterns = [], cov_bindings = []\<rparr> patterns = Ok s"
    "uncovered_patterns c (cov_matrix s) [ty] (cov_budget s) = Ok (None, b)" "cov_patterns s = arms" "cov_bindings s = binds"
    by (auto simp: bind_patterns_def result_simps split: option.splits)
  have inv: "arms_ok c T ty s"
  proof (rule try_fold_invariant [OF a(2), where I = "arms_ok c T ty"])
    show "arms_ok c T ty \<lparr>cov_matrix = [], cov_budget = MAX_COVERAGE_STEPS, cov_patterns = [], cov_bindings = []\<rparr>"
      by (simp add: arms_ok_def)
  qed (rule bind_arm_ok [OF a(1) assms(2-4)])
  have "answers c T (cov_matrix s) [CWildcard] [ty] False"
    using uncovered_correct(1) [OF assms(2,4) a(3)] assms(3) arms_fit [OF inv] by (simp add: search_answers_def)
  with that inv a(4,5) show ?thesis by blast
qed

text \<open>An arm matches exactly the values its coverage pattern covers, and binds them at their types.\<close>

definition typed_bindings :: "catalog \<Rightarrow> column list \<Rightarrow> bindings \<Rightarrow> bool" where
  "typed_bindings c cols b \<longleftrightarrow>
     (\<forall>n. bt_get b n \<noteq> None \<longrightarrow> n \<in> col_name ` set cols) \<and>
     (\<forall>col \<in> set cols. \<exists>w. bt_get b (col_name col) = Some w \<and> has_type c (col_ty col) w)"

lemma bound_match:
  assumes "bound_ok c ty (p, cols)" "coverage_pattern_of c ty p = Ok cp" "has_type c ty v"
  shows "if covers cp v then \<exists>b. match_bindings v p = Some b \<and> typed_bindings c cols b else match_bindings v p = None"
proof -
  have "runs c cols (covers cp v) (match_value_pattern v p)" using assms by (auto simp: bound_ok_def)
  then have "if covers cp v then \<exists>b. match_bindings v p = Some b \<and> extends_bindings c cols [] b else match_bindings v p = None"
    by (auto simp: runs_def match_bindings_def bt_get_def)
  moreover have "extends_bindings c cols [] b \<Longrightarrow> typed_bindings c cols b" for b
    by (auto simp: extends_bindings_def typed_bindings_def bt_get_def)
  ultimately show ?thesis by (auto split: if_splits)
qed

lemma covered_arm:
  assumes "arms_ok c T ty s" "has_type c ty v" "n \<le> length (cov_patterns s)"
  shows "covered (take n (cov_matrix s)) [v] \<longleftrightarrow> (\<exists>i < n. match_bindings v (cov_patterns s ! i) \<noteq> None)"
proof -
  have "list_all2 covers (cov_matrix s ! i) [v] \<longleftrightarrow> match_bindings v (cov_patterns s ! i) \<noteq> None" if "i < n" for i
  proof -
    from that assms(3) have "i < length (cov_patterns s)" by simp
    then obtain cp where cp: "bound_ok c ty (cov_patterns s ! i, cov_bindings s ! i)"
      "coverage_pattern_of c ty (cov_patterns s ! i) = Ok cp" "fits c ty cp" "cov_matrix s ! i = [cp]"
      "answers c T (take i (cov_matrix s)) [cp] [ty] True" by (rule arms_okD [OF assms(1)])
    with bound_match [OF cp(1,2) assms(2)] show ?thesis by (auto split: if_splits)
  qed
  moreover have "covered (take n (cov_matrix s)) [v] \<longleftrightarrow> (\<exists>i < n. list_all2 covers (cov_matrix s ! i) [v])"
  proof -
    have "n \<le> length (cov_matrix s)" using assms(1,3) by (simp add: arms_ok_def)
    then show ?thesis unfolding covered_def by (auto simp flip: nth_image)
  qed
  ultimately show ?thesis by blast
qed

lemma least_index: "\<exists>i < n. P i \<Longrightarrow> \<exists>i < n. P i \<and> (\<forall>j < i. \<not> P (j :: nat))"
proof -
  assume "\<exists>i < n. P i"
  then obtain i where i: "i < n" "P i" by blast
  then have "(LEAST i. P i) < n" "P (LEAST i. P i)" by (auto intro: LeastI le_less_trans [OF Least_le])
  moreover have "\<forall>j < (LEAST i. P i). \<not> P j" using not_less_Least by blast
  ultimately show ?thesis by blast
qed

lemma accepted_match:
  assumes "bind_patterns c ty patterns = Ok (arms, binds)" "types_ok c" "type_ok c ty" "has_type c ty v"
  shows "\<exists>i < length arms. (\<exists>b. match_bindings v (arms ! i) = Some b \<and> typed_bindings c (binds ! i) b) \<and>
    (\<forall>j < i. match_bindings v (arms ! j) = None)"
proof -
  obtain s where s: "arms_ok c {t. type_ok c t} ty s" "cov_patterns s = arms" "cov_bindings s = binds"
    "answers c {t. type_ok c t} (cov_matrix s) [CWildcard] [ty] False"
    by (rule bind_patterns_Ok [OF assms(1,2) _ closed_type_ok [OF assms(2)]]) (use assms(3) in auto)
  have "covered (cov_matrix s) [v]" using s(4) assms(4) by (simp add: answers_def)
  moreover have "take (length arms) (cov_matrix s) = cov_matrix s" using s(1,2) by (simp add: arms_ok_def)
  ultimately have "\<exists>i < length arms. match_bindings v (arms ! i) \<noteq> None"
    using covered_arm [OF s(1) assms(4), of "length arms"] s(2) by simp
  from least_index [OF this] obtain i where i: "i < length arms" "match_bindings v (arms ! i) \<noteq> None"
    "\<forall>j < i. match_bindings v (arms ! j) = None" by auto
  from i(1) obtain cp where "bound_ok c ty (arms ! i, binds ! i)" "coverage_pattern_of c ty (arms ! i) = Ok cp"
    "fits c ty cp" "cov_matrix s ! i = [cp]" "answers c {t. type_ok c t} (take i (cov_matrix s)) [cp] [ty] True"
    by (rule arms_okD [OF s(1), unfolded s(2,3)])
  from bound_match [OF this(1,2) assms(4)] i show ?thesis by (auto split: if_splits)
qed

text \<open>Types without empty enums have values once the named types do.\<close>

function enums_nonempty :: "scalar_type \<Rightarrow> bool" where
  "enums_nonempty ty \<longleftrightarrow> ty \<noteq> TEnum [] \<and> list_all enums_nonempty (subtypes ty)"
  by auto
termination by (relation "measure size") (auto simp: size_subtype)

declare enums_nonempty.simps [simp del]

definition inhabited_catalog :: "catalog \<Rightarrow> bool" where
  "inhabited_catalog c \<longleftrightarrow>
     (\<forall>d \<in> set (bt_values (types c)). enums_nonempty (def_ty d) \<and> inhabited c (TRef (def_id d)))"

lemma finite_nonempty:
  assumes "inhabited_catalog c"
  shows "enums_nonempty ty \<Longrightarrow> type_ok c ty \<Longrightarrow> type_is_finite ty (map def_id (bt_values (types c)))"
proof (induction ty rule: type_induct)
  case (step ty)
  have sub: "\<forall>t \<in> set (subtypes ty). enums_nonempty t" using step.prems(1) by (simp add: enums_nonempty.simps [of ty] list_all_iff)
  show ?case
  proof (cases ty)
    case (TEnum vs)
    then have "vs \<noteq> []" using step.prems(1) enums_nonempty.simps [of ty] by auto
    then obtain v where v: "v \<in> set vs" by (cases vs) auto
    have "type_is_finite t (map def_id (bt_values (types c)))" if "t \<in> set (vd_args v)" for t
      using step.IH [of t] sub that v TEnum step.prems(2) by auto
    then show ?thesis using TEnum v by auto
  next
    case (TRef i)
    then show ?thesis using step.prems(2) definition_of_Ok by (auto simp: is_ok_iff)
  qed (use step sub in \<open>auto simp: list_all_iff\<close>)
qed

lemma inhabited_nonempty:
  assumes "inhabited_catalog c" "types_ok c" "enums_nonempty ty" "type_ok c ty"
  shows "inhabited c ty"
  using inhabited_of_finite [OF assms(2) _ finite_nonempty [OF assms(1,3,4)] assms(4)] assms(1)
  by (auto simp: inhabited_catalog_def)

lemma underlying_nonempty:
  "underlying_loop c n ty = Ok u \<Longrightarrow> inhabited_catalog c \<Longrightarrow> enums_nonempty ty \<Longrightarrow> enums_nonempty u"
proof (induction n arbitrary: ty)
  case (Suc n)
  show ?case
  proof (cases "\<exists>i. ty = TRef i")
    case True
    with Suc.prems obtain i d where "definition_of c i = Ok d" "underlying_loop c n (def_ty d) = Ok u"
      by (auto simp: result_simps)
    moreover from this have "enums_nonempty (def_ty d)"
      using Suc.prems(2) definition_of_Ok by (auto simp: inhabited_catalog_def)
    ultimately show ?thesis using Suc by blast
  next
    case False
    with Suc.prems show ?thesis by (auto split: scalar_type.splits)
  qed
qed simp

lemma closed_nonempty:
  assumes "types_ok c" "inhabited_catalog c"
  shows "closed_types c {t. type_ok c t \<and> enums_nonempty t}"
  unfolding closed_types_def
proof (intro ballI conjI allI impI subsetI)
  fix ty specs s t
  assume ty: "ty \<in> {t. type_ok c t \<and> enums_nonempty t}" and s: "constructor_specs c ty = Ok (Some specs)" "s \<in> set specs"
    and t: "t \<in> set (cs_arguments s)"
  from specs_arguments [OF s assms(1)] ty obtain u where u: "underlying c ty = Ok u" "set (cs_arguments s) \<subseteq> set (subtypes u)"
    "list_all (type_ok c) (cs_arguments s)" by auto
  have "enums_nonempty u" using underlying_nonempty u(1) assms(2) ty by (auto simp: underlying_def)
  then show "t \<in> {t. type_ok c t \<and> enums_nonempty t}"
    using u(2,3) t by (auto simp: list_all_iff enums_nonempty.simps [of u])
qed auto

lemma reachable_arm:
  assumes "bind_patterns c ty patterns = Ok (arms, binds)" "types_ok c" "type_ok c ty" "inhabited_catalog c" "enums_nonempty ty"
    and "i < length arms"
  shows "\<exists>v. has_type c ty v \<and> match_bindings v (arms ! i) \<noteq> None \<and> (\<forall>j < i. match_bindings v (arms ! j) = None)"
proof -
  let ?T = "{t. type_ok c t \<and> enums_nonempty t}"
  obtain s where s: "arms_ok c ?T ty s" "cov_patterns s = arms" "cov_bindings s = binds"
    "answers c ?T (cov_matrix s) [CWildcard] [ty] False"
    by (rule bind_patterns_Ok [OF assms(1,2) _ closed_nonempty [OF assms(2,4)]]) (use assms(3,5) in auto)
  from assms(6) obtain cp where cp: "bound_ok c ty (arms ! i, binds ! i)" "coverage_pattern_of c ty (arms ! i) = Ok cp"
    "fits c ty cp" "cov_matrix s ! i = [cp]" "answers c ?T (take i (cov_matrix s)) [cp] [ty] True"
    by (rule arms_okD [OF s(1), unfolded s(2,3)])
  have "\<forall>t \<in> ?T. inhabited c t" using inhabited_nonempty [OF assms(4,2)] by simp
  with cp(5) obtain v where v: "has_type c ty v" "covers cp v" "\<not> covered (take i (cov_matrix s)) [v]"
    by (auto simp: answers_def list_all2_Cons1)
  with bound_match [OF cp(1,2) v(1)] covered_arm [OF s(1) v(1), of i] assms(6) s(2) show ?thesis by auto
qed

section \<open>Properties\<close>

text \<open>
  (C3) Matches are exhaustive at run time.  When \<open>bind_patterns\<close> accepts the arms of a match, every value
  of the source type selects an arm: some arm matches it, no earlier arm does, and the match binds
  exactly the names declared for that arm, each to a value of its declared type.
\<close>

theorem match_exhaustive:
  assumes "bind_patterns c ty patterns = Ok (arms, binds)"
    and "types_ok c" and "type_ok c ty" and "has_type c ty v"
  shows "\<exists>i < length arms. (\<exists>b. match_bindings v (arms ! i) = Some b \<and> typed_bindings c (binds ! i) b) \<and>
    (\<forall>j < i. match_bindings v (arms ! j) = None)"
  using assms by (rule accepted_match)

definition example_patterns :: "match_pattern list" where
  "example_patterns =
     [PConstructor ''None'' PayloadUnit None,
      PConstructor ''Some'' (PayloadPositional
        [PConstructor ''Shape.Circle'' (PayloadPositional [PRecord [MatchField ''x'' (PBinding ''left'')] True, PBinding ''r'']) None]) None,
      PConstructor ''Some'' (PayloadPositional [PConstructor ''Path'' (PayloadPositional [PWildcard]) None]) None]"

lemma example_patterns_bound:
  "is_ok (bind_patterns example_catalog (TOption (TRef 4)) example_patterns)"
  by code_simp

theorem match_exhaustive_witness:
  "\<exists>arms binds. bind_patterns example_catalog (TOption (TRef 4)) example_patterns = Ok (arms, binds) \<and>
     (\<exists>i < length arms. (\<exists>b. match_bindings (VOption (Some example_shape_coerced)) (arms ! i) = Some b \<and>
        typed_bindings example_catalog (binds ! i) b) \<and>
        (\<forall>j < i. match_bindings (VOption (Some example_shape_coerced)) (arms ! j) = None))"
proof -
  obtain arms binds where b: "bind_patterns example_catalog (TOption (TRef 4)) example_patterns = Ok (arms, binds)"
    using example_patterns_bound by (auto simp: is_ok_iff)
  have "type_ok example_catalog (TOption (TRef 4))" "has_type example_catalog (TOption (TRef 4)) (VOption (Some example_shape_coerced))"
    by code_simp+
  from match_exhaustive [OF b example_catalog_ok this] b show ?thesis by blast
qed

text \<open>
  (C11) Accepted arms are reachable.  When every named type has a value and no enum is empty, each arm
  of an accepted match is selected by some value of the source type: \<open>bind_patterns\<close> reports every
  unreachable arm.
\<close>

theorem match_arms_reachable:
  assumes "bind_patterns c ty patterns = Ok (arms, binds)"
    and "types_ok c" and "type_ok c ty" and "inhabited_catalog c" and "enums_nonempty ty"
    and "i < length arms"
  shows "\<exists>v. has_type c ty v \<and> match_bindings v (arms ! i) \<noteq> None \<and> (\<forall>j < i. match_bindings v (arms ! j) = None)"
  using assms by (rule reachable_arm)

lemma example_catalog_inhabited: "inhabited_catalog example_catalog"
proof -
  have ok: "\<forall>d \<in> set (bt_values (types example_catalog)). enums_nonempty (def_ty d)"
    "has_type example_catalog (TRef 1) (VNamed 1 (VRecord [(''x'', VInt 3), (''y'', VFloat 0)]))"
    "has_type example_catalog (TRef 4) example_shape_coerced"
    "\<forall>d \<in> set (bt_values (types example_catalog)). def_id d \<in> {1, 4}"
    by code_simp+
  have "inhabited example_catalog (TRef (def_id d))" if "d \<in> set (bt_values (types example_catalog))" for d
    using bspec [OF ok(4) that] ok(2,3) by (auto simp: inhabited_def simp del: has_type_simps)
  with ok(1) show ?thesis by (simp add: inhabited_catalog_def)
qed

theorem match_arms_reachable_witness:
  "\<exists>arms binds. bind_patterns example_catalog (TOption (TRef 4)) example_patterns = Ok (arms, binds) \<and> length arms = 3 \<and>
     (\<exists>v. has_type example_catalog (TOption (TRef 4)) v \<and> match_bindings v (arms ! 2) \<noteq> None \<and>
        (\<forall>j < 2. match_bindings v (arms ! j) = None))"
proof -
  obtain arms binds where b: "bind_patterns example_catalog (TOption (TRef 4)) example_patterns = Ok (arms, binds)"
    using example_patterns_bound by (auto simp: is_ok_iff)
  have "map_ok (\<lambda>r. length (fst r)) (bind_patterns example_catalog (TOption (TRef 4)) example_patterns) = Ok 3" by code_simp
  with b have len: "length arms = 3" by simp
  have "type_ok example_catalog (TOption (TRef 4))" "enums_nonempty (TOption (TRef 4))" by code_simp+
  from match_arms_reachable [OF b example_catalog_ok this(1) example_catalog_inhabited this(2), of 2] b len show ?thesis by auto
qed

end
